(* ===== verification/Mosura_Prelude.thy ===== *)
theory Mosura_Prelude
  imports Main "HOL-Library.Word"
begin

text \<open>
  The shared vocabulary of the development: the machine integer types of the Rust sources, the
  standard-library operations they use (\<^verbatim>\<open>checked_add\<close>, \<^verbatim>\<open>partition_point\<close>, shifts whose count is
  taken modulo the width), the fact collections the component theories extend, and the generic
  lemmas on lists and words they share.

  Integers are kept at their width.  Unchecked \<^verbatim>\<open>+\<close>, \<^verbatim>\<open>-\<close> and \<^verbatim>\<open>*\<close> on unsigned integers are the
  wrapping operations of the release profile, and an unchecked shift takes its count modulo 64, as
  the release profile does.
\<close>

unbundle bit_operations_syntax

type_synonym u8 = "8 word"
type_synonym u16 = "16 word"
type_synonym u32 = "32 word"
type_synonym u64 = "64 word"

named_theorems range_set_simps \<open>facts about the address sets denoted by range lists\<close>
named_theorems mask_simps \<open>facts about byte-width masks\<close>
named_theorems machine_simps \<open>reads and writes of the emulated machine\<close>
named_theorems sched_simps \<open>projections of the analysis scheduler\<close>

subsection \<open>Standard-library operations\<close>

definition checked_add64 :: "u64 \<Rightarrow> u64 \<Rightarrow> u64 option" where
  "checked_add64 a b = (if unat a + unat b < 2 ^ 64 then Some (a + b) else None)"

text \<open>\<^verbatim>\<open>slice::partition_point\<close>, on a slice the predicate partitions.\<close>

definition partition_point :: "('a \<Rightarrow> bool) \<Rightarrow> 'a list \<Rightarrow> nat" where
  "partition_point P xs = length (takeWhile P xs)"

text \<open>\<^verbatim>\<open>x << n\<close> and \<^verbatim>\<open>x >> n\<close> on \<^verbatim>\<open>u64\<close> in the release profile; also \<^verbatim>\<open>wrapping_shl\<close>, \<^verbatim>\<open>wrapping_shr\<close>.\<close>

definition shl64 :: "u64 \<Rightarrow> nat \<Rightarrow> u64" where
  "shl64 x n = push_bit (n mod 64) x"

definition shr64 :: "u64 \<Rightarrow> nat \<Rightarrow> u64" where
  "shr64 x n = drop_bit (n mod 64) x"

text \<open>\<^verbatim>\<open>x >> n\<close> on \<^verbatim>\<open>i64\<close>: the arithmetic shift, count modulo 64.\<close>

definition sar64 :: "u64 \<Rightarrow> nat \<Rightarrow> u64" where
  "sar64 x n = signed_drop_bit (n mod 64) x"

subsection \<open>Words as numbers\<close>

lemma u64_less_iff_unat: "(a :: u64) < b \<longleftrightarrow> unat a < unat b"
  by (rule word_less_nat_alt)

lemma u64_le_iff_unat: "(a :: u64) \<le> b \<longleftrightarrow> unat a \<le> unat b"
  by (rule word_le_nat_alt)

lemma unat_u64_bound: "unat (a :: u64) < 18446744073709551616"
  using unsigned_less [of a] by simp

lemma checked_add64_one: "checked_add64 a 1 = Some b \<longleftrightarrow> unat b = unat a + 1"
proof
  assume "checked_add64 a 1 = Some b"
  then have "unat a + 1 < 2 ^ 64" and "b = a + 1"
    by (auto simp: checked_add64_def split: if_splits)
  then show "unat b = unat a + 1"
    by (simp add: unat_word_ariths)
next
  assume eq: "unat b = unat a + 1"
  then have lt: "unat a + 1 < 2 ^ 64"
    using unat_u64_bound [of b] by simp
  with eq have "b = a + 1"
    by (simp add: word_unat_eq_iff unat_word_ariths)
  with lt show "checked_add64 a 1 = Some b"
    by (simp add: checked_add64_def)
qed

lemma unat_pred_u64: "(y :: u64) < x \<Longrightarrow> unat (x - 1) = unat x - 1"
  by (subst unat_sub) (auto simp: word_le_nat_alt word_less_nat_alt)

lemma unat_succ_u64: "(x :: u64) < y \<Longrightarrow> unat (x + 1) = unat x + 1"
  using unat_u64_bound [of y] by (simp add: unat_word_ariths word_less_nat_alt)

lemma unat_max_u64: "unat (max a b :: u64) = max (unat a) (unat b)"
  by (simp add: max_def word_le_nat_alt)

lemma unat_min_u64: "unat (min a b :: u64) = min (unat a) (unat b)"
  by (simp add: min_def word_le_nat_alt)

subsection \<open>Lists\<close>

lemma take_partition_point: "take (partition_point P xs) xs = takeWhile P xs"
  unfolding partition_point_def by (metis takeWhile_eq_take)

lemma drop_partition_point: "drop (partition_point P xs) xs = dropWhile P xs"
  unfolding partition_point_def by (metis dropWhile_eq_drop)

lemma partition_point_le: "partition_point P xs \<le> length xs"
  by (simp add: partition_point_def length_takeWhile_le)

lemma sorted_wrt_dropWhile:
  "sorted_wrt R xs \<Longrightarrow> sorted_wrt R (dropWhile P xs)"
  by (metis sorted_wrt_drop dropWhile_eq_drop)

lemma sorted_wrt_takeWhile:
  "sorted_wrt R xs \<Longrightarrow> sorted_wrt R (takeWhile P xs)"
  by (metis sorted_wrt_take takeWhile_eq_take)


subsection \<open>Ordered maps\<close>

text \<open>
  A \<^verbatim>\<open>BTreeMap\<close> as its entries in key order: \<^verbatim>\<open>insert\<close> replaces an equal key, \<^verbatim>\<open>remove\<close> drops it,
  \<^verbatim>\<open>first_key_value\<close> is the entry of the least key.  \<open>lt\<close> is the key order.
\<close>

fun btree_insert :: "('k \<Rightarrow> 'k \<Rightarrow> bool) \<Rightarrow> 'k \<Rightarrow> 'v \<Rightarrow> ('k \<times> 'v) list \<Rightarrow> ('k \<times> 'v) list" where
  "btree_insert lt k v [] = [(k, v)]"
| "btree_insert lt k v ((k', v') # m) =
     (if lt k k' then (k, v) # (k', v') # m
      else if k = k' then (k, v) # m
      else (k', v') # btree_insert lt k v m)"

definition btree_remove :: "'k \<Rightarrow> ('k \<times> 'v) list \<Rightarrow> ('k \<times> 'v) list" where
  "btree_remove k m = filter (\<lambda>e. fst e \<noteq> k) m"

definition btree_first :: "('k \<times> 'v) list \<Rightarrow> ('k \<times> 'v) option" where
  "btree_first m = (case m of [] \<Rightarrow> None | e # _ \<Rightarrow> Some e)"

definition btree_sorted :: "('k \<Rightarrow> 'k \<Rightarrow> bool) \<Rightarrow> ('k \<times> 'v) list \<Rightarrow> bool" where
  "btree_sorted lt m \<longleftrightarrow> sorted_wrt (\<lambda>a b. lt (fst a) (fst b)) m"

text \<open>The laws of a key order, and what the ordered map guarantees under them.\<close>

locale key_order =
  fixes lt :: "'k \<Rightarrow> 'k \<Rightarrow> bool"
  assumes irrefl: "\<not> lt a a"
    and trans: "lt a b \<Longrightarrow> lt b c \<Longrightarrow> lt a c"
    and total: "lt a b \<or> a = b \<or> lt b a"
begin

lemma set_insert:
  "btree_sorted lt m \<Longrightarrow> set (btree_insert lt k v m) = insert (k, v) {e \<in> set m. fst e \<noteq> k}"
proof (induction m)
  case (Cons e m)
  have later: "lt (fst e) (fst x)" if "x \<in> set m" for x
    using Cons.prems that by (simp add: btree_sorted_def)
  have "fst x \<noteq> k" if "lt k (fst e) \<or> k = fst e" "x \<in> set m" for x
    using that later [OF that(2)] irrefl trans by metis
  moreover have "btree_sorted lt m" using Cons.prems by (simp add: btree_sorted_def)
  ultimately show ?case
    using Cons.IH irrefl [of k] by (cases e) auto
qed simp

lemma sorted_insert:
  "btree_sorted lt m \<Longrightarrow> btree_sorted lt (btree_insert lt k v m)"
proof (induction m)
  case (Cons e m)
  then show ?case
    using trans total set_insert [of m k v]
    by (cases e) (fastforce simp: btree_sorted_def)
qed (simp add: btree_sorted_def)

lemma insert_fresh_mset:
  "k \<notin> fst ` set m \<Longrightarrow> count_list (map snd (btree_insert lt k v m)) c
     = count_list (map snd m) c + (if v = c then 1 else 0)"
  by (induction m) auto

lemma sorted_remove: "btree_sorted lt m \<Longrightarrow> btree_sorted lt (btree_remove k m)"
  by (simp add: btree_sorted_def btree_remove_def sorted_wrt_filter)

lemma remove_first:
  assumes "btree_sorted lt ((k, v) # m)" shows "btree_remove k ((k, v) # m) = m"
  using assms irrefl by (force simp: btree_sorted_def btree_remove_def filter_id_conv)

lemma first_least:
  assumes "btree_sorted lt m" "btree_first m = Some (k, v)" "e \<in> set m"
  shows "e = (k, v) \<or> lt k (fst e)"
  using assms by (cases m) (auto simp: btree_sorted_def btree_first_def)

end

end
