(* ===== verification/Address_Set.thy ===== *)
theory Address_Set
  imports Mosura_Prelude
begin

text \<open>
  \<^verbatim>\<open>analysis/program/address_set.rs\<close>: inclusive address ranges within one space and the canonical,
  coalesced lists of them that every analyzer works on.  The set a list denotes is
  \<open>addrs\<close>; \<open>canonical\<close> is the representation invariant (sorted by space and start, pairwise
  neither overlapping nor adjacent).  The lemmas show that every operation keeps the invariant and
  computes the set operation of its name.
\<close>

subsection \<open>Addresses, ranges, sets\<close>

type_synonym space_id = u32

record address =
  addr_space :: space_id
  addr_offset :: u64

record address_range =
  space :: space_id
  min_off :: u64
  max_off :: u64

type_synonym address_set = "address_range list"

definition range_new :: "space_id \<Rightarrow> u64 \<Rightarrow> u64 \<Rightarrow> address_range" where
  "range_new s lo hi = \<lparr>space = s, min_off = lo, max_off = hi\<rparr>"

definition range_length :: "address_range \<Rightarrow> u64" where
  "range_length r = max_off r - min_off r + 1"

definition contains_offset :: "address_range \<Rightarrow> u64 \<Rightarrow> bool" where
  "contains_offset r off \<longleftrightarrow> min_off r \<le> off \<and> off \<le> max_off r"

definition touches_or_overlaps :: "address_range \<Rightarrow> address_range \<Rightarrow> bool" where
  "touches_or_overlaps a b =
     (let a_then_b = max_off a < min_off b \<and> checked_add64 (max_off a) 1 = Some (min_off b);
          b_then_a = max_off b < min_off a \<and> checked_add64 (max_off b) 1 = Some (min_off a);
          overlap = min_off a \<le> max_off b \<and> min_off b \<le> max_off a
      in overlap \<or> a_then_b \<or> b_then_a)"

text \<open>The sort key \<open>(space, min)\<close> and its lexicographic comparison.\<close>

definition key_lt :: "space_id \<times> u64 \<Rightarrow> space_id \<times> u64 \<Rightarrow> bool" where
  "key_lt p q \<longleftrightarrow> fst p < fst q \<or> fst p = fst q \<and> snd p < snd q"

definition key :: "address_range \<Rightarrow> space_id \<times> u64" where
  "key r = (space r, min_off r)"

definition set_new :: address_set where
  "set_new = []"

definition set_is_empty :: "address_set \<Rightarrow> bool" where
  "set_is_empty S \<longleftrightarrow> S = []"

definition num_addresses :: "address_set \<Rightarrow> u64" where
  "num_addresses S = sum_list (map range_length S)"

definition min_address :: "address_set \<Rightarrow> address option" where
  "min_address S =
     (case S of [] \<Rightarrow> None | r # _ \<Rightarrow> Some \<lparr>addr_space = space r, addr_offset = min_off r\<rparr>)"

definition max_address :: "address_set \<Rightarrow> address option" where
  "max_address S =
     (if S = [] then None
      else Some \<lparr>addr_space = space (last S), addr_offset = max_off (last S)\<rparr>)"

definition set_contains :: "address_set \<Rightarrow> address \<Rightarrow> bool" where
  "set_contains S a \<longleftrightarrow>
     list_ex (\<lambda>r. space r = addr_space a \<and> contains_offset r (addr_offset a)) S"

text \<open>
  The absorbing loop of \<open>add_range\<close>: from index \<open>hi\<close> on, ranges that touch the growing new range
  are merged into it.  It returns the grown range and how many ranges it absorbed.
\<close>

fun absorb :: "space_id \<Rightarrow> address_range \<Rightarrow> address_range list \<Rightarrow> address_range \<times> nat" where
  "absorb s new [] = (new, 0)"
| "absorb s new (r # rs) =
     (if space r \<noteq> s \<or> \<not> touches_or_overlaps r new then (new, 0)
      else let (new', n) = absorb s (new\<lparr>min_off := min (min_off new) (min_off r),
                                          max_off := max (max_off new) (max_off r)\<rparr>) rs
           in (new', Suc n))"

definition add_range :: "address_set \<Rightarrow> space_id \<Rightarrow> u64 \<Rightarrow> u64 \<Rightarrow> address_set" where
  "add_range S s lo_off hi_off =
     (let new = \<lparr>space = s, min_off = lo_off, max_off = hi_off\<rparr>;
          lo0 = partition_point (\<lambda>r. key_lt (key r) (s, lo_off)) S;
          lo = (if lo0 > 0 \<and> space (S ! (lo0 - 1)) = s \<and> touches_or_overlaps (S ! (lo0 - 1)) new
                then lo0 - 1 else lo0);
          (new', n) = absorb s new (drop lo S);
          hi = lo + n
      in take lo S @ [new'] @ drop hi S)"

definition set_add :: "address_set \<Rightarrow> address \<Rightarrow> address_set" where
  "set_add S a = add_range S (addr_space a) (addr_offset a) (addr_offset a)"

definition set_extend :: "address_set \<Rightarrow> address_set \<Rightarrow> address_set" where
  "set_extend S T = fold (\<lambda>r acc. add_range acc (space r) (min_off r) (max_off r)) T S"

definition set_union :: "address_set \<Rightarrow> address_set \<Rightarrow> address_set" where
  "set_union S T = (let out = S in fold (\<lambda>r acc. add_range acc (space r) (min_off r) (max_off r)) T out)"

definition intersect_step :: "address_range \<Rightarrow> address_range \<Rightarrow> address_set \<Rightarrow> address_set" where
  "intersect_step a b out =
     (if space a \<noteq> space b then out
      else let lo = max (min_off a) (min_off b); hi = min (max_off a) (max_off b)
           in if lo \<le> hi then add_range out (space a) lo hi else out)"

definition set_intersect :: "address_set \<Rightarrow> address_set \<Rightarrow> address_set" where
  "set_intersect S T = fold (\<lambda>a out. fold (intersect_step a) T out) S set_new"

fun set_intersects :: "address_set \<Rightarrow> address_set \<Rightarrow> bool" where
  "set_intersects [] bs = False"
| "set_intersects (a # as) [] = False"
| "set_intersects (a # as) (b # bs) =
     (if key_lt (space a, max_off a) (space b, min_off b) then set_intersects as (b # bs)
      else if key_lt (space b, max_off b) (space a, min_off a) then set_intersects (a # as) bs
      else True)"

text \<open>
  The inner loop of \<open>subtract\<close> over the cutters of one range \<open>a\<close>: \<open>cur\<close> is the next uncovered
  offset, and the loop stops (\<^verbatim>\<open>covered_to_end\<close>) once a cutter reaches the end of \<open>a\<close>.
\<close>

fun subtract_loop :: "address_range \<Rightarrow> address_range list \<Rightarrow> u64 \<Rightarrow> address_set \<Rightarrow> address_set" where
  "subtract_loop a [] cur out = (if cur \<le> max_off a then add_range out (space a) cur (max_off a) else out)"
| "subtract_loop a (b # bs) cur out =
     (let bmin = max (min_off b) (min_off a);
          bmax = min (max_off b) (max_off a);
          out' = (if bmin > cur then add_range out (space a) cur (bmin - 1) else out)
      in if bmax \<ge> max_off a then out'
         else subtract_loop a bs (max cur (bmax + 1)) out')"

definition cutters :: "address_range \<Rightarrow> address_set \<Rightarrow> address_range list" where
  "cutters a T =
     sort_key min_off (filter (\<lambda>b. space b = space a \<and> max_off b \<ge> min_off a \<and> min_off b \<le> max_off a) T)"

definition set_subtract :: "address_set \<Rightarrow> address_set \<Rightarrow> address_set" where
  "set_subtract S T = fold (\<lambda>a out. subtract_loop a (cutters a T) (min_off a) out) S set_new"

definition set_xor :: "address_set \<Rightarrow> address_set \<Rightarrow> address_set" where
  "set_xor S T = set_union (set_subtract S T) (set_subtract T S)"

definition has_same_addresses :: "address_set \<Rightarrow> address_set \<Rightarrow> bool" where
  "has_same_addresses S T \<longleftrightarrow> S = T"


subsection \<open>The denoted set and the representation invariant\<close>

definition range_addrs :: "address_range \<Rightarrow> address set" where
  "range_addrs r = {a. addr_space a = space r \<and> contains_offset r (addr_offset a)}"

definition addrs :: "address_set \<Rightarrow> address set" where
  "addrs S = (\<Union>r \<in> set S. range_addrs r)"

definition gap :: "address_range \<Rightarrow> address_range \<Rightarrow> bool" where
  "gap a b \<longleftrightarrow> space a < space b \<or> space a = space b \<and> unat (max_off a) + 1 < unat (min_off b)"

definition proper :: "address_range \<Rightarrow> bool" where
  "proper r \<longleftrightarrow> min_off r \<le> max_off r"

definition canonical :: "address_set \<Rightarrow> bool" where
  "canonical S \<longleftrightarrow> list_all proper S \<and> sorted_wrt gap S"

lemmas offset_defs = contains_offset_def proper_def u64_le_iff_unat u64_less_iff_unat

lemma addrs_Nil [simp]: "addrs [] = {}"
  by (simp add: addrs_def)

lemma addrs_Cons [simp]: "addrs (r # S) = range_addrs r \<union> addrs S"
  by (simp add: addrs_def)

lemma addrs_append [simp]: "addrs (S @ T) = addrs S \<union> addrs T"
  by (simp add: addrs_def)

lemma canonical_Nil [simp]: "canonical []"
  by (simp add: canonical_def)

lemma canonical_Cons:
  "canonical (r # S) \<longleftrightarrow> proper r \<and> (\<forall>x \<in> set S. gap r x) \<and> canonical S"
  by (auto simp: canonical_def)

lemma canonical_append:
  "canonical (S @ T) \<longleftrightarrow> canonical S \<and> canonical T \<and> (\<forall>x \<in> set S. \<forall>y \<in> set T. gap x y)"
  by (auto simp: canonical_def sorted_wrt_append)

lemma canonical_take: "canonical S \<Longrightarrow> canonical (take n S)"
  by (simp add: canonical_def sorted_wrt_take list_all_iff) (meson in_set_takeD)

lemma canonical_drop: "canonical S \<Longrightarrow> canonical (drop n S)"
  by (simp add: canonical_def sorted_wrt_drop list_all_iff) (meson in_set_dropD)

lemma gap_trans: "gap a b \<Longrightarrow> proper b \<Longrightarrow> gap b c \<Longrightarrow> gap a c"
  by (auto simp: gap_def offset_defs)

text \<open>Whether a range lies before another depends only on the other's key.\<close>

lemma gap_key_mono:
  "gap a b \<Longrightarrow> \<not> key_lt (key c) (key b) \<Longrightarrow> gap a c"
  by (auto simp: gap_def key_def key_lt_def offset_defs)

lemma gap_imp_key_less: "gap a b \<Longrightarrow> proper a \<Longrightarrow> key_lt (key a) (key b)"
  by (auto simp: gap_def key_def key_lt_def offset_defs)

lemma touches_iff:
  assumes "proper a" "proper b" "space a = space b"
  shows "touches_or_overlaps a b \<longleftrightarrow> \<not> gap a b \<and> \<not> gap b a"
  using assms
  by (auto simp: touches_or_overlaps_def gap_def checked_add64_one offset_defs)

lemma range_addrs_merge:
  assumes "proper a" "proper b" "space a = space b" "touches_or_overlaps a b"
  shows "range_addrs (b\<lparr>min_off := min (min_off b) (min_off a), max_off := max (max_off b) (max_off a)\<rparr>)
    = range_addrs a \<union> range_addrs b"
  using assms
  by (auto simp: range_addrs_def touches_iff gap_def offset_defs unat_min_u64 unat_max_u64)

subsection \<open>Adding a range\<close>

lemma absorb_props:
  assumes "canonical rs" "space new = s" "proper new" "\<forall>r \<in> set rs. \<not> gap r new"
    and "absorb s new rs = (new', n)"
  shows "proper new' \<and> space new' = s \<and> n \<le> length rs
    \<and> range_addrs new' = range_addrs new \<union> addrs (take n rs)
    \<and> (\<forall>r \<in> set (drop n rs). gap new' r)
    \<and> key new' \<in> insert (key new) (key ` set (take n rs))"
  using assms
proof (induction s new rs arbitrary: n rule: absorb.induct)
  case (1 s new)
  then show ?case by simp
next
  case (2 s new r rs)
  let ?grown = "new\<lparr>min_off := min (min_off new) (min_off r), max_off := max (max_off new) (max_off r)\<rparr>"
  have r: "proper r" "canonical rs" "\<forall>x \<in> set rs. gap r x" "\<not> gap r new"
    using "2.prems" by (auto simp: canonical_Cons)
  show ?case
  proof (cases "space r \<noteq> s \<or> \<not> touches_or_overlaps r new")
    case True
    then have "gap new r"
      using "2.prems" r touches_iff [of r new] by (auto simp: gap_def)
    then show ?thesis
      using True "2.prems" r gap_trans by (auto simp: canonical_Cons)
  next
    case False
    then have touch: "touches_or_overlaps r new" and sp: "space r = s" by auto
    obtain m where m: "absorb s ?grown rs = (new', m)" "n = Suc m"
      using "2.prems"(5) False by (auto split: prod.splits)
    have wf: "proper ?grown"
      using "2.prems"(3) r(1) by (auto simp: offset_defs unat_min_u64 unat_max_u64)
    have ahead: "\<forall>x \<in> set rs. \<not> gap x ?grown"
      using "2.prems"(2,4) r sp
      by (fastforce simp: gap_def offset_defs unat_min_u64)
    have merged: "range_addrs ?grown = range_addrs r \<union> range_addrs new"
      using range_addrs_merge [OF r(1) "2.prems"(3)] touch sp "2.prems"(2) by simp
    have keys: "key ?grown \<in> {key new, key r}"
      using sp "2.prems"(2) by (auto simp: key_def min_def)
    from "2.IH" [OF False r(2) _ wf ahead m(1)] "2.prems"(2) show ?thesis
      using merged keys m(2) by auto
  qed
qed

lemma key_less_trans_gap:
  "gap a p \<Longrightarrow> key_lt (key p) (key new) \<Longrightarrow> gap a new"
  by (auto simp: gap_def key_def key_lt_def offset_defs)


text \<open>Where \<open>add_range\<close> cuts the list: everything before the cut lies strictly before the new
  range, nothing after it does.\<close>

lemma before_partition:
  assumes "canonical S" "r \<in> set (takeWhile (\<lambda>r. key_lt (key r) k) S)"
  shows "key_lt (key r) k"
  using assms(2) by (rule set_takeWhileD [THEN conjunct2])

lemma after_partition:
  assumes "canonical S" "r \<in> set (dropWhile (\<lambda>r. key_lt (key r) k) S)"
  shows "\<not> key_lt (key r) k"
proof -
  obtain h t where ht: "dropWhile (\<lambda>r. key_lt (key r) k) S = h # t"
    using assms(2) by (cases "dropWhile (\<lambda>r. key_lt (key r) k) S") auto
  have h: "\<not> key_lt (key h) k"
    using ht by (simp add: dropWhile_eq_Cons_conv)
  have "canonical (h # t)"
    using assms(1) canonical_drop [of S] dropWhile_eq_drop [of _ S] ht by metis
  then have "r = h \<or> key_lt (key h) (key r)"
    using assms(2) ht gap_imp_key_less by (auto simp: canonical_Cons)
  with h show ?thesis
    by (auto simp: key_lt_def)
qed

lemma take_before_last:
  assumes "canonical (A @ [p])" "key_lt (key p) (key new)" "a \<in> set A"
  shows "gap a new"
  using assms key_less_trans_gap by (auto simp: canonical_append)

lemma key_lt_not_touching:
  assumes "proper p" "proper new" "key_lt (key p) (key new)"
    and "\<not> (space p = space new \<and> touches_or_overlaps p new)"
  shows "gap p new"
  using assms touches_iff [of p new]
  by (cases "space p = space new") (auto simp: gap_def key_def key_lt_def offset_defs)

definition cut_index :: "address_set \<Rightarrow> address_range \<Rightarrow> nat" where
  "cut_index S new =
     (let lo0 = partition_point (\<lambda>r. key_lt (key r) (key new)) S
      in if lo0 > 0 \<and> space (S ! (lo0 - 1)) = space new \<and> touches_or_overlaps (S ! (lo0 - 1)) new
         then lo0 - 1 else lo0)"

lemma cut_index_split:
  assumes can: "canonical S" and wf: "proper new"
  shows "(\<forall>a \<in> set (take (cut_index S new) S). gap a new)
    \<and> (\<forall>b \<in> set (drop (cut_index S new) S). \<not> gap b new)"
proof -
  let ?P = "\<lambda>r. key_lt (key r) (key new)"
  let ?n = "partition_point ?P S"
  have can': "canonical (take ?n S)" by (rule canonical_take [OF can])
  have prop_all: "\<forall>r \<in> set S. proper r"
    using can by (simp add: canonical_def list_all_iff)
  have behind: "\<not> gap b new" if "b \<in> set (dropWhile ?P S)" for b
    using after_partition [OF can that] gap_imp_key_less prop_all that set_dropWhileD by fast
  show ?thesis
  proof (cases "?n = 0")
    case True
    then have "cut_index S new = 0" by (simp add: cut_index_def)
    then show ?thesis
      using behind True drop_partition_point [of ?P S] by simp
  next
    case False
    then have n: "0 < ?n" "?n \<le> length S" using partition_point_le by auto
    let ?p = "S ! (?n - 1)"
    have split_p: "take ?n S = take (?n - 1) S @ [?p]"
      using n take_Suc_conv_app_nth [of "?n - 1" S] by simp
    have pP: "key_lt (key ?p) (key new)"
      using split_p before_partition [OF can, of ?p "key new"] take_partition_point [of ?P S] by simp
    have pS: "proper ?p" using prop_all n nth_mem [of "?n - 1" S] by simp
    have early: "gap a new" if "a \<in> set (take (?n - 1) S)" for a
      using take_before_last [OF _ pP that] can' split_p by simp
    show ?thesis
    proof (cases "space ?p = space new \<and> touches_or_overlaps ?p new")
      case True
      then have cut: "cut_index S new = ?n - 1" using n by (simp add: cut_index_def)
      have dr: "drop (?n - 1) S = ?p # drop ?n S"
        using n Cons_nth_drop_Suc [of "?n - 1" S] by simp
      have "\<not> gap ?p new" using True touches_iff [OF pS wf] by simp
      then show ?thesis
        using cut dr early behind drop_partition_point [of ?P S] by auto
    next
      case False
      then have cut: "cut_index S new = ?n" using n by (auto simp: cut_index_def)
      have "gap ?p new"
        using key_lt_not_touching [OF pS wf pP False] .
      then show ?thesis
        using cut split_p early behind drop_partition_point [of ?P S] by auto
    qed
  qed
qed

lemma add_range_split:
  assumes can: "canonical S" and wf: "lo \<le> hi"
  obtains A B C new' where "S = A @ B @ C" "add_range S s lo hi = A @ [new'] @ C"
    "canonical (A @ [new'] @ C)"
    "range_addrs new' = range_addrs (range_new s lo hi) \<union> addrs B"
proof -
  let ?new = "range_new s lo hi"
  let ?k = "cut_index S ?new"
  have wf': "proper ?new" using wf by (simp add: proper_def range_new_def)
  obtain new' n where ab: "absorb s ?new (drop ?k S) = (new', n)" by fastforce
  note cut = cut_index_split [OF can wf']
  have pr: "proper new'" "n \<le> length (drop ?k S)" "space new' = s"
    and un: "range_addrs new' = range_addrs ?new \<union> addrs (take n (drop ?k S))"
    and after: "\<forall>r \<in> set (drop n (drop ?k S)). gap new' r"
    and keys: "key new' \<in> insert (key ?new) (key ` set (take n (drop ?k S)))"
    using absorb_props [OF canonical_drop [OF can] _ wf' _ ab] cut by (auto simp: range_new_def)
  let ?A = "take ?k S" and ?B = "take n (drop ?k S)" and ?C = "drop n (drop ?k S)"
  have S: "S = ?A @ ?B @ ?C" by (simp only: append_take_drop_id)
  have canS: "canonical (?A @ ?B @ ?C)" using can S by metis
  have before: "gap a new'" if a: "a \<in> set ?A" for a
  proof -
    have "gap a ?new" using cut a by blast
    moreover have "gap a b" if "b \<in> set ?B" for b
      using canS a that by (auto simp only: canonical_append Un_iff set_append)
    ultimately obtain b where "gap a b" "key new' = key b"
      using keys by auto
    then show ?thesis using gap_key_mono [of a b new'] by (auto simp: key_lt_def)
  qed
  have "canonical (?A @ [new'] @ ?C)"
    using canS before after pr by (auto simp: canonical_append canonical_Cons)
  moreover have "add_range S s lo hi = ?A @ [new'] @ ?C"
    using ab by (simp add: add_range_def cut_index_def range_new_def key_def Let_def add.commute)
  ultimately show thesis using that S un by blast
qed

lemma add_range_canonical:
  assumes "canonical S" "lo \<le> hi" shows "canonical (add_range S s lo hi)"
  by (rule add_range_split [OF assms, of s]) simp

lemma addrs_add_range:
  assumes "canonical S" "lo \<le> hi"
  shows "addrs (add_range S s lo hi) = addrs S \<union> range_addrs (range_new s lo hi)"
  by (rule add_range_split [OF assms, of s]) auto


subsection \<open>Union, intersection, difference\<close>

lemma fold_canonical_step:
  assumes "canonical S" "\<forall>r \<in> set T. \<forall>acc. canonical acc \<longrightarrow>
      canonical (f r acc) \<and> addrs (f r acc) = addrs acc \<union> g r"
  shows "canonical (fold f T S) \<and> addrs (fold f T S) = addrs S \<union> (\<Union>r \<in> set T. g r)"
  using assms
proof (induction T arbitrary: S)
  case Nil
  then show ?case by simp
next
  case (Cons r T)
  then have "canonical (f r S)" "addrs (f r S) = addrs S \<union> g r" by auto
  then show ?case using Cons by auto
qed

lemma canonical_proper: "canonical S \<Longrightarrow> r \<in> set S \<Longrightarrow> min_off r \<le> max_off r"
  by (auto simp: canonical_def list_all_iff proper_def)

lemma range_addrs_range_new [simp]:
  "range_addrs (range_new (space r) (min_off r) (max_off r)) = range_addrs r"
  by (simp add: range_addrs_def range_new_def contains_offset_def)

lemma set_union_spec:
  assumes "canonical S" "canonical T"
  shows "canonical (set_union S T) \<and> addrs (set_union S T) = addrs S \<union> addrs T"
  unfolding set_union_def Let_def addrs_def [of T]
  using assms
  by (intro fold_canonical_step)
    (auto simp: add_range_canonical addrs_add_range canonical_proper)

lemma set_extend_eq_union: "set_extend S T = set_union S T"
  by (simp add: set_extend_def set_union_def)

lemma range_addrs_Int:
  "range_addrs a \<inter> range_addrs b =
     (if space a = space b
      then range_addrs (range_new (space a) (max (min_off a) (min_off b)) (min (max_off a) (max_off b)))
      else {})"
  by (auto simp: range_addrs_def range_new_def contains_offset_def)

lemma range_addrs_empty: "hi < lo \<Longrightarrow> range_addrs (range_new s lo hi) = {}"
  by (auto simp: range_addrs_def range_new_def contains_offset_def)

lemma intersect_step_spec:
  assumes "canonical out"
  shows "canonical (intersect_step a b out)
    \<and> addrs (intersect_step a b out) = addrs out \<union> (range_addrs a \<inter> range_addrs b)"
  using assms range_addrs_empty [of "min (max_off a) (max_off b)" "max (min_off a) (min_off b)" "space a"]
  by (auto simp: intersect_step_def Let_def range_addrs_Int add_range_canonical addrs_add_range
      simp del: max_less_iff_conj min_less_iff_conj max.bounded_iff min.bounded_iff)

lemma set_intersect_spec:
  "canonical (set_intersect S T) \<and> addrs (set_intersect S T) = addrs S \<inter> addrs T"
proof -
  have inner: "canonical (fold (intersect_step a) T out)
      \<and> addrs (fold (intersect_step a) T out) = addrs out \<union> (\<Union>b \<in> set T. range_addrs a \<inter> range_addrs b)"
    if "canonical out" for a out
    using that by (intro fold_canonical_step) (simp_all add: intersect_step_spec)
  have "canonical (fold (\<lambda>a out. fold (intersect_step a) T out) S [])
      \<and> addrs (fold (\<lambda>a out. fold (intersect_step a) T out) S [])
        = addrs [] \<union> (\<Union>a \<in> set S. \<Union>b \<in> set T. range_addrs a \<inter> range_addrs b)"
    using inner by (intro fold_canonical_step) simp_all
  then show ?thesis
    by (auto simp: set_intersect_def set_new_def addrs_def)
qed

lemma key_lt_disjoint:
  assumes "key_lt (space a, max_off a) (space b, min_off b)" "gap b c \<or> b = c" "proper b"
  shows "range_addrs a \<inter> range_addrs c = {}"
  using assms by (auto simp: key_lt_def range_addrs_def gap_def offset_defs)

lemma set_intersects_spec:
  assumes "canonical S" "canonical T"
  shows "set_intersects S T \<longleftrightarrow> addrs S \<inter> addrs T \<noteq> {}"
  using assms
proof (induction S T rule: set_intersects.induct)
  case (3 a as b bs)
  have wf: "proper a" "proper b" "\<forall>x \<in> set as. gap a x" "\<forall>y \<in> set bs. gap b y"
    "canonical as" "canonical bs"
    using "3.prems" by (auto simp: canonical_Cons)
  show ?case
  proof (cases "key_lt (space a, max_off a) (space b, min_off b)")
    case True
    have "range_addrs a \<inter> addrs (b # bs) = {}"
      using key_lt_disjoint [OF True _ wf(2)] wf(4) by (auto simp: addrs_def)
    then show ?thesis using True "3.IH"(1) "3.prems" wf by auto
  next
    case na: False
    show ?thesis
    proof (cases "key_lt (space b, max_off b) (space a, min_off a)")
      case True
      have "range_addrs b \<inter> addrs (a # as) = {}"
        using key_lt_disjoint [OF True _ wf(1)] wf(3) by (auto simp: addrs_def)
      then show ?thesis using True na "3.IH"(2) "3.prems" wf by auto
    next
      case False
      have "\<lparr>addr_space = space a, addr_offset = max (min_off a) (min_off b)\<rparr>
          \<in> range_addrs a \<inter> range_addrs b"
        using na False wf
        by (auto simp: key_lt_def range_addrs_def offset_defs unat_max_u64)
      then show ?thesis using na False by auto
    qed
  qed
qed simp_all


text \<open>
  The loop of \<open>subtract\<close>: from the sorted cutters still to come it emits what remains of \<open>a\<close> from
  \<open>cur\<close> on.
\<close>

definition rest_of :: "address_range \<Rightarrow> u64 \<Rightarrow> address set" where
  "rest_of a cur = {x \<in> range_addrs a. cur \<le> addr_offset x}"

lemma cut_arith:
  fixes off :: nat
  assumes "later \<longrightarrow> bmin \<le> off" "bmax < amax"
  shows "(amin \<le> off \<and> off \<le> amax \<and> cur \<le> off \<and> off < max bmin amin)
      \<or> (amin \<le> off \<and> off \<le> amax \<and> max cur (bmax + 1) \<le> off \<and> \<not> later)
    \<longleftrightarrow> amin \<le> off \<and> off \<le> amax \<and> cur \<le> off \<and> \<not> (bmin \<le> off \<and> off \<le> bmax) \<and> \<not> later"
  using assms by (cases later) (auto simp: max_def)

lemma subtract_loop_spec:
  assumes "canonical out" "min_off a \<le> cur" "cur \<le> max_off a" "sorted (map min_off bs)"
    and "\<forall>b \<in> set bs. space b = space a \<and> min_off a \<le> max_off b \<and> min_off b \<le> max_off a"
  shows "canonical (subtract_loop a bs cur out)
    \<and> addrs (subtract_loop a bs cur out) = addrs out \<union> (rest_of a cur - addrs bs)"
  using assms
proof (induction bs arbitrary: cur out)
  case Nil
  then show ?case
    by (auto simp: add_range_canonical addrs_add_range rest_of_def range_addrs_def range_new_def
        contains_offset_def)
next
  case (Cons b bs)
  let ?bmin = "max (min_off b) (min_off a)" and ?bmax = "min (max_off b) (max_off a)"
  let ?out = "if ?bmin > cur then add_range out (space a) cur (?bmin - 1) else out"
  have b: "space b = space a" "min_off a \<le> max_off b" "min_off b \<le> max_off a"
    and later: "\<forall>x \<in> set bs. min_off b \<le> min_off x"
    using Cons.prems by auto
  have pred: "unat (?bmin - 1) = unat ?bmin - 1" if "?bmin > cur"
    using that by (rule unat_pred_u64)
  have out: "canonical ?out \<and> addrs ?out = addrs out \<union> {x \<in> rest_of a cur. addr_offset x < ?bmin}"
  proof (cases "?bmin > cur")
    case True
    then have le: "cur \<le> ?bmin - 1"
      using pred by (simp add: word_le_nat_alt word_less_nat_alt)
    have "range_addrs (range_new (space a) cur (?bmin - 1)) = {x \<in> rest_of a cur. addr_offset x < ?bmin}"
      using pred [OF True] True Cons.prems(2) b
      by (auto simp: range_addrs_def range_new_def rest_of_def offset_defs unat_max_u64)
    then show ?thesis
      using Cons.prems(1) le True by (simp add: add_range_canonical addrs_add_range)
  next
    case False
    then show ?thesis using Cons.prems(1) by (auto simp: rest_of_def)
  qed
  show ?case
  proof (cases "?bmax \<ge> max_off a")
    case True
    then have "{x \<in> rest_of a cur. addr_offset x < ?bmin} = rest_of a cur - addrs (b # bs)"
      using b later by (fastforce simp: rest_of_def range_addrs_def addrs_def offset_defs unat_max_u64)
    then show ?thesis using True out by (simp add: Let_def)
  next
    case False
    have succ: "unat (?bmax + 1) = unat ?bmax + 1"
      using False by (intro unat_succ_u64 [of _ "max_off a"]) (simp only: not_le)
    let ?cur = "max cur (?bmax + 1)"
    have cur: "min_off a \<le> ?cur" "?cur \<le> max_off a"
      using False Cons.prems succ by (auto simp: offset_defs unat_max_u64 unat_min_u64)
    have split: "{x \<in> rest_of a cur. addr_offset x < ?bmin} \<union> (rest_of a ?cur - addrs bs)
        = rest_of a cur - addrs (b # bs)"
    proof (rule set_eqI)
      fix x
      have "min_off b \<le> addr_offset x" if "x \<in> addrs bs"
        using that later by (force simp: addrs_def range_addrs_def contains_offset_def)
      then have late: "x \<in> addrs bs \<longrightarrow> unat (min_off b) \<le> unat (addr_offset x)"
        by (simp add: word_le_nat_alt)
      have "unat (max_off b) < unat (max_off a)"
        using False by (auto simp: word_less_nat_alt word_le_nat_alt min_def split: if_splits)
      note cut = cut_arith [OF late this, of "unat (min_off a)" "unat cur"]
      have "unat ?bmax = unat (max_off b)"
        using False by (simp add: min_def split: if_splits)
      with succ cut b(1)
      show "x \<in> {x \<in> rest_of a cur. addr_offset x < ?bmin} \<union> (rest_of a ?cur - addrs bs)
          \<longleftrightarrow> x \<in> rest_of a cur - addrs (b # bs)"
        by (simp add: rest_of_def range_addrs_def offset_defs unat_max_u64 del: max_less_iff_conj
            max.bounded_iff) metis
    qed
    have bs: "sorted (map min_off bs)"
      "\<forall>b \<in> set bs. space b = space a \<and> min_off a \<le> max_off b \<and> min_off b \<le> max_off a"
      using Cons.prems by simp_all
    have unfold: "subtract_loop a (b # bs) cur out = subtract_loop a bs ?cur ?out"
      using False by (simp only: subtract_loop.simps Let_def if_False)
    note IH = Cons.IH [OF conjunct1 [OF out] cur bs]
    show ?thesis
      unfolding unfold using IH
      by (simp only: conjunct2 [OF out] Un_assoc split simp_thms)
  qed
qed


lemma cutters_props:
  "sorted (map min_off (cutters a T))"
  "\<forall>b \<in> set (cutters a T). space b = space a \<and> min_off a \<le> max_off b \<and> min_off b \<le> max_off a"
  "range_addrs a - addrs (cutters a T) = range_addrs a - addrs T"
  by (simp_all add: cutters_def)
    (fastforce simp: addrs_def range_addrs_def contains_offset_def)

lemma subtract_range_spec:
  assumes "canonical out" "proper a"
  shows "canonical (subtract_loop a (cutters a T) (min_off a) out)
    \<and> addrs (subtract_loop a (cutters a T) (min_off a) out) = addrs out \<union> (range_addrs a - addrs T)"
proof -
  have "rest_of a (min_off a) = range_addrs a"
    by (auto simp: rest_of_def range_addrs_def contains_offset_def)
  then show ?thesis
    using subtract_loop_spec [OF assms(1) _ _ cutters_props(1,2), of a "min_off a" T] assms(2)
      cutters_props(3) [of a T] by (simp add: proper_def)
qed

lemma set_subtract_spec:
  assumes "canonical S"
  shows "canonical (set_subtract S T) \<and> addrs (set_subtract S T) = addrs S - addrs T"
proof -
  have "canonical (set_subtract S T)
      \<and> addrs (set_subtract S T) = addrs [] \<union> (\<Union>a \<in> set S. range_addrs a - addrs T)"
    unfolding set_subtract_def set_new_def
    using assms
    by (intro fold_canonical_step canonical_Nil ballI allI impI subtract_range_spec)
      (simp_all add: canonical_def list_all_iff)
  then show ?thesis by (auto simp: addrs_def)
qed

lemma set_xor_spec:
  assumes "canonical S" "canonical T"
  shows "canonical (set_xor S T)
    \<and> addrs (set_xor S T) = (addrs S - addrs T) \<union> (addrs T - addrs S)"
  using assms by (simp add: set_xor_def set_union_spec set_subtract_spec)

subsection \<open>Canonical forms are unique\<close>

lemma set_contains_iff: "set_contains S a \<longleftrightarrow> a \<in> addrs S"
  by (force simp: set_contains_def addrs_def range_addrs_def list_ex_iff)

lemma range_start_in: "proper r \<Longrightarrow> \<lparr>addr_space = space r, addr_offset = min_off r\<rparr> \<in> range_addrs r"
  and range_end_in: "proper r \<Longrightarrow> \<lparr>addr_space = space r, addr_offset = max_off r\<rparr> \<in> range_addrs r"
  by (auto simp: range_addrs_def contains_offset_def proper_def)

lemma addrs_after_first:
  assumes "canonical (r # S)" "x \<in> addrs S"
  shows "space r < addr_space x \<or> space r = addr_space x \<and> unat (max_off r) + 1 < unat (addr_offset x)"
  using assms
  by (fastforce simp: canonical_Cons addrs_def range_addrs_def gap_def offset_defs)

lemma first_start_least:
  assumes "canonical (r # S)" "x \<in> addrs (r # S)"
  shows "space r < addr_space x \<or> space r = addr_space x \<and> min_off r \<le> addr_offset x"
  using assms addrs_after_first [OF assms(1)]
  by (fastforce simp: canonical_Cons range_addrs_def offset_defs)

lemma first_end_maximal:
  assumes "canonical (r # S)" "max_off r < off"
    and "\<And>x. max_off r < x \<Longrightarrow> x \<le> off \<Longrightarrow> \<lparr>addr_space = space r, addr_offset = x\<rparr> \<in> addrs (r # S)"
  shows False
proof -
  have nxt: "unat (max_off r + 1) = unat (max_off r) + 1"
    using assms(2) by (rule unat_succ_u64)
  let ?x = "\<lparr>addr_space = space r, addr_offset = max_off r + 1\<rparr>"
  have "?x \<in> addrs (r # S)"
    using assms(2) nxt by (intro assms(3)) (simp_all add: offset_defs)
  moreover have "?x \<notin> range_addrs r" using nxt by (simp add: range_addrs_def offset_defs)
  ultimately show False
    using addrs_after_first [OF assms(1), of ?x] nxt by simp
qed

lemma first_range_le:
  assumes "canonical (r # S)" "canonical (q # T)" "addrs (r # S) = addrs (q # T)"
  shows "space q = space r \<and> min_off q = min_off r \<and> max_off q \<le> max_off r"
proof -
  have wf: "proper r" "proper q" using assms by (auto simp: canonical_Cons)
  have "\<lparr>addr_space = space q, addr_offset = min_off q\<rparr> \<in> addrs (r # S)"
    using range_start_in [OF wf(2)] assms(3) by simp
  note qr = first_start_least [OF assms(1) this]
  have "\<lparr>addr_space = space r, addr_offset = min_off r\<rparr> \<in> addrs (q # T)"
    using range_start_in [OF wf(1)] assms(3) [symmetric] by simp
  note rq = first_start_least [OF assms(2) this]
  have start: "space q = space r \<and> min_off q = min_off r"
    using qr rq by auto
  have "max_off q \<le> max_off r"
  proof (rule ccontr)
    assume "\<not> ?thesis"
    then have lt: "max_off r < max_off q" by simp
    show False
    proof (rule first_end_maximal [OF assms(1) lt])
      fix x assume "max_off r < x" "x \<le> max_off q"
      then have "\<lparr>addr_space = space r, addr_offset = x\<rparr> \<in> range_addrs q"
        using start wf by (auto simp: range_addrs_def contains_offset_def proper_def)
      then show "\<lparr>addr_space = space r, addr_offset = x\<rparr> \<in> addrs (r # S)"
        using assms(3) by simp
    qed
  qed
  with start show ?thesis by simp
qed

lemma addrs_empty_iff: "canonical S \<Longrightarrow> addrs S = {} \<longleftrightarrow> S = []"
  by (cases S) (auto simp: canonical_Cons dest: range_start_in)

lemma addrs_tail:
  assumes "canonical (r # S)" shows "addrs S = addrs (r # S) - range_addrs r"
  using addrs_after_first [OF assms] assms
  by (fastforce simp: range_addrs_def offset_defs)

lemma canonical_unique:
  "canonical S \<Longrightarrow> canonical T \<Longrightarrow> addrs S = addrs T \<Longrightarrow> S = T"
proof (induction S arbitrary: T)
  case Nil
  then show ?case using addrs_empty_iff [of T] by simp
next
  case (Cons r S)
  then obtain q T' where T: "T = q # T'"
    using addrs_empty_iff [of "r # S"] by (cases T) auto
  have "r = q"
    using first_range_le [of r S q T'] first_range_le [of q T' r S] Cons.prems T by simp
  moreover have "addrs S = addrs T'"
    using addrs_tail [of r S] addrs_tail [of q T'] Cons.prems T calculation by simp
  ultimately show ?case
    using Cons T by (auto simp: canonical_Cons)
qed


subsection \<open>Counting and the extreme addresses\<close>

lemma bij_range_addrs:
  "bij_betw (\<lambda>n. \<lparr>addr_space = space r, addr_offset = word_of_nat n\<rparr>)
     {unat (min_off r)..unat (max_off r)} (range_addrs r)"
proof (rule bij_betw_byWitness [where f' = "\<lambda>a. unat (addr_offset a)"])
  show "\<forall>n \<in> {unat (min_off r)..unat (max_off r)}.
      unat (addr_offset \<lparr>addr_space = space r, addr_offset = word_of_nat n\<rparr>) = n"
    using unat_u64_bound [of "max_off r"] by (auto simp: unat_of_nat)
  show "\<forall>a \<in> range_addrs r. \<lparr>addr_space = space r, addr_offset = word_of_nat (unat (addr_offset a))\<rparr> = a"
    by (auto simp: range_addrs_def)
  show "(\<lambda>n. \<lparr>addr_space = space r, addr_offset = word_of_nat n\<rparr>) `
      {unat (min_off r)..unat (max_off r)} \<subseteq> range_addrs r"
    using unat_u64_bound [of "max_off r"] by (auto simp: range_addrs_def offset_defs unat_of_nat)
  show "(\<lambda>a. unat (addr_offset a)) ` range_addrs r \<subseteq> {unat (min_off r)..unat (max_off r)}"
    by (auto simp: range_addrs_def offset_defs)
qed

lemma finite_range_addrs [simp]: "finite (range_addrs r)"
  using bij_betw_finite [OF bij_range_addrs] by blast

lemma finite_addrs [simp]: "finite (addrs S)"
  by (simp add: addrs_def)

lemma card_range_addrs:
  "proper r \<Longrightarrow> card (range_addrs r) = unat (max_off r) - unat (min_off r) + 1"
  using bij_betw_same_card [OF bij_range_addrs, of r]
  by (simp add: proper_def word_le_nat_alt Suc_diff_le)

lemma range_length_card: "proper r \<Longrightarrow> range_length r = of_nat (card (range_addrs r))"
  by (simp add: card_range_addrs range_length_def proper_def word_le_nat_alt)

lemma num_addresses_card:
  assumes "canonical S" shows "num_addresses S = of_nat (card (addrs S))"
  using assms
proof (induction S)
  case Nil
  then show ?case by (simp add: num_addresses_def)
next
  case (Cons r S)
  have "range_addrs r \<inter> addrs S = {}"
    using addrs_tail [OF Cons.prems] by auto
  then have "card (addrs (r # S)) = card (range_addrs r) + card (addrs S)"
    by (simp add: card_Un_disjoint)
  then show ?case
    using Cons by (simp add: num_addresses_def canonical_Cons range_length_card)
qed

lemma min_address_least:
  assumes "canonical S" "min_address S = Some m"
  shows "m \<in> addrs S \<and> (\<forall>x \<in> addrs S. addr_space m < addr_space x
    \<or> addr_space m = addr_space x \<and> addr_offset m \<le> addr_offset x)"
proof -
  from assms(2) obtain r T where S: "S = r # T" and m: "m = \<lparr>addr_space = space r, addr_offset = min_off r\<rparr>"
    by (auto simp: min_address_def split: list.splits)
  have "m \<in> addrs S"
    using range_start_in assms(1) S m by (auto simp: canonical_Cons)
  then show ?thesis using first_start_least [of r T] assms(1) S m by auto
qed

lemma max_address_greatest:
  assumes "canonical S" "max_address S = Some m"
  shows "m \<in> addrs S \<and> (\<forall>x \<in> addrs S. addr_space x < addr_space m
    \<or> addr_space x = addr_space m \<and> addr_offset x \<le> addr_offset m)"
proof -
  from assms(2) obtain A r where S: "S = A @ [r]"
    and m: "m = \<lparr>addr_space = space r, addr_offset = max_off r\<rparr>"
    by (auto simp: max_address_def split: if_splits) (metis append_butlast_last_id)
  have wf: "proper r" "\<forall>a \<in> set A. gap a r"
    using assms(1) S by (auto simp: canonical_append canonical_Cons)
  have "m \<in> addrs S" using range_end_in [OF wf(1)] S m by simp
  moreover have "addr_space x < addr_space m
      \<or> addr_space x = addr_space m \<and> addr_offset x \<le> addr_offset m" if "x \<in> addrs S" for x
    using that wf S m
    by (fastforce simp: addrs_def range_addrs_def gap_def offset_defs)
  ultimately show ?thesis by blast
qed

subsection \<open>The interface the analyzers rely on\<close>

text \<open>
  What the analysis pipeline assumes of an address set: the empty set, union and the emptiness
  test, over a denotation and an invariant the operations keep.
\<close>

locale addr_set_ops =
  fixes empty :: 's
    and union :: "'s \<Rightarrow> 's \<Rightarrow> 's"
    and is_empty :: "'s \<Rightarrow> bool"
    and den :: "'s \<Rightarrow> 'a set"
    and invar :: "'s \<Rightarrow> bool"
  assumes invar_empty: "invar empty"
    and den_empty: "den empty = {}"
    and invar_union: "invar s \<Longrightarrow> invar t \<Longrightarrow> invar (union s t)"
    and den_union: "invar s \<Longrightarrow> invar t \<Longrightarrow> den (union s t) = den s \<union> den t"
    and is_empty_den: "invar s \<Longrightarrow> is_empty s \<longleftrightarrow> den s = {}"
begin

lemma accumulate:
  assumes "invar s" "list_all invar ts"
  shows "invar (fold (\<lambda>t acc. union acc t) ts s)
    \<and> den (fold (\<lambda>t acc. union acc t) ts s) = den s \<union> (\<Union>t \<in> set ts. den t)"
  using assms
  by (induction ts arbitrary: s) (auto simp: invar_union den_union)

lemma union_is_empty: "invar s \<Longrightarrow> invar t \<Longrightarrow> is_empty (union s t) \<longleftrightarrow> is_empty s \<and> is_empty t"
  by (simp add: is_empty_den invar_union den_union)

lemma empty_is_empty: "is_empty empty"
  by (simp add: is_empty_den invar_empty den_empty)

end

text \<open>The set algebra on top of it, and what a client may compute with it.\<close>

locale addr_set_algebra = addr_set_ops +
  fixes inter :: "'s \<Rightarrow> 's \<Rightarrow> 's"
    and diff :: "'s \<Rightarrow> 's \<Rightarrow> 's"
    and meets :: "'s \<Rightarrow> 's \<Rightarrow> bool"
    and same :: "'s \<Rightarrow> 's \<Rightarrow> bool"
  assumes invar_inter: "invar s \<Longrightarrow> invar t \<Longrightarrow> invar (inter s t)"
    and den_inter: "invar s \<Longrightarrow> invar t \<Longrightarrow> den (inter s t) = den s \<inter> den t"
    and invar_diff: "invar s \<Longrightarrow> invar t \<Longrightarrow> invar (diff s t)"
    and den_diff: "invar s \<Longrightarrow> invar t \<Longrightarrow> den (diff s t) = den s - den t"
    and meets_den: "invar s \<Longrightarrow> invar t \<Longrightarrow> meets s t \<longleftrightarrow> den s \<inter> den t \<noteq> {}"
    and same_den: "invar s \<Longrightarrow> invar t \<Longrightarrow> same s t \<longleftrightarrow> den s = den t"
begin

lemma split_by:
  assumes "invar s" "invar t"
  shows "same (union (diff s t) (inter s t)) s"
  using assms
  by (auto simp: same_den invar_union invar_diff invar_inter den_union den_diff den_inter)

lemma meets_iff_inter: "invar s \<Longrightarrow> invar t \<Longrightarrow> meets s t \<longleftrightarrow> \<not> is_empty (inter s t)"
  by (simp add: meets_den is_empty_den invar_inter den_inter)

lemma union_absorb: "invar s \<Longrightarrow> same (union s s) s"
  by (simp add: same_den invar_union den_union)

lemma union_comm: "invar s \<Longrightarrow> invar t \<Longrightarrow> same (union s t) (union t s)"
  by (auto simp: same_den invar_union den_union)

end

interpretation aset: addr_set_algebra set_new set_union set_is_empty addrs canonical
  set_intersect set_subtract set_intersects has_same_addresses
  by unfold_locales
    (auto simp: set_new_def set_union_spec set_is_empty_def addrs_empty_iff set_intersect_spec
      set_subtract_spec set_intersects_spec has_same_addresses_def intro: canonical_unique)

subsection \<open>Properties\<close>

definition demo_set :: address_set where
  "demo_set = [range_new 0 16 31, range_new 1 0 3]"

definition demo_cut :: address_set where
  "demo_cut = [range_new 0 20 23, range_new 1 2 2]"

lemmas demo_eval = range_new_def add_range_def set_subtract_def cutters_def set_new_def key_def key_lt_def
  partition_point_def touches_or_overlaps_def checked_add64_def Let_def

lemma demo_canonical: "canonical demo_set" "canonical demo_cut"
  by (simp_all add: demo_set_def demo_cut_def canonical_def proper_def gap_def range_new_def)

text \<open>
  (C26) \<open>add_range\<close> keeps the representation canonical (sorted by space and start, disjoint, never
  adjacent) and adds exactly the offsets of the range, whatever it overlaps or touches.
\<close>

theorem add_range_correct:
  assumes "canonical S" "lo \<le> hi"
  shows "canonical (add_range S s lo hi)
    \<and> (\<forall>a. set_contains (add_range S s lo hi) a
         \<longleftrightarrow> set_contains S a \<or> addr_space a = s \<and> lo \<le> addr_offset a \<and> addr_offset a \<le> hi)"
  using add_range_canonical [OF assms] addrs_add_range [OF assms]
  by (auto simp: set_contains_iff range_addrs_def range_new_def contains_offset_def)

theorem add_range_correct_witness:
  "canonical (add_range demo_set 0 32 40) \<and> add_range demo_set 0 32 40 = [range_new 0 16 40, range_new 1 0 3]"
proof
  show "canonical (add_range demo_set 0 32 40)"
    using add_range_correct [OF demo_canonical(1), of 32 40 0] by simp
  show "add_range demo_set 0 32 40 = [range_new 0 16 40, range_new 1 0 3]"
    by (simp add: demo_set_def demo_eval)
qed

text \<open>
  (C14) Union, intersection, difference and symmetric difference compute those set operations on the
  addresses, with canonical results.
\<close>

theorem set_operations_correct:
  assumes "canonical S" "canonical T"
  shows "canonical (set_union S T) \<and> addrs (set_union S T) = addrs S \<union> addrs T
    \<and> canonical (set_intersect S T) \<and> addrs (set_intersect S T) = addrs S \<inter> addrs T
    \<and> canonical (set_subtract S T) \<and> addrs (set_subtract S T) = addrs S - addrs T
    \<and> canonical (set_xor S T) \<and> addrs (set_xor S T) = (addrs S - addrs T) \<union> (addrs T - addrs S)"
  using assms by (simp add: set_union_spec set_intersect_spec set_subtract_spec set_xor_spec)

theorem set_operations_correct_witness:
  "addrs (set_subtract demo_set demo_cut) = addrs demo_set - addrs demo_cut
    \<and> addrs (set_intersect demo_set demo_cut) = addrs demo_set \<inter> addrs demo_cut"
  using set_operations_correct [OF demo_canonical] by simp



text \<open>
  \<open>num_addresses\<close> is the number of addresses (modulo 2^64, reached only by a set of that many
  addresses or more), and \<open>min_address\<close> and \<open>max_address\<close> are its least and greatest elements.
\<close>

theorem set_extent_correct:
  assumes "canonical S" "min_address S = Some lo" "max_address S = Some hi"
  shows "num_addresses S = of_nat (card (addrs S)) \<and> lo \<in> addrs S \<and> hi \<in> addrs S
    \<and> (\<forall>x \<in> addrs S. key_lt (addr_space x, addr_offset x) (addr_space lo, addr_offset lo) = False
          \<and> key_lt (addr_space hi, addr_offset hi) (addr_space x, addr_offset x) = False)"
  using num_addresses_card [OF assms(1)] min_address_least [OF assms(1,2)]
    max_address_greatest [OF assms(1,3)]
  by (fastforce simp: key_lt_def not_less)

theorem set_extent_correct_witness:
  "num_addresses demo_set = of_nat (card (addrs demo_set)) \<and> num_addresses demo_set = 20"
  using set_extent_correct [OF demo_canonical(1), of "\<lparr>addr_space = 0, addr_offset = 16\<rparr>"
      "\<lparr>addr_space = 1, addr_offset = 3\<rparr>"]
  by (simp add: demo_set_def range_new_def min_address_def max_address_def)
    (simp add: num_addresses_def range_length_def)

end
