(* ===== verification/Analysis_Manager.thy ===== *)
theory Analysis_Manager
  imports Address_Set
begin

text \<open>
  \<^verbatim>\<open>analysis/manager.rs\<close> (with \<^verbatim>\<open>analyzer.rs\<close> and \<^verbatim>\<open>priority.rs\<close>): the command queue of the automatic
  analysis, the per-analyzer accumulators, and the loop that drains the queue to a fixpoint.

  An analyzer is a value of a type \<open>'an\<close>; what the manager asks of it (its name, its kind, its
  priority, whether it applies, what it does with a set) are the fields of the record
  \<open>analyzer_env\<close>, which stands for the \<^verbatim>\<open>Analyzer\<close> trait and for the two executors the
  free-standing commands construct.  The program under analysis is a value of a type \<open>'p\<close>.
  The queue's sequence counter is unbounded: it counts pushes.
\<close>

subsection \<open>Commands and scheduling state\<close>

datatype analyzer_type =
    Byte | Instruction | Function | FunctionModifiers | FunctionSignatures | Data | OneTime

definition disassembly_base :: int where
  "disassembly_base = 300"

datatype 'an command =
    Task nat
  | Disassemble address_set
  | CreateFunction address_set
  | OneShot 'an address_set

text \<open>The queue's key: priority, then arrival order.\<close>

type_synonym queue_key = "int \<times> nat"

definition queue_less :: "queue_key \<Rightarrow> queue_key \<Rightarrow> bool" where
  "queue_less a b \<longleftrightarrow> fst a < fst b \<or> fst a = fst b \<and> snd a < snd b"

record 'an scheduling =
  queue :: "(queue_key \<times> 'an command) list"
  seq :: nat
  active_priority :: "int option"
  pending :: "address_set list"
  scheduled :: "bool list"
  prio :: "int list"
  ty :: "analyzer_type list"

definition sched_default :: "'an scheduling" where
  "sched_default = \<lparr>queue = [], seq = 0, active_priority = None, pending = [], scheduled = [],
     prio = [], ty = []\<rparr>"

definition register :: "int \<Rightarrow> analyzer_type \<Rightarrow> 'an scheduling \<Rightarrow> 'an scheduling" where
  "register p t s = s\<lparr>pending := pending s @ [set_new], scheduled := scheduled s @ [False],
     prio := prio s @ [p], ty := ty s @ [t]\<rparr>"

definition push :: "int \<Rightarrow> 'an command \<Rightarrow> 'an scheduling \<Rightarrow> 'an scheduling" where
  "push p cmd s = s\<lparr>queue := btree_insert queue_less (p, seq s) cmd (queue s), seq := seq s + 1\<rparr>"

definition schedule_task :: "nat \<Rightarrow> 'an scheduling \<Rightarrow> 'an scheduling" where
  "schedule_task i s =
     (if \<not> scheduled s ! i \<and> \<not> set_is_empty (pending s ! i)
      then (push (prio s ! i) (Task i) s)\<lparr>scheduled := (scheduled s)[i := True]\<rparr>
      else s)"

text \<open>One round of the loop in \<open>notify\<close>, and the loop over all registered analyzers.\<close>

definition notify_one :: "analyzer_type \<Rightarrow> address_set \<Rightarrow> nat \<Rightarrow> 'an scheduling \<Rightarrow> 'an scheduling" where
  "notify_one t S i s =
     (if ty s ! i = t
      then schedule_task i (s\<lparr>pending := (pending s)[i := set_union (pending s ! i) S]\<rparr>)
      else s)"

definition notify :: "analyzer_type \<Rightarrow> address_set \<Rightarrow> 'an scheduling \<Rightarrow> 'an scheduling" where
  "notify t S s = fold (notify_one t S) [0..<length (ty s)] s"

definition code_defined :: "address_set \<Rightarrow> 'an scheduling \<Rightarrow> 'an scheduling" where
  "code_defined S s = notify Instruction S s"

definition function_defined :: "address_set \<Rightarrow> 'an scheduling \<Rightarrow> 'an scheduling" where
  "function_defined S s = notify Function S s"

definition data_defined :: "address_set \<Rightarrow> 'an scheduling \<Rightarrow> 'an scheduling" where
  "data_defined S s = notify Data S s"

definition block_added :: "address_set \<Rightarrow> 'an scheduling \<Rightarrow> 'an scheduling" where
  "block_added S s = notify Byte S s"

definition disassembly_priority :: "'an scheduling \<Rightarrow> int" where
  "disassembly_priority s =
     (case active_priority s of None \<Rightarrow> disassembly_base | Some p \<Rightarrow> p - 2)"

definition disassemble :: "address_set \<Rightarrow> 'an scheduling \<Rightarrow> 'an scheduling" where
  "disassemble S s = (if set_is_empty S then s else push (disassembly_priority s) (Disassemble S) s)"

definition disassemble_at :: "address_set \<Rightarrow> int \<Rightarrow> 'an scheduling \<Rightarrow> 'an scheduling" where
  "disassemble_at S p s = (if set_is_empty S then s else push p (Disassemble S) s)"

definition create_function :: "address_set \<Rightarrow> 'an scheduling \<Rightarrow> 'an scheduling" where
  "create_function S s =
     (if set_is_empty S then s else push (disassembly_priority s + 1) (CreateFunction S) s)"

definition take_pending :: "nat \<Rightarrow> 'an scheduling \<Rightarrow> address_set \<times> 'an scheduling" where
  "take_pending i s =
     (pending s ! i, s\<lparr>scheduled := (scheduled s)[i := False], pending := (pending s)[i := set_new]\<rparr>)"

subsection \<open>The manager\<close>

record ('an, 'p) analyzer_env =
  an_name :: "'an \<Rightarrow> string"
  an_type :: "'an \<Rightarrow> analyzer_type"
  an_priority :: "'an \<Rightarrow> int"
  an_can_analyze :: "'an \<Rightarrow> 'p \<Rightarrow> bool"
  an_added :: "'an \<Rightarrow> 'p \<Rightarrow> address_set \<Rightarrow> 'an scheduling \<Rightarrow> 'p \<times> 'an scheduling"
  disassembler_for :: "'p \<Rightarrow> 'an option"
  function_creator_for :: "'p \<Rightarrow> 'an"
  disabled_analyzers :: "'p \<Rightarrow> string option"

definition schedule_one_shot ::
  "('an, 'p) analyzer_env \<Rightarrow> 'an \<Rightarrow> address_set \<Rightarrow> 'an scheduling \<Rightarrow> 'an scheduling" where
  "schedule_one_shot env a S s = push (an_priority env a) (OneShot a S) s"

record 'an manager =
  analyzers :: "'an list"
  sched :: "'an scheduling"

definition manager_new :: "'an manager" where
  "manager_new = \<lparr>analyzers = [], sched = sched_default\<rparr>"

text \<open>\<^verbatim>\<open>str::split(',')\<close> and \<^verbatim>\<open>str::trim\<close> (on ASCII white space).\<close>

fun split_on :: "char \<Rightarrow> string \<Rightarrow> string list" where
  "split_on c [] = [[]]"
| "split_on c (x # xs) =
     (if x = c then [] # split_on c xs
      else case split_on c xs of [] \<Rightarrow> [[x]] | w # ws \<Rightarrow> (x # w) # ws)"

definition ascii_space :: "char \<Rightarrow> bool" where
  "ascii_space c \<longleftrightarrow> c \<in> {CHR 0x09, CHR 0x0A, CHR 0x0B, CHR 0x0C, CHR 0x0D, CHR 0x20}"

definition trim :: "string \<Rightarrow> string" where
  "trim s = rev (dropWhile ascii_space (rev (dropWhile ascii_space s)))"

definition add_analyzer :: "('an, 'p) analyzer_env \<Rightarrow> 'an \<Rightarrow> 'p \<Rightarrow> 'an manager \<Rightarrow> 'an manager" where
  "add_analyzer env a p m =
     (if \<not> an_can_analyze env a p then m
      else if (case disabled_analyzers env p of None \<Rightarrow> False
               | Some l \<Rightarrow> list_ex (\<lambda>n. trim n = an_name env a) (split_on (CHR '','') l)) then m
      else m\<lparr>sched := register (an_priority env a) (an_type env a) (sched m),
             analyzers := analyzers m @ [a]\<rparr>)"

text \<open>
  One round of \<open>run\<close>: the entry with the least key is removed, its priority becomes the active one,
  and it executes.  The result also carries what was executed: the command and the set handed to an
  analyzer (\<open>None\<close> when no analyzer ran).  \<open>None\<close> stands for an empty queue.
\<close>

type_synonym 'an run_event = "queue_key \<times> 'an command \<times> ('an \<times> address_set) option"

definition exec_command ::
  "('an, 'p) analyzer_env \<Rightarrow> 'an list \<Rightarrow> 'an command \<Rightarrow> 'p \<Rightarrow> 'an scheduling
     \<Rightarrow> ('p \<times> 'an scheduling) \<times> ('an \<times> address_set) option" where
  "exec_command env ans cmd p s =
     (case cmd of
        Task i \<Rightarrow>
          (let (S, s') = take_pending i s
           in if set_is_empty S then ((p, s'), None)
              else (an_added env (ans ! i) p S s', Some (ans ! i, S)))
      | Disassemble S \<Rightarrow>
          (case disassembler_for env p of
             None \<Rightarrow> ((p, s), None)
           | Some d \<Rightarrow> (an_added env d p S s, Some (d, S)))
      | CreateFunction S \<Rightarrow>
          (let f = function_creator_for env p in (an_added env f p S s, Some (f, S)))
      | OneShot a S \<Rightarrow> (an_added env a p S s, Some (a, S)))"

definition run_step ::
  "('an, 'p) analyzer_env \<Rightarrow> 'p \<Rightarrow> 'an manager \<Rightarrow> ('p \<times> 'an manager \<times> 'an run_event) option" where
  "run_step env p m =
     (case btree_first (queue (sched m)) of
        None \<Rightarrow> None
      | Some (k, cmd) \<Rightarrow>
          (let s = (sched m)\<lparr>queue := btree_remove k (queue (sched m)), active_priority := Some (fst k)\<rparr>;
               ((p', s'), handed) = exec_command env (analyzers m) cmd p s
           in Some (p', m\<lparr>sched := s'\<rparr>, (k, cmd, handed))))"

text \<open>The loop, with the list of executed entries; \<open>None\<close> when it does not end within the fuel.\<close>

fun run_fuel ::
  "nat \<Rightarrow> ('an, 'p) analyzer_env \<Rightarrow> 'p \<Rightarrow> 'an manager \<Rightarrow> ('p \<times> 'an manager \<times> 'an run_event list) option" where
  "run_fuel 0 env p m = None"
| "run_fuel (Suc n) env p m =
     (case run_step env p m of
        None \<Rightarrow> Some (p, m\<lparr>sched := (sched m)\<lparr>active_priority := None\<rparr>\<rparr>, [])
      | Some (p', m', e) \<Rightarrow>
          (case run_fuel n env p' m' of
             None \<Rightarrow> None
           | Some (p'', m'', es) \<Rightarrow> Some (p'', m'', e # es)))"


subsection \<open>The scheduling invariant\<close>

interpretation qk: key_order queue_less
  by unfold_locales (auto simp: queue_less_def)

definition tasks :: "'an scheduling \<Rightarrow> nat \<Rightarrow> nat" where
  "tasks s i = count_list (map snd (queue s)) (Task i)"

text \<open>
  Lengths agree; the queue is in key order with every sequence number already handed out; the
  accumulators are canonical; analyzer \<open>i\<close> has exactly one task in the queue when its flag is set
  and none otherwise; the flag is set exactly when it has work waiting; only registered analyzers
  have tasks.
\<close>

definition sched_shape :: "'an scheduling \<Rightarrow> bool" where
  "sched_shape s \<longleftrightarrow> length (scheduled s) = length (pending s) \<and> length (prio s) = length (pending s)
     \<and> length (ty s) = length (pending s) \<and> list_all canonical (pending s)"

definition queue_ok :: "'an scheduling \<Rightarrow> bool" where
  "queue_ok s \<longleftrightarrow> btree_sorted queue_less (queue s) \<and> (\<forall>e \<in> set (queue s). snd (fst e) < seq s)
     \<and> (\<forall>e \<in> set (queue s). \<forall>i. snd e = Task i \<longrightarrow> i < length (pending s))"

definition flags_ok :: "'an scheduling \<Rightarrow> bool" where
  "flags_ok s \<longleftrightarrow> (\<forall>i < length (pending s).
     tasks s i = (if scheduled s ! i then 1 else 0) \<and> (scheduled s ! i \<longleftrightarrow> pending s ! i \<noteq> []))"

definition sched_inv :: "'an scheduling \<Rightarrow> bool" where
  "sched_inv s \<longleftrightarrow> sched_shape s \<and> queue_ok s \<and> flags_ok s"

lemmas sched_inv_defs = sched_inv_def sched_shape_def queue_ok_def flags_ok_def

lemma push_fields [sched_simps]:
  "pending (push p c s) = pending s" "scheduled (push p c s) = scheduled s"
  "prio (push p c s) = prio s" "ty (push p c s) = ty s"
  "active_priority (push p c s) = active_priority s" "seq (push p c s) = seq s + 1"
  by (simp_all add: push_def)

lemma fresh_key: "queue_ok s \<Longrightarrow> (p, seq s) \<notin> fst ` set (queue s)"
  by (auto simp: queue_ok_def)

lemma set_queue_push:
  "queue_ok s \<Longrightarrow> set (queue (push p c s)) = insert ((p, seq s), c) (set (queue s))"
  using fresh_key [of s p]
  by (auto simp: push_def queue_ok_def qk.set_insert image_iff)

lemma tasks_push:
  "queue_ok s \<Longrightarrow> tasks (push p c s) i = tasks s i + (if c = Task i then 1 else 0)"
  using qk.insert_fresh_mset [OF fresh_key [of s p], of c "Task i"]
  by (simp add: tasks_def push_def)

lemma queue_ok_push:
  assumes "queue_ok s" "\<forall>i. c = Task i \<longrightarrow> i < length (pending s)"
  shows "queue_ok (push p c s)"
proof -
  have "btree_sorted queue_less (queue (push p c s))"
    using assms(1) by (simp add: push_def queue_ok_def qk.sorted_insert)
  then show ?thesis
    using assms set_queue_push [OF assms(1), of p c]
    by (auto simp: queue_ok_def push_fields less_Suc_eq)
qed

lemma push_command_inv:
  assumes "sched_inv s" "\<forall>i. c \<noteq> Task i" shows "sched_inv (push p c s)"
  using assms queue_ok_push [of s c p]
  by (auto simp: sched_inv_def sched_shape_def flags_ok_def push_fields tasks_push)

lemma default_inv: "sched_inv sched_default"
  by (simp add: sched_inv_defs sched_default_def btree_sorted_def)

lemma register_inv: "sched_inv s \<Longrightarrow> sched_inv (register p t s)"
proof -
  assume inv: "sched_inv s"
  have "tasks s (length (pending s)) = 0"
    using inv by (force simp: sched_inv_defs tasks_def count_list_0_iff)
  then show ?thesis
    using inv
    by (auto simp: sched_inv_defs register_def tasks_def set_new_def nth_append less_Suc_eq)
qed

lemma schedule_task_inv:
  assumes shape: "sched_shape s" and q: "queue_ok s" and i: "i < length (pending s)"
    and others: "\<forall>j < length (pending s). tasks s j = (if scheduled s ! j then 1 else 0)
        \<and> (j \<noteq> i \<longrightarrow> (scheduled s ! j \<longleftrightarrow> pending s ! j \<noteq> []))"
    and flag: "scheduled s ! i \<longrightarrow> pending s ! i \<noteq> []"
  shows "sched_inv (schedule_task i s)"
proof (cases "\<not> scheduled s ! i \<and> pending s ! i \<noteq> []")
  case True
  let ?s = "push (prio s ! i) (Task i) s"
  have q': "queue_ok ?s" using q i by (intro queue_ok_push) auto
  have "tasks ?s j = (if ((scheduled s)[i := True]) ! j then 1 else 0)" if "j < length (pending s)" for j
    using that True others shape by (auto simp: tasks_push [OF q] sched_shape_def nth_list_update)
  then show ?thesis
    using True q' shape others i
    by (auto simp: sched_inv_defs schedule_task_def set_is_empty_def push_fields tasks_def nth_list_update)
next
  case False
  then show ?thesis
    using assms by (auto simp: schedule_task_def set_is_empty_def sched_inv_def flags_ok_def)
qed

lemma list_all_update:
  "list_all P xs \<Longrightarrow> P y \<Longrightarrow> list_all P (xs[i := y])"
  by (metis list_all_iff set_update_subset_insert insertE subsetD)

lemma notify_one_inv:
  assumes inv: "sched_inv s" and S: "canonical S" and i: "i < length (pending s)"
  shows "sched_inv (notify_one t S i s)"
proof (cases "ty s ! i = t")
  case True
  let ?u = "set_union (pending s ! i) S"
  have c: "canonical (pending s ! i)"
    using inv i by (auto simp: sched_inv_defs list_all_length)
  have u: "canonical ?u" and ne: "pending s ! i \<noteq> [] \<longrightarrow> ?u \<noteq> []"
    using aset.invar_union [OF c S] aset.union_is_empty [OF c S] by (auto simp: set_is_empty_def)
  show ?thesis
    unfolding notify_one_def using True
    by (simp, intro schedule_task_inv)
      (use inv i u ne in \<open>auto simp: sched_inv_defs tasks_def list_all_update nth_list_update\<close>)
next
  case False
  then show ?thesis using inv by (simp add: notify_one_def)
qed

lemma schedule_task_frame [sched_simps]:
  "pending (schedule_task i s) = pending s" "ty (schedule_task i s) = ty s"
  "prio (schedule_task i s) = prio s" "active_priority (schedule_task i s) = active_priority s"
  by (simp_all add: schedule_task_def push_fields)

lemma notify_one_frame [sched_simps]:
  "length (pending (notify_one t S i s)) = length (pending s)" "ty (notify_one t S i s) = ty s"
  "prio (notify_one t S i s) = prio s"
  "active_priority (notify_one t S i s) = active_priority s"
  by (simp_all add: notify_one_def sched_simps)

lemma notify_fold_inv:
  assumes "sched_inv s" "canonical S" "\<forall>i \<in> set is. i < length (pending s)"
  shows "sched_inv (fold (notify_one t S) is s)
    \<and> length (pending (fold (notify_one t S) is s)) = length (pending s)"
  using assms
  by (induction "is" arbitrary: s) (auto simp: notify_one_inv sched_simps)

lemma notify_inv: "sched_inv s \<Longrightarrow> canonical S \<Longrightarrow> sched_inv (notify t S s)"
  unfolding notify_def
  by (rule notify_fold_inv [THEN conjunct1]) (auto simp: sched_inv_defs)


subsection \<open>What an analyzer may do to the scheduler\<close>

text \<open>
  The fields of \<^verbatim>\<open>Scheduling\<close> are private: an analyzer reaches it through the public methods only,
  one rule each.  Sets are \<^verbatim>\<open>AddressSet\<close> values, hence canonical.
\<close>

inductive sched_call :: "('an, 'p) analyzer_env \<Rightarrow> 'an scheduling \<Rightarrow> 'an scheduling \<Rightarrow> bool"
  for env where
  call_code: "canonical S \<Longrightarrow> sched_call env s (code_defined S s)"
| call_function: "canonical S \<Longrightarrow> sched_call env s (function_defined S s)"
| call_data: "canonical S \<Longrightarrow> sched_call env s (data_defined S s)"
| call_block: "canonical S \<Longrightarrow> sched_call env s (block_added S s)"
| call_disassemble: "canonical S \<Longrightarrow> sched_call env s (disassemble S s)"
| call_disassemble_at: "canonical S \<Longrightarrow> sched_call env s (disassemble_at S p s)"
| call_create: "canonical S \<Longrightarrow> sched_call env s (create_function S s)"
| call_one_shot: "canonical S \<Longrightarrow> sched_call env s (schedule_one_shot env a S s)"

inductive_cases sched_callE: "sched_call env s s'"

definition analyzers_behave :: "('an, 'p) analyzer_env \<Rightarrow> bool" where
  "analyzers_behave env \<longleftrightarrow> (\<forall>a p S s. (sched_call env)\<^sup>*\<^sup>* s (snd (an_added env a p S s)))"

lemmas call_defs = code_defined_def function_defined_def data_defined_def block_added_def
  disassemble_def disassemble_at_def create_function_def schedule_one_shot_def

lemma sched_call_inv: "sched_call env s s' \<Longrightarrow> sched_inv s \<Longrightarrow> sched_inv s'"
  by (erule sched_callE) (auto simp: call_defs notify_inv push_command_inv)

text \<open>No call takes work away: accumulators only grow.\<close>

definition pending_le :: "'an scheduling \<Rightarrow> 'an scheduling \<Rightarrow> bool" where
  "pending_le s s' \<longleftrightarrow> length (pending s') = length (pending s)
     \<and> (\<forall>i < length (pending s). addrs (pending s ! i) \<subseteq> addrs (pending s' ! i))"

lemma pending_le_refl [simp]: "pending_le s s"
  by (simp add: pending_le_def)

lemma pending_le_trans: "pending_le s t \<Longrightarrow> pending_le t u \<Longrightarrow> pending_le s u"
  by (fastforce simp: pending_le_def)

lemma notify_one_grows:
  assumes "sched_inv s" "canonical S" "i < length (pending s)"
  shows "pending_le s (notify_one t S i s)"
proof -
  have "canonical (pending s ! i)"
    using assms by (auto simp: sched_inv_defs list_all_length)
  then show ?thesis
    using assms aset.den_union [of "pending s ! i" S]
    by (auto simp: pending_le_def notify_one_def sched_simps nth_list_update)
qed

lemma notify_fold_grows:
  assumes "sched_inv s" "canonical S" "\<forall>i \<in> set is. i < length (pending s)"
  shows "pending_le s (fold (notify_one t S) is s)"
  using assms
proof (induction "is" arbitrary: s)
  case (Cons i js)
  let ?s = "notify_one t S i s"
  have "pending_le s ?s" using Cons.prems by (simp add: notify_one_grows)
  moreover have "pending_le ?s (fold (notify_one t S) js ?s)"
    using Cons.prems by (intro Cons.IH) (auto simp: notify_one_inv sched_simps)
  ultimately show ?case by (auto intro: pending_le_trans)
qed simp

lemma notify_grows: "sched_inv s \<Longrightarrow> canonical S \<Longrightarrow> pending_le s (notify t S s)"
  unfolding notify_def by (rule notify_fold_grows) (auto simp: sched_inv_defs)

lemma push_grows [simp]: "pending_le s (push p c s)"
  by (simp add: pending_le_def push_fields)

lemma sched_call_grows: "sched_call env s s' \<Longrightarrow> sched_inv s \<Longrightarrow> pending_le s s'"
  by (erule sched_callE) (auto simp: call_defs notify_grows)

lemma sched_calls_keep:
  assumes "(sched_call env)\<^sup>*\<^sup>* s s'" "sched_inv s"
  shows "sched_inv s' \<and> pending_le s s'"
  using assms
proof (induction rule: rtranclp_induct)
  case (step t u)
  then show ?case
    using sched_call_inv sched_call_grows pending_le_trans by blast
qed simp

text \<open>A notification reaches every analyzer of its kind.\<close>

lemma notify_fold_reaches:
  assumes "sched_inv s" "canonical S" "\<forall>i \<in> set is. i < length (pending s)" "distinct is"
    and "i \<in> set is" "ty s ! i = t"
  shows "addrs S \<subseteq> addrs (pending (fold (notify_one t S) is s) ! i)"
  using assms
proof (induction "is" arbitrary: s)
  case (Cons j js)
  let ?s = "notify_one t S j s"
  have inv: "sched_inv ?s" "\<forall>i \<in> set js. i < length (pending ?s)"
    using Cons.prems by (auto simp: notify_one_inv sched_simps)
  show ?case
  proof (cases "i = j")
    case True
    have "canonical (pending s ! j)"
      using Cons.prems by (auto simp: sched_inv_defs list_all_length)
    then have "addrs S \<subseteq> addrs (pending ?s ! i)"
      using Cons.prems True aset.den_union [of "pending s ! j" S]
      by (auto simp: notify_one_def sched_simps)
    moreover have "pending_le ?s (fold (notify_one t S) js ?s)"
      using inv Cons.prems by (intro notify_fold_grows) auto
    ultimately show ?thesis
      using Cons.prems True by (fastforce simp: pending_le_def sched_simps)
  next
    case False
    then show ?thesis
      using Cons.IH [OF inv(1)] inv(2) Cons.prems by (auto simp: sched_simps)
  qed
qed simp

subsection \<open>One round of the loop\<close>

lemma pop_least:
  assumes "sched_inv s" "btree_first (queue s) = Some (k, cmd)"
  obtains m where "queue s = (k, cmd) # m" "btree_remove k (queue s) = m"
proof -
  obtain m where m: "queue s = (k, cmd) # m"
    using assms(2) by (cases "queue s") (auto simp: btree_first_def)
  then have "btree_remove k (queue s) = m"
    using assms(1) qk.remove_first [of k cmd m] by (simp add: sched_inv_defs)
  with m that show thesis by blast
qed

lemma queue_ok_tail:
  assumes "queue_ok s" "queue s = e # m"
  shows "queue_ok (s\<lparr>queue := m, active_priority := a\<rparr>)"
  using assms by (auto simp: queue_ok_def btree_sorted_def)

lemma pop_command_inv:
  assumes "sched_inv s" "queue s = (k, cmd) # m" "\<forall>i. cmd \<noteq> Task i"
  shows "sched_inv (s\<lparr>queue := m, active_priority := a\<rparr>)"
  using assms queue_ok_tail [of s "(k, cmd)" m a]
  by (auto simp: sched_inv_def sched_shape_def flags_ok_def tasks_def)

lemma pop_task_inv:
  assumes inv: "sched_inv s" and q: "queue s = (k, Task i) # m"
  shows "i < length (pending s)" "pending s ! i \<noteq> []"
    "sched_inv (snd (take_pending i (s\<lparr>queue := m, active_priority := a\<rparr>)))"
proof -
  show i: "i < length (pending s)" using inv q by (auto simp: sched_inv_defs)
  have "tasks s i \<ge> 1" using q by (simp add: tasks_def)
  then have sch: "scheduled s ! i" using inv i by (force simp: sched_inv_defs)
  then show "pending s ! i \<noteq> []" using inv i by (auto simp: sched_inv_defs)
  let ?s = "s\<lparr>queue := m, active_priority := a\<rparr>"
  have "queue_ok (snd (take_pending i ?s))"
    using queue_ok_tail [of s "(k, Task i)" m a] inv q
    by (simp add: sched_inv_def take_pending_def queue_ok_def)
  moreover have "sched_shape (snd (take_pending i ?s))"
    using inv by (auto simp: sched_inv_defs take_pending_def set_new_def list_all_update)
  moreover have "flags_ok (snd (take_pending i ?s))"
    using inv q sch
    by (auto simp: sched_inv_defs take_pending_def tasks_def set_new_def nth_list_update split: if_splits)
  ultimately show "sched_inv (snd (take_pending i ?s))" by (simp add: sched_inv_def)
qed

definition mgr_inv :: "'an manager \<Rightarrow> bool" where
  "mgr_inv m \<longleftrightarrow> sched_inv (sched m) \<and> length (analyzers m) = length (pending (sched m))"

definition waits :: "'an manager \<Rightarrow> nat \<Rightarrow> address \<Rightarrow> bool" where
  "waits m i a \<longleftrightarrow> i < length (pending (sched m)) \<and> a \<in> addrs (pending (sched m) ! i)"

text \<open>An executed entry hands address \<open>a\<close> to the analyzer registered at position \<open>i\<close>.\<close>

definition hands_over :: "'an list \<Rightarrow> nat \<Rightarrow> address \<Rightarrow> 'an run_event \<Rightarrow> bool" where
  "hands_over ans i a e \<longleftrightarrow>
     (case e of (k, cmd, handed) \<Rightarrow> cmd = Task i \<and> (\<exists>S. handed = Some (ans ! i, S) \<and> a \<in> addrs S))"

lemma added_keeps:
  assumes "analyzers_behave env" "an_added env a p S s = (p', s')" "sched_inv s"
  shows "sched_inv s' \<and> pending_le s s'"
proof -
  have "(sched_call env)\<^sup>*\<^sup>* s s'" using assms(1,2) by (metis analyzers_behave_def snd_conv)
  then show ?thesis using sched_calls_keep assms(3) by blast
qed

lemma waits_mono:
  "pending_le s (sched m') \<Longrightarrow> i < length (pending s) \<Longrightarrow> a \<in> addrs (pending s ! i) \<Longrightarrow> waits m' i a"
  by (auto simp: waits_def pending_le_def)

lemma exec_command_ok:
  assumes inv: "sched_inv s0" and q: "queue s0 = (k, cmd) # q'" and behave: "analyzers_behave env"
    and s: "s = s0\<lparr>queue := q', active_priority := b\<rparr>"
    and run: "exec_command env ans cmd p s = ((p', s'), handed)"
  shows "sched_inv s' \<and> length (pending s') = length (pending s0)
    \<and> (\<forall>i. cmd \<noteq> Task i \<longrightarrow> i < length (pending s0) \<longrightarrow> addrs (pending s0 ! i) \<subseteq> addrs (pending s' ! i))
    \<and> (\<forall>i. cmd = Task i \<longrightarrow> handed = Some (ans ! i, pending s0 ! i))"
proof (cases cmd)
  case (Task i)
  let ?t = "snd (take_pending i s)"
  have facts: "i < length (pending s0)" "pending s0 ! i \<noteq> []" "sched_inv ?t"
    using pop_task_inv(1,2) [OF inv, of k i q'] pop_task_inv(3) [OF inv, of k i q' b] q Task s by simp_all
  have "an_added env (ans ! i) p (pending s0 ! i) ?t = (p', s')" "handed = Some (ans ! i, pending s0 ! i)"
    using run Task facts(2) s by (auto simp: exec_command_def take_pending_def set_is_empty_def)
  with added_keeps [OF behave _ facts(3)] have "sched_inv s' \<and> pending_le ?t s'" by blast
  with Task s facts \<open>handed = _\<close> show ?thesis
    by (fastforce simp: pending_le_def take_pending_def nth_list_update split: if_splits)
next
  case (Disassemble S)
  have "sched_inv s" using pop_command_inv [OF inv q] Disassemble s by simp
  then have "sched_inv s' \<and> pending_le s s'"
    using run Disassemble added_keeps [OF behave]
    by (auto simp: exec_command_def split: option.splits)
  with s Disassemble show ?thesis by (auto simp: pending_le_def)
next
  case (CreateFunction S)
  have "sched_inv s" using pop_command_inv [OF inv q] CreateFunction s by simp
  then have "sched_inv s' \<and> pending_le s s'"
    using run CreateFunction added_keeps [OF behave] by (auto simp: exec_command_def Let_def)
  with s CreateFunction show ?thesis by (auto simp: pending_le_def)
next
  case (OneShot c S)
  have "sched_inv s" using pop_command_inv [OF inv q] OneShot s by simp
  then have "sched_inv s' \<and> pending_le s s'"
    using run OneShot added_keeps [OF behave] by (auto simp: exec_command_def)
  with s OneShot show ?thesis by (auto simp: pending_le_def)
qed

lemma run_stepE:
  assumes "mgr_inv m" "run_step env p m = Some (p', m', e)"
  obtains k cmd q' s' h where "queue (sched m) = (k, cmd) # q'"
    "exec_command env (analyzers m) cmd p
       ((sched m)\<lparr>queue := q', active_priority := Some (fst k)\<rparr>) = ((p', s'), h)"
    "m' = m\<lparr>sched := s'\<rparr>" "e = (k, cmd, h)"
proof -
  obtain k cmd where first: "btree_first (queue (sched m)) = Some (k, cmd)"
    using assms(2) by (auto simp: run_step_def split: option.splits)
  obtain q' where q: "queue (sched m) = (k, cmd) # q'" "btree_remove k (queue (sched m)) = q'"
    using pop_least [OF _ first] assms(1) by (auto simp: mgr_inv_def)
  show thesis
    using assms(2) that [OF q(1)] unfolding run_step_def first
    by (auto simp only: q(2) Let_def option.case prod.case split: prod.splits)
qed

lemma run_step_ok:
  assumes inv: "mgr_inv m" and behave: "analyzers_behave env"
    and step: "run_step env p m = Some (p', m', e)"
  shows "mgr_inv m'" "analyzers m' = analyzers m"
    "waits m i a \<Longrightarrow> waits m' i a \<or> hands_over (analyzers m) i a e"
proof -
  obtain k cmd q' s' handed where q: "queue (sched m) = (k, cmd) # q'"
    and x: "exec_command env (analyzers m) cmd p
        ((sched m)\<lparr>queue := q', active_priority := Some (fst k)\<rparr>) = ((p', s'), handed)"
    and m': "m' = m\<lparr>sched := s'\<rparr>" and e: "e = (k, cmd, handed)"
    using run_stepE [OF inv step] by metis
  have ok: "sched_inv s' \<and> length (pending s') = length (pending (sched m))"
    "\<And>i. cmd \<noteq> Task i \<Longrightarrow> i < length (pending (sched m))
       \<Longrightarrow> addrs (pending (sched m) ! i) \<subseteq> addrs (pending s' ! i)"
    "\<And>i. cmd = Task i \<Longrightarrow> handed = Some (analyzers m ! i, pending (sched m) ! i)"
    using exec_command_ok [OF _ q behave refl x] inv by (auto simp: mgr_inv_def)
  show "mgr_inv m'" using ok(1) inv m' by (simp add: mgr_inv_def)
  show "analyzers m' = analyzers m" using m' by simp
  show "waits m i a \<Longrightarrow> waits m' i a \<or> hands_over (analyzers m) i a e"
    using ok m' e by (auto simp: waits_def hands_over_def)
qed

subsection \<open>The fixpoint\<close>

lemma drained:
  assumes "mgr_inv m" "run_step env p m = None"
  shows "queue (sched m) = []" "list_all (\<lambda>S. S = []) (pending (sched m))"
proof -
  show q: "queue (sched m) = []"
    using assms(2) by (cases "queue (sched m)")
      (auto simp: run_step_def btree_first_def Let_def split: prod.splits)
  show "list_all (\<lambda>S. S = []) (pending (sched m))"
    using assms(1) q by (force simp: mgr_inv_def sched_inv_defs tasks_def list_all_length)
qed

lemma run_fuel_ok:
  assumes "run_fuel n env p m = Some (p', m', es)" "mgr_inv m" "analyzers_behave env"
  shows "mgr_inv m' \<and> queue (sched m') = [] \<and> list_all (\<lambda>S. S = []) (pending (sched m'))
    \<and> (\<forall>i a. waits m i a \<longrightarrow> (\<exists>e \<in> set es. hands_over (analyzers m) i a e))"
  using assms
proof (induction n arbitrary: p m p' m' es)
  case (Suc n)
  show ?case
  proof (cases "run_step env p m")
    case None
    have "mgr_inv (m\<lparr>sched := (sched m)\<lparr>active_priority := None\<rparr>\<rparr>)"
      using Suc.prems(2) by (simp add: mgr_inv_def sched_inv_defs tasks_def)
    moreover have "\<not> waits m i a" for i a
      using drained [OF Suc.prems(2) None] by (auto simp: waits_def list_all_length addrs_def)
    ultimately show ?thesis
      using drained [OF Suc.prems(2) None] None Suc.prems(1) by auto
  next
    case (Some r)
    obtain p1 m1 e where r: "r = (p1, m1, e)" by (cases r)
    note step = run_step_ok [OF Suc.prems(2,3) Some [unfolded r]]
    obtain es1 where rest: "run_fuel n env p1 m1 = Some (p', m', es1)" and es: "es = e # es1"
      using Suc.prems(1) Some r by (auto split: option.splits prod.splits)
    have IH: "mgr_inv m'" "queue (sched m') = []" "list_all (\<lambda>S. S = []) (pending (sched m'))"
      "\<And>i a. waits m1 i a \<Longrightarrow> \<exists>e \<in> set es1. hands_over (analyzers m) i a e"
      using Suc.IH [OF rest step(1) Suc.prems(3)] step(2) by auto
    show ?thesis using IH step(3) es by auto
  qed
qed simp

subsection \<open>Termination\<close>

text \<open>
  Nothing in the loop bounds the work analyzers may create.  It ends when the analyzers' progress
  pays for it: \<open>pot\<close> measures what is left to discover in the program, and an \<open>added\<close> that queues
  \<open>k\<close> entries lowers it by \<open>k\<close> at least.
\<close>

definition pays :: "('an, 'p) analyzer_env \<Rightarrow> ('p \<Rightarrow> nat) \<Rightarrow> bool" where
  "pays env pot \<longleftrightarrow> (\<forall>a p S s. pot (fst (an_added env a p S s)) + length (queue (snd (an_added env a p S s)))
     \<le> pot p + length (queue s))"

lemma pays_added:
  "pays env pot \<Longrightarrow> an_added env a p S s = (p', s') \<Longrightarrow> pot p' + length (queue s') \<le> pot p + length (queue s)"
  unfolding pays_def by (metis fst_conv snd_conv)

lemma exec_command_pays:
  assumes "pays env pot" "exec_command env ans cmd p s = ((p', s'), h)"
  shows "pot p' + length (queue s') \<le> pot p + length (queue s)"
  using assms(2) pays_added [OF assms(1)]
  by (fastforce simp: exec_command_def take_pending_def Let_def
      split: command.splits option.splits if_splits)

lemma run_step_pays:
  assumes "pays env pot" "mgr_inv m" "run_step env p m = Some (p', m', e)"
  shows "pot p' + length (queue (sched m')) < pot p + length (queue (sched m))"
proof -
  obtain k cmd q' s' h where q: "queue (sched m) = (k, cmd) # q'"
    and x: "exec_command env (analyzers m) cmd p
        ((sched m)\<lparr>queue := q', active_priority := Some (fst k)\<rparr>) = ((p', s'), h)"
    and "m' = m\<lparr>sched := s'\<rparr>"
    using run_stepE [OF assms(2,3)] by metis
  then show ?thesis using exec_command_pays [OF assms(1) x] by simp
qed

lemma run_fuel_enough:
  assumes "pays env pot" "analyzers_behave env" "mgr_inv m" "pot p + length (queue (sched m)) < n"
  shows "\<exists>r. run_fuel n env p m = Some r"
  using assms(3,4)
proof (induction n arbitrary: p m)
  case (Suc n)
  show ?case
  proof (cases "run_step env p m")
    case (Some r)
    obtain p1 m1 e where r: "r = (p1, m1, e)" by (cases r)
    have "mgr_inv m1" by (rule run_step_ok(1) [OF Suc.prems(1) assms(2) Some [unfolded r]])
    moreover have "pot p1 + length (queue (sched m1)) < n"
      using run_step_pays [OF assms(1) Suc.prems(1) Some [unfolded r]] Suc.prems(2) by simp
    ultimately obtain x where "run_fuel n env p1 m1 = Some x" using Suc.IH by blast
    then show ?thesis using Some r by (auto split: prod.splits)
  qed simp
qed simp

subsection \<open>Order\<close>

lemma insert_at_front:
  "\<forall>e \<in> set m. lt k (fst e) \<Longrightarrow> btree_insert lt k v m = (k, v) # m"
  by (cases m) auto

lemma run_step_event:
  assumes "mgr_inv m" "run_step env p m = Some (p', m', (k, cmd, h))"
  shows "(k, cmd) \<in> set (queue (sched m))"
    "e \<in> set (queue (sched m)) \<Longrightarrow> e = (k, cmd) \<or> queue_less k (fst e)"
proof -
  obtain q' where q: "queue (sched m) = (k, cmd) # q'"
    using run_stepE [OF assms] by (metis prod.inject)
  then show "(k, cmd) \<in> set (queue (sched m))" by simp
  have "btree_sorted queue_less (queue (sched m))"
    using assms(1) by (simp add: mgr_inv_def sched_inv_defs)
  then show "e \<in> set (queue (sched m)) \<Longrightarrow> e = (k, cmd) \<or> queue_less k (fst e)"
    using qk.first_least [of "queue (sched m)" k cmd e] q by (simp add: btree_first_def)
qed

lemma run_step_task:
  assumes "mgr_inv m" "analyzers_behave env" "run_step env p m = Some (p', m', (k, Task i, h))"
  shows "\<exists>S. h = Some (analyzers m ! i, S) \<and> addrs S \<noteq> {}"
proof -
  obtain q' s' where q: "queue (sched m) = (k, Task i) # q'"
    and x: "exec_command env (analyzers m) (Task i) p
        ((sched m)\<lparr>queue := q', active_priority := Some (fst k)\<rparr>) = ((p', s'), h)"
    using run_stepE [OF assms(1,3)] by (metis prod.inject)
  have inv: "sched_inv (sched m)" using assms(1) by (simp add: mgr_inv_def)
  have i: "i < length (pending (sched m))" "pending (sched m) ! i \<noteq> []"
    using pop_task_inv(1,2) [OF inv q] by auto
  moreover have "canonical (pending (sched m) ! i)"
    using i inv by (auto simp: sched_inv_defs list_all_length)
  ultimately have "addrs (pending (sched m) ! i) \<noteq> {}"
    using aset.is_empty_den by (fastforce simp: set_is_empty_def)
  then show ?thesis using exec_command_ok [OF inv q assms(2) refl x] by simp
qed

subsection \<open>Reachable managers\<close>

text \<open>
  Every state of a manager: a new one, after registering an analyzer, after a call of a scheduling
  method from outside, after one round of the loop.
\<close>

inductive mgr_reach :: "('an, 'p) analyzer_env \<Rightarrow> 'an manager \<Rightarrow> bool" for env where
  reach_new: "mgr_reach env manager_new"
| reach_add: "mgr_reach env m \<Longrightarrow> mgr_reach env (add_analyzer env a p m)"
| reach_call: "mgr_reach env m \<Longrightarrow> sched_call env (sched m) s \<Longrightarrow> mgr_reach env (m\<lparr>sched := s\<rparr>)"
| reach_run: "mgr_reach env m \<Longrightarrow> run_step env p m = Some (p', m', e) \<Longrightarrow> mgr_reach env m'"

lemma add_analyzer_inv: "mgr_inv m \<Longrightarrow> mgr_inv (add_analyzer env a p m)"
  using register_inv [of "sched m"]
  by (simp add: mgr_inv_def add_analyzer_def register_def)

lemma sched_call_mgr_inv: "mgr_inv m \<Longrightarrow> sched_call env (sched m) s \<Longrightarrow> mgr_inv (m\<lparr>sched := s\<rparr>)"
  using sched_call_inv sched_call_grows by (fastforce simp: mgr_inv_def pending_le_def)

subsection \<open>A concrete analysis\<close>

text \<open>
  Analyzer \<open>0\<close> reacts to bytes and asks for the disassembly of four addresses while the program (here
  the number of requests still allowed) lets it; analyzer \<open>1\<close> is the disassembler.
\<close>

definition demo_added :: "nat \<Rightarrow> nat \<Rightarrow> address_set \<Rightarrow> nat scheduling \<Rightarrow> nat \<times> nat scheduling" where
  "demo_added a p S s =
     (if a = 0 \<and> 0 < p then (p - 1, disassemble_at [range_new 0 4 7] 5 s) else (p, s))"

definition demo_env :: "(nat, nat) analyzer_env" where
  "demo_env = \<lparr>an_name = (\<lambda>a. ''demo''), an_type = (\<lambda>a. Byte), an_priority = (\<lambda>a. 100),
     an_can_analyze = (\<lambda>a p. True), an_added = demo_added, disassembler_for = (\<lambda>p. Some 1),
     function_creator_for = (\<lambda>p. 2), disabled_analyzers = (\<lambda>p. None)\<rparr>"

definition demo_manager :: "nat manager" where
  "demo_manager = (let m = add_analyzer demo_env 0 0 manager_new
     in m\<lparr>sched := block_added [range_new 0 16 31] (sched m)\<rparr>)"

lemma demo_manager_val:
  "demo_manager = \<lparr>analyzers = [0], sched = \<lparr>queue = [((100, 0), Task 0)], seq = 1,
     active_priority = None, pending = [[range_new 0 16 31]], scheduled = [True], prio = [100],
     ty = [Byte]\<rparr>\<rparr>"
  by code_simp

lemma canonical_single: "a \<le> b \<Longrightarrow> canonical [range_new s a b]"
  by (simp add: canonical_def proper_def range_new_def)

lemma demo_behave: "analyzers_behave demo_env"
proof -
  have "sched_call demo_env s (disassemble_at [range_new 0 4 7] 5 s)" for s
    by (rule call_disassemble_at) (simp add: canonical_single)
  then show ?thesis
    by (auto simp: analyzers_behave_def demo_env_def demo_added_def)
qed

lemma demo_reach: "mgr_reach demo_env demo_manager"
  unfolding demo_manager_def Let_def
  by (intro reach_call reach_add reach_new call_block) (simp add: canonical_single)

lemma demo_inv: "mgr_inv demo_manager"
  unfolding demo_manager_val
  by (simp add: mgr_inv_def sched_inv_defs tasks_def btree_sorted_def canonical_single)

lemma length_btree_insert: "length (btree_insert lt k v m) \<le> Suc (length m)"
  by (induction m) auto

lemma demo_pays: "pays demo_env id"
proof -
  have "p - 1 + length (queue (push 5 c s)) \<le> p + length (queue s)" if "0 < p" for p c and s :: "nat scheduling"
    using length_btree_insert [of queue_less "(5, seq s)" c "queue s"] that
    by (simp add: push_def)
  then show ?thesis
    by (simp add: pays_def demo_env_def demo_added_def disassemble_at_def)
qed

lemma demo_step:
  "run_step demo_env 0 demo_manager = Some (0, demo_manager\<lparr>sched := \<lparr>queue = [], seq = 1,
     active_priority = Some 100, pending = [[]], scheduled = [False], prio = [100],
     ty = [Byte]\<rparr>\<rparr>, ((100, 0), Task 0, Some (0, [range_new 0 16 31])))"
  by code_simp

lemma demo_run: "map_option fst (run_fuel 3 demo_env 1 demo_manager) = Some 0"
  by code_simp

subsection \<open>Properties\<close>

text \<open>
  (C8) Every manager a program can build keeps the scheduling invariant: the queue is in key order,
  the accumulators are canonical address sets, an analyzer has exactly one task queued when it has
  work waiting and none when it has not, and no task names an unregistered analyzer.
\<close>

theorem manager_invariant:
  assumes "mgr_reach env m" "analyzers_behave env"
  shows "mgr_inv m"
  using assms
proof (induction rule: mgr_reach.induct)
  case reach_new
  then show ?case by (simp add: mgr_inv_def manager_new_def default_inv) (simp add: sched_default_def)
next
  case (reach_add m a p)
  then show ?case by (simp add: add_analyzer_inv)
next
  case (reach_call m s)
  then show ?case by (simp add: sched_call_mgr_inv)
next
  case (reach_run m p p' m' e)
  then show ?case by (auto intro: run_step_ok(1))
qed

theorem manager_invariant_witness: "mgr_inv demo_manager"
  by (rule manager_invariant [OF demo_reach demo_behave])

text \<open>
  (C6) When the loop of \<open>run\<close> ends, the queue is empty, no analyzer has work waiting, and every
  address that was waiting for an analyzer at the start was handed to that analyzer by one of
  its executed tasks.
\<close>

theorem run_fixpoint:
  assumes "run_fuel n env p m = Some (p', m', es)" "mgr_inv m" "analyzers_behave env"
  shows "queue (sched m') = [] \<and> list_all set_is_empty (pending (sched m')) \<and> mgr_inv m'
    \<and> (waits m i a \<longrightarrow> (\<exists>e \<in> set es. hands_over (analyzers m) i a e))"
  using run_fuel_ok [OF assms] by (auto simp: set_is_empty_def list_all_iff)

theorem run_fixpoint_witness:
  "\<exists>m' es. run_fuel 3 demo_env 1 demo_manager = Some (0, m', es)
    \<and> (\<exists>e \<in> set es. hands_over [0] 0 \<lparr>addr_space = 0, addr_offset = 20\<rparr> e)"
proof -
  obtain m' es where r: "run_fuel 3 demo_env 1 demo_manager = Some (0, m', es)"
    using demo_run by auto
  have "waits demo_manager 0 \<lparr>addr_space = 0, addr_offset = 20\<rparr>"
    by (simp add: waits_def demo_manager_val addrs_def range_addrs_def range_new_def contains_offset_def)
  then show ?thesis
    using run_fixpoint [OF r demo_inv demo_behave, of 0] r by (auto simp: demo_manager_val)
qed







text \<open>
  A notification of kind \<open>t\<close> adds the set to the accumulator of every analyzer of that kind,
  and no accumulator loses an address.
\<close>

theorem notify_reaches:
  assumes "sched_inv s" "canonical S" "i < length (pending s)"
  shows "(ty s ! i = t \<longrightarrow> addrs S \<subseteq> addrs (pending (notify t S s) ! i))
    \<and> addrs (pending s ! i) \<subseteq> addrs (pending (notify t S s) ! i)"
proof -
  have "addrs S \<subseteq> addrs (pending (notify t S s) ! i)" if "ty s ! i = t"
    unfolding notify_def using assms that
    by (intro notify_fold_reaches) (auto simp: sched_inv_defs)
  then show ?thesis using notify_grows [OF assms(1,2)] assms(3) by (auto simp: pending_le_def)
qed

theorem notify_reaches_witness:
  "addrs [range_new 0 64 65] \<subseteq> addrs (pending (notify Byte [range_new 0 64 65] (sched demo_manager)) ! 0)"
  using notify_reaches [of "sched demo_manager" "[range_new 0 64 65]" 0 Byte] demo_inv
  by (simp add: mgr_inv_def canonical_single) (simp add: demo_manager_val)

end
