(* ===== verification/Word_Mask.thy ===== *)
theory Word_Mask
  imports Mosura_Prelude
begin

text \<open>
  The bit helpers of \<^verbatim>\<open>decompile/nzmask.rs\<close> and \<^verbatim>\<open>decompile/circlerange.rs\<close>: byte-width masks, sign
  extension, most and least significant set bit, smearing, and the shifts of p-code that give zero
  once the count reaches the word.  Byte sizes are \<^verbatim>\<open>u32\<close> (here \<open>nat\<close>) in the former file and \<^verbatim>\<open>i32\<close>
  (here \<open>int\<close>) in the latter.
\<close>

subsection \<open>Counting bits\<close>

text \<open>\<^verbatim>\<open>u64::leading_zeros\<close> and \<^verbatim>\<open>u64::trailing_zeros\<close>.\<close>

definition leading_zeros :: "u64 \<Rightarrow> nat" where
  "leading_zeros x = length (takeWhile (\<lambda>i. \<not> bit x i) (rev [0..<64]))"

definition trailing_zeros :: "u64 \<Rightarrow> nat" where
  "trailing_zeros x = length (takeWhile (\<lambda>i. \<not> bit x i) [0..<64])"

subsection \<open>\<open>nzmask.rs\<close>\<close>

definition calc_mask :: "nat \<Rightarrow> u64" where
  "calc_mask sz = (if 8 \<le> sz then - 1 else shl64 1 (8 * sz) - 1)"

definition pcode_left :: "u64 \<Rightarrow> nat \<Rightarrow> u64" where
  "pcode_left val sa = (if 64 \<le> sa then 0 else shl64 val sa)"

definition pcode_right :: "u64 \<Rightarrow> nat \<Rightarrow> u64" where
  "pcode_right val sa = (if 64 \<le> sa then 0 else shr64 val sa)"

function coveringmask_loop :: "nat \<Rightarrow> u64 \<Rightarrow> u64" where
  "coveringmask_loop sz val =
     (if 0 < sz \<and> sz < 64 then coveringmask_loop (2 * sz) (val OR shr64 val sz) else val)"
  by auto
termination
  by (relation "measure (\<lambda>(sz, val). 64 - sz)") auto

definition coveringmask :: "u64 \<Rightarrow> u64" where
  "coveringmask val = coveringmask_loop 1 val"

definition minimalmask :: "u64 \<Rightarrow> u64" where
  "minimalmask val =
     (if val > 0xffffffff then - 1
      else if val > 0xffff then 0xffffffff
      else if val > 0xff then 0xffff
      else 0xff)"

definition mostsigbit_set :: "u64 \<Rightarrow> int" where
  "mostsigbit_set val = (if val = 0 then - 1 else 63 - int (leading_zeros val))"

definition leastsigbit_set :: "u64 \<Rightarrow> int" where
  "leastsigbit_set val = (if val = 0 then - 1 else int (trailing_zeros val))"

definition signbit_negative :: "u64 \<Rightarrow> nat \<Rightarrow> bool" where
  "signbit_negative val sz =
     (if sz = 0 then False
      else let m = (if 8 * (sz - 1) < 64 then shl64 0x80 (8 * (sz - 1)) else 0)
           in val AND m \<noteq> 0)"

definition sign_extend_mask :: "u64 \<Rightarrow> nat \<Rightarrow> nat \<Rightarrow> u64" where
  "sign_extend_mask inmask sizein sizeout =
     (let si = min sizein 8; so = min sizeout 8
      in if so \<le> si then inmask AND calc_mask so
         else let sval = shl64 inmask ((8 - si) * 8);
                  res = sar64 sval ((so - si) * 8)
              in shr64 res ((8 - so) * 8))"

subsection \<open>\<open>circlerange.rs\<close>\<close>

text \<open>Shift counts computed in \<^verbatim>\<open>i32\<close> are taken modulo 64.\<close>

definition cr_calc_mask :: "int \<Rightarrow> u64" where
  "cr_calc_mask sz = calc_mask (nat (max sz 0))"

definition count_leading_zeros :: "u64 \<Rightarrow> int" where
  "count_leading_zeros val = int (leading_zeros val)"

definition sign_extend :: "u64 \<Rightarrow> int \<Rightarrow> int \<Rightarrow> u64" where
  "sign_extend inp sizein sizeout =
     (let si = min sizein 8; so = min sizeout 8;
          sval = shl64 inp (nat (((8 - si) * 8) mod 64));
          res = sar64 sval (nat (((so - si) * 8) mod 64))
      in shr64 res (nat (((8 - so) * 8) mod 64)))"

definition sign_extend_bit :: "u64 \<Rightarrow> int \<Rightarrow> u64" where
  "sign_extend_bit val b =
     (if 63 \<le> b then val
      else let m = shl64 (- 1) (nat (b mod 64))
           in if sar64 val (nat (b mod 64)) AND 1 \<noteq> 0 then val OR m else val AND NOT m)"

text \<open>
  The loop of \<open>bit_transitions\<close>: \<open>n\<close> rounds are left, \<open>val\<close> has been shifted down, \<open>lst\<close> is the last
  bit seen and \<open>res\<close> the number of changes so far.
\<close>

fun bit_transitions_loop :: "nat \<Rightarrow> u64 \<Rightarrow> bool \<Rightarrow> nat \<Rightarrow> nat" where
  "bit_transitions_loop 0 val lst res = res"
| "bit_transitions_loop (Suc n) val lst res =
     (let val' = shr64 val 1;
          cur = bit val' 0;
          res' = (if cur \<noteq> lst then Suc res else res)
      in if val' = 0 then res' else bit_transitions_loop n val' cur res')"

definition bit_transitions :: "u64 \<Rightarrow> int \<Rightarrow> nat" where
  "bit_transitions val sz = bit_transitions_loop (nat (8 * sz - 1)) val (bit val 0) 0"

subsection \<open>Masks as numbers\<close>

lemma calc_mask_eq [mask_simps]: "calc_mask k = mask (8 * min k 8)"
  by (simp add: calc_mask_def min_def shl64_def mask_eq_exp_minus_1 push_bit_of_1)

lemma unat_and_mask [mask_simps]: "unat ((x :: u64) AND mask n) = unat x mod 2 ^ n"
  by (metis take_bit_eq_mask unsigned_take_bit_eq take_bit_eq_mod unsigned_of_nat)

lemma unat_of_nat64: "a < 18446744073709551616 \<Longrightarrow> unat (of_nat a :: u64) = a"
  by (simp add: unsigned_of_nat take_bit_eq_mod)

lemma unat_mask64: "n \<le> 64 \<Longrightarrow> unat (mask n :: u64) = 2 ^ n - 1"
proof -
  assume "n \<le> 64"
  moreover have "(mask n :: u64) = of_nat (mask n)" by (simp add: of_nat_mask_eq)
  moreover have "(2 :: nat) ^ n \<le> 2 ^ 64" using calculation(1) by (intro power_increasing) auto
  ultimately show ?thesis
    by (simp only: unat_of_nat64 mask_eq_exp_minus_1) (simp add: unat_of_nat64 del: of_nat_diff)
qed

lemma le_mask_iff: "n \<le> 64 \<Longrightarrow> (x :: u64) \<le> mask n \<longleftrightarrow> unat x < 2 ^ n"
  using zero_less_power [of "2 :: nat" n] unfolding word_le_nat_alt by (simp only: unat_mask64) linarith

lemma unat_step: "k < 31 \<Longrightarrow> unat (word_of_int (2 ^ k) :: u64) = 2 ^ k"
proof -
  assume "k < 31"
  then have "(2 :: nat) ^ k < 2 ^ 64" by (intro power_strict_increasing) auto
  moreover have "(word_of_int (2 ^ k) :: u64) = of_nat (2 ^ k)" by simp
  ultimately show ?thesis using unat_of_nat64 [of "2 ^ k"] by simp
qed

lemma mod_pow_mod: "n \<le> 64 \<Longrightarrow> (a mod 18446744073709551616) mod 2 ^ n = a mod 2 ^ n" for a :: nat
proof -
  assume "n \<le> 64"
  then have "(2 :: nat) ^ n dvd 2 ^ 64" by (rule le_imp_power_dvd)
  then show ?thesis by (simp add: mod_mod_cancel)
qed

lemma unat_add_mask: "n \<le> 64 \<Longrightarrow> unat ((a + b :: u64) AND mask n) = (unat a + unat b) mod 2 ^ n"
  by (simp add: unat_and_mask unat_word_ariths mod_pow_mod)

lemma uint_and_mask: "uint ((x :: u64) AND mask n) = uint x mod 2 ^ n"
  by (metis take_bit_eq_mask unsigned_take_bit_eq take_bit_eq_mod)

lemma imod_pow_mod: "n \<le> 64 \<Longrightarrow> (a mod 18446744073709551616) mod 2 ^ n = a mod 2 ^ n" for a :: int
proof -
  assume "n \<le> 64"
  then have "(2 :: int) ^ n dvd 2 ^ 64" by (rule le_imp_power_dvd)
  then show ?thesis by (simp add: mod_mod_cancel)
qed

lemma uint_masked:
  assumes "n \<le> 64"
  shows "uint ((a + b :: u64) AND mask n) = (uint a + uint b) mod 2 ^ n"
    "uint ((a - b :: u64) AND mask n) = (uint a - uint b) mod 2 ^ n"
    "uint ((a * b :: u64) AND mask n) = (uint a * uint b) mod 2 ^ n"
  using assms by (simp_all add: uint_and_mask uint_word_ariths imod_pow_mod)

lemma ule_mask_iff: "n \<le> 64 \<Longrightarrow> (x :: u64) \<le> mask n \<longleftrightarrow> uint x < 2 ^ n"
proof -
  assume "n \<le> 64"
  have "unat x < 2 ^ n \<longleftrightarrow> int (unat x) < int (2 ^ n)" by (simp only: of_nat_less_iff)
  then show ?thesis using \<open>n \<le> 64\<close> by (simp only: le_mask_iff) simp
qed


lemma uint_step: "k < 31 \<Longrightarrow> uint (word_of_int (2 ^ k) :: u64) = 2 ^ k"
  using unat_step [of k] by (metis of_nat_numeral of_nat_power uint_nat)

lemma uint_pow: "k < 31 \<Longrightarrow> uint (2 ^ k :: u64) = 2 ^ k"
  using uint_step [of k] by simp

lemma mod_word_eq_iff: "(a :: u64) mod s = b mod s \<longleftrightarrow> uint a mod uint s = uint b mod uint s"
  by (simp add: word_uint_eq_iff uint_mod)


lemma word_mod_mod [simp]: "(a :: u64) mod s mod s = a mod s"
  by (simp add: word_uint_eq_iff uint_mod)

lemma word_mod_le: "(a :: u64) mod s \<le> a"
  by (simp add: word_le_def uint_mod zmod_le_nonneg_dividend)


lemma masked_le: "n \<le> 64 \<Longrightarrow> (x :: u64) AND mask n \<le> mask n"
  by (simp add: ule_mask_iff uint_and_mask)

lemma uint_pow64: "uint (2 ^ k :: u64) = 2 ^ k" if "k < 64"
proof -
  have "(2 :: int) ^ k < 2 ^ 64" using that by (rule power_strict_increasing) simp
  then have "uint (word_of_int (2 ^ k) :: u64) = 2 ^ k" by (simp only: uint_word_of_int) simp
  then show ?thesis by simp
qed

lemma le_div_iff: "A * S \<le> X \<longleftrightarrow> A \<le> X div S" if "0 < S" for A S X :: int
proof
  assume "A * S \<le> X"
  then show "A \<le> X div S" using zdiv_mono1 [of "A * S" X S] that by simp
next
  assume "A \<le> X div S"
  then have "A * S \<le> X div S * S" using that by (intro mult_right_mono) auto
  also have "\<dots> \<le> X" using that pos_mod_sign [of S X] by (simp add: minus_mod_eq_div_mult [symmetric])
  finally show "A * S \<le> X" .
qed

lemma uint_max: "n \<le> 64 \<Longrightarrow> uint (mask n :: u64) = 2 ^ n - 1"
  using unat_mask64 [of n] by (simp add: uint_nat of_nat_diff)

lemma uint_shr64: "n < 64 \<Longrightarrow> uint (shr64 w n) = uint w div 2 ^ n"
  by (simp add: shr64_def drop_bit_eq_div uint_div_distrib uint_pow64)

lemma uint_shl64_mask: "n < 64 \<Longrightarrow> b \<le> 64 \<Longrightarrow> uint (shl64 w n AND mask b) = (uint w * 2 ^ n) mod 2 ^ b"
  by (simp add: shl64_def push_bit_eq_mult uint_masked uint_pow64 mult.commute)

end
