(* ===== verification/Pcode_Op.thy ===== *)
theory Pcode_Op
  imports Mosura_Prelude
begin

text \<open>
  \<^verbatim>\<open>decompile/opcode.rs\<close>: the p-code operations with their numbers and names, the two
  classifications the block builder uses, and the table of complementary comparisons.
\<close>

datatype (plugins only: ) opcode =
    Copy | Load | Store | Branch | Cbranch | Branchind | Call | Callind | Callother | Return
     | IntEqual | IntNotequal | IntSless | IntSlessequal | IntLess | IntLessequal | IntZext
     | IntSext | IntAdd | IntSub | IntCarry | IntScarry | IntSborrow | Int2comp | IntNegate | IntXor
     | IntAnd | IntOr | IntLeft | IntRight | IntSright | IntMult | IntDiv | IntSdiv | IntRem
     | IntSrem | BoolNegate | BoolXor | BoolAnd | BoolOr | FloatEqual | FloatNotequal | FloatLess
     | FloatLessequal | FloatNan | FloatAdd | FloatDiv | FloatMult | FloatSub | FloatNeg | FloatAbs
     | FloatSqrt | FloatInt2float | FloatFloat2float | FloatTrunc | FloatCeil | FloatFloor
     | FloatRound | Multiequal | Indirect | Piece | Subpiece | Cast | Ptradd | Ptrsub | Segmentop
     | Cpoolref | New | Insert | Extract | Popcount | Lzcount

text \<open>The enum's discriminants (\<^verbatim>\<open>as u32\<close>).\<close>

primrec op_number :: "opcode \<Rightarrow> u32" where
  "op_number Copy = 1"
| "op_number Load = 2"
| "op_number Store = 3"
| "op_number Branch = 4"
| "op_number Cbranch = 5"
| "op_number Branchind = 6"
| "op_number Call = 7"
| "op_number Callind = 8"
| "op_number Callother = 9"
| "op_number Return = 10"
| "op_number IntEqual = 11"
| "op_number IntNotequal = 12"
| "op_number IntSless = 13"
| "op_number IntSlessequal = 14"
| "op_number IntLess = 15"
| "op_number IntLessequal = 16"
| "op_number IntZext = 17"
| "op_number IntSext = 18"
| "op_number IntAdd = 19"
| "op_number IntSub = 20"
| "op_number IntCarry = 21"
| "op_number IntScarry = 22"
| "op_number IntSborrow = 23"
| "op_number Int2comp = 24"
| "op_number IntNegate = 25"
| "op_number IntXor = 26"
| "op_number IntAnd = 27"
| "op_number IntOr = 28"
| "op_number IntLeft = 29"
| "op_number IntRight = 30"
| "op_number IntSright = 31"
| "op_number IntMult = 32"
| "op_number IntDiv = 33"
| "op_number IntSdiv = 34"
| "op_number IntRem = 35"
| "op_number IntSrem = 36"
| "op_number BoolNegate = 37"
| "op_number BoolXor = 38"
| "op_number BoolAnd = 39"
| "op_number BoolOr = 40"
| "op_number FloatEqual = 41"
| "op_number FloatNotequal = 42"
| "op_number FloatLess = 43"
| "op_number FloatLessequal = 44"
| "op_number FloatNan = 46"
| "op_number FloatAdd = 47"
| "op_number FloatDiv = 48"
| "op_number FloatMult = 49"
| "op_number FloatSub = 50"
| "op_number FloatNeg = 51"
| "op_number FloatAbs = 52"
| "op_number FloatSqrt = 53"
| "op_number FloatInt2float = 54"
| "op_number FloatFloat2float = 55"
| "op_number FloatTrunc = 56"
| "op_number FloatCeil = 57"
| "op_number FloatFloor = 58"
| "op_number FloatRound = 59"
| "op_number Multiequal = 60"
| "op_number Indirect = 61"
| "op_number Piece = 62"
| "op_number Subpiece = 63"
| "op_number Cast = 64"
| "op_number Ptradd = 65"
| "op_number Ptrsub = 66"
| "op_number Segmentop = 67"
| "op_number Cpoolref = 68"
| "op_number New = 69"
| "op_number Insert = 70"
| "op_number Extract = 71"
| "op_number Popcount = 72"
| "op_number Lzcount = 73"

definition op_table :: "(u32 \<times> opcode) list" where
  "op_table = [
    (1, Copy), (2, Load), (3, Store), (4, Branch), (5, Cbranch), (6, Branchind), (7, Call)
    , (8, Callind), (9, Callother), (10, Return), (11, IntEqual), (12, IntNotequal), (13, IntSless)
    , (14, IntSlessequal), (15, IntLess), (16, IntLessequal), (17, IntZext), (18, IntSext)
    , (19, IntAdd), (20, IntSub), (21, IntCarry), (22, IntScarry), (23, IntSborrow), (24, Int2comp)
    , (25, IntNegate), (26, IntXor), (27, IntAnd), (28, IntOr), (29, IntLeft), (30, IntRight)
    , (31, IntSright), (32, IntMult), (33, IntDiv), (34, IntSdiv), (35, IntRem), (36, IntSrem)
    , (37, BoolNegate), (38, BoolXor), (39, BoolAnd), (40, BoolOr), (41, FloatEqual)
    , (42, FloatNotequal), (43, FloatLess), (44, FloatLessequal), (46, FloatNan), (47, FloatAdd)
    , (48, FloatDiv), (49, FloatMult), (50, FloatSub), (51, FloatNeg), (52, FloatAbs)
    , (53, FloatSqrt), (54, FloatInt2float), (55, FloatFloat2float), (56, FloatTrunc)
    , (57, FloatCeil), (58, FloatFloor), (59, FloatRound), (60, Multiequal), (61, Indirect)
    , (62, Piece), (63, Subpiece), (64, Cast), (65, Ptradd), (66, Ptrsub), (67, Segmentop)
    , (68, Cpoolref), (69, New), (70, Insert), (71, Extract), (72, Popcount), (73, Lzcount)]"

definition from_u32 :: "u32 \<Rightarrow> opcode option" where
  "from_u32 n = map_of op_table n"

primrec op_name :: "opcode \<Rightarrow> string" where
  "op_name Copy = ''COPY''"
| "op_name Load = ''LOAD''"
| "op_name Store = ''STORE''"
| "op_name Branch = ''BRANCH''"
| "op_name Cbranch = ''CBRANCH''"
| "op_name Branchind = ''BRANCHIND''"
| "op_name Call = ''CALL''"
| "op_name Callind = ''CALLIND''"
| "op_name Callother = ''CALLOTHER''"
| "op_name Return = ''RETURN''"
| "op_name IntEqual = ''INT_EQUAL''"
| "op_name IntNotequal = ''INT_NOTEQUAL''"
| "op_name IntSless = ''INT_SLESS''"
| "op_name IntSlessequal = ''INT_SLESSEQUAL''"
| "op_name IntLess = ''INT_LESS''"
| "op_name IntLessequal = ''INT_LESSEQUAL''"
| "op_name IntZext = ''INT_ZEXT''"
| "op_name IntSext = ''INT_SEXT''"
| "op_name IntAdd = ''INT_ADD''"
| "op_name IntSub = ''INT_SUB''"
| "op_name IntCarry = ''INT_CARRY''"
| "op_name IntScarry = ''INT_SCARRY''"
| "op_name IntSborrow = ''INT_SBORROW''"
| "op_name Int2comp = ''INT_2COMP''"
| "op_name IntNegate = ''INT_NEGATE''"
| "op_name IntXor = ''INT_XOR''"
| "op_name IntAnd = ''INT_AND''"
| "op_name IntOr = ''INT_OR''"
| "op_name IntLeft = ''INT_LEFT''"
| "op_name IntRight = ''INT_RIGHT''"
| "op_name IntSright = ''INT_SRIGHT''"
| "op_name IntMult = ''INT_MULT''"
| "op_name IntDiv = ''INT_DIV''"
| "op_name IntSdiv = ''INT_SDIV''"
| "op_name IntRem = ''INT_REM''"
| "op_name IntSrem = ''INT_SREM''"
| "op_name BoolNegate = ''BOOL_NEGATE''"
| "op_name BoolXor = ''BOOL_XOR''"
| "op_name BoolAnd = ''BOOL_AND''"
| "op_name BoolOr = ''BOOL_OR''"
| "op_name FloatEqual = ''FLOAT_EQUAL''"
| "op_name FloatNotequal = ''FLOAT_NOTEQUAL''"
| "op_name FloatLess = ''FLOAT_LESS''"
| "op_name FloatLessequal = ''FLOAT_LESSEQUAL''"
| "op_name FloatNan = ''FLOAT_NAN''"
| "op_name FloatAdd = ''FLOAT_ADD''"
| "op_name FloatDiv = ''FLOAT_DIV''"
| "op_name FloatMult = ''FLOAT_MULT''"
| "op_name FloatSub = ''FLOAT_SUB''"
| "op_name FloatNeg = ''FLOAT_NEG''"
| "op_name FloatAbs = ''FLOAT_ABS''"
| "op_name FloatSqrt = ''FLOAT_SQRT''"
| "op_name FloatInt2float = ''FLOAT_INT2FLOAT''"
| "op_name FloatFloat2float = ''FLOAT_FLOAT2FLOAT''"
| "op_name FloatTrunc = ''FLOAT_TRUNC''"
| "op_name FloatCeil = ''FLOAT_CEIL''"
| "op_name FloatFloor = ''FLOAT_FLOOR''"
| "op_name FloatRound = ''FLOAT_ROUND''"
| "op_name Multiequal = ''MULTIEQUAL''"
| "op_name Indirect = ''INDIRECT''"
| "op_name Piece = ''PIECE''"
| "op_name Subpiece = ''SUBPIECE''"
| "op_name Cast = ''CAST''"
| "op_name Ptradd = ''PTRADD''"
| "op_name Ptrsub = ''PTRSUB''"
| "op_name Segmentop = ''SEGMENTOP''"
| "op_name Cpoolref = ''CPOOLREF''"
| "op_name New = ''NEW''"
| "op_name Insert = ''INSERT''"
| "op_name Extract = ''EXTRACT''"
| "op_name Popcount = ''POPCOUNT''"
| "op_name Lzcount = ''LZCOUNT''"

definition is_branch :: "opcode \<Rightarrow> bool" where
  "is_branch c \<longleftrightarrow> c \<in> {Branch, Cbranch, Branchind}"

definition terminates_block :: "opcode \<Rightarrow> bool" where
  "terminates_block c \<longleftrightarrow> c \<in> {Branch, Cbranch, Branchind, Return}"

definition get_booleanflip :: "opcode \<Rightarrow> (opcode \<times> bool) option" where
  "get_booleanflip opc =
     (case opc of
        IntEqual \<Rightarrow> Some (IntNotequal, False)
      | IntNotequal \<Rightarrow> Some (IntEqual, False)
      | IntSless \<Rightarrow> Some (IntSlessequal, True)
      | IntSlessequal \<Rightarrow> Some (IntSless, True)
      | IntLess \<Rightarrow> Some (IntLessequal, True)
      | IntLessequal \<Rightarrow> Some (IntLess, True)
      | BoolNegate \<Rightarrow> Some (Copy, False)
      | FloatEqual \<Rightarrow> Some (FloatNotequal, False)
      | FloatNotequal \<Rightarrow> Some (FloatEqual, False)
      | FloatLess \<Rightarrow> Some (FloatLessequal, True)
      | FloatLessequal \<Rightarrow> Some (FloatLess, True)
      | _ \<Rightarrow> None)"

subsection \<open>Numbers and operations\<close>

lemma op_table_distinct: "distinct (map fst op_table)"
  by (simp add: op_table_def)

lemma op_table_number: "(n, c) \<in> set op_table \<longleftrightarrow> n = op_number c"
  by (cases c) (auto simp: op_table_def)

lemma op_number_inject: "op_number a = op_number b \<longleftrightarrow> a = b"
  using op_table_number [of "op_number a"] map_of_eq_Some_iff [OF op_table_distinct, of "op_number a"]
  by (metis option.inject)

text \<open>Operations are compared through their numbers.\<close>

instantiation opcode :: equal
begin

definition equal_opcode :: "opcode \<Rightarrow> opcode \<Rightarrow> bool" where
  "equal_opcode a b \<longleftrightarrow> op_number a = op_number b"

instance
  by standard (simp add: equal_opcode_def op_number_inject)

end

text \<open>
  Decoding a raw operation number and the operation's own number are inverse to each other:
  every operation decodes from its number, and a number that decodes is the number of the result.
\<close>

theorem from_u32_iff: "from_u32 n = Some c \<longleftrightarrow> n = op_number c"
  unfolding from_u32_def map_of_eq_Some_iff [OF op_table_distinct] by (rule op_table_number)

end
