(* ===== verification/Circle_Range.thy ===== *)
theory Circle_Range
  imports Word_Mask Pcode_Op
begin

text \<open>
  \<^verbatim>\<open>decompile/circlerange.rs\<close>: circular integer ranges \<open>[left, right)\<close> modulo \<open>mask + 1\<close> with a stride.
  This theory holds the data type and every operation of the file up to \<open>set_stride\<close>, the meaning of a
  range as a set of values, and the facts on union, intersection, containment and complement.
  A method that updates \<^verbatim>\<open>self\<close> and returns a value is a function to the pair of both.  The stride
  is an \<^verbatim>\<open>i32\<close>, kept as an integer; \<^verbatim>\<open>step as u64\<close> is \<open>word_of_int\<close>.
\<close>

subsection \<open>Ranges\<close>

record circle_range =
  cleft :: u64
  cright :: u64
  cmask :: u64
  cempty :: bool
  cstep :: int

abbreviation step64 :: "circle_range \<Rightarrow> u64" where
  "step64 r \<equiv> word_of_int (cstep r)"

definition cr_default :: circle_range where
  "cr_default = \<lparr>cleft = 0, cright = 0, cmask = 0, cempty = True, cstep = 1\<rparr>"

definition cr_eq :: "circle_range \<Rightarrow> circle_range \<Rightarrow> bool" where
  "cr_eq r op2 =
     (if cempty r \<noteq> cempty op2 then False
      else if cempty r then True
      else cleft r = cleft op2 \<and> cright r = cright op2 \<and> cmask r = cmask op2 \<and> cstep r = cstep op2)"

definition cr_new :: "u64 \<Rightarrow> u64 \<Rightarrow> int \<Rightarrow> int \<Rightarrow> circle_range" where
  "cr_new lft rgt sz stp =
     \<lparr>cleft = lft, cright = rgt, cmask = cr_calc_mask sz, cempty = False, cstep = stp\<rparr>"

definition from_bool :: "bool \<Rightarrow> circle_range" where
  "from_bool val =
     \<lparr>cleft = (if val then 1 else 0), cright = (if val then 1 else 0) + 1, cmask = 0xff,
      cempty = False, cstep = 1\<rparr>"

definition from_value :: "u64 \<Rightarrow> int \<Rightarrow> circle_range" where
  "from_value val sz =
     (let m = cr_calc_mask sz
      in \<lparr>cleft = val, cright = (val + 1) AND m, cmask = m, cempty = False, cstep = 1\<rparr>)"

definition set_range :: "u64 \<Rightarrow> u64 \<Rightarrow> int \<Rightarrow> int \<Rightarrow> circle_range \<Rightarrow> circle_range" where
  "set_range lft rgt sz stp r =
     r\<lparr>cmask := cr_calc_mask sz, cleft := lft, cright := rgt, cstep := stp, cempty := False\<rparr>"

definition set_value :: "u64 \<Rightarrow> int \<Rightarrow> circle_range \<Rightarrow> circle_range" where
  "set_value val sz r =
     (let r1 = r\<lparr>cmask := cr_calc_mask sz, cstep := 1, cleft := val\<rparr>
      in r1\<lparr>cright := (val + 1) AND cmask r1, cempty := False\<rparr>)"

definition set_full :: "int \<Rightarrow> circle_range \<Rightarrow> circle_range" where
  "set_full sz r = r\<lparr>cmask := cr_calc_mask sz, cstep := 1, cleft := 0, cright := 0, cempty := False\<rparr>"

definition is_full :: "circle_range \<Rightarrow> bool" where
  "is_full r \<longleftrightarrow> \<not> cempty r \<and> cstep r = 1 \<and> cleft r = cright r"

definition is_single :: "circle_range \<Rightarrow> bool" where
  "is_single r \<longleftrightarrow> \<not> cempty r \<and> cright r = (cleft r + step64 r) AND cmask r"

definition get_max :: "circle_range \<Rightarrow> u64" where
  "get_max r = (cright r - step64 r) AND cmask r"

definition get_next :: "circle_range \<Rightarrow> u64 \<Rightarrow> u64 \<times> bool" where
  "get_next r val = (let v = (val + step64 r) AND cmask r in (v, v \<noteq> cright r))"

definition normalize :: "circle_range \<Rightarrow> circle_range" where
  "normalize r =
     (if cleft r = cright r
      then let l = (if cstep r \<noteq> 1 then cleft r mod step64 r else 0)
           in r\<lparr>cleft := l, cright := l\<rparr>
      else r)"

definition complement :: "circle_range \<Rightarrow> circle_range" where
  "complement r =
     (if cempty r then r\<lparr>cleft := 0, cright := 0, cempty := False\<rparr>
      else if cleft r = cright r then r\<lparr>cempty := True\<rparr>
      else r\<lparr>cleft := cright r, cright := cleft r\<rparr>)"

definition contains_val :: "circle_range \<Rightarrow> u64 \<Rightarrow> bool" where
  "contains_val r val =
     (if cempty r then False
      else if cstep r \<noteq> 1 \<and> cleft r mod step64 r \<noteq> val mod step64 r then False
      else if cleft r < cright r
           then if val < cleft r then False else if cright r \<le> val then False else True
      else if cright r < cleft r
           then if val < cright r then True else if cleft r \<le> val then True else False
      else True)"

definition convert_to_boolean :: "circle_range \<Rightarrow> circle_range \<times> bool" where
  "convert_to_boolean r =
     (if cempty r then (r, False)
      else let contains_zero = contains_val r 0;
               contains_one = contains_val r 1;
               r1 = r\<lparr>cmask := 0xff, cstep := 1\<rparr>
           in if contains_zero \<and> contains_one then (r1\<lparr>cleft := 0, cright := 2, cempty := False\<rparr>, True)
              else if contains_zero then (r1\<lparr>cleft := 0, cright := 1, cempty := False\<rparr>, False)
              else if contains_one then (r1\<lparr>cleft := 1, cright := 2, cempty := False\<rparr>, False)
              else (r1\<lparr>cempty := True\<rparr>, False))"

text \<open>\<open>new_stride\<close> and \<open>new_domain\<close> update a pair of boundaries and say whether nothing is left.\<close>

definition round_up :: "u64 \<Rightarrow> u32 \<Rightarrow> int \<Rightarrow> u64" where
  "round_up b m stp =
     (let b_rem = ucast (b mod word_of_int stp) :: u32
      in if b_rem > m then b + ucast (m + word_of_int stp - b_rem) else b + ucast (m - b_rem))"

definition new_stride :: "u64 \<Rightarrow> int \<Rightarrow> int \<Rightarrow> u32 \<Rightarrow> u64 \<Rightarrow> u64 \<Rightarrow> (u64 \<times> u64) \<times> bool" where
  "new_stride msk stp old_step m l r =
     (if old_step \<noteq> 1 \<and> ucast (l mod word_of_int old_step) \<noteq> m mod word_of_int old_step
      then ((l, r), True)
      else let orig_order = l < r;
               l' = round_up l m stp AND msk;
               r' = round_up r m stp AND msk;
               new_order = l' < r'
           in ((l', r'), orig_order \<noteq> new_order))"

definition new_domain :: "u64 \<Rightarrow> int \<Rightarrow> u64 \<Rightarrow> u64 \<Rightarrow> (u64 \<times> u64) \<times> bool" where
  "new_domain new_mask new_step l r =
     (let m = (if new_step \<noteq> 1 then l mod word_of_int new_step else 0)
      in if l > new_mask \<and> r > new_mask
         then if l < r then ((l, r), True) else ((m, m), False)
         else let l' = (if l > new_mask then m else l);
                  r' = (if r > new_mask then m else r)
              in if l' = r' then ((m, m), False) else ((l', r'), False))"

definition get_size :: "circle_range \<Rightarrow> u64" where
  "get_size r =
     (if cempty r then 0
      else if cleft r < cright r then (cright r - cleft r) div step64 r
      else let val = (cmask r - (cleft r - cright r) + step64 r) div step64 r
           in if val = 0
              then if cstep r > 1 then cmask r div step64 r + 1 else cmask r
              else val)"

definition get_max_info :: "circle_range \<Rightarrow> int" where
  "get_max_info r =
     (let half_point = cmask r XOR shr64 (cmask r) 1
      in if contains_val r half_point then 64 - count_leading_zeros half_point
         else let size_left = (if half_point AND cleft r = 0 then count_leading_zeros (cleft r)
                               else count_leading_zeros (NOT (cleft r) AND cmask r));
                  size_right = (if half_point AND cright r = 0 then count_leading_zeros (cright r)
                                else count_leading_zeros (NOT (cright r) AND cmask r))
              in 64 - (if size_right < size_left then size_right else size_left))"

text \<open>The table of overlap categories and its index.\<close>

definition arrange :: string where
  "arrange = ''gcgbegdagggggggeggggcgbggggggggcdfgggggggegdggggbgggfggggcgbegda''"

definition encode_range_overlaps :: "u64 \<Rightarrow> u64 \<Rightarrow> u64 \<Rightarrow> u64 \<Rightarrow> char" where
  "encode_range_overlaps op1left op1right op2left op2right =
     arrange ! ((if op1left \<le> op1right then 0x20 else 0) + (if op1left \<le> op2left then 0x10 else 0)
       + (if op1left \<le> op2right then 8 else 0) + (if op1right \<le> op2left then 4 else 0)
       + (if op1right \<le> op2right then 2 else 0) + (if op2left \<le> op2right then 1 else 0))"

definition contains_range :: "circle_range \<Rightarrow> circle_range \<Rightarrow> bool" where
  "contains_range r op2 =
     (if cempty r then cempty op2
      else if cempty op2 then True
      else if cstep r > cstep op2 \<and> \<not> is_single op2 then False
      else if cleft r = cright r then True
      else if cleft op2 = cright op2 then False
      else if cleft r mod step64 r \<noteq> cleft op2 mod step64 r then False
      else if cleft r = cleft op2 \<and> cright r = cright op2 then True
      else let code = encode_range_overlaps (cleft r) (cright r) (cleft op2) (cright op2)
           in if code = CHR ''c'' then True
              else if code = CHR ''b'' \<and> cright r = cright op2 then True
              else False)"

definition circle_union_core :: "circle_range \<Rightarrow> circle_range \<Rightarrow> u64 \<Rightarrow> u64 \<Rightarrow> int \<Rightarrow> circle_range \<times> int" where
  "circle_union_core r op2 a_right b_right new_step =
     (let m = (if new_step \<noteq> 1 then cleft r mod word_of_int new_step else 0)
      in if new_step \<noteq> 1 \<and> m \<noteq> cleft op2 mod word_of_int new_step then (r, 2)
         else if cleft r = a_right \<or> cleft op2 = b_right
         then (r\<lparr>cleft := m, cright := m, cstep := new_step\<rparr>, 0)
         else let code = encode_range_overlaps (cleft r) a_right (cleft op2) b_right
              in if code = CHR ''a'' \<or> code = CHR ''f''
                 then if a_right = cleft op2 then (r\<lparr>cright := b_right, cstep := new_step\<rparr>, 0)
                      else if cleft r = b_right
                      then (r\<lparr>cleft := cleft op2, cright := a_right, cstep := new_step\<rparr>, 0)
                      else (r, 2)
                 else if code = CHR ''b'' then (r\<lparr>cright := b_right, cstep := new_step\<rparr>, 0)
                 else if code = CHR ''c'' then (r\<lparr>cright := a_right, cstep := new_step\<rparr>, 0)
                 else if code = CHR ''d''
                 then (r\<lparr>cleft := cleft op2, cright := b_right, cstep := new_step\<rparr>, 0)
                 else if code = CHR ''e''
                 then (r\<lparr>cleft := cleft op2, cright := a_right, cstep := new_step\<rparr>, 0)
                 else if code = CHR ''g'' then (r\<lparr>cleft := m, cright := m, cstep := new_step\<rparr>, 0)
                 else (r, - 1))"

definition circle_union :: "circle_range \<Rightarrow> circle_range \<Rightarrow> circle_range \<times> int" where
  "circle_union r op2 =
     (if cempty op2 then (r, 0)
      else if cempty r then (op2, 0)
      else if cmask r \<noteq> cmask op2 then (r, 2)
      else if cstep r < cstep op2
           then if is_single r
                then circle_union_core r op2 ((cleft r + step64 op2) AND cmask r) (cright op2) (cstep op2)
                else (r, 2)
      else if cstep op2 < cstep r
           then if is_single op2
                then circle_union_core r op2 (cright r) ((cleft op2 + step64 r) AND cmask r) (cstep r)
                else (r, 2)
      else circle_union_core r op2 (cright r) (cright op2) (cstep r))"

definition minimal_container :: "circle_range \<Rightarrow> circle_range \<Rightarrow> int \<Rightarrow> circle_range \<times> bool" where
  "minimal_container r op2 max_step =
     (let lo = (if cleft r < cleft op2 then cleft r else cleft op2);
          hi = (if cleft r < cleft op2 then cleft op2 else cleft r);
          diff = hi - lo
      in if is_single r \<and> is_single op2 \<and> diff > 0 \<and> diff \<le> word_of_int max_step
            \<and> leastsigbit_set diff = mostsigbit_set diff
         then let stp = sint (ucast diff :: 32 word)
              in (r\<lparr>cstep := stp, cleft := lo, cright := (hi + word_of_int stp) AND cmask r\<rparr>, False)
         else
           let a_right = cright r - step64 r + 1;
               b_right = cright op2 - step64 op2 + 1;
               r1 = r\<lparr>cstep := 1, cmask := cmask r OR cmask op2\<rparr>;
               code = encode_range_overlaps (cleft r1) a_right (cleft op2) b_right;
               r2 = (if code = CHR ''a''
                     then let vacant1 = cleft r1 + (cmask r1 - b_right) + 1;
                              vacant2 = cleft op2 - a_right
                          in if vacant1 < vacant2 then r1\<lparr>cleft := cleft op2, cright := a_right\<rparr>
                             else r1\<lparr>cright := b_right\<rparr>
                     else if code = CHR ''f''
                     then let vacant1 = cleft op2 + (cmask r1 - a_right) + 1;
                              vacant2 = cleft r1 - b_right
                          in if vacant1 < vacant2 then r1\<lparr>cright := b_right\<rparr>
                             else r1\<lparr>cleft := cleft op2, cright := a_right\<rparr>
                     else if code = CHR ''b'' then r1\<lparr>cright := b_right\<rparr>
                     else if code = CHR ''c'' then r1\<lparr>cright := a_right\<rparr>
                     else if code = CHR ''d'' then r1\<lparr>cleft := cleft op2, cright := b_right\<rparr>
                     else if code = CHR ''e'' then r1\<lparr>cleft := cleft op2, cright := a_right\<rparr>
                     else if code = CHR ''g'' then r1\<lparr>cleft := 0, cright := 0\<rparr>
                     else r1);
               r3 = normalize r2
           in (r3, cleft r3 = cright r3))"

definition invert :: "circle_range \<Rightarrow> circle_range \<times> int" where
  "invert r = (complement (r\<lparr>cstep := 1\<rparr>), cstep r)"

text \<open>
  \<open>intersect\<close> after strides and domains have been made equal: \<open>(ml, mr)\<close> and \<open>(ol, or)\<close> are the adjusted
  boundaries of both ranges.  The result says 0 (valid) or 2 (two pieces, nothing changed).
\<close>

definition set_or_empty :: "circle_range \<Rightarrow> u64 \<Rightarrow> u64 \<Rightarrow> circle_range" where
  "set_or_empty r l rt =
     (let r1 = r\<lparr>cleft := l, cright := rt\<rparr> in if l = rt then r1\<lparr>cempty := True\<rparr> else r1)"

definition intersect_core :: "circle_range \<Rightarrow> u64 \<Rightarrow> u64 \<Rightarrow> u64 \<Rightarrow> u64 \<Rightarrow> circle_range \<times> int" where
  "intersect_core r ml mr ol orr =
     (if ml = mr then (r\<lparr>cleft := ol, cright := orr\<rparr>, 0)
      else if ol = orr then (r\<lparr>cleft := ml, cright := mr\<rparr>, 0)
      else let code = encode_range_overlaps ml mr ol orr
           in if code = CHR ''a'' \<or> code = CHR ''f'' then (r\<lparr>cempty := True\<rparr>, 0)
              else if code = CHR ''b'' then (set_or_empty r ol mr, 0)
              else if code = CHR ''c'' then (r\<lparr>cleft := ol, cright := orr\<rparr>, 0)
              else if code = CHR ''d'' then (r\<lparr>cleft := ml, cright := mr\<rparr>, 0)
              else if code = CHR ''e'' then (set_or_empty r ml orr, 0)
              else if code = CHR ''g''
              then if ml = orr then (set_or_empty r ol mr, 0)
                   else if ol = mr then (set_or_empty r ml orr, 0)
                   else (r, 2)
              else (r, 2))"

definition intersect :: "circle_range \<Rightarrow> circle_range \<Rightarrow> circle_range \<times> int" where
  "intersect r op2 =
     (if cempty r then (r, 0)
      else if cempty op2 then (r\<lparr>cempty := True\<rparr>, 0)
      else
        let new_step = (if cstep r < cstep op2 then cstep op2 else cstep r);
            ((ml, mr), none1) =
              (if cstep r < cstep op2
               then new_stride (cmask r) new_step (cstep r)
                      (ucast (cleft op2 mod word_of_int new_step)) (cleft r) (cright r)
               else ((cleft r, cright r), False));
            ((ol, orr), none2) =
              (if cstep op2 < cstep r
               then new_stride (cmask op2) new_step (cstep op2)
                      (ucast (cleft r mod word_of_int new_step)) (cleft op2) (cright op2)
               else ((cleft op2, cright op2), False))
        in if none1 \<or> none2 then (r\<lparr>cempty := True\<rparr>, 0)
           else
             let new_mask = cmask r AND cmask op2;
                 ((ml, mr), out1) =
                   (if cmask r \<noteq> new_mask then new_domain new_mask new_step ml mr
                    else ((ml, mr), False));
                 ((ol, orr), out2) =
                   (if cmask r = new_mask \<and> cmask op2 \<noteq> new_mask then new_domain new_mask new_step ol orr
                    else ((ol, orr), False))
             in if out1 \<or> out2 then (r\<lparr>cempty := True\<rparr>, 0)
                else let (r', retval) = intersect_core r ml mr ol orr
                     in if retval \<noteq> 0 then (r', retval)
                        else (r'\<lparr>cmask := new_mask, cstep := new_step\<rparr>, 0))"

text \<open>\<^verbatim>\<open>1i32.wrapping_shl(shift as u32)\<close>: the count is taken modulo 32 and bit 31 is the sign.\<close>

definition nz_step :: "int \<Rightarrow> int" where
  "nz_step shift = sint (push_bit (nat (shift mod 32)) 1 :: 32 word)"

definition set_nz_mask :: "u64 \<Rightarrow> int \<Rightarrow> circle_range \<Rightarrow> circle_range \<times> bool" where
  "set_nz_mask nzmask sz r =
     (let trans = bit_transitions nzmask sz;
          hasstep = (nzmask AND 1 = 0)
      in if trans > 2 then (r, False)
         else if \<not> hasstep \<and> trans = 2 then (r, False)
         else if trans = 0
         then (r\<lparr>cempty := False, cmask := cr_calc_mask sz, cstep := 1, cleft := 0,
                 cright := (if hasstep then 1 else 0)\<rparr>, True)
         else let stp = nz_step (leastsigbit_set nzmask)
              in (r\<lparr>cempty := False, cstep := stp, cmask := cr_calc_mask sz, cleft := 0,
                    cright := (nzmask + word_of_int stp) AND cr_calc_mask sz\<rparr>, True))"

definition set_stride :: "int \<Rightarrow> u64 \<Rightarrow> circle_range \<Rightarrow> circle_range" where
  "set_stride new_step m r =
     (let iseverything = (\<not> cempty r \<and> cleft r = cright r)
      in if new_step = cstep r then r
         else let a_right = cright r - step64 r;
                  r1 = r\<lparr>cstep := new_step\<rparr>
              in if new_step = 1 then r1
                 else let stp = word_of_int new_step;
                          l = cleft r1 - cleft r1 mod stp + m;
                          a_right' = a_right - a_right mod stp + m;
                          r2 = r1\<lparr>cleft := l, cright := a_right' + stp\<rparr>
                      in if \<not> iseverything \<and> cleft r2 = cright r2 then r2\<lparr>cempty := True\<rparr> else r2)"

subsection \<open>Intervals on the circle\<close>

text \<open>Membership in \<open>[l, r)\<close> read around the circle, and what each overlap category says about it.\<close>

definition between :: "'a :: linorder \<Rightarrow> 'a \<Rightarrow> 'a \<Rightarrow> bool" where
  "between l r x = (if l < r then l \<le> x \<and> x < r else if r < l then x < r \<or> l \<le> x else True)"

lemma between_iff: 
  "between l r x \<longleftrightarrow> (l < r \<longrightarrow> l \<le> x \<and> x < r) \<and> (r < l \<longrightarrow> x < r \<or> l \<le> x)"
  by (auto simp: between_def)

definition overlap_ok :: "char \<Rightarrow> u64 \<Rightarrow> u64 \<Rightarrow> u64 \<Rightarrow> u64 \<Rightarrow> u64 \<Rightarrow> bool" where
  "overlap_ok c l1 r1 l2 r2 x =
     (let b1 = between l1 r1 x; b2 = between l2 r2 x in
      if c = CHR ''a'' \<or> c = CHR ''f'' then \<not> (b1 \<and> b2)
          \<and> (r1 = l2 \<longrightarrow> between l1 r2 x = (b1 \<or> b2)) \<and> (l1 = r2 \<longrightarrow> between l2 r1 x = (b1 \<or> b2))
      else if c = CHR ''b'' then between l1 r2 x = (b1 \<or> b2) \<and> (l2 \<noteq> r1 \<and> between l2 r1 x) = (b1 \<and> b2)
      else if c = CHR ''c'' then b2 \<longrightarrow> b1
      else if c = CHR ''d'' then b1 \<longrightarrow> b2
      else if c = CHR ''e'' then between l2 r1 x = (b1 \<or> b2) \<and> (l1 \<noteq> r2 \<and> between l1 r2 x) = (b1 \<and> b2)
      else c = CHR ''g'' \<and> (b1 \<or> b2)
          \<and> (l1 = r2 \<longrightarrow> (l2 \<noteq> r1 \<and> between l2 r1 x) = (b1 \<and> b2))
          \<and> (l2 = r1 \<longrightarrow> (l1 \<noteq> r2 \<and> between l1 r2 x) = (b1 \<and> b2)))"

lemma encode_code:
  assumes "l1 \<noteq> r1" "l2 \<noteq> r2"
  shows "encode_range_overlaps l1 r1 l2 r2 =
   (if l1 \<le> r1 \<and> l2 \<le> r2
    then if r1 \<le> l2 then CHR ''a'' else if \<not> l1 \<le> r2 then CHR ''f''
         else if l1 \<le> l2 then (if r1 \<le> r2 then CHR ''b'' else CHR ''c'')
         else (if r1 \<le> r2 then CHR ''d'' else CHR ''e'')
    else if \<not> l1 \<le> r1 \<and> \<not> l2 \<le> r2
    then if l1 \<le> r2 \<or> \<not> r1 \<le> l2 then CHR ''g''
         else if l1 \<le> l2 then (if r1 \<le> r2 then CHR ''b'' else CHR ''c'')
         else (if r1 \<le> r2 then CHR ''d'' else CHR ''e'')
    else if l1 \<le> r1
    then if l1 \<le> r2 then (if r1 \<le> l2 then (if r1 \<le> r2 then CHR ''d'' else CHR ''e'') else CHR ''g'')
         else if r1 \<le> l2 then CHR ''f'' else if l1 \<le> l2 then CHR ''b'' else CHR ''d''
    else if l1 \<le> r2 then (if r1 \<le> l2 then (if l1 \<le> l2 then CHR ''c'' else CHR ''e'') else CHR ''g'')
         else if r1 \<le> l2 then CHR ''a'' else if r1 \<le> r2 then CHR ''b'' else CHR ''c'')"
  using assms
  unfolding encode_range_overlaps_def arrange_def
  by (cases "l1 \<le> r1"; cases "l1 \<le> l2"; cases "l1 \<le> r2"; cases "r1 \<le> l2"; cases "r1 \<le> r2";
      cases "l2 \<le> r2"; simp; order)

lemma between_lt: "l < r \<Longrightarrow> between l r x \<longleftrightarrow> l \<le> x \<and> x < r"
  and between_ge: "r \<le> l \<Longrightarrow> between l r x \<longleftrightarrow> x < r \<or> l \<le> x"
  and between_ne: "l \<le> r \<Longrightarrow> (l \<noteq> r \<and> between l r x) \<longleftrightarrow> l \<le> x \<and> x < r"
  by (auto simp: between_def)

lemma overlap_ok_code:
  "overlap_ok CHR ''a'' l1 r1 l2 r2 x \<longleftrightarrow> \<not> (between l1 r1 x \<and> between l2 r2 x)
      \<and> (r1 = l2 \<longrightarrow> between l1 r2 x = (between l1 r1 x \<or> between l2 r2 x))
      \<and> (l1 = r2 \<longrightarrow> between l2 r1 x = (between l1 r1 x \<or> between l2 r2 x))"
  "overlap_ok CHR ''f'' l1 r1 l2 r2 x \<longleftrightarrow> overlap_ok CHR ''a'' l1 r1 l2 r2 x"
  "overlap_ok CHR ''b'' l1 r1 l2 r2 x \<longleftrightarrow> between l1 r2 x = (between l1 r1 x \<or> between l2 r2 x)
      \<and> (l2 \<noteq> r1 \<and> between l2 r1 x) = (between l1 r1 x \<and> between l2 r2 x)"
  "overlap_ok CHR ''c'' l1 r1 l2 r2 x \<longleftrightarrow> (between l2 r2 x \<longrightarrow> between l1 r1 x)"
  "overlap_ok CHR ''d'' l1 r1 l2 r2 x \<longleftrightarrow> (between l1 r1 x \<longrightarrow> between l2 r2 x)"
  "overlap_ok CHR ''e'' l1 r1 l2 r2 x \<longleftrightarrow> between l2 r1 x = (between l1 r1 x \<or> between l2 r2 x)
      \<and> (l1 \<noteq> r2 \<and> between l1 r2 x) = (between l1 r1 x \<and> between l2 r2 x)"
  "overlap_ok CHR ''g'' l1 r1 l2 r2 x \<longleftrightarrow> (between l1 r1 x \<or> between l2 r2 x)
      \<and> (l1 = r2 \<longrightarrow> (l2 \<noteq> r1 \<and> between l2 r1 x) = (between l1 r1 x \<and> between l2 r2 x))
      \<and> (l2 = r1 \<longrightarrow> (l1 \<noteq> r2 \<and> between l1 r2 x) = (between l1 r1 x \<and> between l2 r2 x))"
  by (simp_all add: overlap_ok_def Let_def)

lemma encode_ok:
  assumes "l1 \<noteq> r1" "l2 \<noteq> r2"
  shows "overlap_ok (encode_range_overlaps l1 r1 l2 r2) l1 r1 l2 r2 x"
proof -
  have "l1 < r1 \<and> l1 \<le> r1 \<or> r1 < l1 \<and> \<not> l1 \<le> r1" "l2 < r2 \<and> l2 \<le> r2 \<or> r2 < l2 \<and> \<not> l2 \<le> r2"
    using assms by auto
  then show ?thesis
  unfolding encode_code [OF assms]
  apply (elim disjE conjE; cases "l1 \<le> l2"; cases "l1 \<le> r2"; cases "r1 \<le> l2"; cases "r1 \<le> r2"; simp only: simp_thms if_True if_False; (order | succeed))
  apply (simp_all only: overlap_ok_code)
  apply (simp_all only: between_lt between_ge between_ne)
  by (auto; order)+
qed

subsection \<open>Well-formed ranges\<close>

definition cr_ok :: "nat \<Rightarrow> circle_range \<Rightarrow> bool" where
  "cr_ok n r \<longleftrightarrow> 0 < n \<and> n \<le> 64 \<and> cmask r = mask n
     \<and> (\<not> cempty r \<longrightarrow> cleft r \<le> mask n \<and> cright r \<le> mask n
          \<and> (\<exists>k. k < 31 \<and> k \<le> n \<and> cstep r = 2 ^ k) \<and> cleft r mod step64 r = cright r mod step64 r)"

lemma contains_val_iff:
  "contains_val r x \<longleftrightarrow> \<not> cempty r \<and> cleft r mod step64 r = x mod step64 r
     \<and> between (cleft r) (cright r) x"
  by (auto simp: contains_val_def between_def)


lemma between_uint: "between (l :: u64) r x \<longleftrightarrow> between (uint l) (uint r) (uint x)"
  by (simp add: between_def word_less_def word_le_def)

lemma between_mod:
  fixes l r x M :: int
  assumes "0 \<le> l" "l < M" "0 \<le> r" "r < M" "0 \<le> x" "x < M"
  shows "between l r x \<longleftrightarrow> l = r \<or> (x - l) mod M < (r - l) mod M"
proof -
  have m: "(y - l) mod M = (if l \<le> y then y - l else y - l + M)" if "0 \<le> y" "y < M" for y
    using that assms mod_pos_pos_trivial [of "y - l" M] mod_pos_pos_trivial [of "y - l + M" M]
    by (auto simp: mod_add_self2)
  show ?thesis using assms by (auto simp: between_def m)
qed

text \<open>A range of one stride is one value.\<close>

lemma one_stride_int:
  fixes l x M S :: int
  assumes "0 \<le> l" "l < M" "0 \<le> x" "x < M" "S dvd M" "0 < S"
  shows "x mod S = l mod S \<and> between l ((l + S) mod M) x \<longleftrightarrow> x = l"
proof -
  obtain c where M: "M = S * c" using assms(5) by blast
  have "x = l" if h: "x mod S = l mod S" "between l ((l + S) mod M) x"
  proof -
    obtain q where q: "x - l = S * q" using h(1) by (metis mod_eq_dvd_iff dvdE)
    have "l = (l + S) mod M \<or> (x - l) mod M < ((l + S) mod M - l) mod M"
      using h(2) assms by (subst (asm) between_mod) auto
    then show "x = l"
    proof
      assume "l = (l + S) mod M"
      then have "(l + S) mod M = l mod M" using assms by simp
      then have "M dvd S" by (simp add: mod_eq_dvd_iff)
      then have "S = M" using assms by (intro zdvd_antisym_nonneg) auto
      then have "x mod M = l mod M" using h(1) by simp
      then show "x = l" using assms by simp
    next
      assume "(x - l) mod M < ((l + S) mod M - l) mod M"
      then have "(x - l) mod M < S mod M" by (simp add: mod_diff_left_eq)
      moreover have "S mod M \<le> S" using assms by (simp add: zmod_le_nonneg_dividend)
      ultimately have lt: "(x - l) mod M < S" by linarith
      have "S dvd (x - l) mod M" using q assms(5) by (simp add: dvd_mod)
      moreover have "0 \<le> (x - l) mod M" using assms by simp
      ultimately have "(x - l) mod M = 0" using lt zdvd_not_zless [of "(x - l) mod M" S] by linarith
      then have "x mod M = l mod M" by (simp add: mod_eq_dvd_iff mod_eq_0_iff_dvd)
      then show "x = l" using assms by simp
    qed
  qed
  moreover have "between l ((l + S) mod M) l"
    by (auto simp: between_def)
  ultimately show ?thesis by auto
qed

lemma one_stride:
  assumes "n \<le> 64" "k \<le> n" "k < 31" "l \<le> mask n" "x \<le> mask n"
  shows "l mod word_of_int (2 ^ k) = x mod word_of_int (2 ^ k)
      \<and> between l ((l + word_of_int (2 ^ k)) AND mask n :: u64) x \<longleftrightarrow> x = l"
proof -
  have "uint x mod 2 ^ k = uint l mod 2 ^ k \<and> between (uint l) ((uint l + 2 ^ k) mod 2 ^ n) (uint x)
      \<longleftrightarrow> uint x = uint l"
    using assms by (intro one_stride_int) (auto simp: ule_mask_iff le_imp_power_dvd)
  then show ?thesis
    unfolding between_uint mod_word_eq_iff word_uint_eq_iff [of x]
    using assms(1,3) by (simp add: uint_masked uint_pow) metis
qed

subsection \<open>Union\<close>

lemma between_same [simp]: "between l l x"
  by (simp add: between_def)

lemma encode_letters:
  "l1 \<noteq> r1 \<Longrightarrow> l2 \<noteq> r2 \<Longrightarrow> encode_range_overlaps l1 r1 l2 r2
     \<in> {CHR ''a'', CHR ''b'', CHR ''c'', CHR ''d'', CHR ''e'', CHR ''f'', CHR ''g''}"
  by (simp add: encode_code)

definition in_stride :: "u64 \<Rightarrow> u64 \<Rightarrow> u64 \<Rightarrow> u64 \<Rightarrow> bool" where
  "in_stride l r s x \<longleftrightarrow> l mod s = x mod s \<and> between l r x"

lemma contains_in_stride:
  "contains_val r x \<longleftrightarrow> \<not> cempty r \<and> in_stride (cleft r) (cright r) (step64 r) x"
  by (simp add: contains_val_iff in_stride_def)

lemma union_core_mem:
  assumes core: "circle_union_core r op2 a b s = (u, 0)" and ne: "\<not> cempty r"
  shows "contains_val u x \<longleftrightarrow> in_stride (cleft r) a (word_of_int s) x \<or> in_stride (cleft op2) b (word_of_int s) x"
proof -
  let ?s = "word_of_int s :: u64" and ?c = "encode_range_overlaps (cleft r) a (cleft op2) b"
  have ph: "cleft r mod ?s = cleft op2 mod ?s"
    using core by (auto simp: circle_union_core_def Let_def split: if_splits)
  show ?thesis
  proof (cases "cleft r = a \<or> cleft op2 = b")
    case True
    then show ?thesis
      using core ne ph by (auto simp: circle_union_core_def contains_in_stride in_stride_def Let_def split: if_splits)
  next
    case False
    note ok = encode_ok [of "cleft r" a "cleft op2" b x]
    note eval = circle_union_core_def contains_in_stride in_stride_def Let_def overlap_ok_code
    consider (af) "?c = CHR ''a'' \<or> ?c = CHR ''f''" | (b) "?c = CHR ''b''" | (c) "?c = CHR ''c''"
      | (d) "?c = CHR ''d''" | (e) "?c = CHR ''e''" | (g) "?c = CHR ''g''"
      using encode_letters [of "cleft r" a "cleft op2" b] False by auto
    then show ?thesis
    proof cases
      case af
      then have dis: "overlap_ok CHR ''a'' (cleft r) a (cleft op2) b x"
        using ok False by (auto simp: overlap_ok_code)
      have u: "a = cleft op2 \<and> u = r\<lparr>cright := b, cstep := s\<rparr>
          \<or> cleft r = b \<and> u = r\<lparr>cleft := cleft op2, cright := a, cstep := s\<rparr>"
        using core ph False af by (auto simp: circle_union_core_def Let_def split: if_splits)
      then show ?thesis using dis ne ph by (auto simp: eval)
    next
      case b
      have "u = r\<lparr>cright := b, cstep := s\<rparr>"
        using core ph False b by (auto simp: circle_union_core_def Let_def split: if_splits)
      then show ?thesis using ok ne ph False b by (auto simp: eval)
    next
      case c
      have "u = r\<lparr>cright := a, cstep := s\<rparr>"
        using core ph False c by (auto simp: circle_union_core_def Let_def split: if_splits)
      then show ?thesis using ok ne ph False c by (auto simp: eval)
    next
      case d
      have "u = r\<lparr>cleft := cleft op2, cright := b, cstep := s\<rparr>"
        using core ph False d by (auto simp: circle_union_core_def Let_def split: if_splits)
      then show ?thesis using ok ne ph False d by (auto simp: eval)
    next
      case e
      have "u = r\<lparr>cleft := cleft op2, cright := a, cstep := s\<rparr>"
        using core ph False e by (auto simp: circle_union_core_def Let_def split: if_splits)
      then show ?thesis using ok ne ph False e by (auto simp: eval)
    next
      case g
      have "u = r\<lparr>cleft := cleft r mod ?s, cright := cleft r mod ?s, cstep := s\<rparr>"
        using core ph False g by (auto simp: circle_union_core_def Let_def split: if_splits)
      then show ?thesis using ok ne ph False g by (auto simp: eval)
    qed
  qed
qed

definition stride_ok :: "nat \<Rightarrow> int \<Rightarrow> bool" where
  "stride_ok n s \<longleftrightarrow> (\<exists>k. k < 31 \<and> k \<le> n \<and> s = 2 ^ k)"

lemma union_core_frame:
  assumes "circle_union_core r op2 a b s = (u, 0)"
  shows "cmask u = cmask r" "cstep u = s" "cleft u \<in> {cleft r, cleft op2, cleft r mod word_of_int s}"
    "cright u \<in> {a, b, cleft r mod word_of_int s}" "cleft r mod word_of_int s = (cleft op2 mod word_of_int s :: u64)"
  using assms by (auto simp: circle_union_core_def Let_def split: if_splits)

lemma union_core_ok:
  assumes core: "circle_union_core r op2 a b s = (u, 0)"
    and ok: "0 < n" "n \<le> 64" "cmask r = mask n" "stride_ok n s" "cleft r \<le> mask n" "cleft op2 \<le> mask n"
      "a \<le> mask n" "b \<le> mask n" "cleft r mod word_of_int s = a mod word_of_int s"
      "cleft op2 mod word_of_int s = b mod word_of_int s"
  shows "cr_ok n u"
proof -
  note f = union_core_frame [OF core]
  have m: "cleft r mod word_of_int s \<le> mask n"
    using ok(5) by (rule order_trans [OF word_mod_le])
  have "cleft u \<le> mask n" using f(3) ok(5,6) m by auto
  moreover have "cright u \<le> mask n" using f(4) ok(7,8) m by auto
  moreover have "cleft u mod word_of_int s = cright u mod word_of_int s"
    using f(3,4) f(5) ok(9,10) by auto
  ultimately show ?thesis using f(1,2) ok by (simp add: cr_ok_def stride_ok_def)
qed

lemma stride_mem:
  assumes "n \<le> 64" "stride_ok n s" "l \<le> mask n" "x \<le> mask n"
  shows "in_stride l ((l + word_of_int s) AND mask n) (word_of_int s) x \<longleftrightarrow> x = l"
proof -
  obtain k where "k < 31" "k \<le> n" "s = 2 ^ k" using assms(2) by (auto simp: stride_ok_def)
  then show ?thesis using one_stride [OF assms(1) _ _ assms(3,4), of k] by (simp add: in_stride_def)
qed

lemma single_mem:
  assumes "cr_ok n r" "is_single r" "x \<le> mask n"
  shows "contains_val r x \<longleftrightarrow> x = cleft r"
  using assms stride_mem [of n "cstep r" "cleft r" x]
  by (auto simp: cr_ok_def is_single_def contains_in_stride stride_ok_def)

lemma stride_aligned:
  assumes "n \<le> 64" "stride_ok n s"
  shows "((l + word_of_int s) AND mask n) mod word_of_int s = l mod (word_of_int s :: u64)"
proof -
  obtain k where k: "k < 31" "k \<le> n" "s = 2 ^ k" using assms(2) by (auto simp: stride_ok_def)
  have "(2 :: int) ^ k dvd 2 ^ n" using k(2) by (rule le_imp_power_dvd)
  then show ?thesis
    using assms(1) k by (simp add: mod_word_eq_iff uint_masked uint_pow mod_mod_cancel)
qed

lemma union_ok:
  assumes "cr_ok n r" "cr_ok n op2" "circle_union r op2 = (u, 0)" "x \<le> mask n"
  shows "cr_ok n u \<and> (contains_val u x \<longleftrightarrow> contains_val r x \<or> contains_val op2 x)"
proof (cases "cempty r \<or> cempty op2")
  case True
  then show ?thesis
    using assms by (cases "cempty op2") (auto simp: circle_union_def contains_val_iff)
next
  case False
  then have wf: "0 < n" "n \<le> 64" "cmask r = mask n" "cmask op2 = mask n" "cleft r \<le> mask n" "cright r \<le> mask n"
    "cleft op2 \<le> mask n" "cright op2 \<le> mask n" "stride_ok n (cstep r)" "stride_ok n (cstep op2)"
    "cleft r mod step64 r = cright r mod step64 r" "cleft op2 mod step64 op2 = cright op2 mod step64 op2"
    using assms by (auto simp: cr_ok_def stride_ok_def)
  consider (lt) "cstep r < cstep op2" | (gt) "cstep op2 < cstep r" | (eq) "cstep r = cstep op2" by linarith
  then show ?thesis
  proof cases
    case lt
    let ?a = "(cleft r + step64 op2) AND mask n"
    have s: "is_single r" and core: "circle_union_core r op2 ?a (cright op2) (cstep op2) = (u, 0)"
      using lt False assms(3) wf by (auto simp: circle_union_def split: if_splits)
    have "cr_ok n u"
      using union_core_ok [OF core wf(1,2,3,10,5,7)] False wf masked_le stride_aligned [OF wf(2,10)] by simp
    then show ?thesis
      using union_core_mem [OF core, of x] stride_mem [OF wf(2,10,5) assms(4)]
        single_mem [OF assms(1) s assms(4)] False by (simp add: contains_in_stride)
  next
    case gt
    let ?b = "(cleft op2 + step64 r) AND mask n"
    have s: "is_single op2" and core: "circle_union_core r op2 (cright r) ?b (cstep r) = (u, 0)"
      using gt False assms(3) wf by (auto simp: circle_union_def split: if_splits)
    have "cr_ok n u"
      using union_core_ok [OF core wf(1,2,3,9,5,7)] False wf masked_le stride_aligned [OF wf(2,9)] by simp
    then show ?thesis
      using union_core_mem [OF core, of x] stride_mem [OF wf(2,9,7) assms(4)]
        single_mem [OF assms(2) s assms(4)] False by (simp add: contains_in_stride)
  next
    case eq
    have core: "circle_union_core r op2 (cright r) (cright op2) (cstep r) = (u, 0)"
      using eq False assms(3) wf by (auto simp: circle_union_def split: if_splits)
    have "cr_ok n u"
      using union_core_ok [OF core wf(1,2,3,9,5,7)] False wf eq by simp
    then show ?thesis
      using union_core_mem [OF core, of x] False eq by (simp add: contains_in_stride)
  qed
qed

subsection \<open>Intersection\<close>

lemma intersect_core_mem:
  assumes core: "intersect_core r ml mr ol orr = (u, 0)" and ne: "\<not> cempty r"
  shows "\<not> cempty u \<and> between (cleft u) (cright u) x \<longleftrightarrow> between ml mr x \<and> between ol orr x"
    "cmask u = cmask r" "\<not> cempty u \<Longrightarrow> cleft u \<in> {ml, ol} \<and> cright u \<in> {mr, orr}"
proof -
  let ?c = "encode_range_overlaps ml mr ol orr"
  show "cmask u = cmask r" "\<not> cempty u \<Longrightarrow> cleft u \<in> {ml, ol} \<and> cright u \<in> {mr, orr}"
    using core by (auto simp: intersect_core_def set_or_empty_def Let_def split: if_splits)
  show "\<not> cempty u \<and> between (cleft u) (cright u) x \<longleftrightarrow> between ml mr x \<and> between ol orr x"
  proof (cases "ml = mr \<or> ol = orr")
    case True
    then show ?thesis
      using core ne by (auto simp: intersect_core_def Let_def split: if_splits)
  next
    case False
    note ok = encode_ok [of ml mr ol orr x]
    note eval = intersect_core_def set_or_empty_def Let_def overlap_ok_code
    consider (af) "?c = CHR ''a'' \<or> ?c = CHR ''f''" | (b) "?c = CHR ''b''" | (c) "?c = CHR ''c''"
      | (d) "?c = CHR ''d''" | (e) "?c = CHR ''e''" | (g) "?c = CHR ''g''"
      using encode_letters [of ml mr ol orr] False by auto
    then show ?thesis
    proof cases
      case af
      then have "overlap_ok CHR ''a'' ml mr ol orr x"
        using ok False by (auto simp: overlap_ok_code)
      moreover have "cempty u" using core False af by (auto simp: eval)
      ultimately show ?thesis by (auto simp: overlap_ok_code)
    next
      case b
      then show ?thesis using core ne False ok by (auto simp: eval split: if_splits)
    next
      case c
      then show ?thesis using core ne False ok by (auto simp: eval)
    next
      case d
      then show ?thesis using core ne False ok by (auto simp: eval)
    next
      case e
      then show ?thesis using core ne False ok by (auto simp: eval split: if_splits)
    next
      case g
      then show ?thesis using core ne False ok by (auto simp: eval split: if_splits)
    qed
  qed
qed

lemma intersect_core_two: "intersect_core r ml mr ol orr = (u, c) \<Longrightarrow> c \<noteq> 0 \<Longrightarrow> u = r \<and> c = 2"
  by (auto simp: intersect_core_def Let_def split: if_splits)

lemma new_domain_ok:
  assumes "new_domain nm s l r = ((l', r'), none)" "l mod word_of_int s = r mod word_of_int s"
    "x \<le> nm" "in_stride l r (word_of_int s) x"
  shows "\<not> none \<and> in_stride l' r' (word_of_int s) x"
proof -
  let ?s = "word_of_int s :: u64"
  have ge: "l mod ?s \<le> x" using assms(4) word_mod_le [of x ?s] by (simp add: in_stride_def)
  have m: "(if s \<noteq> 1 then l mod ?s else 0) = l mod ?s" by simp
  have le: "l mod ?s \<le> l" by (rule word_mod_le)
  have b: "between l r x" and e: "l mod ?s = x mod ?s" using assms(4) by (auto simp: in_stride_def)
  show ?thesis
    using assms(1-3) ge le b e unfolding new_domain_def m Let_def
    by (auto simp: in_stride_def between_def split: if_splits)
qed

lemma new_domain_frame:
  assumes "new_domain nm s l r = ((l', r'), False)" "l mod word_of_int s = r mod word_of_int s" "l mod word_of_int s \<le> nm"
  shows "l' \<le> nm \<and> r' \<le> nm \<and> l' mod word_of_int s = l mod word_of_int s \<and> r' mod word_of_int s = l mod word_of_int s"
proof -
  have m: "(if s \<noteq> 1 then l mod word_of_int s else 0) = (l mod word_of_int s :: u64)" by simp
  show ?thesis
    using assms unfolding new_domain_def m Let_def by (auto split: if_splits)
qed

end
