(* ===== verification/Circle_Algebra.thy ===== *)
theory Circle_Algebra
  imports Circle_Range
begin

text \<open>
  What the operations of \<^verbatim>\<open>circlerange.rs\<close> on whole ranges compute: intersection (across strides and
  domains), complement, containment, the range of a mask of possibly non-zero bits, the number of
  members.
\<close>

subsection \<open>Rounding to a stride\<close>

definition ceil_to :: "int \<Rightarrow> int \<Rightarrow> int \<Rightarrow> int" where
  "ceil_to S m b = b + (m - b) mod S"

lemma ceil_to_props:
  assumes "0 < S" "0 \<le> m" "m < S"
  shows "b \<le> ceil_to S m b" "ceil_to S m b < b + S" "ceil_to S m b mod S = m"
    and "x mod S = m \<Longrightarrow> b \<le> x \<longleftrightarrow> ceil_to S m b \<le> x"
proof -
  show lo: "b \<le> ceil_to S m b" and "ceil_to S m b < b + S"
    using assms(1) by (simp_all add: ceil_to_def)
  show c: "ceil_to S m b mod S = m"
    using assms by (simp add: ceil_to_def mod_add_right_eq)
  show "b \<le> x \<longleftrightarrow> ceil_to S m b \<le> x" if x: "x mod S = m"
  proof
    assume "b \<le> x"
    have "S dvd ceil_to S m b - x" using c x by (metis mod_eq_dvd_iff)
    then show "ceil_to S m b \<le> x"
      using \<open>ceil_to S m b < b + S\<close> \<open>b \<le> x\<close> assms(1) zdvd_not_zless [of "ceil_to S m b - x" S] by force
  qed (use lo in simp)
qed

lemma ceil_to_mono: "0 < S \<Longrightarrow> 0 \<le> m \<Longrightarrow> m < S \<Longrightarrow> b \<le> c \<Longrightarrow> ceil_to S m b \<le> ceil_to S m c"
  using ceil_to_props(1,3) [of S m c] ceil_to_props(4) [of S m "ceil_to S m c" b] by linarith

lemma mod_diff_small:
  fixes m a S :: int
  assumes "0 \<le> a" "a < S" "0 \<le> m" "m < S"
  shows "(m - a) mod S = (if a > m then m + S - a else m - a)"
proof (cases "a > m")
  case True
  have "(m - a) mod S = (m + S - a) mod S" by (metis diff_add_eq mod_add_self2)
  then show ?thesis using True assms by simp
qed (use assms in simp)

lemma uint_round_up:
  assumes "k < 31" "uint m < 2 ^ k" "uint b + 2 ^ k \<le> 2 ^ 64"
  shows "uint (round_up b m (2 ^ k)) = ceil_to (2 ^ k) (uint m) (uint b)"
proof -
  let ?S = "2 ^ k :: int"
  have "?S \<le> 2 ^ 30" using assms(1) by (intro power_increasing) auto
  then have pw: "?S \<le> 1073741824" by simp
  have "uint (word_of_int ?S :: u32) = ?S"
    using pw by (simp only: uint_word_of_int) simp
  then have S32: "uint (2 ^ k :: u32) = ?S" by simp
  have B: "0 \<le> uint b mod ?S" "uint b mod ?S < ?S" by simp_all
  let ?br = "ucast (b mod word_of_int ?S) :: u32"
  have small: "uint b mod ?S < 4294967296" using B(2) pw by linarith
  have br: "uint ?br = uint b mod ?S"
    using assms(1) mod_pos_pos_trivial [OF B(1) small]
    by (simp add: unsigned_ucast_eq uint_mod uint_pow take_bit_eq_mod)
  have less: "?br > m \<longleftrightarrow> uint b mod ?S > uint m" by (simp only: word_less_def br)
  have d: "(uint m - uint b) mod ?S = (if uint b mod ?S > uint m then uint m + ?S - uint b mod ?S else uint m - uint b mod ?S)"
  proof -
    have "(uint m - uint b) mod ?S = (uint m - uint b mod ?S) mod ?S" by (simp add: mod_diff_right_eq)
    also have "\<dots> = (if uint b mod ?S > uint m then uint m + ?S - uint b mod ?S else uint m - uint b mod ?S)"
      by (rule mod_diff_small [OF B]) (use assms(2) in simp_all)
    finally show ?thesis .
  qed
  have m0: "0 \<le> uint m" by simp
  have up: "uint (ucast c :: u64) = uint c" for c :: u32
    using unsigned_less [of c, where 'a = int] by (simp add: unsigned_ucast_eq take_bit_eq_mod)
  have a1: "uint (ucast (m + word_of_int ?S - ?br) :: u64) = uint m + ?S - uint b mod ?S"
    if "uint b mod ?S > uint m"
  proof -
    have "uint m + ?S - uint b mod ?S < 4294967296" "0 \<le> uint m + ?S - uint b mod ?S"
      using that B assms(2) pw m0 by linarith+
    then show ?thesis
      unfolding up by (simp only: uint_word_ariths br [simplified] S32) (simp add: br [simplified] S32 mod_simps)
  qed
  have a2: "uint (ucast (m - ?br) :: u64) = uint m - uint b mod ?S" if "\<not> uint b mod ?S > uint m"
  proof -
    have "uint m - uint b mod ?S < 4294967296" "0 \<le> uint m - uint b mod ?S"
      using that B assms(2) pw m0 by linarith+
    then show ?thesis
      unfolding up by (simp add: uint_word_ariths br [simplified] S32)
  qed
  have fit: "uint (b + c) = uint b + uint c" if "uint c < ?S" for c :: u64
    using that assms(3) by (simp add: uint_word_ariths)
  show ?thesis
  proof (cases "uint b mod ?S > uint m")
    case True
    have "uint m + ?S - uint b mod ?S < ?S" using True by linarith
    then show ?thesis
      unfolding round_up_def Let_def ceil_to_def d less using True a1 [OF True] by (simp add: fit)
  next
    case False
    have "uint m - uint b mod ?S < ?S" using B(1) assms(2) by linarith
    then show ?thesis
      unfolding round_up_def Let_def ceil_to_def d less using False a2 [OF False] by (simp add: fit)
  qed
qed

lemma stride_between:
  fixes l r x S m :: int
  assumes "0 < S" "0 \<le> m" "m < S" "x mod S = m"
    and same: "l < r \<longleftrightarrow> ceil_to S m l < ceil_to S m r"
  shows "between (ceil_to S m l) (ceil_to S m r) x \<longleftrightarrow> between l r x"
  using same ceil_to_props(4) [OF assms(1-4), of l] ceil_to_props(4) [OF assms(1-4), of r]
    ceil_to_mono [OF assms(1-3), of r l]
  by (auto simp: between_def not_le [symmetric])

lemma pow_less_32: "j < 31 \<Longrightarrow> (2 :: int) ^ j \<le> 1073741824"
  using power_increasing [of j 30 "2 :: int"] by simp

lemma guard_eq:
  fixes l :: u64 and m :: u32
  assumes "j < 31"
  shows "ucast (l mod 2 ^ j) = m mod 2 ^ j \<longleftrightarrow> uint l mod 2 ^ j = uint m mod 2 ^ j"
proof -
  have "uint (word_of_int (2 ^ j) :: u32) = 2 ^ j"
    using pow_less_32 [OF assms] by (simp only: uint_word_of_int) simp
  then have p: "uint (2 ^ j :: u32) = 2 ^ j" by simp
  have "0 \<le> uint l mod 2 ^ j" "uint l mod 2 ^ j < 4294967296"
    by simp (rule order.strict_trans1 [OF less_imp_le [OF pos_mod_bound]], simp,
        use pow_less_32 [OF assms] in linarith)
  then have "uint (ucast (l mod 2 ^ j) :: u32) = uint l mod 2 ^ j"
    using assms by (simp add: unsigned_ucast_eq uint_mod uint_pow take_bit_eq_mod)
  then show ?thesis by (simp add: word_uint_eq_iff uint_mod p)
qed

text \<open>Changing to a coarser stride is exact while rounding up does not leave the domain.\<close>

lemma new_stride_ok:
  assumes "new_stride (mask n) (2 ^ k) (2 ^ j) m l r = ((l', r'), none)"
    and n: "n \<le> 64" "k < 31" "k \<le> n" "j \<le> k" "uint m < 2 ^ k"
    and fit: "uint l + 2 ^ k \<le> 2 ^ n" "uint r + 2 ^ k \<le> 2 ^ n"
    and x: "uint x mod 2 ^ k = uint m" "in_stride l r (word_of_int (2 ^ j)) x"
  shows "\<not> none \<and> in_stride l' r' (word_of_int (2 ^ k)) x
    \<and> l' mod word_of_int (2 ^ k) = r' mod word_of_int (2 ^ k)"
proof -
  let ?S = "2 ^ k :: int" and ?c = "ceil_to (2 ^ k) (uint m)"
  have S: "0 < ?S" "0 \<le> uint m" "uint m < ?S" using n by simp_all
  have n64: "(2 :: int) ^ n \<le> 2 ^ 64" using n(1) by (intro power_increasing) auto
  have up: "uint (round_up b m ?S AND mask n) = ?c (uint b)" if "uint b + ?S \<le> 2 ^ n" for b
  proof -
    have "uint (round_up b m ?S) = ?c (uint b)" using n that n64 by (intro uint_round_up) auto
    moreover have "0 \<le> ?c (uint b)" "?c (uint b) < 2 ^ n"
      using ceil_to_props(1,2) [OF S, of "uint b"] that unsigned_greater_eq [of b, where 'a = int] by linarith+
    ultimately show ?thesis by (simp add: uint_and_mask)
  qed
  have j: "j < 31" using n by simp
  have "uint x mod 2 ^ j = uint m mod 2 ^ j"
    using x(1) n(4) mod_mod_cancel [of "2 ^ j" ?S "uint x"] by (simp add: le_imp_power_dvd)
  then have guard: "ucast (l mod word_of_int (2 ^ j)) = m mod word_of_int (2 ^ j)"
    using x(2) j by (simp add: in_stride_def mod_word_eq_iff uint_pow guard_eq)
  have b: "between (uint l) (uint r) (uint x)" using x(2) by (simp add: in_stride_def between_uint)
  have ord: "uint l < uint r \<longleftrightarrow> ?c (uint l) < ?c (uint r)"
    using b ceil_to_props(4) [OF S x(1), of "uint l"] ceil_to_props(4) [OF S x(1), of "uint r"]
      ceil_to_mono [OF S, of "uint r" "uint l"]
    by (auto simp: between_def split: if_splits)
  have l': "uint l' = ?c (uint l)" and r': "uint r' = ?c (uint r)" and none: "none \<longleftrightarrow> (l < r) \<noteq> (l' < r')"
    using assms(1) guard up [OF fit(1)] up [OF fit(2)] by (auto simp: new_stride_def Let_def)
  have "\<not> none" using none ord by (simp add: word_less_def l' r')
  moreover have "in_stride l' r' (word_of_int ?S) x"
    using stride_between [OF S x(1) ord] b ceil_to_props(3) [OF S, of "uint l"] x(1) n(2)
    by (simp add: in_stride_def between_uint l' r' mod_word_eq_iff uint_pow)
  moreover have "l' mod word_of_int ?S = r' mod word_of_int ?S"
    using ceil_to_props(3) [OF S] n(2) by (simp add: l' r' mod_word_eq_iff uint_pow)
  ultimately show ?thesis by blast
qed

text \<open>Boundaries of the finer of two ranges stay clear of the end of the domain.\<close>

definition stride_fits :: "nat \<Rightarrow> circle_range \<Rightarrow> int \<Rightarrow> bool" where
  "stride_fits n r s \<longleftrightarrow> cstep r < s \<longrightarrow> uint (cleft r) + s \<le> 2 ^ n \<and> uint (cright r) + s \<le> 2 ^ n"

lemma intersect_stride_step:
  assumes ok: "cr_ok n r" "\<not> cempty r" and s: "k < 31" "k \<le> n" "cstep r \<le> 2 ^ k"
    and fit: "stride_fits n r (2 ^ k)"
    and x: "contains_val r x" "uint x mod 2 ^ k = uint (m :: u32)"
    and res: "(if cstep r < 2 ^ k then new_stride (cmask r) (2 ^ k) (cstep r) m (cleft r) (cright r)
       else ((cleft r, cright r), False)) = ((l, rt), none)"
  shows "\<not> none \<and> in_stride l rt (word_of_int (2 ^ k)) x \<and> l mod word_of_int (2 ^ k) = rt mod word_of_int (2 ^ k)"
proof (cases "cstep r < 2 ^ k")
  case True
  obtain j where j: "j < 31" "j \<le> n" "cstep r = 2 ^ j" using ok by (auto simp: cr_ok_def)
  have "j \<le> k" using True j by (simp add: power_strict_increasing_iff)
  moreover have "uint m < 2 ^ k" using x(2) pos_mod_bound [of "2 ^ k" "uint x"] by simp
  ultimately show ?thesis
    using new_stride_ok [of n k j m "cleft r" "cright r" l rt none x] res True ok s fit x j
    by (simp add: cr_ok_def stride_fits_def contains_in_stride)
next
  case False
  then show ?thesis
    using res s ok x by (auto simp: cr_ok_def contains_in_stride)
qed

lemma mask_and_mask: "mask n AND mask m = (mask (min n m) :: u64)"
  by (rule bit_eqI) (auto simp: bit_and_iff bit_mask_iff)

lemma contains_phase:
  assumes "contains_val r x" "cstep r = 2 ^ k" "k < 31"
  shows "uint (cleft r) mod 2 ^ k = uint x mod 2 ^ k"
  using assms by (simp add: contains_val_iff mod_word_eq_iff uint_pow)

subsection \<open>Intersection\<close>

lemma uint_rem32:
  assumes "k < 31"
  shows "uint (ucast (l mod word_of_int (2 ^ k) :: u64) :: u32) = uint l mod 2 ^ k"
proof -
  have "uint l mod 2 ^ k < 4294967296"
    by (rule order.strict_trans1 [OF less_imp_le [OF pos_mod_bound]], simp,
        use pow_less_32 [OF assms] in linarith)
  then show ?thesis
    using assms by (simp add: unsigned_ucast_eq uint_mod uint_pow take_bit_eq_mod)
qed

lemma fit_bound: "stride_fits n r s \<Longrightarrow> s = 2 ^ j \<Longrightarrow> cstep r < s \<Longrightarrow> j \<le> n"
proof -
  assume h: "stride_fits n r s" "s = 2 ^ j" "cstep r < s"
  have "0 \<le> uint (cleft r)" by simp
  then have "(2 :: int) ^ j \<le> 2 ^ n" using h unfolding stride_fits_def by linarith
  then show "j \<le> n" by simp
qed

lemma intersect_sound:
  assumes ok: "cr_ok n r" "cr_ok m op2"
    and fit: "stride_fits n r (cstep op2)" "stride_fits m op2 (cstep r)"
    and x: "contains_val r x" "contains_val op2 x" "x \<le> mask n" "x \<le> mask m"
    and res: "intersect r op2 = (u, 0)"
  shows "contains_val u x"
proof -
  have ne: "\<not> cempty r" "\<not> cempty op2" using x by (auto simp: contains_val_iff)
  obtain j1 j2 where j1: "j1 < 31" "j1 \<le> n" "cstep r = 2 ^ j1" and j2: "j2 < 31" "j2 \<le> m" "cstep op2 = 2 ^ j2"
    using ok ne by (auto simp: cr_ok_def)
  define k where "k = (if cstep r < cstep op2 then j2 else j1)"
  have k: "k < 31" and S: "(if cstep r < cstep op2 then cstep op2 else cstep r) = 2 ^ k"
    using j1 j2
    by (auto simp: k_def)
  have lt: "cstep r < cstep op2 \<longleftrightarrow> cstep r < 2 ^ k" "cstep op2 < cstep r \<longleftrightarrow> cstep op2 < 2 ^ k"
    using S by (auto split: if_splits)
  have le: "cstep r \<le> 2 ^ k" "cstep op2 \<le> 2 ^ k" using S by (auto split: if_splits)
  have "k \<le> n" using fit_bound [OF fit(1), of j2] j1 j2 by (auto simp: k_def)
  moreover have "k \<le> m"
    using fit_bound [OF fit(2), of j1] j1 j2 by (cases "j2 < j1"; cases "j1 = j2") (auto simp: k_def)
  ultimately have pow: "k \<le> n" "k \<le> m" by auto
  let ?m = "ucast (x mod word_of_int (2 ^ k)) :: u32"
  have fits: "stride_fits n r (2 ^ k)" "stride_fits m op2 (2 ^ k)"
    using fit S by (auto simp: stride_fits_def split: if_splits)
  have xm: "uint x mod 2 ^ k = uint ?m" using uint_rem32 [OF k, of x] by simp
  have ph: "cstep r < cstep op2 \<Longrightarrow> cleft op2 mod word_of_int (2 ^ k) = x mod word_of_int (2 ^ k)"
    "cstep op2 < cstep r \<Longrightarrow> cleft r mod word_of_int (2 ^ k) = x mod word_of_int (2 ^ k)"
    using S x(1,2) by (auto simp: contains_val_iff split: if_splits)
  obtain ml mr n1 where A: "(if cstep r < 2 ^ k then new_stride (cmask r) (2 ^ k) (cstep r) ?m (cleft r) (cright r)
       else ((cleft r, cright r), False)) = ((ml, mr), n1)"
    by (metis prod.collapse)
  obtain ol orr n2 where B: "(if cstep op2 < 2 ^ k then new_stride (cmask op2) (2 ^ k) (cstep op2) ?m (cleft op2) (cright op2)
       else ((cleft op2, cright op2), False)) = ((ol, orr), n2)"
    by (metis prod.collapse)
  have a: "\<not> n1 \<and> in_stride ml mr (word_of_int (2 ^ k)) x \<and> ml mod word_of_int (2 ^ k) = mr mod word_of_int (2 ^ k)"
    by (rule intersect_stride_step [OF ok(1) ne(1) k pow(1) le(1) fits(1) x(1) xm A])
  have b: "\<not> n2 \<and> in_stride ol orr (word_of_int (2 ^ k)) x \<and> ol mod word_of_int (2 ^ k) = orr mod word_of_int (2 ^ k)"
    by (rule intersect_stride_step [OF ok(2) ne(2) k pow(2) le(2) fits(2) x(2) xm B])
  let ?nm = "cmask r AND cmask op2"
  have nm: "?nm = mask (min n m)" using ok by (simp add: cr_ok_def mask_and_mask)
  have xn: "x \<le> ?nm" using x(3,4) unfolding nm by (simp add: min_def)
  obtain ml' mr' o1 where C: "(if cmask r \<noteq> ?nm then new_domain ?nm (2 ^ k) ml mr else ((ml, mr), False)) = ((ml', mr'), o1)"
    by (metis prod.collapse)
  obtain ol' orr' o2 where D: "(if cmask r = ?nm \<and> cmask op2 \<noteq> ?nm then new_domain ?nm (2 ^ k) ol orr
      else ((ol, orr), False)) = ((ol', orr'), o2)"
    by (metis prod.collapse)
  have c: "\<not> o1 \<and> in_stride ml' mr' (word_of_int (2 ^ k)) x"
    using C a new_domain_ok [of ?nm "2 ^ k" ml mr ml' mr' o1 x] xn by (auto split: if_splits)
  have d: "\<not> o2 \<and> in_stride ol' orr' (word_of_int (2 ^ k)) x"
    using D b new_domain_ok [of ?nm "2 ^ k" ol orr ol' orr' o2 x] xn by (auto split: if_splits)
  have A': "(if cstep r < cstep op2 then new_stride (cmask r) (2 ^ k) (cstep r)
       (ucast (cleft op2 mod word_of_int (2 ^ k))) (cleft r) (cright r) else ((cleft r, cright r), False)) = ((ml, mr), n1)"
    using A ph lt by auto
  have B': "(if cstep op2 < cstep r then new_stride (cmask op2) (2 ^ k) (cstep op2)
       (ucast (cleft r mod word_of_int (2 ^ k))) (cleft op2) (cright op2) else ((cleft op2, cright op2), False)) = ((ol, orr), n2)"
    using B ph lt by auto
  have core: "intersect_core r ml' mr' ol' orr' = (u', c) \<Longrightarrow> (if c \<noteq> 0 then (u', c) else (u'\<lparr>cmask := ?nm, cstep := 2 ^ k\<rparr>, 0)) = (u, 0)" for u' c
    using res a b c d unfolding intersect_def S Let_def A' B' using ne
    by (simp only: if_False A' B' C D prod.case Let_def simp_thms)
  then obtain u' where u': "intersect_core r ml' mr' ol' orr' = (u', 0)" "u = u'\<lparr>cmask := ?nm, cstep := 2 ^ k\<rparr>"
    by (cases "intersect_core r ml' mr' ol' orr'") (auto split: if_splits)
  have "\<not> cempty u' \<and> between (cleft u') (cright u') x"
    using intersect_core_mem(1) [OF u'(1) ne(1), of x] c d by (simp add: in_stride_def)
  moreover have "cleft u' mod word_of_int (2 ^ k) = x mod word_of_int (2 ^ k)"
    using intersect_core_mem(3) [OF u'(1) ne(1)] calculation c d by (auto simp: in_stride_def)
  ultimately show ?thesis using u'(2) by (simp add: contains_val_iff)
qed

lemma intersect_same_eq:
  assumes "cr_ok n r" "cr_ok n op2" "cstep r = cstep op2" "\<not> cempty r" "\<not> cempty op2"
  shows "intersect r op2 = (let (u, c) = intersect_core r (cleft r) (cright r) (cleft op2) (cright op2) in (u, c))"
proof -
  have m: "cmask r = mask n" "cmask op2 = mask n" using assms by (auto simp: cr_ok_def)
  obtain u c where uc: "intersect_core r (cleft r) (cright r) (cleft op2) (cright op2) = (u, c)" by (metis prod.collapse)
  have "c = 0 \<Longrightarrow> u\<lparr>cmask := mask n, cstep := cstep op2\<rparr> = u"
    using uc assms(3) m by (auto simp: intersect_core_def set_or_empty_def Let_def split: if_splits)
  then show ?thesis
    using assms m uc by (simp add: intersect_def Let_def)
qed

lemma intersect_exact:
  assumes ok: "cr_ok n r" "cr_ok n op2" and res: "intersect r op2 = (u, 0)"
    and same: "\<not> cempty r \<Longrightarrow> \<not> cempty op2 \<Longrightarrow>
       cstep r = cstep op2 \<and> cleft r mod step64 r = cleft op2 mod step64 r"
  shows "cr_ok n u \<and> (contains_val u x \<longleftrightarrow> contains_val r x \<and> contains_val op2 x)"
proof (cases "cempty r \<or> cempty op2")
  case True
  then show ?thesis
    using ok res by (cases "cempty r") (auto simp: intersect_def cr_ok_def contains_val_iff)
next
  case False
  then have s: "cstep r = cstep op2" "cleft r mod step64 r = cleft op2 mod step64 r" and ne: "\<not> cempty r" "\<not> cempty op2"
    using same by auto
  have core: "intersect_core r (cleft r) (cright r) (cleft op2) (cright op2) = (u, 0)"
    using res intersect_same_eq [OF ok s(1) ne] by simp
  have st: "cstep u = cstep r"
    using core by (auto simp: intersect_core_def set_or_empty_def Let_def split: if_splits)
  note mem = intersect_core_mem [OF core ne(1)]
  have ends: "\<not> cempty u \<Longrightarrow> cleft u mod step64 r = cleft r mod step64 r \<and> cright u mod step64 r = cleft r mod step64 r"
    using mem(3) ok s ne by (auto simp: cr_ok_def)
  then have "cr_ok n u"
    using mem(2,3) ok ne st by (auto simp: cr_ok_def)
  then show ?thesis
    using mem(1) [of x] ends st s ne by (auto simp: contains_val_iff)
qed

lemma intersect_two:
  assumes "intersect r op2 = (u, c)" "c \<noteq> 0" shows "u = r \<and> c = 2"
  using assms by (auto simp: intersect_def Let_def split: if_splits prod.splits dest: intersect_core_two)

subsection \<open>Complement\<close>

lemma between_swap: "l \<noteq> r \<Longrightarrow> between r l x \<longleftrightarrow> \<not> between l r x"
  by (auto simp: between_def)

lemma complement_ok:
  assumes "cr_ok n r" "cstep r = 1"
  shows "cr_ok n (complement r) \<and> (contains_val (complement r) x \<longleftrightarrow> \<not> contains_val r x)"
  using assms between_swap [of "cleft r" "cright r" x] 
  by (auto simp: complement_def contains_val_iff cr_ok_def intro: exI [of _ 0])

subsection \<open>Containment\<close>

lemma dvd_phase:
  assumes "(l :: u64) mod word_of_int (2 ^ k) = x mod word_of_int (2 ^ k)" "j \<le> k" "k < 31"
  shows "l mod word_of_int (2 ^ j) = x mod word_of_int (2 ^ j)"
proof -
  have "(2 :: int) ^ j dvd 2 ^ k" using assms(2) by (rule le_imp_power_dvd)
  then show ?thesis
    using assms mod_mod_cancel [of "2 ^ j" "2 ^ k" "uint l"] mod_mod_cancel [of "2 ^ j" "2 ^ k" "uint x"]
    by (simp add: mod_word_eq_iff uint_pow)
qed

lemma contains_range_ok:
  assumes ok: "cr_ok n r" "cr_ok n op2" and sub: "contains_range r op2"
    and full: "cleft r = cright r \<Longrightarrow> cstep r = 1" and x: "contains_val op2 x" "x \<le> mask n"
  shows "contains_val r x"
proof -
  have ne: "\<not> cempty r" "\<not> cempty op2" using x sub by (auto simp: contains_val_iff contains_range_def)
  show ?thesis
  proof (cases "cleft r = cright r")
    case True
    then show ?thesis using full ne by (simp add: contains_val_iff)
  next
    case False
    obtain j k where j: "j < 31" "cstep r = 2 ^ j" and k: "k < 31" "cstep op2 = 2 ^ k"
      using ok ne by (auto simp: cr_ok_def)
    have ne2: "cleft op2 \<noteq> cright op2" and ph: "cleft r mod step64 r = cleft op2 mod step64 r"
      using sub ne False by (auto simp: contains_range_def split: if_splits)
    note ov = encode_ok [OF False ne2, of x]
    have b: "between (cleft op2) (cright op2) x" using x by (simp add: contains_val_iff)
    have "between (cleft r) (cright r) x"
      using sub ne False ne2 b ov
      by (auto simp: contains_range_def Let_def overlap_ok_code split: if_splits)
    moreover have "cleft op2 mod step64 r = x mod step64 r"
    proof (cases "cstep r > cstep op2")
      case True
      then have "is_single op2" using sub ne by (auto simp: contains_range_def split: if_splits)
      then show ?thesis using single_mem [OF ok(2) _ x(2)] x(1) by simp
    next
      case False
      then have "j \<le> k" using j k by simp
      then show ?thesis using dvd_phase [of "cleft op2" k x j] x(1) j k by (simp add: contains_val_iff)
    qed
    ultimately show ?thesis using ne ph by (simp add: contains_val_iff)
  qed
qed

subsection \<open>Ranges from masks of possibly non-zero bits\<close>

lemma trailing_zeros_props:
  assumes "x \<noteq> 0"
  shows "trailing_zeros x < 64" "bit x (trailing_zeros x)" "i < trailing_zeros x \<Longrightarrow> \<not> bit x i"
proof -
  let ?w = "takeWhile (\<lambda>i. \<not> bit x i) [0..<64]"
  obtain i where i: "bit x i" using assms by (metis bit_eqI bit_0_eq bot_apply bot_bool_def)
  then have "i < 64" using bit_imp_le_length by fastforce
  then have "?w \<noteq> [0..<64]" using i by (metis atLeastLessThan_iff set_takeWhileD set_upt zero_le)
  then have lt: "length ?w < length [0 ..< (64 :: nat)]"
    by (metis length_takeWhile_le le_neq_implies_less takeWhile_eq_take take_all_iff order_refl)
  then show t: "trailing_zeros x < 64" by (simp add: trailing_zeros_def)
  show "bit x (trailing_zeros x)"
    using nth_length_takeWhile [OF lt] t by (simp add: trailing_zeros_def)
  show "\<not> bit x i" if "i < trailing_zeros x" for i
    using that t by (metis nth_mem set_takeWhileD takeWhile_nth trailing_zeros_def nth_upt add.left_neutral less_trans)
qed

lemma dvd_low_bits:
  fixes x :: u64
  assumes "\<And>i. i < t \<Longrightarrow> \<not> bit x i"
  shows "2 ^ t dvd uint x"
proof -
  have "take_bit t (uint x) = 0"
    by (rule bit_eqI) (use assms in \<open>auto simp: bit_take_bit_iff bit_uint_iff\<close>)
  then show ?thesis by (simp add: take_bit_eq_mod dvd_eq_mod_eq_0)
qed

lemma bit_transitions_loop_ge: "res \<le> bit_transitions_loop n val b res"
proof (induction n arbitrary: val b res)
  case (Suc n)
  show ?case
    using Suc.IH [of res "shr64 val 1" "bit (shr64 val 1) 0"]
      Suc.IH [of "Suc res" "shr64 val 1" "bit (shr64 val 1) 0"]
    by (cases "bit (shr64 val 1) 0") (auto simp: Let_def)
qed simp

lemma shr64_1_bit: "bit (shr64 x 1) i \<longleftrightarrow> bit x (Suc i)"
  by (simp add: shr64_def bit_drop_bit_eq)

lemma bit_transitions_loop_zero:
  "bit_transitions_loop n val False res = res \<Longrightarrow> 1 \<le> i \<Longrightarrow> i \<le> n \<Longrightarrow> \<not> bit val i"
proof (induction n arbitrary: val i)
  case (Suc n)
  let ?v = "shr64 val 1"
  have z: "\<not> bit ?v 0"
    using Suc.prems(1) bit_transitions_loop_ge [of "Suc res" n ?v True]
    by (auto simp: Let_def split: if_splits)
  show ?case
  proof (cases "i = 1 \<or> ?v = 0")
    case True
    then show ?thesis using z Suc.prems(2) shr64_1_bit [of val "i - 1"] by auto
  next
    case False
    have "1 \<le> i - 1" "i - 1 \<le> n" using False Suc.prems(2,3) by auto
    then have "\<not> bit ?v (i - 1)"
      using Suc.IH [of ?v "i - 1"] Suc.prems z False by (auto simp: Let_def)
    then show ?thesis using Suc.prems(2) shr64_1_bit [of val "i - 1"] by simp
  qed
qed simp

lemma bit_transitions_none:
  assumes "bit_transitions nz sz = 0" "\<not> bit nz 0" "0 < sz" "nz \<le> mask (nat (8 * sz))"
  shows "nz = 0"
proof (rule bit_eqI)
  fix i
  have low: "\<not> bit nz i" if "i < nat (8 * sz)" for i
    using bit_transitions_loop_zero [of "nat (8 * sz - 1)" nz 0 i] assms that
    by (cases "i = 0") (auto simp: bit_transitions_def)
  have "nz = nz AND mask (nat (8 * sz))"
  proof (cases "nat (8 * sz) \<le> 64")
    case True
    then show ?thesis using assms(4) by (simp add: word_uint_eq_iff uint_and_mask ule_mask_iff)
  next
    case False
    then have "(mask (nat (8 * sz)) :: u64) = - 1" by (simp add: mask_eq_exp_minus_1)
    then show ?thesis by simp
  qed
  then show "bit nz i \<longleftrightarrow> bit (0 :: u64) i"
    using low by (metis bit_0_eq bit_and_iff bit_mask_iff bot_apply bot_bool_def)
qed

lemma nz_step_pow:
  assumes "0 \<le> t" "t mod 32 \<noteq> 31" shows "nz_step t = 2 ^ nat (t mod 32)"
proof -
  have lt: "nat (t mod 32) < 31" using assms pos_mod_bound [of 32 t] by (simp add: nat_less_iff)
  then have p: "(2 :: int) ^ nat (t mod 32) \<le> 2 ^ 30" by (intro power_increasing) auto
  have "sint (word_of_int (2 ^ nat (t mod 32)) :: u32) = 2 ^ nat (t mod 32)"
  proof -
    have "0 \<le> (2 :: int) ^ nat (t mod 32)" by simp
    then have "- (2 ^ 31) \<le> (2 :: int) ^ nat (t mod 32)" by (rule order_trans [rotated]) simp
    moreover have "(2 :: int) ^ nat (t mod 32) < 2 ^ 31" using p by (rule order.strict_trans1) simp
    ultimately show ?thesis by (simp only: signed_of_int) (simp add: signed_take_bit_int_eq_self)
  qed
  then show ?thesis by (simp add: nz_step_def push_bit_of_1)
qed

lemma cr_calc_mask_eq: "1 \<le> sz \<Longrightarrow> sz \<le> 8 \<Longrightarrow> cr_calc_mask sz = mask (nat (8 * sz))"
  by (simp add: cr_calc_mask_def calc_mask_eq min_def nat_mult_distrib)

lemma and_not_zero_iff: "(x :: u64) AND NOT nz = 0 \<longleftrightarrow> x AND nz = x"
  by (auto simp: bit_eq_iff bit_and_iff bit_not_iff)

lemma bit_transitions_0: "bit_transitions 0 sz = 0"
  by (cases "nat (8 * sz - 1)") (simp_all add: bit_transitions_def shr64_def)

lemma next_multiple:
  fixes a M S :: int
  assumes "0 < S" "S dvd a" "S dvd M" "a < M" shows "a + S \<le> M"
proof -
  have "S dvd M - a" using assms(2,3) by simp
  then have "S \<le> M - a" using assms(1,4) by (intro zdvd_imp_le) auto
  then show ?thesis by simp
qed

text \<open>
  The range of a mask holds every value within the mask, for every shape of mask: with nonzero mask,
  the stride is a power of two dividing the mask unless the least bit is 31 or 63.
\<close>

lemma set_nz_mask_ok:
  assumes sz: "1 \<le> sz" "sz \<le> 8" and nz: "nz \<le> cr_calc_mask sz"
    and lsb: "leastsigbit_set nz mod 32 \<noteq> 31"
    and res: "set_nz_mask nz sz r0 = (r, True)" and x: "x AND NOT nz = 0"
  shows "cr_ok (nat (8 * sz)) r \<and> contains_val r x"
proof -
  let ?n = "nat (8 * sz)"
  have n: "0 < ?n" "?n \<le> 64" using sz by auto
  have nzm: "nz \<le> mask ?n" using nz sz by (simp add: cr_calc_mask_eq)
  have xle: "x \<le> nz" using x word_and_le1 [of x nz] word_and_le2 [of x nz] by (simp add: and_not_zero_iff)
  show ?thesis
  proof (cases "bit_transitions nz sz = 0")
    case True
    have r: "r = r0\<lparr>cempty := False, cmask := mask ?n, cstep := 1, cleft := 0, cright := (if nz AND 1 = 0 then 1 else 0)\<rparr>"
      using res True sz by (auto simp: set_nz_mask_def cr_calc_mask_eq)
    have z: "nz = 0" if "nz AND 1 = 0"
      using bit_transitions_none [OF True _ _ nzm] that sz by (simp add: bit_0 even_iff_mod_2_eq_zero and_one_eq) 
    have "(1 :: u64) \<le> mask ?n"
      using n power_increasing [of 1 ?n "2 :: int"] by (simp add: ule_mask_iff)
    then show ?thesis
      using n z xle unfolding r by (auto simp: cr_ok_def contains_val_iff between_def intro: exI [of _ 0])
  next
    case False
    define k where "k = trailing_zeros nz mod 32"
    have nz0: "nz \<noteq> 0" using False bit_transitions_0 by auto
    note tz = trailing_zeros_props [OF nz0]
    have "int k \<noteq> 31" using lsb nz0 by (simp add: k_def leastsigbit_set_def zmod_int)
    moreover have "k < 32" by (simp add: k_def)
    ultimately have k: "k < 31" by simp
    have tn: "trailing_zeros nz < ?n"
    proof (rule ccontr)
      assume "\<not> ?thesis"
      then have "2 ^ ?n \<le> (2 :: int) ^ trailing_zeros nz" by (intro power_increasing) auto
      moreover have "2 ^ trailing_zeros nz dvd uint nz" using tz(3) by (rule dvd_low_bits)
      moreover have "0 < uint nz" using nz0 by (simp add: word_neq_0_conv word_less_def)
      moreover have "uint nz < 2 ^ ?n" using nzm n by (simp add: ule_mask_iff)
      ultimately show False using zdvd_not_zless [of "uint nz" "2 ^ trailing_zeros nz"] by linarith
    qed
    have kn: "k \<le> ?n" using tn by (simp add: k_def)
    have st: "nz_step (leastsigbit_set nz) = 2 ^ k"
      using nz_step_pow [OF _ lsb] nz0 by (simp add: leastsigbit_set_def k_def nat_mod_distrib)
    have r: "r = r0\<lparr>cempty := False, cstep := 2 ^ k, cmask := mask ?n, cleft := 0,
        cright := (nz + word_of_int (2 ^ k)) AND mask ?n\<rparr>"
      using res False sz st by (auto simp: set_nz_mask_def cr_calc_mask_eq Let_def split: if_splits)
    have kt: "(2 :: int) ^ k dvd 2 ^ trailing_zeros nz" by (rule le_imp_power_dvd) (simp add: k_def)
    have dn: "2 ^ k dvd uint nz" using dvd_trans [OF kt dvd_low_bits] tz(3) by blast
    have "\<not> bit x i" if "i < trailing_zeros nz" for i
      using tz(3) [OF that] bit_and_iff [of x nz i] x by (simp add: and_not_zero_iff)
    then have dx: "2 ^ k dvd uint x" using dvd_trans [OF kt dvd_low_bits] by blast
    have so: "stride_ok ?n (2 ^ k)" using k kn by (auto simp: stride_ok_def)
    have al: "((nz + word_of_int (2 ^ k)) AND mask ?n) mod word_of_int (2 ^ k) = nz mod word_of_int (2 ^ k)"
      by (rule stride_aligned [OF n(2) so])
    have zero: "nz mod word_of_int (2 ^ k) = 0" "x mod word_of_int (2 ^ k) = 0"
      using dn dx k by (simp_all add: word_uint_eq_iff uint_mod uint_pow dvd_eq_mod_eq_0)
    have "uint nz + 2 ^ k \<le> 2 ^ ?n"
      using dn nzm n kn by (intro next_multiple) (auto simp: ule_mask_iff le_imp_power_dvd)
    then have "between 0 ((uint nz + 2 ^ k) mod 2 ^ ?n) (uint x)"
      using xle by (cases "uint nz + 2 ^ k = 2 ^ ?n") (auto simp: between_def word_le_def order.strict_trans1)
    then have "between 0 ((nz + word_of_int (2 ^ k)) AND mask ?n) x"
      using n k by (simp add: between_uint uint_masked uint_pow)
    then show ?thesis
      using n k kn al zero so unfolding r
      by (simp add: cr_ok_def contains_val_iff masked_le stride_ok_def)
  qed
qed

subsection \<open>Counting\<close>

definition extent :: "nat \<Rightarrow> circle_range \<Rightarrow> int" where
  "extent n r = (if cleft r = cright r then 2 ^ n else (uint (cright r) - uint (cleft r)) mod 2 ^ n)"

lemma card_multiples:
  assumes "0 < S" "S dvd D" "0 \<le> D"
  shows "card {d :: int. 0 \<le> d \<and> d < D \<and> S dvd d} = nat (D div S)"
proof -
  have "{d. 0 \<le> d \<and> d < D \<and> S dvd d} = (*) S ` {0..<D div S}" (is "?A = ?B")
  proof
    show "?A \<subseteq> ?B"
    proof
      fix d assume "d \<in> ?A"
      then obtain q where "d = S * q" "0 \<le> d" "d < D" by auto
      moreover have "D = S * (D div S)" using assms(2) by simp
      ultimately have "q \<in> {0..<D div S}"
        using assms(1) by (metis atLeastLessThan_iff mult_less_cancel_left_pos zero_le_mult_iff not_less)
      then show "d \<in> ?B" using \<open>d = S * q\<close> by blast
    qed
    show "?B \<subseteq> ?A"
      using assms by (auto simp: zero_le_mult_iff)
  qed
  moreover have "inj_on ((*) S) {0..<D div S}" using assms(1) by (auto simp: inj_on_def)
  ultimately show ?thesis by (simp add: card_image)
qed

lemma member_distance:
  assumes ok: "cr_ok n r" and ne: "\<not> cempty r" and x: "x \<le> mask n"
  shows "contains_val r x \<longleftrightarrow> cstep r dvd (uint x - uint (cleft r)) mod 2 ^ n
    \<and> (uint x - uint (cleft r)) mod 2 ^ n < extent n r"
proof -
  obtain k where k: "k < 31" "k \<le> n" "cstep r = 2 ^ k" using ok ne by (auto simp: cr_ok_def)
  have n: "n \<le> 64" and b: "uint (cleft r) < 2 ^ n" "uint (cright r) < 2 ^ n" "uint x < 2 ^ n"
    using ok ne x by (auto simp: cr_ok_def ule_mask_iff)
  have "(2 :: int) ^ k dvd 2 ^ n" using k(2) by (rule le_imp_power_dvd)
  then have "2 ^ k dvd (uint x - uint (cleft r)) mod 2 ^ n \<longleftrightarrow> uint (cleft r) mod 2 ^ k = uint x mod 2 ^ k"
    by (metis dvd_mod_iff mod_eq_dvd_iff)
  moreover have "between (uint (cleft r)) (uint (cright r)) (uint x)
      \<longleftrightarrow> (uint x - uint (cleft r)) mod 2 ^ n < extent n r"
    using b by (subst between_mod [of _ "2 ^ n"]) (auto simp: extent_def word_uint_eq_iff)
  ultimately show ?thesis
    using ne k by (simp add: contains_val_iff between_uint mod_word_eq_iff uint_pow)
qed

lemma card_members:
  assumes ok: "cr_ok n r" and ne: "\<not> cempty r"
  shows "int (card {x. x \<le> mask n \<and> contains_val r x}) = extent n r div cstep r"
proof -
  let ?A = "{x. x \<le> mask n \<and> contains_val r x}" and ?M = "(2 :: int) ^ n"
  let ?f = "\<lambda>x. (uint x - uint (cleft r)) mod ?M"
  obtain k where k: "k < 31" "k \<le> n" "cstep r = 2 ^ k" using ok ne by (auto simp: cr_ok_def)
  have n: "n \<le> 64" and l: "uint (cleft r) < ?M" "uint (cright r) < ?M" using ok ne by (auto simp: cr_ok_def ule_mask_iff)
  have E: "0 \<le> extent n r" "extent n r \<le> ?M" by (auto simp: extent_def less_imp_le)
  have kM: "(2 :: int) ^ k dvd ?M" using k(2) by (rule le_imp_power_dvd)
  have "2 ^ k dvd extent n r"
    using kM ok ne k by (auto simp: extent_def cr_ok_def mod_word_eq_iff uint_pow dvd_mod_iff mod_eq_dvd_iff dvd_diff_commute)
  then have cE: "card {d. 0 \<le> d \<and> d < extent n r \<and> cstep r dvd d} = nat (extent n r div cstep r)"
    using card_multiples [of "cstep r" "extent n r"] E k by simp
  have inj: "inj_on ?f ?A"
  proof (rule inj_onI)
    fix x y assume h: "x \<in> ?A" "y \<in> ?A" "?f x = ?f y"
    then have "uint x mod ?M = uint y mod ?M" by (simp add: mod_eq_dvd_iff)
    then show "x = y" using h n by (simp add: ule_mask_iff word_uint_eq_iff)
  qed
  have img: "?f ` ?A = {d. 0 \<le> d \<and> d < extent n r \<and> cstep r dvd d}" (is "_ = ?D")
  proof
    show "?f ` ?A \<subseteq> ?D" using member_distance [OF ok ne] by auto
    show "?D \<subseteq> ?f ` ?A"
    proof
      fix d assume d: "d \<in> ?D"
      let ?x = "word_of_int ((uint (cleft r) + d) mod ?M) :: u64"
      have M64: "?M \<le> 2 ^ 64" using n by (intro power_increasing) auto
      have "(uint (cleft r) + d) mod ?M < ?M" by simp
      then have "(uint (cleft r) + d) mod ?M < 2 ^ 64" using M64 by (rule order.strict_trans2)
      then have ux: "uint ?x = (uint (cleft r) + d) mod ?M"
        by (simp only: uint_word_of_int len_num0 len_bit0 len_num1) (simp add: mod_pos_pos_trivial)
      then have "?f ?x = d mod ?M" by (simp add: mod_diff_left_eq)
      moreover have "d mod ?M = d" using d E by simp
      moreover have "?x \<le> mask n" using n ux by (simp add: ule_mask_iff)
      ultimately show "d \<in> ?f ` ?A" using member_distance [OF ok ne, of ?x] d by force
    qed
  qed
  have "card ?A = card ?D" using card_image [OF inj] img by simp
  then show ?thesis using cE E k by (simp add: pos_imp_zdiv_nonneg_iff)
qed

lemma ceil_div: "0 < S \<Longrightarrow> S dvd D \<Longrightarrow> (D - 1 + S) div S = D div S" for D S :: int
proof -
  assume S: "0 < S" "S dvd D"
  then obtain q where "D = S * q" by blast
  then have "(D - 1 + S) div S = (S * q + (S - 1)) div S" by (simp add: algebra_simps)
  also have "\<dots> = q" using S by (simp add: div_pos_pos_trivial)
  finally show ?thesis using \<open>D = S * q\<close> S by simp
qed

lemma get_size_ok:
  assumes ok: "cr_ok n r" and small: "\<not> (n = 64 \<and> is_full r)"
  shows "unat (get_size r) = card {x. x \<le> mask n \<and> contains_val r x}"
proof (cases "cempty r")
  case True
  then show ?thesis by (simp add: get_size_def contains_val_iff)
next
  case False
  let ?L = "uint (cleft r)" and ?R = "uint (cright r)" and ?M = "(2 :: int) ^ n"
  obtain k where k: "k < 31" "k \<le> n" "cstep r = 2 ^ k" using ok False by (auto simp: cr_ok_def)
  let ?S = "(2 :: int) ^ k"
  have n: "0 < n" "n \<le> 64" and l: "?L < ?M" "?R < ?M" and m: "cmask r = mask n"
    using ok False by (auto simp: cr_ok_def ule_mask_iff)
  have M64: "?M \<le> 2 ^ 64" using n by (intro power_increasing) auto
  have l0: "0 \<le> ?L" "0 \<le> ?R" by simp_all
  have um: "uint (cmask r) = ?M - 1" using unat_mask64 [OF n(2)] m by (simp add: uint_nat of_nat_diff)
  have us: "uint (step64 r) = ?S" using k by (simp add: uint_pow)
  have "uint (get_size r) = extent n r div cstep r"
  proof (cases "?L < ?R")
    case True
    then have "?R - ?L < 2 ^ 64" using l M64 l0 by linarith
    then have "uint (cright r - cleft r) = ?R - ?L" using True by (simp add: uint_word_ariths)
    moreover have "?R - ?L < ?M" using l l0 by linarith
    then have "extent n r = ?R - ?L" using True by (auto simp: extent_def)
    ultimately show ?thesis
      using True False us k by (simp add: get_size_def word_less_def uint_div)
  next
    case ge: False
    let ?v = "(cmask r - (cleft r - cright r) + step64 r) div step64 r"
    have E: "extent n r = ?M - (?L - ?R)"
      using ge mod_diff_small [OF l0(1) l(1) l0(2) l(2)] by (auto simp: extent_def word_uint_eq_iff)
    have dE: "?S dvd extent n r" and dl: "?S dvd ?L - ?R"
      using ok False k le_imp_power_dvd [OF k(2), of "2 :: int"]
      by (auto simp: E cr_ok_def mod_word_eq_iff uint_pow mod_eq_dvd_iff)
    have uv: "uint ?v = ((extent n r - 1 + ?S) mod 2 ^ 64) div ?S"
    proof -
      have e: "extent n r - 1 + ?S = uint (cmask r) - (?L - ?R) + uint (step64 r)" by (simp only: E um us)
      have "cmask r - (cleft r - cright r) + step64 r = word_of_int (extent n r - 1 + ?S)"
        unfolding e by simp
      then have "uint (cmask r - (cleft r - cright r) + step64 r) = (extent n r - 1 + ?S) mod 2 ^ 64"
        by (simp only: uint_word_of_int) simp
      then show ?thesis by (simp only: uint_div us)
    qed
    show ?thesis
    proof (cases "extent n r - 1 + ?S < 2 ^ 64")
      case True
      moreover have "?S \<le> extent n r"
      proof (rule zdvd_imp_le [OF dE])
        show "0 < extent n r" using E l l0 by linarith
      qed
      moreover have "0 < ?S" by simp
      ultimately have "(extent n r - 1 + ?S) mod 2 ^ 64 = extent n r - 1 + ?S"
        by (intro mod_pos_pos_trivial) linarith+
      then have "uint ?v = extent n r div ?S"
        using uv ceil_div [OF \<open>0 < ?S\<close> dE] by presburger
      moreover have "0 < extent n r div ?S" using \<open>?S \<le> extent n r\<close> by (simp add: pos_imp_zdiv_pos_iff)
      ultimately show ?thesis
        using False ge k by (auto simp: get_size_def word_less_def Let_def word_uint_eq_iff)
    next
      case big: False
      have eq: "?L = ?R"
      proof (rule ccontr)
        assume "?L \<noteq> ?R"
        then have "?S \<le> ?L - ?R" using dl ge by (intro zdvd_imp_le) auto
        then show False using big E M64 by linarith
      qed
      have "?S \<le> 2 ^ 30" using k by (intro power_increasing) auto
      have n64: "n = 64"
      proof (rule ccontr)
        assume "n \<noteq> 64"
        then have "?M \<le> 2 ^ 63" using n by (intro power_increasing) auto
        then show False using big E eq \<open>?S \<le> 2 ^ 30\<close> by simp
      qed
      have E64: "extent n r = 2 ^ 64" using E eq n64 by simp
      have "0 < k" using small False eq k n64 by (auto simp: is_full_def word_uint_eq_iff intro: Nat.gr0I)
      then have S1: "1 < ?S" by simp
      have "(2 ^ 64 - 1 + ?S) mod 2 ^ 64 = ?S - 1"
        using mod_pos_pos_trivial [of "?S - 1" "2 ^ 64"] S1 \<open>?S \<le> 2 ^ 30\<close>
          mod_add_self2 [of "?S - 1" "2 ^ 64"] by (simp add: algebra_simps)
      then have "uint ?v = 0" using uv E64 S1 by (simp add: div_pos_pos_trivial)
      then have gs: "get_size r = cmask r div step64 r + 1"
        using False ge S1 k by (auto simp: get_size_def word_less_def Let_def word_uint_eq_iff)
      have d: "(2 ^ 64 - 1) div ?S + 1 = 2 ^ 64 div ?S"
        using ceil_div [OF _ dE] E64 S1 div_add_self2 [of ?S "2 ^ 64 - 1"] by simp
      have "2 ^ 64 div ?S < 2 ^ 64" using S1 by (intro int_div_less_self) auto
      moreover have "0 \<le> (2 ^ 64 :: int) div ?S" by (simp add: pos_imp_zdiv_nonneg_iff)
      ultimately show ?thesis
        using d E64 k uint_pow [OF k(1)] by (simp add: gs uint_word_ariths uint_div um n64)
    qed
  qed
  then show ?thesis
    using card_members [OF ok False] by (metis uint_nat of_nat_eq_iff)
qed

end
