(* ===== verification/Circle_Laws.thy ===== *)
theory Circle_Laws
  imports Circle_Algebra
begin

text \<open>
  What the set operations of \<^verbatim>\<open>decompile/circlerange.rs\<close> promise: the algebra of circle ranges as a
  locale, its interpretation on \<open>circle_union\<close> and \<open>complement\<close> at every width, and the properties of
  union, intersection, inclusion, complement, size and the range of a bit mask.
\<close>

subsection \<open>The algebra of circle ranges\<close>

text \<open>
  What a client relies on: a representation invariant, membership over a domain, and the partial
  operations of the algebra, which report with a code other than 0 that the result is not one range.
\<close>

locale range_algebra =
  fixes ok :: "'r \<Rightarrow> bool" and dom :: "'x \<Rightarrow> bool" and mem :: "'r \<Rightarrow> 'x \<Rightarrow> bool"
    and join :: "'r \<Rightarrow> 'r \<Rightarrow> 'r \<times> int" and flip :: "'r \<Rightarrow> 'r" and unit :: "'r \<Rightarrow> bool"
  assumes join_law: "\<lbrakk>ok r; ok s; join r s = (u, 0); dom x\<rbrakk> \<Longrightarrow> ok u \<and> (mem u x \<longleftrightarrow> mem r x \<or> mem s x)"
    and flip_law: "\<lbrakk>ok r; unit r; dom x\<rbrakk> \<Longrightarrow> ok (flip r) \<and> unit (flip r) \<and> (mem (flip r) x \<longleftrightarrow> \<not> mem r x)"
begin

lemma join_commutes:
  assumes "ok r" "ok s" "join r s = (u, 0)" "join s r = (v, 0)" "dom x"
  shows "mem u x = mem v x"
  using join_law [OF assms(1,2,3,5)] join_law [OF assms(2,1,4,5)] by blast

lemma join_upper:
  assumes "ok r" "ok s" "join r s = (u, 0)" "dom x" "mem r x \<or> mem s x"
  shows "mem u x"
  using join_law [OF assms(1-4)] assms(5) by blast

lemma flip_twice: "\<lbrakk>ok r; unit r; dom x\<rbrakk> \<Longrightarrow> mem (flip (flip r)) x = mem r x"
  using flip_law by blast

text \<open>Both operations together: the complement of a union is what both complements share.\<close>

lemma flip_join:
  assumes "ok r" "ok s" "unit r" "unit s" "join r s = (u, 0)" "unit u" "dom x"
  shows "mem (flip u) x \<longleftrightarrow> mem (flip r) x \<and> mem (flip s) x"
  using join_law [OF assms(1,2,5,7)] flip_law [OF _ _ assms(7)] assms by blast

end

interpretation cr: range_algebra "cr_ok n" "\<lambda>x. x \<le> mask n" contains_val circle_union complement "\<lambda>r. cstep r = 1"
  for n
proof
  show "cr_ok n u \<and> (contains_val u x \<longleftrightarrow> contains_val r x \<or> contains_val s x)"
    if "cr_ok n r" "cr_ok n s" "circle_union r s = (u, 0)" "x \<le> mask n" for r s u x
    using that by (rule union_ok)
  show "cr_ok n (complement r) \<and> cstep (complement r) = 1 \<and> (contains_val (complement r) x \<longleftrightarrow> \<not> contains_val r x)"
    if "cr_ok n r" "cstep r = 1" "x \<le> mask n" for r x
    using complement_ok [OF that(1,2)] that(2) by (simp add: complement_def)
qed

text \<open>
  (C13) The union of two ranges of the same domain, when \<open>circle_union\<close> reports it as one range, is a
  well-formed range that holds exactly the values of either one, and it does not depend on the order
  of the two.
\<close>

theorem circle_union_exact:
  assumes "cr_ok n r" "cr_ok n op2" "circle_union r op2 = (u, 0)" "circle_union op2 r = (v, 0)" "x \<le> mask n"
  shows "cr_ok n u \<and> (contains_val u x \<longleftrightarrow> contains_val r x \<or> contains_val op2 x)
    \<and> (contains_val v x \<longleftrightarrow> contains_val u x)"
  using cr.join_law [OF assms(1-3,5)] cr.join_commutes [OF assms] by blast

definition demo_left :: circle_range where
  "demo_left = \<lparr>cleft = 0xf0, cright = 0x10, cmask = 0xff, cempty = False, cstep = 4\<rparr>"

definition demo_right :: circle_range where
  "demo_right = \<lparr>cleft = 0x08, cright = 0x40, cmask = 0xff, cempty = False, cstep = 4\<rparr>"

lemma demo_ok: "cr_ok 8 demo_left" "cr_ok 8 demo_right"
  by (auto simp: cr_ok_def demo_left_def demo_right_def mask_eq_exp_minus_1 intro: exI [of _ 2])

lemma demo_union:
  "circle_union demo_left demo_right = (demo_left\<lparr>cright := 0x40\<rparr>, 0)"
  "circle_union demo_right demo_left = (demo_left\<lparr>cright := 0x40\<rparr>, 0)"
  by (simp_all add: circle_union_def circle_union_core_def encode_range_overlaps_def arrange_def demo_left_def demo_right_def Let_def)

theorem circle_union_exact_witness:
  "cr_ok 8 (demo_left\<lparr>cright := 0x40\<rparr>) \<and>
   (contains_val (demo_left\<lparr>cright := 0x40\<rparr>) 0x3c \<longleftrightarrow> contains_val demo_left 0x3c \<or> contains_val demo_right 0x3c)"
  using circle_union_exact [OF demo_ok demo_union, of "0x3c"] by (simp add: mask_eq_exp_minus_1)

text \<open>
  (C24) A value of both ranges is in their intersection when \<open>intersect\<close> reports one range, also when
  domains and strides differ; the strides must fit, that is, rounding a boundary up to the coarser
  stride must not leave the domain.
\<close>

theorem circle_intersect_sound:
  assumes "cr_ok n r" "cr_ok m op2" "stride_fits n r (cstep op2)" "stride_fits m op2 (cstep r)"
    "contains_val r x" "contains_val op2 x" "x \<le> mask n" "x \<le> mask m" "intersect r op2 = (u, 0)"
  shows "contains_val u x"
  using assms by (rule intersect_sound)

definition demo_bytes :: circle_range where
  "demo_bytes = \<lparr>cleft = 0x02, cright = 0x1f, cmask = 0xff, cempty = False, cstep = 1\<rparr>"

theorem circle_intersect_sound_witness:
  "contains_val (\<lparr>cleft = 0x08, cright = 0x20, cmask = 0xff, cempty = False, cstep = 4\<rparr>) 0x1c"
proof (rule circle_intersect_sound [of 8 demo_right 8 demo_bytes])
  show "cr_ok 8 demo_right" by (rule demo_ok)
  show "cr_ok 8 demo_bytes"
    by (auto simp: cr_ok_def demo_bytes_def mask_eq_exp_minus_1 intro: exI [of _ 0])
  show "intersect demo_right demo_bytes = (\<lparr>cleft = 0x08, cright = 0x20, cmask = 0xff, cempty = False, cstep = 4\<rparr>, 0)"
    by (simp add: intersect_def intersect_core_def new_stride_def round_up_def set_or_empty_def encode_range_overlaps_def arrange_def demo_right_def demo_bytes_def Let_def)
qed (simp_all add: demo_ok stride_fits_def demo_right_def demo_bytes_def contains_val_def mask_eq_exp_minus_1)

text \<open>
  (C23) For ranges of the same domain, stride and phase the intersection is exact: \<open>intersect\<close> keeps
  the invariant and the result holds exactly the common values; when it reports two pieces it leaves
  the range unchanged.
\<close>

theorem circle_intersect_exact:
  assumes "cr_ok n r" "cr_ok n op2" "intersect r op2 = (u, c)"
    and "\<lbrakk>\<not> cempty r; \<not> cempty op2\<rbrakk> \<Longrightarrow> cstep r = cstep op2 \<and> cleft r mod step64 r = cleft op2 mod step64 r"
  shows "(c = 0 \<longrightarrow> cr_ok n u \<and> (contains_val u x \<longleftrightarrow> contains_val r x \<and> contains_val op2 x)) \<and> (c \<noteq> 0 \<longrightarrow> u = r \<and> c = 2)"
  using intersect_exact [of n r op2 u x] intersect_two [of r op2 u c] assms by blast

theorem circle_intersect_exact_witness:
  "contains_val \<lparr>cleft = 0x08, cright = 0x10, cmask = 0xff, cempty = False, cstep = 4\<rparr> 0x0c
     \<longleftrightarrow> contains_val demo_left 0x0c \<and> contains_val demo_right 0x0c"
proof -
  have "intersect demo_left demo_right = (\<lparr>cleft = 0x08, cright = 0x10, cmask = 0xff, cempty = False, cstep = 4\<rparr>, 0)"
    by (simp add: intersect_def intersect_core_def set_or_empty_def encode_range_overlaps_def arrange_def demo_left_def demo_right_def Let_def)
  from circle_intersect_exact [OF demo_ok this, of "0x0c"] show ?thesis
    by (simp add: demo_left_def demo_right_def)
qed

text \<open>
  \<open>contains_range\<close> is sound: when it says yes, every value of the second range is in the first
  (for a first range that does not claim the whole circle with a stride above one).
\<close>

theorem circle_contains_range_sound:
  assumes "cr_ok n r" "cr_ok n op2" "contains_range r op2" "cleft r = cright r \<Longrightarrow> cstep r = 1"
    "contains_val op2 x" "x \<le> mask n"
  shows "contains_val r x"
  using assms by (rule contains_range_ok)

theorem circle_contains_range_sound_witness: "contains_val demo_bytes 0x0a"
proof (rule circle_contains_range_sound [of 8 demo_bytes "\<lparr>cleft = 0x08, cright = 0x10, cmask = 0xff, cempty = False, cstep = 2\<rparr>"])
  show "cr_ok 8 demo_bytes"
    by (auto simp: cr_ok_def demo_bytes_def mask_eq_exp_minus_1 intro: exI [of _ 0])
  show "cr_ok 8 \<lparr>cleft = 0x08, cright = 0x10, cmask = 0xff, cempty = False, cstep = 2\<rparr>"
    by (auto simp: cr_ok_def mask_eq_exp_minus_1 intro: exI [of _ 1])
qed (simp_all add: contains_range_def encode_range_overlaps_def arrange_def demo_bytes_def contains_val_def mask_eq_exp_minus_1 Let_def)

text \<open>
  (C25) \<open>invert\<close> of a range with stride one is the complement of its values, inverting twice restores
  them, and the complement of a union is the common part of the complements.
\<close>

theorem circle_invert_complement:
  assumes "cr_ok n r" "cr_ok n s" "cstep r = 1" "cstep s = 1" "x \<le> mask n" "circle_union r s = (u, 0)" "cstep u = 1"
  shows "snd (invert r) = 1 \<and> cr_ok n (fst (invert r)) \<and> (contains_val (fst (invert r)) x \<longleftrightarrow> \<not> contains_val r x)
    \<and> contains_val (fst (invert (fst (invert r)))) x = contains_val r x
    \<and> (contains_val (fst (invert u)) x \<longleftrightarrow> contains_val (fst (invert r)) x \<and> contains_val (fst (invert s)) x)"
proof -
  have i: "fst (invert t) = complement t" if "cstep t = 1" for t
  proof -
    have "t\<lparr>cstep := 1\<rparr> = t" using that by (cases t) simp
    then show ?thesis by (simp add: invert_def)
  qed
  have c: "cstep (complement r) = 1" using assms by (simp add: complement_def)
  show ?thesis
    using cr.flip_law [OF assms(1,3,5)] cr.flip_twice [OF assms(1,3,5)] cr.flip_join [OF assms(1-4,6,7,5)] c assms(3,4,7)
    by (simp add: i) (simp add: invert_def)
qed

theorem circle_invert_complement_witness:
  "\<not> contains_val (fst (invert demo_bytes)) 0x03 \<and> contains_val (fst (invert demo_bytes)) 0x80"
proof -
  have ok: "cr_ok 8 demo_bytes" "cstep demo_bytes = 1"
    by (auto simp: cr_ok_def demo_bytes_def mask_eq_exp_minus_1 intro: exI [of _ 0])
  have u: "circle_union demo_bytes demo_bytes = (demo_bytes, 0)"
    by (simp add: circle_union_def circle_union_core_def encode_range_overlaps_def arrange_def demo_bytes_def Let_def)
  have m: "contains_val demo_bytes 0x03" "\<not> contains_val demo_bytes 0x80" "(0x03 :: u64) \<le> mask 8" "(0x80 :: u64) \<le> mask 8"
    by (simp_all add: demo_bytes_def contains_val_def mask_eq_exp_minus_1)
  show ?thesis
    using circle_invert_complement [OF ok(1,1,2,2) m(3) u ok(2)] circle_invert_complement [OF ok(1,1,2,2) m(4) u ok(2)] m by blast
qed

text \<open>
  The range built from a mask of possibly non-zero bits holds every value whose set bits lie in
  the mask, so refining a pulled-back range by it loses nothing.
\<close>

theorem nz_mask_range_sound:
  assumes "1 \<le> sz" "sz \<le> 8" "nz \<le> cr_calc_mask sz" "leastsigbit_set nz mod 32 \<noteq> 31"
    "set_nz_mask nz sz r0 = (r, True)" "x AND NOT nz = 0"
  shows "cr_ok (nat (8 * sz)) r \<and> contains_val r x"
  using assms by (rule set_nz_mask_ok)

theorem nz_mask_range_sound_witness:
  "contains_val \<lparr>cleft = 0, cright = 0x40, cmask = 0xff, cempty = False, cstep = 4\<rparr> 0x2c"
proof -
  have ls: "leastsigbit_set 0x3c = 2" 
  proof -
    have "[0..<64] = [0, 1, 2] @ [3..<64]" by (simp add: upt_conv_Cons)
    moreover have "\<not> bit (0x3c :: u64) 0" "\<not> bit (0x3c :: u64) 1" "bit (0x3c :: u64) 2"
      by (simp_all add: bit_iff_odd)
    ultimately show ?thesis by (simp add: leastsigbit_set_def trailing_zeros_def)
  qed
  have tr: "bit_transitions 0x3c 1 = 2" by code_simp
  have "set_nz_mask 0x3c 1 cr_default = (\<lparr>cleft = 0, cright = 0x40, cmask = 0xff, cempty = False, cstep = 4\<rparr>, True)"
    by (simp add: set_nz_mask_def tr ls nz_step_def cr_default_def cr_calc_mask_def calc_mask_def shl64_def)
  then show ?thesis using nz_mask_range_sound [of 1 "0x3c" cr_default _ "0x2c"] ls by (simp add: cr_calc_mask_def calc_mask_def shl64_def)
qed

text \<open>
  \<open>get_size\<close> is the number of values of the range, except for the full 64-bit circle, whose size
  does not fit in 64 bits.
\<close>

theorem circle_size_counts:
  assumes "cr_ok n r" "\<not> (n = 64 \<and> is_full r)"
  shows "unat (get_size r) = card {x. x \<le> mask n \<and> contains_val r x}"
  using assms by (rule get_size_ok)

theorem circle_size_counts_witness: "card {x. x \<le> mask 8 \<and> contains_val demo_right x} = 14"
  using circle_size_counts [OF demo_ok(2)] by (simp add: get_size_def demo_right_def)

end
