(* ===== verification/Pcode_Eval.thy ===== *)
theory Pcode_Eval
  imports Pcode_Op Word_Mask
begin

text \<open>
  \<^verbatim>\<open>sleigh/pcode.rs\<close> and the value-computing arms of \<^verbatim>\<open>Machine::step\<close> in \<^verbatim>\<open>sleigh/emu.rs\<close>: varnodes,
  operations as the lifter emits them, the interpreter's two width helpers \<open>emu_mask\<close> and \<open>sext\<close>, and
  \<open>alu\<close>, the result of an operation as a function of its operands.  \<^verbatim>\<open>i64\<close> values are kept as their
  bits; signed comparisons read them with \<open>sint\<close>.
\<close>

subsection \<open>Operations\<close>

record varnode =
  vspace :: string
  voffset :: u64
  vsize :: nat

definition is_const :: "varnode \<Rightarrow> bool" where
  "is_const v \<longleftrightarrow> vspace v = ''const''"

datatype parg = Var varnode | Space string

primrec as_var :: "parg \<Rightarrow> varnode option" where
  "as_var (Var v) = Some v"
| "as_var (Space s) = None"

datatype branch_dest = Other | Start | Next

record pcode_op =
  opcode_number :: u32
  op_out :: "varnode option"
  op_ins :: "parg list"
  op_dest :: branch_dest

definition opcode_names :: "(u32 \<times> string) list" where
  "opcode_names = [
    (1, ''COPY''), (2, ''LOAD''), (3, ''STORE''), (4, ''BRANCH''), (5, ''CBRANCH'')
    , (6, ''BRANCHIND''), (7, ''CALL''), (8, ''CALLIND''), (9, ''CALLOTHER''), (10, ''RETURN'')
    , (11, ''INT_EQUAL''), (12, ''INT_NOTEQUAL''), (13, ''INT_SLESS''), (14, ''INT_SLESSEQUAL'')
    , (15, ''INT_LESS''), (16, ''INT_LESSEQUAL''), (17, ''INT_ZEXT''), (18, ''INT_SEXT'')
    , (19, ''INT_ADD''), (20, ''INT_SUB''), (21, ''INT_CARRY''), (22, ''INT_SCARRY'')
    , (23, ''INT_SBORROW''), (24, ''INT_2COMP''), (25, ''INT_NEGATE''), (26, ''INT_XOR'')
    , (27, ''INT_AND''), (28, ''INT_OR''), (29, ''INT_LEFT''), (30, ''INT_RIGHT'')
    , (31, ''INT_SRIGHT''), (32, ''INT_MULT''), (33, ''INT_DIV''), (34, ''INT_SDIV'')
    , (35, ''INT_REM''), (36, ''INT_SREM''), (37, ''BOOL_NEGATE''), (38, ''BOOL_XOR'')
    , (39, ''BOOL_AND''), (40, ''BOOL_OR''), (41, ''FLOAT_EQUAL''), (42, ''FLOAT_NOTEQUAL'')
    , (43, ''FLOAT_LESS''), (44, ''FLOAT_LESSEQUAL''), (46, ''FLOAT_NAN''), (47, ''FLOAT_ADD'')
    , (48, ''FLOAT_DIV''), (49, ''FLOAT_MULT''), (50, ''FLOAT_SUB''), (51, ''FLOAT_NEG'')
    , (52, ''FLOAT_ABS''), (53, ''FLOAT_SQRT''), (54, ''FLOAT_INT2FLOAT'')
    , (55, ''FLOAT_FLOAT2FLOAT''), (56, ''FLOAT_TRUNC''), (57, ''FLOAT_CEIL'')
    , (58, ''FLOAT_FLOOR''), (59, ''FLOAT_ROUND''), (62, ''PIECE''), (63, ''SUBPIECE'')
    , (64, ''CAST''), (65, ''PTRADD''), (66, ''PTRSUB''), (67, ''SEGMENTOP''), (68, ''CPOOLREF'')
    , (69, ''NEW''), (70, ''INSERT''), (71, ''EXTRACT''), (72, ''POPCOUNT''), (73, ''LZCOUNT'')]"

definition opcode_name :: "u32 \<Rightarrow> string" where
  "opcode_name n = (case map_of opcode_names n of Some s \<Rightarrow> s | None \<Rightarrow> ''PCODE_OP'')"

definition pcode_op_name :: "pcode_op \<Rightarrow> string" where
  "pcode_op_name p = opcode_name (opcode_number p)"

subsection \<open>Widths\<close>

definition emu_mask :: "u64 \<Rightarrow> nat \<Rightarrow> u64" where
  "emu_mask v sz = (if 8 \<le> sz \<or> sz = 0 then v else v AND (shl64 1 (sz * 8) - 1))"

definition sext :: "u64 \<Rightarrow> nat \<Rightarrow> u64" where
  "sext v sz =
     (if sz = 0 \<or> 8 \<le> sz then v
      else let bits = sz * 8; sign = shl64 1 (bits - 1); m = emu_mask v sz
           in (m XOR sign) - sign)"

definition count_ones :: "u64 \<Rightarrow> u64" where
  "count_ones x = of_nat (length (filter (bit x) [0..<64]))"

subsection \<open>The value of an operation\<close>

definition of_bool64 :: "bool \<Rightarrow> u64" where
  "of_bool64 b = (if b then 1 else 0)"

text \<open>
  \<open>isz\<close> is the size of the first input (the output's when it is not a varnode), \<open>a\<close> and \<open>b\<close> the inputs,
  \<open>sa\<close> and \<open>sb\<close> the inputs sign-extended from their own sizes.  \<open>None\<close>: not an operation of this family.
\<close>

definition alu :: "opcode \<Rightarrow> nat \<Rightarrow> u64 \<Rightarrow> u64 \<Rightarrow> u64 \<Rightarrow> u64 \<Rightarrow> u64 option" where
  "alu opc isz a b sa sb =
     (case opc of
        Copy \<Rightarrow> Some a
      | IntAdd \<Rightarrow> Some (a + b)
      | IntSub \<Rightarrow> Some (a - b)
      | IntMult \<Rightarrow> Some (a * b)
      | IntAnd \<Rightarrow> Some (a AND b)
      | IntOr \<Rightarrow> Some (a OR b)
      | IntXor \<Rightarrow> Some (a XOR b)
      | IntLeft \<Rightarrow> Some (shl64 a (unat (ucast b :: u32)))
      | IntRight \<Rightarrow> Some (shr64 a (unat (ucast b :: u32)))
      | IntSright \<Rightarrow> Some (sar64 sa (min (unat (ucast b :: u32)) 63))
      | IntNegate \<Rightarrow> Some (NOT a)
      | Int2comp \<Rightarrow> Some (- a)
      | IntZext \<Rightarrow> Some a
      | IntSext \<Rightarrow> Some sa
      | IntEqual \<Rightarrow> Some (of_bool64 (a = b))
      | IntNotequal \<Rightarrow> Some (of_bool64 (a \<noteq> b))
      | IntLess \<Rightarrow> Some (of_bool64 (a < b))
      | IntLessequal \<Rightarrow> Some (of_bool64 (a \<le> b))
      | IntSless \<Rightarrow> Some (of_bool64 (sint sa < sint sb))
      | IntSlessequal \<Rightarrow> Some (of_bool64 (sint sa \<le> sint sb))
      | IntCarry \<Rightarrow>
          (let x = emu_mask a isz; y = emu_mask b isz
           in Some (of_bool64 (x + y > emu_mask (- 1) isz \<or> checked_add64 x y = None)))
      | IntScarry \<Rightarrow>
          (let s = sext (emu_mask (sa + sb) isz) isz
           in Some (of_bool64 ((sint sa < 0) = (sint sb < 0) \<and> (sint sa < 0) \<noteq> (sint s < 0))))
      | IntSborrow \<Rightarrow>
          (let s = sext (emu_mask (sa - sb) isz) isz
           in Some (of_bool64 ((sint sa < 0) \<noteq> (sint sb < 0) \<and> (sint sa < 0) \<noteq> (sint s < 0))))
      | BoolNegate \<Rightarrow> Some (of_bool64 (a = 0))
      | BoolAnd \<Rightarrow> Some ((a AND 1) AND (b AND 1))
      | BoolOr \<Rightarrow> Some ((a AND 1) OR (b AND 1))
      | BoolXor \<Rightarrow> Some ((a AND 1) XOR (b AND 1))
      | Popcount \<Rightarrow> Some (count_ones a)
      | Lzcount \<Rightarrow> Some (of_nat (leading_zeros a) - 8 * of_nat (8 - min isz 8))
      | _ \<Rightarrow> None)"

text \<open>What an operation writes: its value cut to the size of its output.\<close>

definition pcode_value :: "opcode \<Rightarrow> nat \<Rightarrow> nat \<Rightarrow> u64 \<Rightarrow> u64 \<Rightarrow> u64 option" where
  "pcode_value opc isz osz a b =
     map_option (\<lambda>v. emu_mask v osz) (alu opc isz a b (sext a isz) (sext b isz))"

subsection \<open>Facts about names and widths\<close>

lemma opcode_names_table:
  "opcode_names = map (\<lambda>(n, c). (n, op_name c)) (filter (\<lambda>(n, c). n \<noteq> 60 \<and> n \<noteq> 61) op_table)"
  by (simp add: opcode_names_def op_table_def)

lemma map_of_names:
  "distinct (map fst xs) \<Longrightarrow>
   map_of (map (\<lambda>(n, c). (n, f c)) (filter (\<lambda>(n, c). P n) xs)) n
     = (if P n then map_option f (map_of xs n) else None)"
  by (induction xs) (auto simp: map_of_eq_None_iff image_iff split: if_splits)

lemma opcode_name_iff:
  "opcode_name n = (case from_u32 n of
     Some c \<Rightarrow> if n = 60 \<or> n = 61 then ''PCODE_OP'' else op_name c | None \<Rightarrow> ''PCODE_OP'')"
  using map_of_names [OF op_table_distinct, of op_name "\<lambda>n. n \<noteq> 60 \<and> n \<noteq> 61" n]
  by (auto simp: opcode_name_def opcode_names_table from_u32_def split: option.splits)

lemma emu_mask_eq [mask_simps]: "1 \<le> sz \<Longrightarrow> sz \<le> 8 \<Longrightarrow> emu_mask v sz = v AND mask (8 * sz)"
proof -
  assume "1 \<le> sz" "sz \<le> 8"
  moreover have "(shl64 1 (sz * 8) - 1 :: u64) = mask (8 * sz)" if "sz < 8"
    using that by (simp add: shl64_def mask_eq_exp_minus_1 push_bit_of_1 mult.commute)
  moreover have "(mask 64 :: u64) = - 1" by (simp add: mask_eq_exp_minus_1)
  ultimately show ?thesis by (cases "sz = 8") (auto simp: emu_mask_def)
qed

lemma xor_sign_bit:
  fixes v :: u64
  assumes "n < 64"
  shows "(take_bit (Suc n) v XOR 2 ^ n) - 2 ^ n = take_bit n v - of_bool (bit v n) * 2 ^ n"
proof -
  have "take_bit (Suc n) v XOR 2 ^ n = take_bit n v + of_bool (\<not> bit v n) * 2 ^ n"
  proof -
    have "take_bit (Suc n) v XOR 2 ^ n = take_bit n v OR (if bit v n then 0 else 2 ^ n)"
      by (rule bit_eqI) (use assms in \<open>auto simp: bit_xor_iff bit_or_iff bit_take_bit_iff bit_exp_iff less_Suc_eq\<close>)
    also have "\<dots> = take_bit n v + (if bit v n then 0 else 2 ^ n)"
      by (rule disjunctive_add [symmetric]) (auto simp: bit_take_bit_iff bit_exp_iff)
    finally show ?thesis by simp
  qed
  then show ?thesis by simp
qed

lemma take_bit_Suc_word: "take_bit (Suc n) (v :: u64) = take_bit n v + of_bool (bit v n) * 2 ^ n"
proof -
  have "take_bit (Suc n) v = take_bit n v OR (if bit v n then 2 ^ n else 0)"
    by (rule bit_eqI) (auto simp: bit_or_iff bit_take_bit_iff bit_exp_iff less_Suc_eq)
  also have "\<dots> = take_bit n v + (if bit v n then 2 ^ n else 0)"
    by (rule disjunctive_add [symmetric]) (auto simp: bit_take_bit_iff bit_exp_iff)
  finally show ?thesis by simp
qed

lemma signed_take_bit_sum:
  "signed_take_bit n k = take_bit n k - of_bool (bit k n) * 2 ^ n" for k :: int
  by (simp add: signed_take_bit_eq_take_bit_minus take_bit_Suc_from_most)

lemma sext_eq:
  assumes "1 \<le> sz" "sz \<le> 8"
  shows "sext v sz = word_of_int (signed_take_bit (8 * sz - 1) (uint v))"
proof -
  let ?n = "8 * sz - 1"
  have n: "?n < 64" "Suc ?n = 8 * sz" using assms by auto
  have "word_of_int (take_bit ?n (uint v)) = take_bit ?n v"
    by (simp flip: unsigned_take_bit_eq)
  then have w: "word_of_int (signed_take_bit ?n (uint v)) = take_bit ?n v - of_bool (bit v ?n) * 2 ^ ?n"
    by (simp add: signed_take_bit_sum bit_uint_iff)
  show ?thesis
  proof (cases "sz = 8")
    case True
    have "take_bit 64 v = v" by (rule bit_eqI) (simp add: bit_take_bit_iff)
    moreover have "take_bit (Suc 63) v = take_bit 63 v + of_bool (bit v 63) * 2 ^ 63"
      by (rule take_bit_Suc_word)
    ultimately have "v = take_bit 63 v + of_bool (bit v 63) * 2 ^ 63" by simp
    also have "of_bool (bit v 63) * 2 ^ 63 = - (of_bool (bit v 63) * 2 ^ 63 :: u64)"
      by (cases "bit v 63") simp_all
    finally have "v = take_bit 63 v - of_bool (bit v 63) * 2 ^ 63" by (simp only: diff_conv_add_uminus)
    moreover have "?n = 63" using True by simp
    ultimately have "word_of_int (signed_take_bit ?n (uint v)) = v" using w by metis
    then show ?thesis using True by (simp add: sext_def)
  next
    case False
    then have "sext v sz = (take_bit (Suc ?n) v XOR 2 ^ ?n) - 2 ^ ?n"
      using assms n by (simp add: sext_def emu_mask_eq take_bit_eq_mask shl64_def push_bit_of_1 Let_def mult.commute)
    then show ?thesis unfolding w using xor_sign_bit [OF n(1)] by simp
  qed
qed

lemma sint_sext:
  assumes "1 \<le> sz" "sz \<le> 8"
  shows "sint (sext v sz) = signed_take_bit (8 * sz - 1) (uint v)"
proof -
  have "min 63 (8 * sz - 1) = 8 * sz - 1" using assms by simp
  then have "signed_take_bit 63 (signed_take_bit (8 * sz - 1) (uint v)) = signed_take_bit (8 * sz - 1) (uint v)"
    by (simp only: signed_take_bit_signed_take_bit)
  then show ?thesis
    using sint_sbintrunc' [where 'a = 64, of "signed_take_bit (8 * sz - 1) (uint v)"]
    by (simp only: sext_eq [OF assms]) simp
qed

lemma signed_of_small:
  fixes k :: int
  assumes "0 \<le> k" "k < 2 ^ Suc n"
  shows "signed_take_bit n k = (if k < 2 ^ n then k else k - 2 ^ Suc n)"
proof -
  have "take_bit (Suc n) k = k" using assms by (simp add: take_bit_int_eq_self)
  moreover have "bit k n \<longleftrightarrow> 2 ^ n \<le> k"
  proof -
    have "k div 2 ^ n = (if 2 ^ n \<le> k then 1 else 0)"
      using assms div_pos_pos_trivial [of "k - 2 ^ n" "2 ^ n"] div_pos_geq [of "2 ^ n" k] by auto
    then show ?thesis by (simp add: bit_iff_odd)
  qed
  ultimately show ?thesis by (simp add: signed_take_bit_eq_take_bit_minus)
qed

end
