(* ===== verification/Circle_Transfer.thy ===== *)
theory Circle_Transfer
  imports Circle_Algebra Pcode_Eval
begin

text \<open>
  \<^verbatim>\<open>decompile/circlerange.rs\<close>, continued: pulling a range of outputs back through a p-code operation
  (\<open>pull_back_unary\<close>, \<open>pull_back_binary\<close>, the driver \<open>pull_back\<close>), pushing ranges of inputs forward,
  widening, and reading a range as a single comparison (\<open>translate2_op\<close>).
\<close>

subsection \<open>Pull-back through one operation\<close>

definition pull_back_unary :: "opcode \<Rightarrow> int \<Rightarrow> int \<Rightarrow> circle_range \<Rightarrow> circle_range \<times> bool" where
  "pull_back_unary opc in_size out_size r =
     (if cempty r then (r, True)
      else if opc = BoolNegate
      then let (r1, both) = convert_to_boolean r
           in if both then (r1, True)
              else let l = cleft r1 XOR 1 in (r1\<lparr>cleft := l, cright := l + 1\<rparr>, True)
      else if opc = Copy then (r, True)
      else if opc = Int2comp
      then (r\<lparr>cleft := (NOT (cright r) + 1 + step64 r) AND cmask r,
              cright := (NOT (cleft r) + 1 + step64 r) AND cmask r\<rparr>, True)
      else if opc = IntNegate
      then (r\<lparr>cleft := (NOT (cright r) + step64 r) AND cmask r,
              cright := (NOT (cleft r) + step64 r) AND cmask r\<rparr>, True)
      else if opc = IntZext
      then let val = cr_calc_mask in_size;
               m = cleft r mod step64 r;
               zextrange = \<lparr>cleft = m, cright = val + 1 + m, cmask = cmask r, cempty = False,
                            cstep = cstep r\<rparr>;
               (r1, ret) = intersect r zextrange
           in if 0 \<noteq> ret then (r1, False)
              else (r1\<lparr>cleft := cleft r1 AND val, cright := cright r1 AND val,
                       cmask := cmask r1 AND val\<rparr>, True)
      else if opc = IntSext
      then let val = cr_calc_mask in_size;
               m = cleft r AND step64 r;
               l = (val XOR shr64 val 1) + m;
               sextrange = \<lparr>cleft = l, cright = sign_extend l in_size out_size, cmask = cmask r,
                            cempty = False, cstep = cstep r\<rparr>;
               (s1, ret) = intersect sextrange r
           in if ret \<noteq> 0 then (r, False)
              else if \<not> cempty s1 then (r, False)
              else (r\<lparr>cleft := cleft r AND val, cright := cright r AND val,
                      cmask := cmask r AND val\<rparr>, True)
      else (r, False))"

text \<open>
  The comparisons share a frame: coerce the range to a boolean one, switch to the input domain, and,
  unless both outcomes are possible, set the boundaries (\<open>f\<close>) for a true outcome and complement
  them for a false one.
\<close>

definition pull_compare ::
  "int \<Rightarrow> (circle_range \<Rightarrow> circle_range) \<Rightarrow> circle_range \<Rightarrow> circle_range \<times> bool" where
  "pull_compare in_size f r =
     (let (r1, both_true_false) = convert_to_boolean r;
          r2 = r1\<lparr>cmask := cr_calc_mask in_size\<rparr>
      in if both_true_false then (r2, True)
         else let yescomplement = (cleft r2 = 0);
                  r3 = f r2
              in (if yescomplement then complement r3 else r3, True))"

definition pull_equal :: "u64 \<Rightarrow> circle_range \<Rightarrow> circle_range" where
  "pull_equal val r = r\<lparr>cleft := val, cright := (val + 1) AND cmask r\<rparr>"

definition pull_notequal :: "u64 \<Rightarrow> circle_range \<Rightarrow> circle_range" where
  "pull_notequal val r = r\<lparr>cleft := (val + 1) AND cmask r, cright := val\<rparr>"

definition pull_less :: "u64 \<Rightarrow> int \<Rightarrow> circle_range \<Rightarrow> circle_range" where
  "pull_less val slot r =
     (if slot = 0
      then if val = 0 then r\<lparr>cempty := True\<rparr> else r\<lparr>cleft := 0, cright := val\<rparr>
      else if val = cmask r then r\<lparr>cempty := True\<rparr>
      else r\<lparr>cleft := (val + 1) AND cmask r, cright := 0\<rparr>)"

definition pull_lessequal :: "u64 \<Rightarrow> int \<Rightarrow> circle_range \<Rightarrow> circle_range" where
  "pull_lessequal val slot r =
     (if slot = 0 then r\<lparr>cleft := 0, cright := (val + 1) AND cmask r\<rparr>
      else r\<lparr>cleft := val, cright := 0\<rparr>)"

definition pull_sless :: "u64 \<Rightarrow> int \<Rightarrow> circle_range \<Rightarrow> circle_range" where
  "pull_sless val slot r =
     (if slot = 0
      then if val = shr64 (cmask r) 1 + 1 then r\<lparr>cempty := True\<rparr>
           else r\<lparr>cleft := shr64 (cmask r) 1 + 1, cright := val\<rparr>
      else if val = shr64 (cmask r) 1 then r\<lparr>cempty := True\<rparr>
      else r\<lparr>cleft := (val + 1) AND cmask r, cright := shr64 (cmask r) 1 + 1\<rparr>)"

definition pull_slessequal :: "u64 \<Rightarrow> int \<Rightarrow> circle_range \<Rightarrow> circle_range" where
  "pull_slessequal val slot r =
     (if slot = 0 then r\<lparr>cleft := shr64 (cmask r) 1 + 1, cright := (val + 1) AND cmask r\<rparr>
      else r\<lparr>cleft := val, cright := shr64 (cmask r) 1 + 1\<rparr>)"

definition pull_carry :: "u64 \<Rightarrow> circle_range \<Rightarrow> circle_range" where
  "pull_carry val r =
     (if val = 0 then r\<lparr>cempty := True\<rparr>
      else r\<lparr>cleft := (cmask r - val + 1) AND cmask r, cright := 0\<rparr>)"

text \<open>The shift arms, for a stride of one and the variable on input 0.\<close>

definition pull_shifted :: "u64 \<Rightarrow> u64 \<Rightarrow> u64 \<Rightarrow> circle_range \<Rightarrow> circle_range" where
  "pull_shifted l rt val r =
     (let r1 = r\<lparr>cleft := shl64 l (unat val) AND cmask r, cright := shl64 rt (unat val) AND cmask r\<rparr>
      in if cleft r1 = cright r1 then r1\<lparr>cempty := True\<rparr> else r1)"

definition pull_right :: "u64 \<Rightarrow> int \<Rightarrow> circle_range \<Rightarrow> circle_range" where
  "pull_right val in_size r =
     (let right_bound = shr64 (cr_calc_mask in_size) (unat val) + 1
      in if (right_bound \<le> cleft r \<and> right_bound \<le> cright r \<and> cright r \<le> cleft r)
            \<or> (cleft r = 0 \<and> right_bound \<le> cright r) \<or> cleft r = cright r
         then r\<lparr>cleft := 0, cright := 0\<rparr>
         else pull_shifted (if cleft r > right_bound then right_bound else cleft r)
                (if cright r > right_bound then 0 else cright r) val r)"

definition pull_sright :: "u64 \<Rightarrow> int \<Rightarrow> circle_range \<Rightarrow> circle_range" where
  "pull_sright val in_size r =
     (let rightb0 = cr_calc_mask in_size;
          leftb0 = shr64 rightb0 (unat (val + 1));
          rightb = leftb0 XOR rightb0;
          leftb = leftb0 + 1
      in if (leftb \<le> cleft r \<and> cleft r \<le> rightb \<and> leftb \<le> cright r \<and> cright r \<le> rightb
               \<and> cright r \<le> cleft r) \<or> cleft r = cright r
         then r\<lparr>cleft := 0, cright := 0\<rparr>
         else pull_shifted (if leftb < cleft r \<and> cleft r < rightb then leftb else cleft r)
                (if leftb < cright r \<and> cright r < rightb then rightb else cright r) val r)"

definition pull_back_binary :: "opcode \<Rightarrow> u64 \<Rightarrow> int \<Rightarrow> int \<Rightarrow> int \<Rightarrow> circle_range \<Rightarrow> circle_range \<times> bool" where
  "pull_back_binary opc val slot in_size out_size r =
     (if cempty r then (r, True)
      else if opc = IntEqual then pull_compare in_size (pull_equal val) r
      else if opc = IntNotequal then pull_compare in_size (pull_notequal val) r
      else if opc = IntLess then pull_compare in_size (pull_less val slot) r
      else if opc = IntLessequal then pull_compare in_size (pull_lessequal val slot) r
      else if opc = IntSless then pull_compare in_size (pull_sless val slot) r
      else if opc = IntSlessequal then pull_compare in_size (pull_slessequal val slot) r
      else if opc = IntCarry then pull_compare in_size (pull_carry val) r
      else if opc = IntAdd
      then (r\<lparr>cleft := (cleft r - val) AND cmask r, cright := (cright r - val) AND cmask r\<rparr>, True)
      else if opc = IntSub
      then if slot = 0
           then (r\<lparr>cleft := (cleft r + val) AND cmask r, cright := (cright r + val) AND cmask r\<rparr>, True)
           else (r\<lparr>cleft := (val - cleft r) AND cmask r, cright := (val - cright r) AND cmask r\<rparr>, True)
      else if opc = IntRight
      then if cstep r \<noteq> 1 \<or> slot \<noteq> 0 then (r, False) else (pull_right val in_size r, True)
      else if opc = IntSright
      then if cstep r \<noteq> 1 \<or> slot \<noteq> 0 then (r, False) else (pull_sright val in_size r, True)
      else (r, False))"

text \<open>
  The driver sees an operation through its code, the size of its output (if it has one) and, per
  input, the size, the value of a constant and the mask of possibly non-zero bits.
\<close>

record 'v operand =
  vn_id :: 'v
  vn_size :: nat
  vn_constant :: "u64 option"
  vn_nzmask :: u64

definition pull_back_nz :: "bool \<Rightarrow> 'v operand \<Rightarrow> circle_range \<Rightarrow> circle_range" where
  "pull_back_nz usenzmask res r =
     (if usenzmask
      then let (nzrange, ok) = set_nz_mask (vn_nzmask res) (int (vn_size res)) cr_default
           in if \<not> ok then r else fst (intersect r nzrange)
      else r)"

definition pull_back_const ::
  "opcode \<Rightarrow> int \<Rightarrow> bool \<Rightarrow> 'v operand \<Rightarrow> u64 \<Rightarrow> int \<Rightarrow> circle_range \<Rightarrow> circle_range \<times> 'v option" where
  "pull_back_const opc out_size usenzmask res val slot r =
     (let (r1, ok) = pull_back_binary opc val slot (int (vn_size res)) out_size r
      in if ok then (pull_back_nz usenzmask res r1, Some (vn_id res))
         else if usenzmask \<and> opc = Subpiece \<and> val = 0
         then let msbset = (mostsigbit_set (vn_nzmask res) + 8) div 8
              in if out_size < msbset then (r1, None)
                 else (pull_back_nz usenzmask res (r1\<lparr>cmask := cr_calc_mask (int (vn_size res))\<rparr>),
                       Some (vn_id res))
         else (r1, None))"

definition pull_back ::
  "opcode \<Rightarrow> nat option \<Rightarrow> 'v operand list \<Rightarrow> bool \<Rightarrow> circle_range \<Rightarrow> circle_range \<times> 'v option" where
  "pull_back opc out inputs usenzmask r =
     (case out of
        None \<Rightarrow> (r, None)
      | Some osize \<Rightarrow>
          (case inputs of
             [a] \<Rightarrow>
               (case vn_constant a of
                  Some _ \<Rightarrow> (r, None)
                | None \<Rightarrow>
                    (let (r1, ok) = pull_back_unary opc (int (vn_size a)) (int osize) r
                     in if ok then (pull_back_nz usenzmask a r1, Some (vn_id a)) else (r1, None)))
           | [a, b] \<Rightarrow>
               (case (vn_constant a, vn_constant b) of
                  (Some _, Some _) \<Rightarrow> (r, None)
                | (Some v, None) \<Rightarrow> pull_back_const opc (int osize) usenzmask b v 1 r
                | (None, Some v) \<Rightarrow> pull_back_const opc (int osize) usenzmask a v 0 r
                | (None, None) \<Rightarrow> (r, None))
           | _ \<Rightarrow> (r, None)))"

subsection \<open>Push-forward\<close>

definition push_forward_unary ::
  "opcode \<Rightarrow> circle_range \<Rightarrow> int \<Rightarrow> int \<Rightarrow> circle_range \<Rightarrow> circle_range \<times> bool" where
  "push_forward_unary opc in1 in_size out_size r =
     (if cempty in1 then (r\<lparr>cempty := True\<rparr>, True)
      else if opc = Cast \<or> opc = Copy then (in1, True)
      else if opc = IntZext
      then let r1 = r\<lparr>cempty := False, cstep := cstep in1, cmask := cr_calc_mask out_size\<rparr>
           in if cleft in1 = cright in1
              then let l = cleft in1 mod step64 in1
                   in (r1\<lparr>cleft := l, cright := cmask in1 + 1 + l\<rparr>, True)
              else let l = cleft in1; rt = (cright in1 - step64 in1) AND cmask in1
                   in if rt < l then (r1\<lparr>cleft := l, cright := rt\<rparr>, False)
                      else (r1\<lparr>cleft := l, cright := rt + step64 r1\<rparr>, True)
      else if opc = IntSext
      then let r1 = r\<lparr>cempty := False, cstep := cstep in1, cmask := cr_calc_mask out_size\<rparr>
           in if cleft in1 = cright in1
              then let m = cleft in1 mod step64 in1; h = shr64 (cr_calc_mask in_size) 1
                   in (r1\<lparr>cleft := (cr_calc_mask out_size XOR h) + m, cright := h + 1 + m\<rparr>, True)
              else let l = sign_extend (cleft in1) in_size out_size;
                       rt = sign_extend ((cright in1 - step64 in1) AND cmask in1) in_size out_size
                   in if sint rt < sint l then (r1\<lparr>cleft := l, cright := rt\<rparr>, False)
                      else (r1\<lparr>cleft := l, cright := (rt + step64 r1) AND cmask r1\<rparr>, True)
      else if opc = Int2comp
      then let r1 = r\<lparr>cempty := False, cstep := cstep in1, cmask := cmask in1\<rparr>
           in (normalize (r1\<lparr>cright := (NOT (cleft in1) + 1 + step64 r1) AND cmask r1,
                            cleft := (NOT (cright in1) + 1 + step64 r1) AND cmask r1\<rparr>), True)
      else if opc = IntNegate
      then let r1 = r\<lparr>cempty := False, cstep := cstep in1, cmask := cmask in1\<rparr>
           in (normalize (r1\<lparr>cleft := (NOT (cright in1) + step64 r1) AND cmask r1,
                            cright := (NOT (cleft in1) + step64 r1) AND cmask r1\<rparr>), True)
      else if opc = BoolNegate \<or> opc = FloatNan
      then (r\<lparr>cempty := False, cmask := 0xff, cstep := 1, cleft := 0, cright := 2\<rparr>, True)
      else (r, False))"

text \<open>The number of values between the boundaries, in the domain of \<open>r\<close>.\<close>

definition span :: "circle_range \<Rightarrow> u64" where
  "span r = (if cleft r < cright r then cright r - cleft r
             else cmask r - (cleft r - cright r) + step64 r)"

definition push_add :: "circle_range \<Rightarrow> circle_range \<Rightarrow> circle_range \<Rightarrow> circle_range" where
  "push_add in1 in2 r =
     (let r1 = r\<lparr>cempty := False, cmask := cmask in1 OR cmask in2\<rparr>
      in if cleft in1 = cright in1 \<or> cleft in2 = cright in2
         then let stp = min (cstep in1) (cstep in2);
                  l = (cleft in1 + cleft in2) mod word_of_int stp
              in r1\<lparr>cstep := stp, cleft := l, cright := l\<rparr>
         else if is_single in2
         then r1\<lparr>cstep := cstep in1, cleft := (cleft in1 + cleft in2) AND cmask r1,
                 cright := (cright in1 + cleft in2) AND cmask r1\<rparr>
         else if is_single in1
         then r1\<lparr>cstep := cstep in2, cleft := (cleft in2 + cleft in1) AND cmask r1,
                 cright := (cright in2 + cleft in1) AND cmask r1\<rparr>
         else let stp = min (cstep in1) (cstep in2);
                  size1 = span in1;
                  r2 = r1\<lparr>cstep := stp, cleft := (cleft in1 + cleft in2) AND cmask r1,
                          cright := (cright in1 - step64 in1 + cright in2 - step64 in2 + word_of_int stp)
                             AND cmask r1\<rparr>;
                  r3 = (if span r2 < size1 then r2\<lparr>cright := cleft r2\<rparr> else r2)
              in normalize r3)"

text \<open>
  The loop that grows the stride of a product by the trailing zeros of the constant.  Strides are
  positive and bounds at most \<open>2 ^ 30\<close>, so doubling stays within \<^verbatim>\<open>i32\<close>.
\<close>

function mult_step :: "u32 \<Rightarrow> int \<Rightarrow> int \<Rightarrow> int" where
  "mult_step tmp max_step stp =
     (if 0 < stp \<and> stp < max_step
      then if tmp AND 1 \<noteq> 0 then stp else mult_step (drop_bit 1 tmp) max_step (2 * stp)
      else stp)"
  by auto
termination
  by (relation "measure (\<lambda>(tmp, max_step, stp). nat (max_step - stp))") auto

fun left_step :: "nat \<Rightarrow> int \<Rightarrow> int \<Rightarrow> int" where
  "left_step 0 max_step stp = stp"
| "left_step (Suc n) max_step stp = (if stp < max_step then left_step n max_step (2 * stp) else stp)"

definition push_mult :: "circle_range \<Rightarrow> circle_range \<Rightarrow> int \<Rightarrow> circle_range \<Rightarrow> circle_range \<times> bool" where
  "push_mult in1 in2 max_step r =
     (let r1 = r\<lparr>cempty := False, cmask := cmask in1 OR cmask in2\<rparr>
      in if \<not> is_single in1 \<and> \<not> is_single in2 then (r1, False)
         else
           let const_val = (if is_single in1 then cleft in1 else cleft in2);
               stp0 = (if is_single in1 then cstep in2 else cstep in1);
               r2 = r1\<lparr>cstep := mult_step (ucast const_val) max_step stp0\<rparr>;
               whole_size = 64 - count_leading_zeros (cmask r2)
           in if get_max_info in1 + get_max_info in2 > whole_size
              then let l = (cleft in1 * cleft in2) mod step64 r2
                   in (normalize (r2\<lparr>cleft := l, cright := l\<rparr>), True)
              else if const_val AND (cmask r2 XOR shr64 (cmask r2) 1) \<noteq> 0
              then (r2\<lparr>cleft := ((cright in1 - step64 in1) * (cright in2 - step64 in2)) AND cmask r2,
                       cright := (cleft in1 * cleft in2 + step64 r2) AND cmask r2\<rparr>, True)
              else (r2\<lparr>cleft := (cleft in1 * cleft in2) AND cmask r2,
                       cright := ((cright in1 - step64 in1) * (cright in2 - step64 in2) + step64 r2)
                          AND cmask r2\<rparr>, True))"

definition push_left :: "circle_range \<Rightarrow> circle_range \<Rightarrow> int \<Rightarrow> circle_range \<Rightarrow> circle_range \<times> bool" where
  "push_left in1 in2 max_step r =
     (if \<not> is_single in2 then (r, False)
      else
        let sa = unat (ucast (cleft in2) :: u32);
            r1 = r\<lparr>cempty := False, cmask := cmask in1, cstep := left_step sa max_step (cstep in1)\<rparr>;
            r2 = r1\<lparr>cleft := pcode_left (cleft in1) sa AND cmask r1,
                    cright := pcode_left (cright in1) sa AND cmask r1\<rparr>;
            whole_size = 64 - count_leading_zeros (cmask r2)
        in if get_max_info in1 + sint (ucast (cleft in2) :: u32) > whole_size
           then (normalize (r2\<lparr>cright := cleft r2\<rparr>), True)
           else (r2, True))"

definition push_subpiece :: "circle_range \<Rightarrow> circle_range \<Rightarrow> int \<Rightarrow> circle_range \<Rightarrow> circle_range \<times> bool" where
  "push_subpiece in1 in2 out_size r =
     (if \<not> is_single in2 then (r, False)
      else
        let sa = sint ((ucast (cleft in2) :: u32) * 8);
            sh = (\<lambda>v. if sa \<ge> 64 then 0 else shr64 v (nat (sa mod 64)));
            r1 = r\<lparr>cempty := False, cmask := cr_calc_mask out_size,
                   cstep := (if sa = 0 then cstep in1 else 1)\<rparr>;
            rng = (if cleft in1 < cright in1 then cright in1 - cleft in1 else cleft in1 - cright in1);
            shifted = sh rng
        in if rng = 0 \<or> shifted > cmask r1 then (r1\<lparr>cleft := 0, cright := 0\<rparr>, True)
           else (normalize (r1\<lparr>cleft := sh (cleft in1) AND cmask r1,
                   cright := (sh (cright in1 - step64 in1) + step64 r1) AND cmask r1\<rparr>), True))"

definition push_right :: "circle_range \<Rightarrow> circle_range \<Rightarrow> int \<Rightarrow> circle_range \<Rightarrow> circle_range \<times> bool" where
  "push_right in1 in2 out_size r =
     (if \<not> is_single in2 then (r, False)
      else
        let sa = unat (ucast (cleft in2) :: u32);
            r1 = r\<lparr>cempty := False, cmask := cr_calc_mask out_size, cstep := 1\<rparr>;
            r2 = (if cleft in1 < cright in1
                  then r1\<lparr>cleft := pcode_right (cleft in1) sa,
                          cright := pcode_right (cright in1 - step64 in1) sa + 1\<rparr>
                  else r1\<lparr>cleft := 0, cright := pcode_right (cmask in1) sa\<rparr>)
        in (if cleft r2 = cright r2 then r2\<lparr>cright := (cleft r2 + 1) AND cmask r2\<rparr> else r2, True))"

definition checked_sar :: "u64 \<Rightarrow> nat \<Rightarrow> u64" where
  "checked_sar v sa = (if sa < 64 then sar64 v sa else if sint v < 0 then - 1 else 0)"

definition push_sright ::
  "circle_range \<Rightarrow> circle_range \<Rightarrow> int \<Rightarrow> int \<Rightarrow> circle_range \<Rightarrow> circle_range \<times> bool" where
  "push_sright in1 in2 in_size out_size r =
     (if \<not> is_single in2 then (r, False)
      else
        let sa = unat (ucast (cleft in2) :: u32);
            r1 = r\<lparr>cempty := False, cmask := cr_calc_mask out_size, cstep := 1\<rparr>;
            bit_pos = 8 * in_size - 1;
            vl0 = sign_extend_bit (cleft in1) bit_pos;
            vr0 = sign_extend_bit (cright in1) bit_pos;
            vr = (if sint vl0 \<ge> sint vr0 then shr64 (cmask r1) 1 else vr0);
            vl = (if sint vl0 \<ge> sint vr0 then sign_extend_bit (vr + 1) bit_pos else vl0);
            r2 = r1\<lparr>cleft := checked_sar vl sa AND cmask r1,
                    cright := (checked_sar (vr - step64 in1) sa + 1) AND cmask r1\<rparr>
        in (if cleft r2 = cright r2 then r2\<lparr>cright := (cleft r2 + 1) AND cmask r2\<rparr> else r2, True))"

definition boolean_ops :: "opcode list" where
  "boolean_ops = [IntEqual, IntNotequal, IntSless, IntSlessequal, IntLess, IntLessequal, IntCarry,
     IntScarry, IntSborrow, BoolXor, BoolAnd, BoolOr, FloatEqual, FloatNotequal, FloatLess,
     FloatLessequal]"

definition push_forward_binary ::
  "opcode \<Rightarrow> circle_range \<Rightarrow> circle_range \<Rightarrow> int \<Rightarrow> int \<Rightarrow> int \<Rightarrow> circle_range \<Rightarrow> circle_range \<times> bool" where
  "push_forward_binary opc in1 in2 in_size out_size max_step r =
     (if cempty in1 \<or> cempty in2 then (r\<lparr>cempty := True\<rparr>, True)
      else if opc = Ptrsub \<or> opc = IntAdd then (push_add in1 in2 r, True)
      else if opc = IntMult then push_mult in1 in2 max_step r
      else if opc = IntLeft then push_left in1 in2 max_step r
      else if opc = Subpiece then push_subpiece in1 in2 out_size r
      else if opc = IntRight then push_right in1 in2 out_size r
      else if opc = IntSright then push_sright in1 in2 in_size out_size r
      else if list_ex (\<lambda>c. opc = c) boolean_ops
      then (r\<lparr>cempty := False, cmask := 0xff, cstep := 1, cleft := 0, cright := 2\<rparr>, True)
      else (r, False))"

definition push_forward_trinary ::
  "opcode \<Rightarrow> circle_range \<Rightarrow> circle_range \<Rightarrow> circle_range \<Rightarrow> int \<Rightarrow> int \<Rightarrow> int \<Rightarrow> circle_range
     \<Rightarrow> circle_range \<times> bool" where
  "push_forward_trinary opc in1 in2 in3 in_size out_size max_step r =
     (if opc \<noteq> Ptradd then (r, False)
      else let (tmp, ok) = push_forward_binary IntMult in2 in3 in_size in_size max_step cr_default
           in if \<not> ok then (r, False)
              else push_forward_binary IntAdd in1 tmp in_size out_size max_step r)"

subsection \<open>Widening and comparisons\<close>

definition widen :: "circle_range \<Rightarrow> bool \<Rightarrow> circle_range \<Rightarrow> circle_range" where
  "widen op2 left_is_stable r =
     normalize
       (if left_is_stable
        then let lmod = cleft r mod step64 r; m = cright op2 mod step64 r
             in r\<lparr>cright := (if m \<le> lmod then cright op2 + (lmod - m) else cright op2 - (m - lmod))
                    AND cmask r\<rparr>
        else r\<lparr>cleft := cleft op2 AND cmask r\<rparr>)"

definition translate2_op :: "circle_range \<Rightarrow> int \<times> opcode \<times> u64 \<times> int" where
  "translate2_op r =
     (if cempty r then (3, Copy, 0, 0)
      else if cstep r \<noteq> 1 then (2, Copy, 0, 0)
      else if cright r = (cleft r + 1) AND cmask r then (0, IntEqual, cleft r, 0)
      else if cleft r = (cright r + 1) AND cmask r then (0, IntNotequal, cright r, 0)
      else if cleft r = cright r then (1, Copy, 0, 0)
      else if cleft r = 0 then (0, IntLess, cright r, 1)
      else if cright r = 0 then (0, IntLess, (cleft r - 1) AND cmask r, 0)
      else if cleft r = shr64 (cmask r) 1 + 1 then (0, IntSless, cright r, 1)
      else if cright r = shr64 (cmask r) 1 + 1 then (0, IntSless, (cleft r - 1) AND cmask r, 0)
      else (2, Copy, 0, 0))"

end
