(* ===== verification/Circle_Pull.thy ===== *)
theory Circle_Pull
  imports Circle_Transfer
begin

text \<open>
  Correctness of the transfer functions of \<^verbatim>\<open>decompile/circlerange.rs\<close> against the interpreter's value
  of an operation (\<open>pcode_value\<close>): translation and reflection of a range, the comparison frame, the
  bounds each comparison sets, shifts, and the reading of a range as one comparison.
\<close>

subsection \<open>Translation and reflection\<close>

lemma mod_shift_eq: "(((a + d) mod M) - ((b + d) mod M)) mod M = (a - b) mod M" for a b d M :: int
  by (simp add: mod_diff_eq)

lemma extent_shift:
  assumes "n \<le> 64" "cleft r \<le> mask n" "cright r \<le> mask n"
  shows "extent n (r\<lparr>cleft := (cleft r + d) AND mask n, cright := (cright r + d) AND mask n\<rparr>) = extent n r"
proof -
  have "(cleft r + d) AND mask n = (cright r + d) AND mask n \<longleftrightarrow> cleft r = cright r"
  proof
    assume "(cleft r + d) AND mask n = (cright r + d) AND mask n"
    then have "(uint (cleft r) + uint d) mod 2 ^ n = (uint (cright r) + uint d) mod 2 ^ n"
      using assms(1) by (metis uint_masked(1))
    then have "uint (cleft r) mod 2 ^ n = uint (cright r) mod 2 ^ n"
      by (simp add: mod_eq_dvd_iff)
    then show "cleft r = cright r" using assms by (simp add: ule_mask_iff word_uint_eq_iff)
  qed simp
  then show ?thesis
    using assms(1) by (simp add: extent_def uint_masked mod_shift_eq)
qed

lemma translate_mem:
  assumes ok: "cr_ok n r" and ne: "\<not> cempty r" and x: "x \<le> mask n"
    and r': "r' = r\<lparr>cleft := (cleft r + d) AND mask n, cright := (cright r + d) AND mask n\<rparr>"
  shows "cr_ok n r' \<and> (contains_val r' x \<longleftrightarrow> contains_val r ((x - d) AND mask n))"
proof -
  obtain k where k: "k < 31" "k \<le> n" "cstep r = 2 ^ k" using ok ne by (auto simp: cr_ok_def)
  have n: "n \<le> 64" and b: "cleft r \<le> mask n" "cright r \<le> mask n" using ok ne by (auto simp: cr_ok_def)
  have dv: "(2 :: int) ^ k dvd 2 ^ n" using k(2) by (rule le_imp_power_dvd)
  have "cleft r' mod step64 r' = cright r' mod step64 r'"
  proof -
    have "uint (cleft r) mod 2 ^ k = uint (cright r) mod 2 ^ k"
      using ok ne k by (simp add: cr_ok_def mod_word_eq_iff uint_pow)
    then have "(uint (cleft r) + uint d) mod 2 ^ k = (uint (cright r) + uint d) mod 2 ^ k"
      by (rule mod_add_cong) simp
    then show ?thesis
      using n k dv by (simp add: r' mod_word_eq_iff uint_pow uint_masked mod_mod_cancel)
  qed
  then have ok': "cr_ok n r'" using ok ne k n unfolding r' by (auto simp: cr_ok_def masked_le)
  have ne': "\<not> cempty r'" "cstep r' = cstep r" using ne by (simp_all add: r')
  have y: "(x - d) AND mask n \<le> mask n" using n by (rule masked_le)
  have "(uint x - uint (cleft r')) mod 2 ^ n = (uint ((x - d) AND mask n) - uint (cleft r)) mod 2 ^ n"
    using n by (simp add: r' uint_masked mod_diff_left_eq mod_diff_right_eq algebra_simps)
  moreover have "extent n r' = extent n r" unfolding r' using n b by (rule extent_shift)
  ultimately show ?thesis
    using member_distance [OF ok ne y] member_distance [OF ok' ne'(1) x] ok' ne'(2) by simp
qed

lemma reflect_distance:
  fixes e E M S :: int
  assumes "0 < S" "S dvd E" "S dvd M" "0 \<le> e" "e < M" "E \<le> M" "0 < E"
  shows "S dvd (E - S - e) mod M \<and> (E - S - e) mod M < E \<longleftrightarrow> S dvd e \<and> e < E"
proof -
  have fwd: "S dvd (E - S - e) mod M \<and> (E - S - e) mod M < E"
    if "S dvd e" "e < E" "0 \<le> e" for e
  proof -
    have "e + S \<le> E" using next_multiple [OF assms(1) that(1) assms(2) that(2)] .
    then have "(E - S - e) mod M = E - S - e" using assms(1,6) that(3) by (intro mod_pos_pos_trivial) auto
    moreover have "S dvd E - S - e" using assms(2) that(1) by simp
    ultimately show ?thesis using assms(1) that(3) by simp
  qed
  let ?f = "(E - S - e) mod M"
  have "S dvd e \<and> e < E" if h: "S dvd ?f" "?f < E"
  proof -
    have "0 \<le> ?f" using assms by simp
    have "(E - S - ?f) mod M = e mod M" by (simp add: mod_diff_right_eq)
    also have "\<dots> = e" using assms(4,5) by simp
    finally show ?thesis using fwd [OF h \<open>0 \<le> ?f\<close>] by simp
  qed
  then show ?thesis using fwd assms(4) by blast
qed

lemma extent_props:
  assumes ok: "cr_ok n r" and ne: "\<not> cempty r"
  shows "extent n r \<le> 2 ^ n" "cstep r dvd extent n r" "0 < extent n r"
    "extent n r mod 2 ^ n = (uint (cright r) - uint (cleft r)) mod 2 ^ n"
proof -
  let ?M = "(2 :: int) ^ n" and ?L = "uint (cleft r)" and ?R = "uint (cright r)"
  obtain k where k: "k < 31" "k \<le> n" "cstep r = 2 ^ k" using ok ne by (auto simp: cr_ok_def)
  have b: "?L < ?M" "?R < ?M" using ok ne by (auto simp: cr_ok_def ule_mask_iff)
  have dv: "(2 :: int) ^ k dvd ?M" using k(2) by (rule le_imp_power_dvd)
  have "2 ^ k dvd ?R - ?L"
    using ok ne k by (simp add: cr_ok_def mod_word_eq_iff uint_pow mod_eq_dvd_iff dvd_diff_commute)
  then show "cstep r dvd extent n r" using dv k by (simp add: extent_def dvd_mod)
  show "extent n r \<le> ?M" by (simp add: extent_def less_imp_le)
  have "(?R - ?L) mod ?M \<noteq> 0" if "cleft r \<noteq> cright r"
  proof
    assume "(?R - ?L) mod ?M = 0"
    then have "?R mod ?M = ?L mod ?M" by (metis mod_eq_dvd_iff mod_eq_0_iff_dvd)
    then show False using b that by (simp add: word_uint_eq_iff)
  qed
  moreover have "0 \<le> (?R - ?L) mod ?M" by simp
  ultimately have "cleft r \<noteq> cright r \<Longrightarrow> 0 < (?R - ?L) mod ?M" by linarith
  then show "0 < extent n r" unfolding extent_def by simp
  show "extent n r mod 2 ^ n = (?R - ?L) mod ?M" by (simp add: extent_def)
qed

lemma reflect_mem:
  assumes ok: "cr_ok n r" and ne: "\<not> cempty r" and x: "x \<le> mask n"
    and r': "r' = r\<lparr>cleft := (c - cright r + step64 r) AND mask n, cright := (c - cleft r + step64 r) AND mask n\<rparr>"
  shows "cr_ok n r' \<and> (contains_val r' x \<longleftrightarrow> contains_val r ((c - x) AND mask n))"
proof -
  let ?M = "(2 :: int) ^ n" and ?L = "uint (cleft r)" and ?R = "uint (cright r)"
  obtain k where k: "k < 31" "k \<le> n" "cstep r = 2 ^ k" using ok ne by (auto simp: cr_ok_def)
  have n: "n \<le> 64" and b: "?L < ?M" "?R < ?M" using ok ne by (auto simp: cr_ok_def ule_mask_iff)
  have dv: "(2 :: int) ^ k dvd ?M" using k(2) by (rule le_imp_power_dvd)
  have al: "?L mod 2 ^ k = ?R mod 2 ^ k" using ok ne k by (simp add: cr_ok_def mod_word_eq_iff uint_pow)
  have r': "r' = r\<lparr>cleft := (c - cright r + 2 ^ k) AND mask n, cright := (c - cleft r + 2 ^ k) AND mask n\<rparr>"
    using r' k by simp
  have um: "uint ((c - a + 2 ^ k) AND mask n) = (uint c - uint a + 2 ^ k) mod ?M" for a
    using n k dv by (simp add: uint_and_mask uint_word_ariths imod_pow_mod uint_pow mod_simps)
  have "(uint c - ?L + 2 ^ k) mod 2 ^ k = (uint c - ?R + 2 ^ k) mod 2 ^ k"
    using al by (intro mod_add_cong mod_diff_cong) simp_all
  then have "cleft r' mod step64 r' = cright r' mod step64 r'"
    using k dv by (simp add: r' mod_word_eq_iff uint_pow um mod_mod_cancel)
  then have ok': "cr_ok n r'" using ok ne k n unfolding r' by (auto simp: cr_ok_def masked_le)
  have ne': "\<not> cempty r'" "cstep r' = cstep r" using ne by (simp_all add: r')
  have y: "(c - x) AND mask n \<le> mask n" using n by (rule masked_le)
  have eq: "cleft r' = cright r' \<longleftrightarrow> cleft r = cright r"
  proof
    assume "cleft r' = cright r'"
    then have "(uint c - ?R + 2 ^ k) mod ?M = (uint c - ?L + 2 ^ k) mod ?M" by (simp add: r' flip: um)
    then have "?L mod ?M = ?R mod ?M" by (simp add: mod_eq_dvd_iff)
    then show "cleft r = cright r" using b by (simp add: word_uint_eq_iff)
  qed (simp add: r')
  have ext: "extent n r' = extent n r"
    using eq by (simp add: extent_def r' um mod_diff_eq)
  let ?E = "extent n r" and ?e = "(uint ((c - x) AND mask n) - ?L) mod ?M"
  have E: "?E \<le> ?M" "2 ^ k dvd ?E" "0 < ?E" "?E mod ?M = (?R - ?L) mod ?M"
    using extent_props [OF ok ne] k by auto
  have "(uint x - uint (cleft r')) mod ?M = (?E - 2 ^ k - ?e) mod ?M"
  proof -
    have "(?E - 2 ^ k - ?e) mod ?M = ((?R - ?L) - 2 ^ k - (uint c - uint x - ?L)) mod ?M"
      using n by (intro mod_diff_cong) (simp_all add: E(4) uint_masked mod_simps)
    also have "\<dots> = (uint x - (uint c - ?R + 2 ^ k)) mod ?M" by (simp add: algebra_simps)
    finally show ?thesis by (simp add: r' um mod_diff_right_eq)
  qed
  moreover have "2 ^ k dvd (?E - 2 ^ k - ?e) mod ?M \<and> (?E - 2 ^ k - ?e) mod ?M < ?E \<longleftrightarrow> 2 ^ k dvd ?e \<and> ?e < ?E"
    using E dv by (intro reflect_distance) auto
  ultimately show ?thesis
    using member_distance [OF ok ne y] member_distance [OF ok' ne'(1) x] ok' ne'(2) ext k by simp
qed

subsection \<open>Comparisons\<close>

lemma contains_left: "\<not> cempty r \<Longrightarrow> contains_val r (cleft r)"
  by (auto simp: contains_val_iff between_def)

lemma convert_to_boolean_cases:
  assumes "\<not> cempty r" "\<not> (contains_val r 0 \<and> contains_val r 1)"
    "convert_to_boolean r = (r1, both)"
  shows "\<not> both \<and> cstep r1 = 1 \<and> (cempty r1 \<longleftrightarrow> \<not> contains_val r 0 \<and> \<not> contains_val r 1)
    \<and> (cleft r1 = 0 \<longleftrightarrow> contains_val r 0)"
  using assms contains_left [OF assms(1)] by (auto simp: convert_to_boolean_def Let_def split: if_splits)

text \<open>
  \<open>f\<close> sets the boundaries for the inputs with property \<open>P\<close>; the frame then gives exactly the inputs
  whose outcome lies in the range, as long as the range does not hold both outcomes.
\<close>

definition sets_bounds :: "nat \<Rightarrow> (circle_range \<Rightarrow> circle_range) \<Rightarrow> (u64 \<Rightarrow> bool) \<Rightarrow> bool" where
  "sets_bounds n f P \<longleftrightarrow> (\<forall>r. cempty r \<longrightarrow> cempty (f r))
     \<and> (\<forall>r. \<not> cempty r \<longrightarrow> cstep r = 1 \<longrightarrow> cmask r = mask n
          \<longrightarrow> cr_ok n (f r) \<and> cstep (f r) = 1 \<and> (\<forall>x. x \<le> mask n \<longrightarrow> contains_val (f r) x = P x))"

lemma pull_compare_mem:
  assumes n: "1 \<le> sz" "sz \<le> 8" and f: "sets_bounds (nat (8 * sz)) f P"
    and r: "\<not> cempty r" "\<not> (contains_val r 0 \<and> contains_val r 1)"
    and res: "pull_compare sz f r = (r', ok)" and x: "x \<le> mask (nat (8 * sz))"
  shows "ok \<and> (contains_val r' x \<longleftrightarrow> contains_val r (of_bool64 (P x)))"
proof -
  obtain r1 both where c: "convert_to_boolean r = (r1, both)" by (metis prod.collapse)
  let ?r2 = "r1\<lparr>cmask := mask (nat (8 * sz))\<rparr>"
  note b = convert_to_boolean_cases [OF r c]
  have r': "r' = (if cleft r1 = 0 then complement (f ?r2) else f ?r2)" and ok: "ok"
    using res b c n by (auto simp: pull_compare_def cr_calc_mask_eq Let_def)
  show ?thesis
  proof (cases "cempty r1")
    case True
    then have "cempty (f ?r2)" using f by (simp add: sets_bounds_def)
    then show ?thesis using True b r' ok r by (auto simp: contains_val_iff of_bool64_def)
  next
    case False
    then have fr: "cr_ok (nat (8 * sz)) (f ?r2)" "cstep (f ?r2) = 1" "contains_val (f ?r2) x = P x"
      using f b x by (simp_all add: sets_bounds_def)
    show ?thesis
      using False b r' ok r fr complement_ok [OF fr(1,2), of x] by (auto simp: of_bool64_def)
  qed
qed

lemma step_one_ok:
  "0 < n \<Longrightarrow> n \<le> 64 \<Longrightarrow> cmask r = mask n \<Longrightarrow> cstep r = 1 \<Longrightarrow> cleft r \<le> mask n \<Longrightarrow> cright r \<le> mask n \<Longrightarrow> cr_ok n r"
  by (auto simp: cr_ok_def intro: exI [of _ 0])

lemma step_one_mem: "cstep r = 1 \<Longrightarrow> contains_val r x \<longleftrightarrow> \<not> cempty r \<and> between (uint (cleft r)) (uint (cright r)) (uint x)"
  by (simp add: contains_val_iff between_uint)

lemma uint_inc_mask:
  "n \<le> 64 \<Longrightarrow> uint v < 2 ^ n \<Longrightarrow> uint ((v + 1 :: u64) AND mask n) = (if uint v + 1 = 2 ^ n then 0 else uint v + 1)"
  by (simp add: uint_masked)

lemma sets_boundsI:
  assumes "0 < n" "n \<le> 64" "\<And>r. cempty r \<Longrightarrow> cempty (f r)"
    and "\<And>r. cmask r = mask n \<Longrightarrow> f r = r\<lparr>cleft := l, cright := rt\<rparr>" "uint l < 2 ^ n" "uint rt < 2 ^ n"
    and "\<And>x. uint x < 2 ^ n \<Longrightarrow> between (uint l) (uint rt) (uint x) \<longleftrightarrow> P x"
  shows "sets_bounds n f P"
  using assms by (simp add: sets_bounds_def step_one_ok step_one_mem ule_mask_iff)

lemma sets_bounds_none:
  assumes "0 < n" "n \<le> 64" "\<And>r. cempty r \<Longrightarrow> cempty (f r)"
    and "\<And>r. cmask r = mask n \<Longrightarrow> f r = r\<lparr>cempty := True\<rparr>"
    and "\<And>x. uint x < 2 ^ n \<Longrightarrow> \<not> P x"
  shows "sets_bounds n f P"
  using assms by (simp add: sets_bounds_def cr_ok_def contains_val_iff ule_mask_iff)

lemma pow_ne_one: "0 < n \<Longrightarrow> (2 :: int) ^ n \<noteq> 1"
  using one_less_power [of "2 :: int" n] by linarith

lemma uint_inc_pos: "\<not> uint v + 1 < 0" "uint v + 1 \<noteq> 0"
  using unsigned_greater_eq [of v, where 'a = int] by linarith+

lemma uint_zero_le: "\<not> 0 < uint v \<Longrightarrow> uint v \<le> uint x"
  using unsigned_greater_eq [of x, where 'a = int] by linarith

lemmas bounds_eval = between_def word_less_def word_le_def uint_inc_mask pow_ne_one uint_inc_pos

lemma pull_equal_bounds:
  assumes n: "0 < n" "n \<le> 64" and v: "uint v < 2 ^ n"
  shows "sets_bounds n (pull_equal v) (\<lambda>x. x = v)" "sets_bounds n (pull_notequal v) (\<lambda>x. x \<noteq> v)"
proof -
  note eq = word_uint_eq_iff [of _ v]
  show "sets_bounds n (pull_equal v) (\<lambda>x. x = v)"
    by (rule sets_boundsI [where l = v and rt = "(v + 1) AND mask n"])
      (use n v in \<open>auto simp: pull_equal_def bounds_eval eq\<close>)
  show "sets_bounds n (pull_notequal v) (\<lambda>x. x \<noteq> v)"
    by (rule sets_boundsI [where l = "(v + 1) AND mask n" and rt = v])
      (use n v in \<open>auto simp: pull_notequal_def bounds_eval eq\<close>)
qed

lemma pull_less_bounds:
  assumes n: "0 < n" "n \<le> 64" and v: "uint v < 2 ^ n"
  shows "sets_bounds n (pull_less v slot) (\<lambda>x. if slot = 0 then x < v else v < x)"
    "sets_bounds n (pull_lessequal v slot) (\<lambda>x. if slot = 0 then x \<le> v else v \<le> x)"
proof -
  have m: "uint (mask n :: u64) = 2 ^ n - 1"
    using n unat_mask64 [of n] by (simp add: uint_nat of_nat_diff)
  consider (z) "slot = 0" "v = 0" | (s) "slot = 0" "v \<noteq> 0" | (m) "slot \<noteq> 0" "v = mask n" | (b) "slot \<noteq> 0" "v \<noteq> mask n"
    by blast
  then show "sets_bounds n (pull_less v slot) (\<lambda>x. if slot = 0 then x < v else v < x)"
  proof cases
    case z
    show ?thesis by (rule sets_bounds_none) (use n v z in \<open>auto simp: pull_less_def\<close>)
  next
    case s
    have "0 < uint v" using s by (metis unsigned_greater_eq unsigned_0 order_le_less word_uint_eq_iff)
    then show ?thesis
      by (intro sets_boundsI [where l = 0 and rt = v]) (use n v s in \<open>auto simp: pull_less_def bounds_eval\<close>)
  next
    case m
    show ?thesis
      by (rule sets_bounds_none) (use n v m \<open>uint (mask n :: u64) = _\<close> in \<open>auto simp: pull_less_def word_less_def\<close>)
  next
    case b
    have "uint v + 1 \<noteq> 2 ^ n" using b m by (auto simp: word_uint_eq_iff)
    then show ?thesis
      by (intro sets_boundsI [where l = "(v + 1) AND mask n" and rt = 0])
        (use n v b in \<open>auto simp: pull_less_def bounds_eval\<close>)
  qed
  show "sets_bounds n (pull_lessequal v slot) (\<lambda>x. if slot = 0 then x \<le> v else v \<le> x)"
  proof (cases "slot = 0")
    case True
    then show ?thesis
      by (intro sets_boundsI [where l = 0 and rt = "(v + 1) AND mask n"])
        (use n v in \<open>auto simp: pull_lessequal_def bounds_eval\<close>)
  next
    case False
    then show ?thesis
      by (intro sets_boundsI [where l = v and rt = 0]) (use n v in \<open>auto simp: pull_lessequal_def bounds_eval intro: uint_zero_le\<close>)
  qed
qed

definition sgn_at :: "nat \<Rightarrow> u64 \<Rightarrow> int" where
  "sgn_at n x = signed_take_bit (n - 1) (uint x)"

lemma sgn_at_cases:
  assumes "0 < n" "uint x < 2 ^ n"
  shows "sgn_at n x = (if uint x < 2 ^ (n - 1) then uint x else uint x - 2 ^ n)"
  using signed_of_small [of "uint x" "n - 1"] assms by (simp add: sgn_at_def)

lemma half_mask:
  assumes "0 < n" "n \<le> 64"
  shows "uint (shr64 (mask n) 1 :: u64) = 2 ^ (n - 1) - 1" "uint (shr64 (mask n) 1 + 1 :: u64) = 2 ^ (n - 1)"
proof -
  have m: "uint (mask n :: u64) = 2 ^ n - 1"
    using assms unat_mask64 [of n] by (simp add: uint_nat of_nat_diff)
  obtain p where p: "n = Suc p" using assms by (cases n) auto
  have "uint (shr64 (mask n) 1 :: u64) = (2 ^ n - 1) div 2"
    by (simp add: shr64_def drop_bit_Suc uint_div_distrib m unsigned_drop_bit_eq)
  then show h: "uint (shr64 (mask n) 1 :: u64) = 2 ^ (n - 1) - 1" by (simp add: p)
  have "(2 :: int) ^ (n - 1) \<le> 2 ^ 63" using assms by (intro power_increasing) auto
  then show "uint (shr64 (mask n) 1 + 1 :: u64) = 2 ^ (n - 1)"
    using h by (simp add: uint_word_ariths)
qed

text \<open>The same conditions over integers, for which the bounds of \<open>uint\<close> are explicit.\<close>

lemma sets_bounds_int:
  assumes "0 < n" "n \<le> 64" "\<And>r. cempty r \<Longrightarrow> cempty (f r)"
    and "\<And>r. cmask r = mask n \<Longrightarrow> f r = r\<lparr>cleft := l, cright := rt\<rparr>"
    and "uint l = L" "uint rt = R" "L < 2 ^ n" "R < 2 ^ n"
    and "\<And>x. uint x < 2 ^ n \<Longrightarrow> P x \<longleftrightarrow> Q (uint x)"
    and "\<And>X. 0 \<le> X \<Longrightarrow> X < 2 ^ n \<Longrightarrow> between L R X \<longleftrightarrow> Q X"
  shows "sets_bounds n f P"
  by (rule sets_boundsI [OF assms(1-4)]) (use assms in auto)

definition sgn_int :: "nat \<Rightarrow> int \<Rightarrow> int" where
  "sgn_int n X = (if X < 2 ^ (n - 1) then X else X - 2 ^ n)"

lemma sgn_at_int: "0 < n \<Longrightarrow> uint x < 2 ^ n \<Longrightarrow> sgn_at n x = sgn_int n (uint x)"
  by (simp add: sgn_at_cases sgn_int_def)

lemma signed_between:
  assumes n: "0 < n" and V: "0 \<le> V" "V < 2 ^ n" and X: "0 \<le> X" "X < 2 ^ n"
  shows "V \<noteq> 2 ^ (n - 1) \<Longrightarrow> between (2 ^ (n - 1)) V X \<longleftrightarrow> sgn_int n X < sgn_int n V"
    "V = 2 ^ (n - 1) \<Longrightarrow> \<not> sgn_int n X < sgn_int n V"
    "V \<noteq> 2 ^ (n - 1) - 1 \<Longrightarrow> between (if V + 1 = 2 ^ n then 0 else V + 1) (2 ^ (n - 1)) X \<longleftrightarrow> sgn_int n V < sgn_int n X"
    "V = 2 ^ (n - 1) - 1 \<Longrightarrow> \<not> sgn_int n V < sgn_int n X"
    "between (2 ^ (n - 1)) (if V + 1 = 2 ^ n then 0 else V + 1) X \<longleftrightarrow> sgn_int n X \<le> sgn_int n V"
    "between V (2 ^ (n - 1)) X \<longleftrightarrow> sgn_int n V \<le> sgn_int n X"
proof -
  obtain H :: int where H: "H = 2 ^ (n - 1)" "0 < H" by simp
  have M: "(2 :: int) ^ n = 2 * H" using n H by (cases n) auto
  note ev = between_def sgn_int_def M H(1) [symmetric]
  show "V \<noteq> 2 ^ (n - 1) \<Longrightarrow> between (2 ^ (n - 1)) V X \<longleftrightarrow> sgn_int n X < sgn_int n V"
    "V = 2 ^ (n - 1) \<Longrightarrow> \<not> sgn_int n X < sgn_int n V"
    "V = 2 ^ (n - 1) - 1 \<Longrightarrow> \<not> sgn_int n V < sgn_int n X"
    "between V (2 ^ (n - 1)) X \<longleftrightarrow> sgn_int n V \<le> sgn_int n X"
    using V X H(2) unfolding ev by auto
  show "V \<noteq> 2 ^ (n - 1) - 1 \<Longrightarrow> between (if V + 1 = 2 ^ n then 0 else V + 1) (2 ^ (n - 1)) X \<longleftrightarrow> sgn_int n V < sgn_int n X"
    "between (2 ^ (n - 1)) (if V + 1 = 2 ^ n then 0 else V + 1) X \<longleftrightarrow> sgn_int n X \<le> sgn_int n V"
    using V X H(2) unfolding ev by auto
qed

lemma pull_sless_bounds:
  assumes n: "0 < n" "n \<le> 64" and v: "uint v < 2 ^ n"
  shows "sets_bounds n (pull_sless v slot) (\<lambda>x. if slot = 0 then sgn_at n x < sgn_at n v else sgn_at n v < sgn_at n x)"
proof -
  note h = half_mask [OF n] and m = uint_inc_mask [OF n(2) v]
  note sb = signed_between [OF n(1) unsigned_greater_eq [of v] v]
  have hlt: "(2 :: int) ^ (n - 1) < 2 ^ n" using n by (intro power_strict_increasing) auto
  have inc: "(if uint v + 1 = 2 ^ n then 0 else uint v + 1) < 2 ^ n" using v by auto
  consider (a) "slot = 0" "v = shr64 (mask n) 1 + 1" | (b) "slot = 0" "v \<noteq> shr64 (mask n) 1 + 1"
    | (c) "slot \<noteq> 0" "v = shr64 (mask n) 1" | (d) "slot \<noteq> 0" "v \<noteq> shr64 (mask n) 1" by blast
  then show ?thesis
  proof cases
    case a
    then have "uint v = 2 ^ (n - 1)" using h by simp
    then show ?thesis using a sb(2)
      by (intro sets_bounds_none) (use n v in \<open>auto simp: pull_sless_def sgn_at_int\<close>)
  next
    case b
    then have "uint v \<noteq> 2 ^ (n - 1)" using h by (metis word_uint_eq_iff)
    then show ?thesis using b sb(1)
      by (intro sets_bounds_int [OF n _ _ h(2) refl hlt v, where Q = "\<lambda>X. sgn_int n X < sgn_int n (uint v)"])
        (use n v in \<open>auto simp: pull_sless_def sgn_at_int\<close>)
  next
    case c
    then have "uint v = 2 ^ (n - 1) - 1" using h by simp
    then show ?thesis using c sb(4)
      by (intro sets_bounds_none) (use n v in \<open>auto simp: pull_sless_def sgn_at_int\<close>)
  next
    case d
    then have "uint v \<noteq> 2 ^ (n - 1) - 1" using h by (metis word_uint_eq_iff)
    then show ?thesis using d sb(3)
      by (intro sets_bounds_int [OF n _ _ m h(2) inc hlt, where Q = "\<lambda>X. sgn_int n (uint v) < sgn_int n X"])
        (use n v in \<open>auto simp: pull_sless_def sgn_at_int\<close>)
  qed
qed

lemma pull_slessequal_bounds:
  assumes n: "0 < n" "n \<le> 64" and v: "uint v < 2 ^ n"
  shows "sets_bounds n (pull_slessequal v slot) (\<lambda>x. if slot = 0 then sgn_at n x \<le> sgn_at n v else sgn_at n v \<le> sgn_at n x)"
proof -
  note h = half_mask [OF n] and m = uint_inc_mask [OF n(2) v]
  note sb = signed_between [OF n(1) unsigned_greater_eq [of v] v]
  have hlt: "(2 :: int) ^ (n - 1) < 2 ^ n" using n by (intro power_strict_increasing) auto
  have inc: "(if uint v + 1 = 2 ^ n then 0 else uint v + 1) < 2 ^ n" using v by auto
  show ?thesis
  proof (cases "slot = 0")
    case True
    then show ?thesis using sb(5)
      by (intro sets_bounds_int [OF n _ _ h(2) m hlt inc, where Q = "\<lambda>X. sgn_int n X \<le> sgn_int n (uint v)"])
        (use n v in \<open>auto simp: pull_slessequal_def sgn_at_int\<close>)
  next
    case False
    then show ?thesis using sb(6)
      by (intro sets_bounds_int [OF n _ _ refl h(2) v hlt, where Q = "\<lambda>X. sgn_int n (uint v) \<le> sgn_int n X"])
        (use n v in \<open>auto simp: pull_slessequal_def sgn_at_int\<close>)
  qed
qed

lemma pull_carry_bounds:
  assumes n: "0 < n" "n \<le> 64" and v: "uint v < 2 ^ n"
  shows "sets_bounds n (pull_carry v) (\<lambda>x. 2 ^ n \<le> uint x + uint v)"
proof (cases "v = 0")
  case True
  then show ?thesis by (intro sets_bounds_none) (use n in \<open>auto simp: pull_carry_def\<close>)
next
  case False
  then have p: "0 < uint v" by (metis unsigned_greater_eq unsigned_0 order_le_less word_uint_eq_iff)
  have "uint (mask n - v) = 2 ^ n - 1 - uint v"
    using n v by (simp add: uint_sub_if' uint_max)
  then have "uint ((mask n - v + 1 :: u64) AND mask n) = (2 ^ n - uint v) mod 2 ^ n"
    using n by (simp add: uint_masked)
  also have "\<dots> = 2 ^ n - uint v" using p v by (intro mod_pos_pos_trivial) auto
  finally show ?thesis
    by (intro sets_bounds_int [where l = "(mask n - v + 1) AND mask n" and rt = 0 and L = "2 ^ n - uint v" and R = 0 and Q = "\<lambda>X. 2 ^ n \<le> X + uint v"])
      (use n v p False in \<open>auto simp: pull_carry_def between_def\<close>)
qed


lemma checked_add64_None: "checked_add64 x v = None \<longleftrightarrow> 2 ^ 64 \<le> uint x + uint v"
proof -
  have "uint x + uint v = int (unat x + unat v)" by simp
  then have "2 ^ 64 \<le> uint x + uint v \<longleftrightarrow> 2 ^ 64 \<le> unat x + unat v"
    using of_nat_le_iff [of "2 ^ 64" "unat x + unat v", where 'a = int] unfolding of_nat_power of_nat_numeral by (simp only:)
  then show ?thesis unfolding checked_add64_def not_less [symmetric] by (auto split: if_split_asm)
qed

lemma carry_value:
  assumes n: "1 \<le> sz" "sz \<le> 8" and x: "uint x < 2 ^ (8 * sz)" and v: "uint v < 2 ^ (8 * sz)"
  shows "alu IntCarry sz x v sa sb = Some (of_bool64 (2 ^ (8 * sz) \<le> uint x + uint v))"
proof -
  have m: "x AND mask (8 * sz) = x" "v AND mask (8 * sz) = v"
    using n x v by (auto simp: word_uint_eq_iff uint_and_mask)
  have M: "uint (mask (8 * sz) :: u64) = 2 ^ (8 * sz) - 1" using n by (intro uint_max) auto
  have le: "(2 :: int) ^ (8 * sz) \<le> 2 ^ 64" using n by (intro power_increasing) auto
  have c: "checked_add64 x v = None \<longleftrightarrow> 2 ^ 64 \<le> uint x + uint v"
    by (rule checked_add64_None)
  have "mask (8 * sz) < x + v \<or> checked_add64 x v = None \<longleftrightarrow> 2 ^ (8 * sz) \<le> uint x + uint v"
  proof (cases "uint x + uint v < 2 ^ 64")
    case True
    then have "uint (x + v) = uint x + uint v" by (simp add: uint_word_ariths)
    then show ?thesis using True c M by (auto simp: word_less_def)
  next
    case False
    then show ?thesis using c le by linarith
  qed
  then show ?thesis using n m by (simp add: alu_def emu_mask_eq Let_def)
qed

definition compare_ops :: "opcode list" where
  "compare_ops = [IntEqual, IntNotequal, IntLess, IntLessequal, IntSless, IntSlessequal, IntCarry]"

definition apply_at :: "opcode \<Rightarrow> nat \<Rightarrow> nat \<Rightarrow> int \<Rightarrow> u64 \<Rightarrow> u64 \<Rightarrow> u64 option" where
  "apply_at opc isz osz slot x val =
     (if slot = 0 then pcode_value opc isz osz x val else pcode_value opc isz osz val x)"

lemma flag_value: "1 \<le> osz \<Longrightarrow> osz \<le> 8 \<Longrightarrow> emu_mask (of_bool64 b) osz = of_bool64 b"
  by (auto simp: emu_mask_eq of_bool64_def word_uint_eq_iff uint_and_mask mod_pos_pos_trivial one_less_power)

lemma pull_compares:
  assumes "opc \<in> set compare_ops" and sz: "1 \<le> sz" "sz \<le> 8" and "1 \<le> osz" "osz \<le> 8"
    and v: "val \<le> mask (8 * sz)"
  obtains f P where "\<And>r. \<not> cempty r \<Longrightarrow> pull_back_binary opc val slot (int sz) out r = pull_compare (int sz) f r"
    and "sets_bounds (8 * sz) f P"
    and "\<And>x. x \<le> mask (8 * sz) \<Longrightarrow> apply_at opc sz osz slot x val = Some (of_bool64 (P x))"
proof -
  have n: "0 < 8 * sz" "8 * sz \<le> 64" "uint val < 2 ^ (8 * sz)" using sz v by (auto simp: ule_mask_iff)
  note ev = pull_back_binary_def apply_at_def pcode_value_def alu_def flag_value [OF assms(4,5)] sint_sext [OF sz] sgn_at_def
  consider "opc = IntEqual" | "opc = IntNotequal" | "opc = IntLess" | "opc = IntLessequal" | "opc = IntSless"
    | "opc = IntSlessequal" | "opc = IntCarry" using assms(1) by (auto simp: compare_ops_def)
  then show thesis
  proof cases
    case 1 show thesis by (rule that [OF _ pull_equal_bounds(1) [OF n]]) (auto simp: ev 1 eq_commute [of val])
  next case 2 show thesis by (rule that [OF _ pull_equal_bounds(2) [OF n]]) (auto simp: ev 2 eq_commute [of val])
  next case 3 show thesis by (rule that [OF _ pull_less_bounds(1) [OF n]]) (auto simp: ev 3)
  next case 4 show thesis by (rule that [OF _ pull_less_bounds(2) [OF n]]) (auto simp: ev 4)
  next case 5 show thesis by (rule that [OF _ pull_sless_bounds [OF n]]) (auto simp: ev 5)
  next case 6 show thesis by (rule that [OF _ pull_slessequal_bounds [OF n]]) (auto simp: ev 6)
  next case 7 show thesis
      by (rule that [OF _ pull_carry_bounds [OF n]])
        (use n sz in \<open>auto simp: pull_back_binary_def apply_at_def pcode_value_def carry_value flag_value [OF assms(4,5)] ule_mask_iff add.commute 7\<close>)
  qed
qed

lemma shifted_between:
  fixes L R X S B :: int
  assumes S: "0 < S" and B: "0 < B" and X: "0 \<le> X" "X < B * S" and L: "0 \<le> L" and R: "0 \<le> R"
  defines "l \<equiv> (if L > B then B else L) * S mod (B * S)" and "u \<equiv> (if R > B then 0 else R) * S mod (B * S)"
  shows "\<not> ((B \<le> L \<and> B \<le> R \<and> R \<le> L) \<or> (L = 0 \<and> B \<le> R) \<or> L = R)
      \<Longrightarrow> (l \<noteq> u \<and> between l u X) \<longleftrightarrow> between L R (X div S)"
    "(B \<le> L \<and> B \<le> R \<and> R \<le> L) \<or> (L = 0 \<and> B \<le> R) \<or> L = R \<Longrightarrow> between L R (X div S)"
proof -
  define Y where "Y = X div S"
  have le: "A * S \<le> X \<longleftrightarrow> A \<le> Y" for A unfolding Y_def using S by (rule le_div_iff)
  have Y: "0 \<le> Y" "Y < B" using le [of B] X S by (auto simp: Y_def pos_imp_zdiv_nonneg_iff)
  have md: "A * S mod (B * S) = (if A < B then A * S else 0)" if "0 \<le> A" "A \<le> B" for A
    using that S by (auto simp: mod_pos_pos_trivial)
  have l: "l = (if L < B then L * S else 0)" using md [of L] md [of B] L B by (auto simp: l_def)
  have u: "u = (if R < B then R * S else 0)" using md [of R] md [of 0] R B by (auto simp: u_def)
  have lt: "X < A * S \<longleftrightarrow> Y < A" for A using le [of A] by auto
  have ord: "A * S < C * S \<longleftrightarrow> A < C" "A * S = C * S \<longleftrightarrow> A = C" "0 < C * S \<longleftrightarrow> 0 < C" for A C
    using S by (auto simp: zero_less_mult_iff)
  show "(B \<le> L \<and> B \<le> R \<and> R \<le> L) \<or> (L = 0 \<and> B \<le> R) \<or> L = R \<Longrightarrow> between L R (X div S)"
    using Y by (auto simp: between_def simp flip: Y_def)
  assume c: "\<not> ((B \<le> L \<and> B \<le> R \<and> R \<le> L) \<or> (L = 0 \<and> B \<le> R) \<or> L = R)"
  then show "(l \<noteq> u \<and> between l u X) \<longleftrightarrow> between L R (X div S)"
    using Y L R X S unfolding l u Y_def [symmetric]
    by (cases "L < B"; cases "R < B") (auto simp: between_def le lt ord mult_less_0_iff)
qed


lemma pull_right_mem:
  assumes ok: "cr_ok n r" "\<not> cempty r" "cstep r = 1" and n: "n = 8 * sz" "1 \<le> sz" "sz \<le> 8"
    and v: "0 < unat val" "unat val < n" and x: "x \<le> mask n"
  shows "contains_val (pull_right val (int sz) r) x \<longleftrightarrow> contains_val r (shr64 x (unat val))"
proof -
  let ?v = "unat val"
  define S B where "S = (2 :: int) ^ ?v" and "B = (2 :: int) ^ (n - ?v)"
  have pos: "0 < S" "0 < B" by (simp_all add: S_def B_def)
  have M: "2 ^ n = B * S" using v by (simp add: S_def B_def flip: power_add)
  have le: "n \<le> 64" "?v < 64" and m: "cmask r = mask n" using n v ok by (auto simp: cr_ok_def)
  have bl: "B < 2 ^ 64" unfolding B_def using v le by (intro power_strict_increasing) auto
  have sh: "uint (shr64 w ?v) = uint w div S" for w
    using le by (simp add: shr64_def S_def drop_bit_eq_div uint_div_distrib uint_pow64)
  have mk: "uint (shr64 (mask n) ?v) = B - 1"
  proof -
    have "(B * S - 1) div S = B - 1" using pos by (intro int_div_pos_eq [where r = "S - 1"]) (auto simp: algebra_simps)
    then show ?thesis using le by (simp add: sh uint_max M)
  qed
  have rb: "uint (shr64 (cr_calc_mask (int sz)) ?v + 1) = B"
  proof -
    have "cr_calc_mask (int sz) = mask n" using n by (simp add: cr_calc_mask_eq nat_mult_distrib)
    then show ?thesis using bl mk pos by (simp add: uint_word_ariths mod_pos_pos_trivial)
  qed
  have sl: "uint (shl64 w ?v AND mask n) = uint w * S mod 2 ^ n" for w
    using le by (simp add: shl64_def S_def push_bit_eq_mult uint_masked mult.commute uint_pow64)
  have X: "0 \<le> uint x" "uint x < B * S" using x le by (auto simp: ule_mask_iff M)
  note sb = shifted_between [OF pos X, of "uint (cleft r)" "uint (cright r)"]
  let ?full = "(B \<le> uint (cleft r) \<and> B \<le> uint (cright r) \<and> uint (cright r) \<le> uint (cleft r))
    \<or> (uint (cleft r) = 0 \<and> B \<le> uint (cright r)) \<or> uint (cleft r) = uint (cright r)"
  have eq: "pull_right val (int sz) r = (if ?full then r\<lparr>cleft := 0, cright := 0\<rparr> else pull_shifted
        (if B < uint (cleft r) then shr64 (cr_calc_mask (int sz)) ?v + 1 else cleft r)
        (if B < uint (cright r) then 0 else cright r) val r)"
    unfolding pull_right_def Let_def word_le_def word_less_def word_uint_eq_iff rb unsigned_0 ..
  show ?thesis
  proof (cases ?full)
    case True
    then show ?thesis using sb(2) [OF _ _ True] ok by (simp only: eq if_True) (simp add: step_one_mem sh between_def)
  next
    case False
    have sh_mem: "contains_val (pull_shifted l u val r) x \<longleftrightarrow>
        uint l * S mod 2 ^ n \<noteq> uint u * S mod 2 ^ n \<and> between (uint l * S mod 2 ^ n) (uint u * S mod 2 ^ n) (uint x)"
      for l u using ok unfolding pull_shifted_def m sl [symmetric]
      by (auto simp: step_one_mem Let_def simp flip: word_uint_eq_iff)
    have ifs: "uint (if b then l else u) = (if b then uint l else uint u)" for b and l u :: u64 by simp
    have "contains_val r (shr64 x ?v) \<longleftrightarrow> between (uint (cleft r)) (uint (cright r)) (uint x div S)"
      using ok by (simp add: step_one_mem sh)
    then show ?thesis unfolding eq if_not_P [OF False] sh_mem ifs rb M unsigned_0
      using sb(1) [OF unsigned_greater_eq unsigned_greater_eq False] by (simp only:)
  qed
qed


subsection \<open>Pull-back is the exact preimage\<close>

text \<open>
  The operations and operand positions that \<open>pull_back_binary\<close> inverts exactly.  A comparison needs a
  range with at most one of the two outcomes; a shift needs stride one and a shift count inside the width.
\<close>

definition pulls_exactly :: "opcode \<Rightarrow> u64 \<Rightarrow> int \<Rightarrow> nat \<Rightarrow> circle_range \<Rightarrow> bool" where
  "pulls_exactly opc val slot sz r \<longleftrightarrow>
     (if opc \<in> set compare_ops then \<not> (contains_val r 0 \<and> contains_val r 1)
      else if opc = IntAdd then True
      else if opc = IntSub then slot = 0
      else opc = IntRight \<and> slot = 0 \<and> cstep r = 1 \<and> 0 < unat val \<and> unat val < 8 * sz)"

lemma unat_ucast32: "unat (ucast v :: u32) = unat v" if "unat v < 64" for v :: u64
  using that by (simp add: unsigned_ucast_eq take_bit_nat_eq_self)

lemma wrap_value: "uint v = uint w mod 2 ^ n \<Longrightarrow> v = w AND mask n" for v w :: u64
  by (simp add: word_uint_eq_iff uint_and_mask)

lemma pull_back_binary_mem:
  assumes sz: "1 \<le> sz" "sz \<le> 8" "1 \<le> osz" "osz \<le> 8" and r: "\<not> cempty r" "pulls_exactly opc val slot sz r"
    and w: "opc \<notin> set compare_ops \<Longrightarrow> osz = sz \<and> cr_ok (8 * sz) r"
    and b: "x \<le> mask (8 * sz)" "val \<le> mask (8 * sz)"
    and res: "pull_back_binary opc val slot (int sz) (int osz) r = (r', ok)"
    and y: "apply_at opc sz osz slot x val = Some y"
  shows "ok \<and> (contains_val r' x \<longleftrightarrow> contains_val r y)"
proof (cases "opc \<in> set compare_ops")
  case True
  obtain f P where f: "pull_back_binary opc val slot (int sz) (int osz) r = pull_compare (int sz) f r"
      "sets_bounds (8 * sz) f P" "apply_at opc sz osz slot x val = Some (of_bool64 (P x))"
    using pull_compares [OF True sz b(2)] r(1) b(1) by metis
  have "nat (8 * int sz) = 8 * sz" by simp
  then show ?thesis
    using pull_compare_mem [of "int sz" f P r r' ok x] f res r True b sz y by (simp add: pulls_exactly_def)
next
  case False
  then have o: "osz = sz" "cr_ok (8 * sz) r" and m: "cmask r = mask (8 * sz)" using w r by (auto simp: cr_ok_def)
  have x: "x AND mask (8 * sz) = x" using sz b by (simp add: word_uint_eq_iff uint_and_mask ule_mask_iff)
  note ev = pull_back_binary_def apply_at_def pcode_value_def alu_def emu_mask_eq
  consider "opc = IntAdd" | "opc = IntSub" "slot = 0"
    | "opc = IntRight" "slot = 0" "cstep r = 1" "0 < unat val" "unat val < 8 * sz"
    using False r(2) by (auto simp: pulls_exactly_def split: if_splits)
  then show ?thesis
  proof cases
    case 1
    then have "y = (x - - val) AND mask (8 * sz)" "ok"
      "r' = r\<lparr>cleft := (cleft r + - val) AND mask (8 * sz), cright := (cright r + - val) AND mask (8 * sz)\<rparr>"
      using y res o sz r m by (auto simp: ev add.commute split: if_splits)
    then show ?thesis using translate_mem [OF o(2) r(1) b(1)] by blast
  next
    case 2
    then have "y = (x - val) AND mask (8 * sz)" "ok"
      "r' = r\<lparr>cleft := (cleft r + val) AND mask (8 * sz), cright := (cright r + val) AND mask (8 * sz)\<rparr>"
      using y res o sz r m by (auto simp: ev)
    then show ?thesis using translate_mem [OF o(2) r(1) b(1)] by blast
  next
    case 3
    have v: "unat (ucast val :: u32) = unat val" using 3 sz by (intro unat_ucast32) auto
    have "shr64 x (unat val) AND mask (8 * sz) = shr64 x (unat val)"
    proof -
      have "uint (shr64 x (unat val)) = uint x div 2 ^ unat val" using 3 sz
        by (simp add: shr64_def drop_bit_eq_div uint_div_distrib uint_pow64)
      also have "\<dots> \<le> uint x" using zdiv_mono2 [of "uint x" 1 "2 ^ unat val"] by simp
      finally have "uint (shr64 x (unat val)) \<le> uint x" .
      then show ?thesis using sz b by (simp add: word_uint_eq_iff uint_and_mask ule_mask_iff)
    qed
    then have "y = shr64 x (unat val)" "ok" "r' = pull_right val (int sz) r"
      using y res o sz r m 3 v by (auto simp: ev)
    then show ?thesis using pull_right_mem [OF o(2) r(1) _ refl sz(1,2)] 3 b by simp
  qed
qed

lemma pull_back_unary_mem:
  assumes sz: "1 \<le> sz" "sz \<le> 8" and r: "cr_ok (8 * sz) r" "\<not> cempty r"
    and opc: "opc = Copy \<or> opc = Int2comp \<or> opc = IntNegate"
    and x: "x \<le> mask (8 * sz)"
    and res: "pull_back_unary opc (int sz) (int sz) r = (r', ok)"
    and y: "pcode_value opc sz sz x 0 = Some y"
  shows "ok \<and> cr_ok (8 * sz) r' \<and> (contains_val r' x \<longleftrightarrow> contains_val r y)"
proof -
  have m: "cmask r = mask (8 * sz)" and xm: "x AND mask (8 * sz) = x"
    using sz r x by (auto simp: cr_ok_def word_uint_eq_iff uint_and_mask ule_mask_iff)
  have neg: "NOT a = - 1 - a" for a :: u64 by (simp add: not_eq_complement)
  note ev = pull_back_unary_def pcode_value_def alu_def emu_mask_eq neg
  consider "opc = Copy" | "opc = Int2comp" | "opc = IntNegate" using opc by blast
  then show ?thesis
  proof cases
    case 1
    then show ?thesis using res y r sz xm by (auto simp: ev)
  next
    case 2
    then have "y = (0 - x) AND mask (8 * sz)" "ok" "r' = r\<lparr>cleft := (0 - cright r + step64 r) AND mask (8 * sz),
        cright := (0 - cleft r + step64 r) AND mask (8 * sz)\<rparr>"
      using res y r sz m by (auto simp: ev)
    then show ?thesis using reflect_mem [OF r x] by blast
  next
    case 3
    then have "y = (- 1 - x) AND mask (8 * sz)" "ok" "r' = r\<lparr>cleft := (- 1 - cright r + step64 r) AND mask (8 * sz),
        cright := (- 1 - cleft r + step64 r) AND mask (8 * sz)\<rparr>"
      using res y r sz m by (auto simp: ev)
    then show ?thesis using reflect_mem [OF r x] by blast
  qed
qed

lemma pull_back_unary_empty: "cempty r \<Longrightarrow> pull_back_unary opc i out r = (r, True)"
  by (simp add: pull_back_unary_def)

lemma pull_back_binary_empty: "cempty r \<Longrightarrow> pull_back_binary opc val slot i out r = (r, True)"
  by (simp add: pull_back_binary_def)

lemma translate2_op_cases:
  "translate2_op r = (0, opc, c, slot) \<Longrightarrow>
     cright r = (cleft r + 1) AND cmask r \<and> opc = IntEqual \<and> c = cleft r \<and> slot = 0
   \<or> cleft r = (cright r + 1) AND cmask r \<and> opc = IntNotequal \<and> c = cright r \<and> slot = 0
   \<or> cleft r = 0 \<and> cright r \<noteq> 0 \<and> opc = IntLess \<and> c = cright r \<and> slot = 1
   \<or> cright r = 0 \<and> cleft r \<noteq> 0 \<and> opc = IntLess \<and> c = (cleft r - 1) AND cmask r \<and> slot = 0
   \<or> cleft r = shr64 (cmask r) 1 + 1 \<and> cright r \<noteq> cleft r \<and> opc = IntSless \<and> c = cright r \<and> slot = 1
   \<or> cright r = shr64 (cmask r) 1 + 1 \<and> cright r \<noteq> cleft r \<and> cleft r \<noteq> 0 \<and> opc = IntSless
      \<and> c = (cleft r - 1) AND cmask r \<and> slot = 0"
proof -
  obtain l u m where d: "cleft r = l" "cright r = u" "cmask r = m" by blast
  have e: "(3 :: int) \<noteq> 0" "(2 :: int) \<noteq> 0" "(1 :: int) \<noteq> 0" by simp_all
  show "translate2_op r = (0, opc, c, slot) \<Longrightarrow> ?thesis"
    unfolding translate2_op_def d
    by (simp only: prod.inject e simp_thms split: if_split_asm) metis+
qed

lemma between_single:
  fixes L X M :: int
  assumes "1 < M" "0 \<le> L" "L < M" "0 \<le> X" "X < M"
  shows "between L (if L + 1 = M then 0 else L + 1) X \<longleftrightarrow> X = L"
    "between (if L + 1 = M then 0 else L + 1) L X \<longleftrightarrow> X \<noteq> L"
  using assms by (auto simp: between_def)

lemma compare_values:
  assumes sz: "1 \<le> sz" "sz \<le> 8" and b: "uint x < 2 ^ (8 * sz)" "uint c < 2 ^ (8 * sz)"
  shows "apply_at IntEqual sz 1 slot x c = Some (of_bool64 (uint x = uint c))"
    "apply_at IntNotequal sz 1 slot x c = Some (of_bool64 (uint x \<noteq> uint c))"
    "apply_at IntLess sz 1 slot x c = Some (of_bool64 (if slot = 0 then uint x < uint c else uint c < uint x))"
    "apply_at IntSless sz 1 slot x c = Some (of_bool64 (if slot = 0
       then sgn_int (8 * sz) (uint x) < sgn_int (8 * sz) (uint c)
       else sgn_int (8 * sz) (uint c) < sgn_int (8 * sz) (uint x)))"
proof -
  have n: "0 < 8 * sz" using sz by simp
  have s: "sint (sext w sz) = sgn_int (8 * sz) (uint w)" if "uint w < 2 ^ (8 * sz)" for w
    using sgn_at_int [OF n that] by (simp add: sint_sext [OF sz] sgn_at_def)
  have f: "emu_mask (of_bool64 e) 1 = of_bool64 e" for e by (rule flag_value) auto
  note ev = apply_at_def pcode_value_def alu_def f [simplified]
  show "apply_at IntEqual sz 1 slot x c = Some (of_bool64 (uint x = uint c))"
    by (simp add: ev word_uint_eq_iff eq_commute [of "uint c"])
  show "apply_at IntNotequal sz 1 slot x c = Some (of_bool64 (uint x \<noteq> uint c))"
    by (simp add: ev word_uint_eq_iff eq_commute [of "uint c"])
  show "apply_at IntLess sz 1 slot x c = Some (of_bool64 (if slot = 0 then uint x < uint c else uint c < uint x))"
    by (simp add: ev word_less_def)
  show "apply_at IntSless sz 1 slot x c = Some (of_bool64 (if slot = 0
       then sgn_int (8 * sz) (uint x) < sgn_int (8 * sz) (uint c)
       else sgn_int (8 * sz) (uint c) < sgn_int (8 * sz) (uint x)))"
    by (simp add: ev s [OF b(1)] s [OF b(2)])
qed


lemma uint_pos: "uint w \<noteq> 0 \<Longrightarrow> 0 < uint w"
  using unsigned_greater_eq [of w, where 'a = int] by linarith

lemma translate2_op_mem:
  assumes sz: "1 \<le> sz" "sz \<le> 8" and r: "cr_ok (8 * sz) r" and x: "x \<le> mask (8 * sz)"
    and res: "translate2_op r = (0, opc, c, slot)"
  shows "apply_at opc sz 1 (1 - slot) x c = Some (of_bool64 (contains_val r x))"
proof -
  let ?n = "8 * sz" and ?L = "uint (cleft r)" and ?R = "uint (cright r)" and ?X = "uint x"
  have nonempty: "\<not> cempty r" by (rule ccontr) (use res in \<open>simp add: translate2_op_def\<close>)
  have s: "cstep r = 1" by (rule ccontr) (use res nonempty in \<open>simp add: translate2_op_def\<close>)
  have M: "(1 :: int) < 2 ^ ?n" using sz by (intro one_less_power) auto
  have n: "0 < ?n" "?n \<le> 64" using sz by auto
  have b: "?L < 2 ^ ?n" "?R < 2 ^ ?n" "?X < 2 ^ ?n" and m: "cmask r = mask ?n"
    using r nonempty x n by (auto simp: cr_ok_def ule_mask_iff)
  have c: "contains_val r x \<longleftrightarrow> between ?L ?R ?X" using nonempty by (simp add: step_one_mem [OF s])
  have dec: "uint ((cleft r - 1) AND mask ?n) = ?L - 1" if "cleft r \<noteq> 0"
  proof -
    have "?L \<noteq> 0" using that by (simp add: word_uint_eq_iff)
    then have "1 \<le> ?L" using unsigned_greater_eq [of "cleft r", where 'a = int] by linarith
    then show ?thesis using n b by (simp add: uint_masked mod_pos_pos_trivial)
  qed
  note h = half_mask [OF n] and inc = uint_inc_mask [OF n(2) b(1)] uint_inc_mask [OF n(2) b(2)]
  note cv = compare_values [OF sz b(3)]
  show ?thesis using translate2_op_cases [OF res]
  proof (elim disjE conjE, goal_cases)
    case 1
    then have "?R = (if ?L + 1 = 2 ^ ?n then 0 else ?L + 1)" using inc m by metis
    then have "between ?L ?R ?X \<longleftrightarrow> ?X = ?L" using between_single(1) [OF M _ b(1) _ b(3)] by simp
    then show ?thesis using 1 c cv(1) [OF b(1)] by (simp only:)
  next
    case 2
    then have "?L = (if ?R + 1 = 2 ^ ?n then 0 else ?R + 1)" using inc m by metis
    then have "between ?L ?R ?X \<longleftrightarrow> ?X \<noteq> ?R" using between_single(2) [OF M _ b(2) _ b(3)] by simp
    then show ?thesis using 2 c cv(2) [OF b(2)] by (simp only:)
  next
    case 3
    then have "?L = 0" "?R \<noteq> 0" by (simp_all add: word_uint_eq_iff)
    then have "between ?L ?R ?X \<longleftrightarrow> ?X < ?R"
      using uint_pos by (auto simp: between_def)
    then show ?thesis using 3 c cv(3) [OF b(2), of 0] by simp
  next
    case 4
    then have "?R = 0" "?L \<noteq> 0" by (simp_all add: word_uint_eq_iff)
    then have "between ?L ?R ?X \<longleftrightarrow> ?L - 1 < ?X"
      using uint_pos [of "cleft r"] by (auto simp: between_def)
    then show ?thesis using 4 c dec b m cv(3) [of c 1] by simp
  next
    case 5
    then have L: "?L = 2 ^ (?n - 1)" and "?R \<noteq> 2 ^ (?n - 1)" using h(2) m by (metis, metis word_uint_eq_iff)
    from signed_between(1) [OF n(1) unsigned_greater_eq b(2) unsigned_greater_eq b(3) this(2)]
    show ?thesis using 5 c cv(4) [OF b(2), of 0] unfolding L by simp
  next
    case 6
    let ?V = "uint ((cleft r - 1) AND mask ?n)"
    have R: "?R = 2 ^ (?n - 1)" "?L \<noteq> 2 ^ (?n - 1)" using 6 h(2) m by (metis, metis word_uint_eq_iff)
    have V: "?V = ?L - 1" using 6 dec by blast
    have V2: "?V < 2 ^ ?n" "?V \<noteq> 2 ^ (?n - 1) - 1" using V R b(1) by linarith+
    note f = signed_between(3) [OF n(1) unsigned_greater_eq V2(1) unsigned_greater_eq b(3) V2(2)]
    have "(if ?V + 1 = 2 ^ ?n then 0 else ?V + 1) = ?L" using V b(1) by simp
    then have "between ?L ?R ?X \<longleftrightarrow> sgn_int ?n ?V < sgn_int ?n ?X" using f R(1) by (simp only:)
    then show ?thesis using 6 c m cv(4) [OF V2(1), of 1] by simp
  qed
qed

subsection \<open>Properties of the transfer functions\<close>



text \<open>
  Pulling a range back through a copy, a negation or a bitwise complement gives the exact
  preimage, and the result is well formed.
\<close>

theorem pull_back_unary_exact:
  assumes "1 \<le> sz" "sz \<le> 8" "cr_ok (8 * sz) r" "opc = Copy \<or> opc = Int2comp \<or> opc = IntNegate"
    and "x \<le> mask (8 * sz)" "pull_back_unary opc (int sz) (int sz) r = (r', ok)" "pcode_value opc sz sz x 0 = Some y"
  shows "ok \<and> cr_ok (8 * sz) r' \<and> (contains_val r' x \<longleftrightarrow> contains_val r y)"
proof (cases "cempty r")
  case True
  then show ?thesis using assms(3,6) by (simp add: pull_back_unary_empty contains_val_iff)
next
  case False
  from pull_back_unary_mem [OF assms(1-3) False assms(4-7)] show ?thesis .
qed

theorem pull_back_unary_exact_witness:
  "contains_val \<lparr>cleft = 0xe4, cright = 0x04, cmask = 0xff, cempty = False, cstep = 4\<rparr> 0xf0
     \<longleftrightarrow> contains_val \<lparr>cleft = 0x00, cright = 0x20, cmask = 0xff, cempty = False, cstep = 4\<rparr> 0x10"
proof -
  let ?r = "\<lparr>cleft = 0x00, cright = 0x20, cmask = 0xff, cempty = False, cstep = 4\<rparr> :: circle_range"
  let ?s = "\<lparr>cleft = 0xe4, cright = 0x04, cmask = 0xff, cempty = False, cstep = 4\<rparr> :: circle_range"
  have ok: "cr_ok (8 * 1) ?r"
    by (auto simp: cr_ok_def mask_eq_exp_minus_1 intro: exI [of _ 2])
  have pull: "pull_back_unary Int2comp (int 1) (int 1) ?r = (?s, True)"
    by (simp add: pull_back_unary_def)
  have app: "pcode_value Int2comp 1 1 0xf0 0 = Some 0x10"
    by (simp add: pcode_value_def alu_def emu_mask_def shl64_def)
  show ?thesis
    using pull_back_unary_exact [OF _ _ ok _ _ pull app] by (simp add: mask_eq_exp_minus_1)
qed

text \<open>
  (C22) When \<open>translate2_op\<close> reads a range as one comparison with a constant, the interpreter's value of
  that comparison is true exactly on the values of the range.
\<close>

theorem translate2_op_exact:
  assumes "1 \<le> sz" "sz \<le> 8" "cr_ok (8 * sz) r" "x \<le> mask (8 * sz)" "translate2_op r = (0, opc, c, slot)"
  shows "apply_at opc sz 1 (1 - slot) x c = Some (of_bool64 (contains_val r x))"
  using assms by (rule translate2_op_mem)

theorem translate2_op_exact_witness:
  "apply_at IntSless 1 1 0 0x90 0x05 = Some (of_bool64 (contains_val
     \<lparr>cleft = 0x80, cright = 0x05, cmask = 0xff, cempty = False, cstep = 1\<rparr> 0x90))"
proof -
  let ?r = "\<lparr>cleft = 0x80, cright = 0x05, cmask = 0xff, cempty = False, cstep = 1\<rparr> :: circle_range"
  have ok: "cr_ok (8 * 1) ?r"
    by (auto simp: cr_ok_def mask_eq_exp_minus_1 intro: exI [of _ 0])
  have t: "translate2_op ?r = (0, IntSless, 0x05, 1)" by (simp add: translate2_op_def shr64_def)
  show ?thesis using translate2_op_exact [OF _ _ ok _ t, of "0x90"] by (simp add: mask_eq_exp_minus_1)
qed

text \<open>
  The result of the pull-back of a subtraction from a constant is not the preimage: for the outputs
  \<open>[0, 2)\<close> of \<open>10 - x\<close> the code answers \<open>[10, 8)\<close>, which holds 200, although \<open>10 - 200\<close> is 66, and which
  omits 9, although \<open>10 - 9\<close> is 1.
\<close>

lemma sub_from_constant_reversed:
  "fst (pull_back_binary IntSub 10 1 1 1 \<lparr>cleft = 0, cright = 2, cmask = 0xff, cempty = False, cstep = 1\<rparr>)
     = \<lparr>cleft = 10, cright = 8, cmask = 0xff, cempty = False, cstep = 1\<rparr>"
  "contains_val \<lparr>cleft = 10, cright = 8, cmask = 0xff, cempty = False, cstep = 1\<rparr> 200"
  "\<not> contains_val \<lparr>cleft = 10, cright = 8, cmask = 0xff, cempty = False, cstep = 1\<rparr> 9"
  by (simp_all add: pull_back_binary_def contains_val_def)

end
