(* ===== verification/M68k_Rules.thy ===== *)
theory M68k_Rules
  imports Pcode_Eval
begin

text \<open>
  The pure part of \<^verbatim>\<open>sleigh/emu_m68k.rs\<close>, the 68000's emulator state modifier: the instructions it
  handles, their classification from the instruction word, the shift and rotate families, and the
  decimal addition and subtraction.
\<close>

subsection \<open>Instructions and registers\<close>

datatype shift_kind = Arithmetic | Logical | RotateExtended | Rotate

datatype insn =
    Bcd bool nat nat bool \<comment> \<open>add, rx, ry, memory\<close>
  | Nbcd
  | DivW bool nat \<comment> \<open>signed, dn\<close>
  | Shift shift_kind bool nat nat bool nat \<comment> \<open>kind, left, bits, count, by register, dy\<close>
  | ShiftMemory shift_kind bool

record m68k =
  m_d :: "u64 list"
  m_a :: "u64 list"
  m_x :: u64
  m_n :: u64
  m_z :: u64
  m_v :: u64
  m_c :: u64
  m_ram :: string

type_synonym bcd_flags = "bool \<times> bool \<times> bool \<times> bool"

record before =
  b_dividend :: u64
  b_z :: u64
  b_nbcd_flags :: "bcd_flags option"
  b_quotient :: "u64 option"

text \<open>\<^verbatim>\<open>str::to_ascii_lowercase\<close> and the part of a name before its first dot.\<close>

definition ascii_lower :: "char \<Rightarrow> char" where
  "ascii_lower c = (let n = of_char c :: nat in if 65 \<le> n \<and> n \<le> 90 then char_of (n + 32) else c)"

definition base_name :: "string \<Rightarrow> string" where
  "base_name s = takeWhile (\<lambda>c. c \<noteq> CHR ''.'') s"

definition shift_kinds :: "shift_kind list" where
  "shift_kinds = [Arithmetic, Logical, RotateExtended, Rotate]"

definition shift_names :: "string list" where
  "shift_names = [''asl'', ''asr'', ''lsl'', ''lsr'', ''roxl'', ''roxr'', ''rol'', ''ror'']"

definition be_word :: "u8 \<Rightarrow> u8 \<Rightarrow> u16" where
  "be_word hi lo = push_bit 8 (ucast hi) OR ucast lo"

definition classify_shift :: "string \<Rightarrow> u16 \<Rightarrow> insn option" where
  "classify_shift name word =
     (if word AND 0xf000 \<noteq> 0xe000 \<or> \<not> List.member shift_names (base_name name) then None
      else let left = (word AND 0x100 \<noteq> 0);
               sz = drop_bit 6 word AND 3
           in if sz = 3
              then Some (ShiftMemory (shift_kinds ! unat (drop_bit 9 word AND 3)) left)
              else Some (Shift (shift_kinds ! unat (drop_bit 3 word AND 3)) left (8 * 2 ^ unat sz)
                     (unat (drop_bit 9 word AND 7)) (word AND 0x20 \<noteq> 0) (unat (word AND 7))))"

definition classify :: "string \<Rightarrow> u8 list \<Rightarrow> insn option" where
  "classify mnemonic bytes =
     (case bytes of
        b0 # b1 # _ \<Rightarrow>
          (let word = be_word b0 b1;
               rx = unat (drop_bit 9 word AND 7);
               ry = unat (word AND 7);
               memory = (word AND 0x8 \<noteq> 0);
               name = map ascii_lower mnemonic
           in if name = ''abcd'' then Some (Bcd True rx ry memory)
              else if name = ''sbcd'' then Some (Bcd False rx ry memory)
              else if name = ''nbcd'' then Some Nbcd
              else if name = ''divu.w'' then Some (DivW False rx)
              else if name = ''divs.w'' then Some (DivW True rx)
              else classify_shift name word)
      | _ \<Rightarrow> None)"

subsection \<open>Shifts and rotates\<close>

record shifted =
  s_value :: u64
  s_x :: "bool option"
  s_overflow :: bool
  s_carry :: bool

definition bit_at :: "u64 \<Rightarrow> nat \<Rightarrow> bool" where
  "bit_at v n \<longleftrightarrow> shr64 v n AND 1 \<noteq> 0"

definition shift_left :: "shift_kind \<Rightarrow> nat \<Rightarrow> u64 \<Rightarrow> nat \<Rightarrow> shifted" where
  "shift_left kind bits v n =
     (let m = shl64 1 bits - 1;
          value = (if n < bits then shl64 v n AND m else 0);
          carry = (n \<le> bits \<and> bit_at v (bits - n));
          overflow = (kind = Arithmetic \<and>
            (if n \<ge> bits then v \<noteq> 0
             else let top = shr64 v (bits - n - 1) in top \<noteq> 0 \<and> top \<noteq> shl64 1 (n + 1) - 1))
      in \<lparr>s_value = value, s_x = Some carry, s_overflow = overflow, s_carry = carry\<rparr>)"

definition shift_right :: "nat \<Rightarrow> u64 \<Rightarrow> nat \<Rightarrow> shifted" where
  "shift_right bits v n =
     (let value = (if n < bits then shr64 v n else 0);
          carry = (n \<le> bits \<and> bit_at v (n - 1))
      in \<lparr>s_value = value, s_x = Some carry, s_overflow = False, s_carry = carry\<rparr>)"

definition shift_aright :: "nat \<Rightarrow> u64 \<Rightarrow> nat \<Rightarrow> shifted" where
  "shift_aright bits v n =
     (let m = shl64 1 bits - 1;
          sgn = sar64 (shl64 v (64 - bits)) (64 - bits);
          value = sar64 sgn (min n bits) AND m;
          carry = (if n \<le> bits then sar64 sgn (n - 1) AND 1 \<noteq> 0 else bit_at v (bits - 1))
      in \<lparr>s_value = value, s_x = Some carry, s_overflow = False, s_carry = carry\<rparr>)"

definition rotate_bits :: "bool \<Rightarrow> nat \<Rightarrow> u64 \<Rightarrow> nat \<Rightarrow> u64" where
  "rotate_bits left width v k =
     (let m = shl64 1 width - 1
      in if k = 0 then v
         else if left then (shl64 v k OR shr64 v (width - k)) AND m
         else (shr64 v k OR shl64 v (width - k)) AND m)"

definition shift :: "shift_kind \<Rightarrow> bool \<Rightarrow> nat \<Rightarrow> u64 \<Rightarrow> nat \<Rightarrow> bool \<Rightarrow> shifted" where
  "shift kind left bits value n x =
     (let v = value AND (shl64 1 bits - 1)
      in if n = 0
         then \<lparr>s_value = v, s_x = None, s_overflow = False, s_carry = (kind = RotateExtended \<and> x)\<rparr>
         else
           (case kind of
              Rotate \<Rightarrow>
                (let r = rotate_bits left bits v (n mod bits);
                     carry = (if left then r AND 1 \<noteq> 0 else bit_at r (bits - 1))
                 in \<lparr>s_value = r, s_x = None, s_overflow = False, s_carry = carry\<rparr>)
            | RotateExtended \<Rightarrow>
                (let width = bits + 1;
                     whole = shl64 (of_bool64 x) bits OR v;
                     r = rotate_bits left width whole (n mod width);
                     carry = (shr64 r bits \<noteq> 0)
                 in \<lparr>s_value = r AND (shl64 1 bits - 1), s_x = Some carry, s_overflow = False, s_carry = carry\<rparr>)
            | Arithmetic \<Rightarrow> if left then shift_left kind bits v n else shift_aright bits v n
            | Logical \<Rightarrow> if left then shift_left kind bits v n else shift_right bits v n))"

subsection \<open>Decimal arithmetic\<close>

record decimal =
  d_value :: u8
  d_carry :: bool
  d_overflow :: bool

text \<open>\<^verbatim>\<open>u8::overflowing_add\<close> and \<^verbatim>\<open>u8::overflowing_sub\<close>.\<close>

definition overflowing_add8 :: "u8 \<Rightarrow> u8 \<Rightarrow> u8 \<times> bool" where
  "overflowing_add8 a b = (a + b, 256 \<le> unat a + unat b)"

definition overflowing_sub8 :: "u8 \<Rightarrow> u8 \<Rightarrow> u8 \<times> bool" where
  "overflowing_sub8 a b = (a - b, a < b)"

definition of_bool8 :: "bool \<Rightarrow> u8" where
  "of_bool8 b = (if b then 1 else 0)"

definition bcd_add :: "u8 \<Rightarrow> u8 \<Rightarrow> bool \<Rightarrow> decimal" where
  "bcd_add dst src x =
     (let low = (dst AND 0xf) + (src AND 0xf) + of_bool8 x;
          correction0 = (if low \<ge> 0xa then 6 else 0);
          threshold = (if correction0 \<noteq> 0 then 0x9a else 0xa0);
          (sum1, c1) = overflowing_add8 dst src;
          (sum, c2) = overflowing_add8 sum1 (of_bool8 x);
          carry = (c1 \<or> c2 \<or> sum \<ge> threshold);
          correction = (if carry then correction0 OR 0x60 else correction0);
          (value, c3) = overflowing_add8 sum correction
      in \<lparr>d_value = value, d_carry = (carry \<or> c3), d_overflow = (NOT sum AND value AND 0x80 \<noteq> 0)\<rparr>)"

definition bcd_sub :: "u8 \<Rightarrow> u8 \<Rightarrow> bool \<Rightarrow> decimal" where
  "bcd_sub dst src x =
     (let low = (dst AND 0xf) - (src AND 0xf) - of_bool8 x;
          correction0 = (if low \<ge> 0x10 then 6 else 0);
          (diff1, b1) = overflowing_sub8 dst src;
          (diff, b2) = overflowing_sub8 diff1 (of_bool8 x);
          borrow = (b1 \<or> b2);
          correction = (if borrow then correction0 OR 0x60 else correction0);
          (value, b3) = overflowing_sub8 diff correction
      in \<lparr>d_value = value, d_carry = (borrow \<or> b3), d_overflow = (diff AND NOT value AND 0x80 \<noteq> 0)\<rparr>)"

definition nbcd_adjust :: "u64 \<Rightarrow> bool \<Rightarrow> u64 \<times> bcd_flags" where
  "nbcd_adjust tmp x =
     (let d = - (ucast tmp :: u8) - of_bool8 x;
          r = bcd_sub 0 d x
      in (ucast (d_value r), (d_carry r, d_overflow r, d_value r AND 0x80 \<noteq> 0, d_value r \<noteq> 0)))"

subsection \<open>Decimal correctness\<close>

definition bcd_encode :: "nat \<Rightarrow> u8" where
  "bcd_encode n = of_nat (16 * (n div 10) + n mod 10)"

lemma unat_of_small8: "n < 256 \<Longrightarrow> unat (of_nat n :: u8) = n"
  by (simp add: unat_of_nat take_bit_nat_eq_self)

lemma unat_bcd: "n < 100 \<Longrightarrow> unat (bcd_encode n) = 16 * (n div 10) + n mod 10"
  unfolding bcd_encode_def by (intro unat_of_small8) (use div_le_mono [of n 99 10] in auto)

lemma unat_low: "unat (w AND 0xf :: u8) = unat w mod 16"
proof -
  have "w AND 0xf = w AND mask 4" by (simp add: mask_eq_exp_minus_1)
  then have "unat (w AND 0xf) = take_bit 4 (unat w)"
    by (simp only: unsigned_take_bit_eq flip: take_bit_eq_mask)
  then show ?thesis by (simp add: take_bit_eq_mod)
qed

lemma unat_add8: "unat (a + b :: u8) = (unat a + unat b) mod 256"
  by (simp add: unat_word_ariths)

lemma unat_sub8: "unat (a - b :: u8) = (if unat b \<le> unat a then unat a - unat b else unat a + 256 - unat b)"
  by (simp add: unat_sub_if_size word_size)

lemma digits_of: "n < 100 \<Longrightarrow> \<exists>t u. t < 10 \<and> u < 10 \<and> n = 10 * t + u \<and> n div 10 = t \<and> n mod 10 = u" for n :: nat
  by (intro exI [of _ "n div 10"] exI [of _ "n mod 10"]) auto

text \<open>The binary sum of two coded numbers, its decimal correction, and the coded decimal sum.\<close>

definition decimal_sum_ok :: "nat \<Rightarrow> nat \<Rightarrow> bool" where
  "decimal_sum_ok T L =
     (let S = 16 * T + L; k = (if 10 \<le> L then 6 else 0); thr = (if 10 \<le> L then 0x9a else 0xa0) in
      (thr \<le> S \<longleftrightarrow> 100 \<le> 10 * T + L)
      \<and> (S mod 256 + (k + (if thr \<le> S then 0x60 else 0))) mod 256
           = 16 * ((10 * T + L) mod 100 div 10) + (10 * T + L) mod 100 mod 10
      \<and> (thr \<le> S \<or> S mod 256 + k < 256))"

lemma decimal_sum_check: "list_all (\<lambda>T. list_all (decimal_sum_ok T) [0..<20]) [0..<19]"
  by code_simp

lemma decimal_sum: "T \<le> 18 \<Longrightarrow> L \<le> 19 \<Longrightarrow> decimal_sum_ok T L"
  using decimal_sum_check by (simp add: list_all_iff)

lemma carry_chain:
  fixes A c t :: nat
  assumes "c \<le> 1" "A < 512" "t \<le> 256"
  shows "256 \<le> A \<or> 256 \<le> A mod 256 + c \<or> t \<le> (A + c) mod 256 \<longleftrightarrow> t \<le> A + c"
proof (cases "A + c < 256")
  case False
  then show ?thesis using assms by (cases "256 \<le> A") (auto simp: mod_if)
qed (use assms in simp)

lemma bcd_add_decimal:
  assumes a: "a < 100" and b: "b < 100"
  shows "d_value (bcd_add (bcd_encode a) (bcd_encode b) x) = bcd_encode ((a + b + of_bool x) mod 100)"
    "d_carry (bcd_add (bcd_encode a) (bcd_encode b) x) \<longleftrightarrow> 100 \<le> a + b + of_bool x"
proof -
  obtain a1 a0 where da: "a1 < 10" "a0 < 10" "a = 10 * a1 + a0" "unat (bcd_encode a) = 16 * a1 + a0"
    using digits_of [OF a] unat_bcd [OF a] by metis
  obtain b1 b0 where db: "b1 < 10" "b0 < 10" "b = 10 * b1 + b0" "unat (bcd_encode b) = 16 * b1 + b0"
    using digits_of [OF b] unat_bcd [OF b] by metis
  define c where "c = (of_bool x :: nat)"
  have c: "c \<le> 1" "unat (of_bool8 x) = c" by (auto simp: c_def of_bool8_def)
  define T L where "T = a1 + b1" and "L = a0 + b0 + c"
  have TL: "T \<le> 18" "L \<le> 19" "a + b + c = 10 * T + L" using da db c by (auto simp: T_def L_def)
  let ?low = "(bcd_encode a AND 0xf) + (bcd_encode b AND 0xf) + of_bool8 x"
  let ?sum = "bcd_encode a + bcd_encode b + of_bool8 x"
  have low: "unat ?low = L"
    using da db c by (simp add: unat_add8 unat_low L_def)
  have low10: "0xa \<le> ?low \<longleftrightarrow> 10 \<le> L" by (simp add: word_le_nat_alt low)
  have sum: "unat ?sum = (16 * T + L) mod 256"
  proof -
    have "unat ?sum = ((16 * a1 + a0 + (16 * b1 + b0)) mod 256 + c) mod 256"
      by (simp only: unat_add8 da(4) db(4) c(2))
    also have "\<dots> = (16 * T + L) mod 256"
      unfolding mod_add_left_eq by (simp add: T_def L_def algebra_simps)
    finally show ?thesis .
  qed
  define thr where "thr = (if 10 \<le> L then 0x9a else 0xa0 :: nat)"
  have thr8: "unat (if 10 \<le> L then 0x9a else 0xa0 :: u8) = thr" by (simp add: thr_def)
  have carry: "256 \<le> unat (bcd_encode a) + unat (bcd_encode b) \<or> 256 \<le> unat (bcd_encode a + bcd_encode b) + unat (of_bool8 x)
      \<or> (if 10 \<le> L then 0x9a else 0xa0) \<le> ?sum \<longleftrightarrow> thr \<le> 16 * T + L" (is "?c \<longleftrightarrow> _")
  proof -
    have A: "16 * a1 + a0 + (16 * b1 + b0) + c = 16 * T + L" by (simp add: T_def L_def)
    have "thr \<le> 256" "16 * a1 + a0 + (16 * b1 + b0) < 512" using da db by (simp_all add: thr_def)
    from carry_chain [OF c(1) this(2,1)] show ?thesis
      unfolding word_le_nat_alt thr8 sum unat_add8 [of "bcd_encode a"] da(4) db(4) c(2) A .
  qed
  define k where "k = (if 10 \<le> L then 6 else 0 :: nat)"
  note ds = decimal_sum [OF TL(1,2), unfolded decimal_sum_ok_def Let_def, folded thr_def k_def]
  let ?corr = "if ?c then (if 10 \<le> L then 6 else 0) OR 0x60 else (if 10 \<le> L then 6 else 0) :: u8"
  have corr: "unat ?corr = k + (if thr \<le> 16 * T + L then 0x60 else 0)"
    unfolding carry k_def by simp
  have nz: "(if 10 \<le> L then 6 else 0 :: u8) \<noteq> 0 \<longleftrightarrow> 10 \<le> L" by simp
  have r: "d_value (bcd_add (bcd_encode a) (bcd_encode b) x) = ?sum + ?corr"
    "d_carry (bcd_add (bcd_encode a) (bcd_encode b) x) \<longleftrightarrow> ?c \<or> 256 \<le> unat ?sum + unat ?corr"
    unfolding bcd_add_def overflowing_add8_def Let_def prod.case low10 nz by (simp_all only: decimal.simps)
  have "unat (?sum + ?corr) = unat (bcd_encode ((a + b + c) mod 100))"
    unfolding unat_add8 [of ?sum] corr sum TL(3) using ds by (subst unat_bcd) (simp, metis)
  then show "d_value (bcd_add (bcd_encode a) (bcd_encode b) x) = bcd_encode ((a + b + of_bool x) mod 100)"
    unfolding r c_def by (simp only: word_unat_eq_iff)
  show "d_carry (bcd_add (bcd_encode a) (bcd_encode b) x) \<longleftrightarrow> 100 \<le> a + b + of_bool x"
    unfolding r(2) carry corr sum c_def [symmetric] TL(3) using ds by auto
qed


text \<open>The same for differences, over the integers: \<open>T\<close> and \<open>L\<close> are the differences of the digits.\<close>

definition decimal_diff_ok :: "int \<Rightarrow> int \<Rightarrow> bool" where
  "decimal_diff_ok T L =
     (let S = 16 * T + L; k = (if L < 0 then 6 else 0) in
      (S < 0 \<longleftrightarrow> 10 * T + L < 0)
      \<and> (S mod 256 - (k + (if S < 0 then 0x60 else 0))) mod 256
           = 16 * ((10 * T + L) mod 100 div 10) + (10 * T + L) mod 100 mod 10
      \<and> (S < 0 \<or> k \<le> S mod 256))"

lemma decimal_diff_check: "list_all (\<lambda>T. list_all (decimal_diff_ok T) [-10..9]) [-9..9]"
  by code_simp

lemma decimal_diff: "- 9 \<le> T \<Longrightarrow> T \<le> 9 \<Longrightarrow> - 10 \<le> L \<Longrightarrow> L \<le> 9 \<Longrightarrow> decimal_diff_ok T L"
  using decimal_diff_check unfolding list_all_iff set_upto by (meson atLeastAtMost_iff)

lemma uint_sub8: "uint (a - b :: u8) = (uint a - uint b) mod 256"
  by (simp add: uint_word_ariths)

lemma uint_unat8: "uint (w :: u8) = int (unat w)" by simp

lemma borrow_chain:
  fixes A B c :: int
  assumes "0 \<le> A" "A < 256" "0 \<le> B" "B < 256" "0 \<le> c" "c \<le> 1"
  shows "(A < B \<or> (A - B) mod 256 < c) \<longleftrightarrow> A - B - c < 0"
proof (cases "A < B")
  case False
  then have "(A - B) mod 256 = A - B" using assms by simp
  then show ?thesis using False by auto
qed (use assms in auto)

lemma bcd_sub_decimal:
  assumes a: "a < 100" and b: "b < 100"
  shows "d_value (bcd_sub (bcd_encode a) (bcd_encode b) x) = bcd_encode (nat ((int a - int b - of_bool x) mod 100))"
    "d_carry (bcd_sub (bcd_encode a) (bcd_encode b) x) \<longleftrightarrow> a < b + of_bool x"
proof -
  obtain a1 a0 where da: "a1 < 10" "a0 < 10" "a = 10 * a1 + a0" "unat (bcd_encode a) = 16 * a1 + a0"
    using digits_of [OF a] unat_bcd [OF a] by metis
  obtain b1 b0 where db: "b1 < 10" "b0 < 10" "b = 10 * b1 + b0" "unat (bcd_encode b) = 16 * b1 + b0"
    using digits_of [OF b] unat_bcd [OF b] by metis
  define c where "c = (of_bool x :: int)"
  have c: "0 \<le> c" "c \<le> 1" "uint (of_bool8 x) = c" by (auto simp: c_def of_bool8_def)
  define T L where "T = int a1 - int b1" and "L = int a0 - int b0 - c"
  have TL: "- 9 \<le> T" "T \<le> 9" "- 10 \<le> L" "L \<le> 9" "int a - int b - c = 10 * T + L" using da db c by (auto simp: T_def L_def)
  have ua: "uint (bcd_encode a) = 16 * int a1 + int a0" and ub: "uint (bcd_encode b) = 16 * int b1 + int b0"
    using uint_unat8 [of "bcd_encode a"] uint_unat8 [of "bcd_encode b"] unfolding da(4) db(4) by simp_all
  have la: "uint (bcd_encode a AND 0xf) = int a0" "uint (bcd_encode b AND 0xf) = int b0"
    using uint_unat8 [of "bcd_encode a AND 0xf"] uint_unat8 [of "bcd_encode b AND 0xf"] da db
    unfolding unat_low da(4) db(4) by simp_all
  let ?low = "(bcd_encode a AND 0xf) - (bcd_encode b AND 0xf) - of_bool8 x"
  let ?diff = "bcd_encode a - bcd_encode b - of_bool8 x"
  have low: "0x10 \<le> ?low \<longleftrightarrow> L < 0"
  proof -
    have "uint ?low = L mod 256" by (simp add: uint_sub8 la c(3) mod_diff_left_eq L_def)
    also have "\<dots> = (if L < 0 then L + 256 else L)"
      using TL mod_pos_pos_trivial [of "L + 256" 256] by (auto simp: mod_pos_pos_trivial)
    finally show ?thesis using TL by (simp add: word_le_def)
  qed
  have diff: "uint ?diff = (16 * T + L) mod 256"
    by (simp add: uint_sub8 ua ub c(3) mod_diff_left_eq) (simp add: T_def L_def algebra_simps)
  have borrow: "bcd_encode a < bcd_encode b \<or> bcd_encode a - bcd_encode b < of_bool8 x \<longleftrightarrow> 16 * T + L < 0" (is "?c \<longleftrightarrow> _")
  proof -
    have "16 * int a1 + int a0 - (16 * int b1 + int b0) - c = 16 * T + L" by (simp add: T_def L_def)
    then show ?thesis
      using borrow_chain [of "16 * int a1 + int a0" "16 * int b1 + int b0" c] da(1,2) db(1,2) c(1,2)
      unfolding word_less_def uint_sub8 ua ub c(3) by simp
  qed
  define k where "k = (if L < 0 then 6 else 0 :: int)"
  note ds = decimal_diff [OF TL(1-4), unfolded decimal_diff_ok_def Let_def, folded k_def]
  let ?corr = "if ?c then (if L < 0 then 6 else 0) OR 0x60 else (if L < 0 then 6 else 0) :: u8"
  have corr: "uint ?corr = k + (if 16 * T + L < 0 then 0x60 else 0)"
    unfolding borrow k_def by simp
  have r: "d_value (bcd_sub (bcd_encode a) (bcd_encode b) x) = ?diff - ?corr"
    "d_carry (bcd_sub (bcd_encode a) (bcd_encode b) x) \<longleftrightarrow> ?c \<or> ?diff < ?corr"
    unfolding bcd_sub_def overflowing_sub8_def Let_def prod.case low by (simp_all only: decimal.simps)
  have "uint (bcd_encode (nat ((int a - int b - c) mod 100))) = 16 * ((10 * T + L) mod 100 div 10) + (10 * T + L) mod 100 mod 10"
    unfolding TL(5) uint_unat8 by (subst unat_bcd) (auto simp: zdiv_int zmod_int nat_less_iff)
  then have "uint (?diff - ?corr) = uint (bcd_encode (nat ((int a - int b - c) mod 100)))"
    unfolding uint_sub8 [of ?diff] corr diff using ds by metis
  then show "d_value (bcd_sub (bcd_encode a) (bcd_encode b) x) = bcd_encode (nat ((int a - int b - of_bool x) mod 100))"
    unfolding r c_def by (simp only: word_uint_eq_iff)
  have "a < b + of_bool x \<longleftrightarrow> int a - int b - c < 0" by (auto simp: c_def)
  then show "d_carry (bcd_sub (bcd_encode a) (bcd_encode b) x) \<longleftrightarrow> a < b + of_bool x"
    unfolding r(2) word_less_def [of ?diff] corr unfolding borrow diff TL(5) using ds by auto
qed


subsection \<open>Properties\<close>

text \<open>
  On coded decimal operands \<open>abcd\<close> adds and \<open>sbcd\<close> subtracts in decimal: the byte is the code of the
  sum or difference modulo 100 and the carry tells whether it left the range of two digits.
\<close>

theorem bcd_decimal:
  assumes "a < 100" "b < 100"
  shows "d_value (bcd_add (bcd_encode a) (bcd_encode b) x) = bcd_encode ((a + b + of_bool x) mod 100)
    \<and> (d_carry (bcd_add (bcd_encode a) (bcd_encode b) x) \<longleftrightarrow> 100 \<le> a + b + of_bool x)
    \<and> d_value (bcd_sub (bcd_encode a) (bcd_encode b) x) = bcd_encode (nat ((int a - int b - of_bool x) mod 100))
    \<and> (d_carry (bcd_sub (bcd_encode a) (bcd_encode b) x) \<longleftrightarrow> a < b + of_bool x)"
  using bcd_add_decimal [OF assms] bcd_sub_decimal [OF assms] by blast

theorem bcd_decimal_witness: "d_value (bcd_add 0x99 0x45 True) = 0x45 \<and> d_carry (bcd_sub 0x10 0x25 False)"
  using bcd_decimal [of 99 45 True] bcd_decimal [of 10 25 False] by (simp add: bcd_encode_def)

text \<open>
  \<open>nbcd\<close>: from the binary \<open>0 - d - X\<close> that the p-code computes, \<open>nbcd_adjust\<close> recovers the operand and
  returns the code of its ten's complement, with a borrow unless the operand and X are zero.
\<close>

theorem nbcd_decimal:
  assumes "a < 100"
  shows "nbcd_adjust (ucast (0 - bcd_encode a - of_bool8 x)) x
    = (ucast (bcd_encode (nat ((- int a - of_bool x) mod 100))),
       (0 < a + of_bool x,
        d_overflow (bcd_sub 0 (bcd_encode a) x),
        bcd_encode (nat ((- int a - of_bool x) mod 100)) AND 0x80 \<noteq> 0,
        bcd_encode (nat ((- int a - of_bool x) mod 100)) \<noteq> 0))"
proof -
  have z: "bcd_encode 0 = 0" by (simp add: bcd_encode_def)
  have d: "- (ucast (ucast (0 - bcd_encode a - of_bool8 x) :: u64) :: u8) - of_bool8 x = bcd_encode a"
    by (simp add: ucast_down_ucast_id is_down)
  show ?thesis
    using bcd_sub_decimal [of 0 a x] assms unfolding nbcd_adjust_def Let_def d by (simp add: z)
qed

theorem nbcd_decimal_witness: "fst (nbcd_adjust (ucast (0 - bcd_encode 37 - of_bool8 False)) False) = 0x63"
  using nbcd_decimal [of 37 False] by (simp add: bcd_encode_def)

subsection \<open>Shifts as arithmetic\<close>

lemma width_mask: "bits < 64 \<Longrightarrow> shl64 1 bits - 1 = (mask bits :: u64)"
  by (simp add: shl64_def mask_eq_exp_minus_1 push_bit_of_1)

text \<open>A \<open>bits\<close>-wide value read as a signed number.\<close>

definition signed_at :: "nat \<Rightarrow> int \<Rightarrow> int" where
  "signed_at bits v = (if v < 2 ^ (bits - 1) then v else v - 2 ^ bits)"

lemma top_bits:
  fixes v :: int
  assumes n: "n < bits" and v: "0 \<le> v" "v < 2 ^ bits"
  shows "v div 2 ^ (bits - n - 1) = 0 \<or> v div 2 ^ (bits - n - 1) = 2 ^ (n + 1) - 1
    \<longleftrightarrow> - (2 ^ (bits - 1)) \<le> signed_at bits v * 2 ^ n \<and> signed_at bits v * 2 ^ n < 2 ^ (bits - 1)"
proof -
  define q N where "q = (2 :: int) ^ (bits - n - 1)" and "N = (2 :: int) ^ n"
  have pos: "0 < q" "0 < N" "1 \<le> N" by (auto simp: q_def N_def)
  have half: "(2 :: int) ^ (bits - 1) = q * N" using n by (simp add: q_def N_def flip: power_add)
  have full: "(2 :: int) ^ bits = 2 * (q * N)" using n by (cases bits) (simp_all flip: half)
  have le: "q \<le> q * N" using pos by (simp add: mult_le_cancel_left1)
  have z: "v div q = 0 \<longleftrightarrow> v < q" using v pos by (metis div_pos_pos_trivial le_div_iff [of q 1 v] linorder_not_le mult_1 zle_iff_zadd not_one_le_zero)
  have o: "v div q = 2 * N - 1 \<longleftrightarrow> 2 * (q * N) - q \<le> v"
  proof -
    have "\<not> 2 * N \<le> v div q" using v full le_div_iff [of q "2 * N" v] pos by (simp add: algebra_simps)
    then have "v div q = 2 * N - 1 \<longleftrightarrow> 2 * N - 1 \<le> v div q" by auto
    also have "\<dots> \<longleftrightarrow> (2 * N - 1) * q \<le> v" using pos by (simp only: le_div_iff)
    finally show ?thesis by (simp add: algebra_simps)
  qed
  have m: "x * N < q * N \<longleftrightarrow> x < q" "- (q * N) \<le> x * N \<longleftrightarrow> - q \<le> x" for x
    using pos mult_le_cancel_right [of "- q" N x] by (auto simp: mult_less_cancel_right)
  have "(v < q \<or> 2 * (q * N) - q \<le> v) \<longleftrightarrow> - (q * N) \<le> signed_at bits v * N \<and> signed_at bits v * N < q * N"
    unfolding m signed_at_def half full using v(1) v(2) [unfolded full] le pos by (cases "v < q * N") auto
  then show ?thesis
    unfolding half using z o by (simp only: q_def N_def power_Suc power_add mult.commute power_one_right)
qed


lemma shift_left_value:
  assumes "0 < n" "n < 64" "0 < bits" "bits \<le> 32" "uint v < 2 ^ bits"
  shows "uint (s_value (shift_left kind bits v n)) = uint v * 2 ^ n mod 2 ^ bits"
proof (cases "n < bits")
  case True
  then show ?thesis using assms by (simp add: shift_left_def width_mask uint_shl64_mask Let_def)
next
  case False
  then have "(2 :: int) ^ bits dvd 2 ^ n" by (intro le_imp_power_dvd) simp
  then have "uint v * 2 ^ n mod 2 ^ bits = 0" by simp
  then show ?thesis using False by (simp add: shift_left_def Let_def)
qed

lemma shift_left_overflow:
  assumes n: "0 < n" "n < 64" and b: "0 < bits" "bits \<le> 32" and v: "uint v < 2 ^ bits"
  shows "s_overflow (shift_left Arithmetic bits v n) \<longleftrightarrow>
    \<not> (- (2 ^ (bits - 1)) \<le> signed_at bits (uint v) * 2 ^ n \<and> signed_at bits (uint v) * 2 ^ n < 2 ^ (bits - 1))"
proof (cases "n < bits")
  case True
  have e: "uint (shr64 v (bits - n - 1)) = uint v div 2 ^ (bits - n - 1)" using b by (intro uint_shr64) auto
  have f: "uint (shl64 1 (n + 1) - 1 :: u64) = 2 ^ (n + 1) - 1"
    using True b by (simp add: width_mask uint_max del: One_nat_def)
  have "s_overflow (shift_left Arithmetic bits v n) \<longleftrightarrow>
      \<not> (uint v div 2 ^ (bits - n - 1) = 0 \<or> uint v div 2 ^ (bits - n - 1) = 2 ^ (n + 1) - 1)"
    using True unfolding shift_left_def Let_def shifted.simps word_uint_eq_iff [where 'a = 64] e f by simp
  then show ?thesis using top_bits [OF True unsigned_greater_eq v] by (simp only: not_not de_Morgan_conj de_Morgan_disj)
next
  case False
  let ?s = "signed_at bits (uint v)"
  have "(2 :: int) ^ (bits - 1) < 2 ^ n" using False b by (intro power_strict_increasing) auto
  then have big: "- (2 ^ (bits - 1)) \<le> ?s * 2 ^ n \<and> ?s * 2 ^ n < 2 ^ (bits - 1) \<longleftrightarrow> ?s = 0" (is "?f \<longleftrightarrow> _")
  proof -
    assume lt: "(2 :: int) ^ (bits - 1) < 2 ^ n"
    have "\<not> ?f" if "1 \<le> ?s" using mult_right_mono [OF that, of "2 ^ n"] lt by linarith
    moreover have "\<not> ?f" if "?s \<le> - 1" using mult_right_mono [OF that, of "2 ^ n"] lt by linarith
    moreover have "?f" if "?s = 0" using that by simp
    ultimately show ?thesis by linarith
  qed
  have "?s = 0 \<longleftrightarrow> v = 0" using v b by (auto simp: signed_at_def word_uint_eq_iff)
  then show ?thesis using False big by (simp add: shift_left_def Let_def)
qed

lemma shift_right_value:
  assumes "0 < n" "n < 64" "0 < bits" "bits \<le> 32" "uint v < 2 ^ bits"
  shows "uint (s_value (shift_right bits v n)) = uint v div 2 ^ n"
proof (cases "n < bits")
  case True
  then show ?thesis using assms by (simp add: shift_right_def uint_shr64 Let_def)
next
  case False
  then have "(2 :: int) ^ bits \<le> 2 ^ n" by (intro power_increasing) auto
  then have "uint v div 2 ^ n = 0" using assms(5) by (intro div_pos_pos_trivial) (simp, linarith)
  then show ?thesis using False by (simp add: shift_right_def Let_def)
qed


lemma sint_sar64: "n < 64 \<Longrightarrow> sint (sar64 w n) = sint w div 2 ^ n"
  by (simp add: sar64_def sint_signed_drop_bit_eq drop_bit_eq_div)

lemma uint_mod64: "uint (x :: u64) mod 2 ^ 64 = uint x"
  by (rule mod_pos_pos_trivial) (use unsigned_less [of x] in simp_all)

lemma sint_cases: "sint w = (if uint w < 2 ^ 63 then uint w else uint w - 2 ^ 64)" for w :: u64
proof -
  have "uint w < 2 ^ Suc 63" using unsigned_less [of w] by simp
  from signed_of_small [OF _ this] show ?thesis by (simp add: sint_uint)
qed

lemma sint_mod: "bits \<le> 64 \<Longrightarrow> uint w mod 2 ^ bits = sint w mod 2 ^ bits" for w :: u64
proof -
  assume "bits \<le> 64"
  then have "(2 :: int) ^ bits dvd 2 ^ 64" by (rule le_imp_power_dvd)
  then have "(uint w - 2 ^ 64) mod 2 ^ bits = uint w mod 2 ^ bits" by (metis mod_diff_right_eq dvd_imp_mod_0 diff_zero)
  then show ?thesis unfolding sint_cases by simp
qed

lemma signed_widen:
  assumes "0 < bits" "bits \<le> 32" "uint v < 2 ^ bits"
  shows "sint (sar64 (shl64 v (64 - bits)) (64 - bits)) = signed_at bits (uint v)"
proof -
  define p where "p = (2 :: int) ^ (64 - bits)"
  have p: "0 < p" "p * 2 ^ bits = 2 ^ 64" "p * 2 ^ (bits - 1) = 2 ^ 63"
    using assms by (simp_all add: p_def flip: power_add)
  have u: "uint (shl64 v (64 - bits)) = uint v * p"
  proof -
    have "uint (shl64 v (64 - bits) AND mask 64) = uint v * p mod 2 ^ 64"
      using assms by (simp add: uint_shl64_mask p_def)
    moreover have "uint v * p < 2 ^ 64" using assms p by (metis mult.commute mult_strict_left_mono)
    moreover have "x AND mask 64 = x" for x :: u64 by (simp only: word_uint_eq_iff uint_and_mask) (rule uint_mod64)
    ultimately show ?thesis using p by simp
  qed
  have "sint (shl64 v (64 - bits)) = (if uint v < 2 ^ (bits - 1) then uint v * p else uint v * p - 2 ^ 64)"
  proof -
    have "uint v * p < 2 ^ 63 \<longleftrightarrow> uint v < 2 ^ (bits - 1)"
      unfolding p(3) [symmetric] using p(1) by (simp add: mult.commute mult_less_cancel_left_pos)
    then show ?thesis using u sint_cases [of "shl64 v (64 - bits)"] by (simp only:)
  qed
  then have "sint (shl64 v (64 - bits)) = signed_at bits (uint v) * p"
    using p by (simp add: signed_at_def algebra_simps)
  then show ?thesis using assms p by (simp add: sint_sar64 p_def)
qed


lemma shift_aright_value:
  assumes n: "0 < n" "n < 64" and b: "0 < bits" "bits \<le> 32" and v: "uint v < 2 ^ bits"
  shows "uint (s_value (shift_aright bits v n)) = (signed_at bits (uint v) div 2 ^ n) mod 2 ^ bits"
proof -
  let ?s = "signed_at bits (uint v)" and ?m = "min n bits"
  have r: "- (2 ^ (bits - 1)) \<le> ?s" "?s < 2 ^ (bits - 1)"
  proof -
    obtain X h where X: "uint v = X" "0 \<le> X" and h: "(2 :: int) ^ (bits - 1) = h" "0 < h" by simp
    have "(2 :: int) ^ bits = 2 * h" using b h by (cases bits) auto
    then show "- (2 ^ (bits - 1)) \<le> ?s" "?s < 2 ^ (bits - 1)"
      using v X(2) h(2) unfolding signed_at_def X(1) h(1) by (auto split: if_split)
  qed
  have sat: "?s div 2 ^ ?m = ?s div 2 ^ n"
  proof (cases "n \<le> bits")
    case False
    have out: "?s div 2 ^ k = (if ?s < 0 then - 1 else 0)" if "bits \<le> k" for k
    proof -
      have "(2 :: int) ^ (bits - 1) \<le> 2 ^ k" using that by (intro power_increasing) auto
      then have lo: "0 \<le> ?s + 2 ^ k" and hi: "?s < 2 ^ k" using r by linarith+
      show ?thesis
        using int_div_pos_eq [of ?s "2 ^ k" "- 1" "?s + 2 ^ k"] lo hi div_pos_pos_trivial [of ?s "2 ^ k"]
        by (cases "?s < 0") simp_all
    qed
    show ?thesis using False out [of bits] out [of n] by simp
  qed simp
  have "uint (s_value (shift_aright bits v n)) = sint (sar64 (sar64 (shl64 v (64 - bits)) (64 - bits)) ?m) mod 2 ^ bits"
    using b by (simp add: shift_aright_def Let_def width_mask uint_and_mask sint_mod)
  also have "\<dots> = (?s div 2 ^ ?m) mod 2 ^ bits" 
    using b by (simp add: sint_sar64 [of ?m] signed_widen [OF b v])
  finally show ?thesis unfolding sat .
qed


subsection \<open>Rotations\<close>

lemma bit_rotate:
  assumes "0 < k" "k < w" "w \<le> 33" "\<And>j. bit v j \<Longrightarrow> j < w" "i < w"
  shows "bit (rotate_bits True w v k) i = bit v (if k \<le> i then i - k else i + w - k)"
    "bit (rotate_bits False w v k) i = bit v (if i + k < w then i + k else i + k - w)"
proof -
  have m: "bit (mask w :: u64) i" using assms by (simp add: bit_mask_iff)
  have l: "bit (shl64 v n) i \<longleftrightarrow> n \<le> i \<and> bit v (i - n)" if "n < w" for n
    using that assms by (auto simp: shl64_def bit_push_bit_iff)
  have r: "bit (shr64 v n) i = bit v (i + n)" if "n < w" for n
    using that assms by (simp add: shr64_def bit_drop_bit_eq add.commute)
  have nb: "\<not> bit v j" if "w \<le> j" for j using that assms(4) [of j] by auto
  have ev: "bit (rotate_bits True w v k) i \<longleftrightarrow> k \<le> i \<and> bit v (i - k) \<or> bit v (i + (w - k))"
    "bit (rotate_bits False w v k) i \<longleftrightarrow> bit v (i + k) \<or> w - k \<le> i \<and> bit v (i - (w - k))"
    using assms(1-3) m l [of k] r [of "w - k"] r [of k] l [of "w - k"]
    by (simp_all add: rotate_bits_def width_mask bit_and_iff bit_or_iff Let_def)
  show "bit (rotate_bits True w v k) i = bit v (if k \<le> i then i - k else i + w - k)"
    unfolding ev using nb [of "i + (w - k)"] assms(1,2) by (cases "k \<le> i") auto
  show "bit (rotate_bits False w v k) i = bit v (if i + k < w then i + k else i + k - w)"
  proof (cases "i + k < w")
    case True
    then show ?thesis unfolding ev by auto
  next
    case False
    then have "i - (w - k) = i + k - w" "w - k \<le> i" using assms(1,2) by auto
    then show ?thesis unfolding ev using nb [of "i + k"] False by auto
  qed
qed

lemma rotate_width: "0 < k \<Longrightarrow> w \<le> 33 \<Longrightarrow> bit (rotate_bits left w v k) j \<Longrightarrow> j < w"
  by (auto simp: rotate_bits_def width_mask bit_and_iff bit_mask_iff Let_def split: if_splits)

lemma rotate_back:
  assumes k: "k < w" and w: "w \<le> 33" and v: "\<And>j. bit v j \<Longrightarrow> j < w"
  shows "rotate_bits (\<not> left) w (rotate_bits left w v k) k = v"
proof (cases "k = 0")
  case False
  then have k0: "0 < k" by simp
  have rw: "\<And>j. bit (rotate_bits left w v k) j \<Longrightarrow> j < w" using rotate_width [OF k0 w] .
  show ?thesis
  proof (rule bit_eqI)
    fix i
    show "bit (rotate_bits (\<not> left) w (rotate_bits left w v k) k) i = bit v i"
    proof (cases "i < w")
      case True
      let ?f = "\<lambda>i. if k \<le> i then i - k else i + w - k" and ?b = "\<lambda>i. if i + k < w then i + k else i + k - w"
      have f: "?f i < w" "?b i < w" "?f (?b i) = i" "?b (?f i) = i" using k True by auto
      show ?thesis
        using bit_rotate [OF k0 k w rw True] bit_rotate(1) [OF k0 k w v f(2)] bit_rotate(2) [OF k0 k w v f(1)]
        unfolding f(3,4) by (cases left) simp_all
    next
      case out: False
      then show ?thesis using v [of i] rotate_width [OF k0 w, of "\<not> left"] by blast
    qed
  qed
qed (simp add: rotate_bits_def)

lemma masked_width: "bit (v AND mask w :: u64) j \<Longrightarrow> j < w"
  by (simp add: bit_and_iff bit_mask_iff)

lemma join_top:
  assumes "bits \<le> 32" "\<And>j. bit r j \<Longrightarrow> j < bits + 1"
  shows "shl64 (of_bool64 (shr64 r bits \<noteq> 0)) bits OR (r AND mask bits) = r"
proof -
  have top: "shr64 r bits \<noteq> 0 \<longleftrightarrow> bit r bits"
  proof
    assume "shr64 r bits \<noteq> 0"
    then obtain j where "bit (shr64 r bits) j" by (metis bit_eqI bit_0_eq bot_apply bot_bool_def)
    then have "bit r (bits + j)" using assms(1) by (simp add: shr64_def bit_drop_bit_eq)
    then show "bit r bits" using assms(2) [of "bits + j"] by (cases j) auto
  next
    assume "bit r bits"
    then have "bit (shr64 r bits) 0" using assms(1) by (simp add: shr64_def bit_drop_bit_eq)
    then show "shr64 r bits \<noteq> 0" by (metis bit_0_eq bot_apply bot_bool_def)
  qed
  show ?thesis
  proof (rule bit_eqI)
    fix i assume i: "possible_bit TYPE(64 word) i"
    consider "i < bits" | "i = bits" | "bits < i" by linarith
    then show "bit (shl64 (of_bool64 (shr64 r bits \<noteq> 0)) bits OR (r AND mask bits)) i = bit r i"
      using assms i unfolding top
      by cases (auto simp: bit_or_iff bit_and_iff bit_mask_iff shl64_def bit_push_bit_iff of_bool64_def bit_1_iff dest!: assms(2))
  qed
qed

lemma split_top:
  assumes "bits \<le> 32" "\<And>j. bit v j \<Longrightarrow> j < bits"
  shows "(shl64 (of_bool64 x) bits OR v) AND mask bits = v" "shr64 (shl64 (of_bool64 x) bits OR v) bits \<noteq> 0 \<longleftrightarrow> x"
    "bit (shl64 (of_bool64 x) bits OR v) j \<Longrightarrow> j < bits + 1"
proof -
  have nb: "\<not> bit v j" if "bits \<le> j" for j using that assms(2) [of j] by auto
  have tb: "bit (shl64 (of_bool64 x) bits) j \<longleftrightarrow> j = bits \<and> x" for j
    using assms(1) by (auto simp: shl64_def bit_push_bit_iff of_bool64_def bit_1_iff)
  have ob: "bit (of_bool64 x) j \<longleftrightarrow> j = 0 \<and> x" for j by (auto simp: of_bool64_def bit_1_iff)
  show "(shl64 (of_bool64 x) bits OR v) AND mask bits = v"
    by (rule bit_eqI) (use assms(2) in \<open>auto simp: bit_or_iff bit_and_iff bit_mask_iff tb\<close>)
  have "shr64 (shl64 (of_bool64 x) bits OR v) bits = of_bool64 x"
    by (rule bit_eqI) (use assms(1) nb in \<open>auto simp: shr64_def bit_drop_bit_eq bit_or_iff tb ob\<close>)
  then show "shr64 (shl64 (of_bool64 x) bits OR v) bits \<noteq> 0 \<longleftrightarrow> x" by (simp add: of_bool64_def)
  show "bit (shl64 (of_bool64 x) bits OR v) j \<Longrightarrow> j < bits + 1"
    using assms(2) [of j] by (auto simp: bit_or_iff tb)
qed

subsection \<open>Properties of the shifts\<close>

text \<open>
  The 68000 shifts are arithmetic on the operand's width: a left shift multiplies modulo the width,
  a logical right shift divides, an arithmetic right shift divides the signed value rounding down, for
  every count up to 63; and \<open>asl\<close> sets V exactly when the signed product does not fit the width.
\<close>

theorem shift_arithmetic:
  assumes "n < 64" "bits \<in> {8, 16, 32}" and v_def: "v = uint value mod 2 ^ bits"
  shows "uint (s_value (shift Logical True bits value n x)) = v * 2 ^ n mod 2 ^ bits
    \<and> uint (s_value (shift Arithmetic True bits value n x)) = v * 2 ^ n mod 2 ^ bits
    \<and> uint (s_value (shift Logical False bits value n x)) = v div 2 ^ n
    \<and> uint (s_value (shift Arithmetic False bits value n x)) = (signed_at bits v div 2 ^ n) mod 2 ^ bits
    \<and> (s_overflow (shift Arithmetic True bits value n x) \<longleftrightarrow>
         \<not> (- (2 ^ (bits - 1)) \<le> signed_at bits v * 2 ^ n \<and> signed_at bits v * 2 ^ n < 2 ^ (bits - 1)))"
proof -
  let ?w = "value AND (shl64 1 bits - 1)"
  have b: "0 < bits" "bits \<le> 32" "bits < 64" using assms(2) by auto
  have w: "uint ?w = v" using b by (simp add: width_mask uint_and_mask v_def)
  have vb: "0 \<le> v" "v < 2 ^ bits" by (simp_all add: v_def)
  show ?thesis
  proof (cases "n = 0")
    case True
    have p: "(2 :: int) ^ bits = 2 * 2 ^ (bits - 1)" using b by (cases bits) auto
    have s: "- (2 ^ (bits - 1)) \<le> signed_at bits v" "signed_at bits v < 2 ^ (bits - 1)"
      "signed_at bits v mod 2 ^ bits = v"
      using vb p by (auto simp: signed_at_def mod_pos_pos_trivial)
    show ?thesis using True w vb s by (simp add: shift_def Let_def)
  next
    case False
    then have n: "0 < n" by simp
    have wb: "uint ?w < 2 ^ bits" using w vb by simp
    note f = n assms(1) b(1,2) wb
    show ?thesis
      using False shift_left_value [OF f, of Logical] shift_left_value [OF f, of Arithmetic] shift_right_value [OF f]
        shift_aright_value [OF f] shift_left_overflow [OF f]
      unfolding w by (simp add: shift_def)
  qed
qed

theorem shift_arithmetic_witness:
  "uint (s_value (shift Arithmetic False 8 0xf0 2 False)) = (signed_at 8 0xf0 div 2 ^ 2) mod 2 ^ 8"
  using shift_arithmetic [of 2 8 "0xf0" "0xf0" False] by simp

text \<open>
  Rotating left and then right by the same count (any count, also past the width) restores the
  operand, for \<open>rol\<close>/\<open>ror\<close> and, through X, for \<open>roxl\<close>/\<open>roxr\<close>.
\<close>

theorem rotate_restores:
  assumes "bits \<in> {8, 16, 32}" "0 < n"
  shows "s_value (shift Rotate (\<not> left) bits (s_value (shift Rotate left bits value n x)) n y) = value AND mask bits
    \<and> (let s = shift RotateExtended left bits value n x
       in shift RotateExtended (\<not> left) bits (s_value s) n (s_carry s)
            = \<lparr>s_value = value AND mask bits, s_x = Some x, s_overflow = False, s_carry = x\<rparr>)"
proof -
  let ?v = "value AND mask bits"
  have b: "0 < bits" "bits \<le> 32" "shl64 1 bits - 1 = (mask bits :: u64)" using assms(1) by (auto simp: width_mask)
  have mm: "r AND mask bits = r" if "\<And>j. bit r j \<Longrightarrow> j < bits" for r :: u64
    by (rule bit_eqI) (use that in \<open>auto simp: bit_and_iff bit_mask_iff\<close>)
  have rw: "bit (rotate_bits left w v k) j \<Longrightarrow> j < w" if "\<And>j. bit v j \<Longrightarrow> j < w" "w \<le> 33" for w v k j
    using that rotate_width [of k w left v j] by (cases "k = 0") (auto simp: rotate_bits_def)
  have mw: "bit ?v j \<Longrightarrow> j < bits" for j by (rule masked_width)
  have fit: "rotate_bits left bits ?v (n mod bits) AND mask bits = rotate_bits left bits ?v (n mod bits)"
    by (rule mm) (rule rw [OF mw], use b in auto)
  have rot: "s_value (shift Rotate (\<not> left) bits (s_value (shift Rotate left bits value n x)) n y) = ?v"
    using assms(2) b fit rotate_back [where k = "n mod bits" and w = bits and v = ?v and left = left] mw
    by (simp add: shift_def Let_def)
  let ?w = "shl64 (of_bool64 x) bits OR ?v" and ?k = "n mod (bits + 1)"
  let ?r = "rotate_bits left (bits + 1) ?w ?k"
  note sp = split_top [OF b(2) mw]
  have w33: "bits + 1 \<le> 33" and k: "?k < bits + 1" using b by simp_all
  have wide: "\<And>j. bit ?r j \<Longrightarrow> j < bits + 1" using sp(3) w33 by (rule rw)
  have bk: "rotate_bits (\<not> left) (bits + 1) ?r ?k = ?w" using k w33 sp(3) by (rule rotate_back)
  have "shift RotateExtended left bits value n x
      = \<lparr>s_value = ?r AND mask bits, s_x = Some (shr64 ?r bits \<noteq> 0), s_overflow = False, s_carry = (shr64 ?r bits \<noteq> 0)\<rparr>"
    using assms(2) by (simp add: shift_def Let_def b(3))
  moreover have "shift RotateExtended (\<not> left) bits (?r AND mask bits) n (shr64 ?r bits \<noteq> 0)
      = \<lparr>s_value = ?v, s_x = Some x, s_overflow = False, s_carry = x\<rparr>"
    using assms(2) join_top [OF b(2) wide] bk sp(1,2) by (simp add: shift_def Let_def b(3) and.assoc)
  ultimately show ?thesis using rot by simp
qed

theorem rotate_restores_witness:
  "s_value (shift Rotate False 8 (s_value (shift Rotate True 8 0x181 12 True)) 12 False) = 0x81"
proof -
  have "(0x181 :: u64) AND mask 8 = 0x81" by (simp add: mask_eq_exp_minus_1)
  then show ?thesis using rotate_restores [of 8 12 True "0x181" True False] by simp
qed

end
