(* ===== verification/Emu_Machine.thy ===== *)
theory Emu_Machine
  imports Pcode_Eval M68k_Rules "HOL-Library.AList" "HOL-Library.Product_Lexorder" "HOL-Library.List_Lexorder"
begin

text \<open>
  The machine state of \<^verbatim>\<open>sleigh/emu.rs\<close>: one byte map per address space, the deterministic fill of
  never-written memory, the recorded effects and their sites, and reading and writing values in the
  byte order of a space.  Maps of the source are association lists updated with \<open>AList.update\<close>.
\<close>

subsection \<open>Flow, user operations, effects\<close>

datatype flow = FNext | FRel u64 | FJump u64 | FStop | FFault

datatype user_op = ULock | UIn | UOut | USwi | UBcdAdjust | UUnknown

definition swi_vector :: u64 where
  "swi_vector = 0xffffff00"

datatype effect =
    EStore string u64 nat u64
  | ECall u64 "u64 list"
  | EFault
  | EPort bool u64 nat u64
  | ESwi u64 "u64 list"
  | EStub u64

datatype flag_source = FromBit | IsZero | IsNegative

record flag_return =
  fr_flag :: "u64 \<times> nat"
  fr_reg :: "u64 \<times> nat"
  fr_from :: flag_source

record reg_return =
  rr_src :: "u64 \<times> nat"
  rr_dst :: "u64 \<times> nat"

subsection \<open>The fill\<close>

definition mix :: "u64 \<Rightarrow> u64 \<Rightarrow> u64 \<Rightarrow> u64" where
  "mix seed a b =
     (let x = seed XOR (a * 0x9e3779b97f4a7c15) XOR (b * 0x100000001b3);
          x = x XOR shr64 x 33;
          x = x * 0xff51afd7ed558ccd
      in x XOR shr64 x 29)"

definition fill_dword :: "u64 \<Rightarrow> string \<Rightarrow> u64 \<Rightarrow> u64 list \<Rightarrow> u64" where
  "fill_dword seed space block pool =
     (let h = mix seed block (of_nat (length space))
      in if pool \<noteq> [] \<and> h mod 4 \<noteq> 0 then pool ! (unat (shr64 h 8) mod length pool) else h)"

definition fill_byte_pool :: "u64 \<Rightarrow> string \<Rightarrow> u64 \<Rightarrow> u64 list \<Rightarrow> u8" where
  "fill_byte_pool seed space offset pool =
     (let block = offset AND NOT 3;
          w = fill_dword seed space block pool
      in ucast (shr64 w (unat (8 * (offset - block))) AND 0xff))"

definition fill_byte :: "u64 \<Rightarrow> string \<Rightarrow> u64 \<Rightarrow> u8" where
  "fill_byte seed space offset = ucast (mix seed offset (of_nat (length space)) AND 0xff)"

definition call_flag_bit :: "u64 \<Rightarrow> u64 \<Rightarrow> u64 \<Rightarrow> u64 \<Rightarrow> u64" where
  "call_flag_bit seed target calls off =
     ucast (fill_byte (seed XOR target XOR shl64 calls 8 XOR off) ''flag'' off AND 1)"

definition call_clobber_fill :: "u64 \<Rightarrow> u64 \<Rightarrow> u64 \<Rightarrow> u64 \<Rightarrow> u64" where
  "call_clobber_fill seed target calls off =
     (let v = ucast (fill_byte (seed XOR target XOR shl64 calls 8 XOR off) ''call'' off)
      in v OR shl64 v 8 OR shl64 v 16 OR shl64 v 24)"

subsection \<open>The state\<close>

record backing =
  bk_space :: string
  bk_blocks :: "(u64 \<times> u8 list) list"

definition backing_byte :: "backing \<Rightarrow> string \<Rightarrow> u64 \<Rightarrow> u8 option" where
  "backing_byte bk space at =
     (if space \<noteq> bk_space bk then None
      else case partition_point (\<lambda>(start, _). start \<le> at) (bk_blocks bk) of
             0 \<Rightarrow> None
           | Suc i \<Rightarrow>
               (let (start, bytes) = bk_blocks bk ! i; k = unat (at - start)
                in if k < length bytes then Some (bytes ! k) else None))"

type_synonym site = "u64 \<times> nat"
type_synonym bank = "(u64 \<times> u8) list"

record machine =
  mem :: "(string \<times> bank) list"
  fill :: "u64 option"
  pool :: "u64 list"
  unmodeled :: nat
  unmodeled_ops :: "string list"
  userops :: "u64 \<rightharpoonup> string"
  swi_args :: "(u64 \<times> nat) list"
  effects :: "effect list"
  effect_sites :: "site list"
  at_site :: site
  uninitialized :: "((u64 \<times> nat) \<times> site) list"
  port_answers :: "(u64 \<times> (u64 list \<times> nat)) list"
  unanswered :: "(u64 \<times> site) list"
  trace :: bool
  quiet :: "(u64 \<times> u64) option"
  flag_return_ordinals :: "(u64 \<times> flag_return) list"
  reg_return_ordinals :: "(u64 \<times> reg_return) list"
  last_quotient :: "(varnode \<times> u64 \<times> bool) option"
  backing_image :: "backing option"
  big_endian :: "string set"
  address_mask :: "(string \<times> u64) option"
  modifier :: "m68k option"
  adjusting :: "(insn \<times> before) option"

definition machine_default :: machine where
  "machine_default = \<lparr>mem = [], fill = None, pool = [], unmodeled = 0, unmodeled_ops = [],
     userops = Map.empty, swi_args = [], effects = [], effect_sites = [], at_site = (0, 0),
     uninitialized = [], port_answers = [], unanswered = [], trace = False, quiet = None,
     flag_return_ordinals = [], reg_return_ordinals = [], last_quotient = None,
     backing_image = None, big_endian = {}, address_mask = None, modifier = None, adjusting = None\<rparr>"

text \<open>\<^verbatim>\<open>entry(k).or_insert(v)\<close>.\<close>

definition or_insert :: "'k \<Rightarrow> 'v \<Rightarrow> ('k \<times> 'v) list \<Rightarrow> ('k \<times> 'v) list" where
  "or_insert k v m = (case map_of m k of None \<Rightarrow> m @ [(k, v)] | Some _ \<Rightarrow> m)"

definition bank_of :: "machine \<Rightarrow> string \<Rightarrow> bank" where
  "bank_of m space = (case map_of (mem m) space of None \<Rightarrow> [] | Some b \<Rightarrow> b)"

subsection \<open>Reading and writing\<close>

definition bus :: "machine \<Rightarrow> string \<Rightarrow> u64 \<Rightarrow> u64" where
  "bus m space addr =
     (case address_mask m of
        Some (masked, am) \<Rightarrow> if masked = space then addr AND am else addr
      | None \<Rightarrow> addr)"

definition byte_at :: "machine \<Rightarrow> string \<Rightarrow> u64 \<Rightarrow> nat \<Rightarrow> nat \<Rightarrow> u64" where
  "byte_at m space offset sz i =
     bus m space (if space \<in> big_endian m then offset + of_nat (sz - 1 - i) else offset + of_nat i)"

definition unwritten :: "machine \<Rightarrow> string \<Rightarrow> u64 \<Rightarrow> u8" where
  "unwritten m space at =
     (case (case backing_image m of None \<Rightarrow> None | Some img \<Rightarrow> backing_byte img space at) of
        Some b \<Rightarrow> b
      | None \<Rightarrow>
          (case fill m of
             Some seed \<Rightarrow>
               if space \<noteq> ''register'' \<and> space \<noteq> ''unique'' then fill_byte_pool seed space at (pool m)
               else 0
           | None \<Rightarrow> 0))"

definition read_byte :: "machine \<Rightarrow> string \<Rightarrow> u64 \<Rightarrow> u8" where
  "read_byte m space at =
     (case map_of (bank_of m space) at of Some b \<Rightarrow> b | None \<Rightarrow> unwritten m space at)"

definition or_bytes :: "(nat \<Rightarrow> u8) \<Rightarrow> nat \<Rightarrow> u64" where
  "or_bytes f n = fold (\<lambda>i v. v OR shl64 (ucast (f i)) (8 * i)) [0..<n] 0"

definition read :: "machine \<Rightarrow> string \<Rightarrow> u64 \<Rightarrow> nat \<Rightarrow> u64" where
  "read m space offset sz =
     (if space = ''const'' then emu_mask offset sz
      else or_bytes (\<lambda>i. read_byte m space (byte_at m space offset sz i)) (min sz 8))"

definition record_effect :: "effect \<Rightarrow> machine \<Rightarrow> machine" where
  "record_effect e m = m\<lparr>effects := effects m @ [e], effect_sites := effect_sites m @ [at_site m]\<rparr>"

definition in_scratch :: "machine \<Rightarrow> u64 \<Rightarrow> bool" where
  "in_scratch m offset = (case quiet m of None \<Rightarrow> False | Some (lo, hi) \<Rightarrow> lo \<le> offset \<and> offset < hi)"

definition traced_space :: "machine \<Rightarrow> string \<Rightarrow> bool" where
  "traced_space m space \<longleftrightarrow> trace m \<and> space \<noteq> ''register'' \<and> space \<noteq> ''unique''"

definition insert_bytes :: "string \<Rightarrow> (u64 \<times> u8) list \<Rightarrow> machine \<Rightarrow> machine" where
  "insert_bytes space kvs m =
     m\<lparr>mem := AList.update space (fold (\<lambda>(a, b). AList.update a b) kvs (bank_of m space)) (mem m)\<rparr>"

definition write_val :: "string \<Rightarrow> u64 \<Rightarrow> nat \<Rightarrow> u64 \<Rightarrow> machine \<Rightarrow> machine" where
  "write_val space offset0 sz value m =
     (if space = ''const'' then m
      else
        let offset = bus m space offset0;
            m1 = (if traced_space m space \<and> \<not> in_scratch m offset
                  then record_effect (EStore space offset sz (emu_mask value sz)) m else m);
            ats = map (byte_at m1 space offset sz) [0..<min sz 8];
            bs = map (\<lambda>i. ucast (shr64 value (8 * i) AND 0xff)) [0..<min sz 8]
        in insert_bytes space (zip ats bs) m1)"

definition write_bytes :: "string \<Rightarrow> u64 \<Rightarrow> u8 list \<Rightarrow> machine \<Rightarrow> machine" where
  "write_bytes space offset bytes m =
     (if space = ''const'' then m
      else
        let ats = map (\<lambda>i. bus m space (offset + of_nat i)) [0..<length bytes];
            m1 = (if traced_space m space \<and> \<not> in_scratch m offset
                  then fold (\<lambda>(a, b). record_effect (EStore space a 1 (ucast b))) (zip ats bytes) m
                  else m)
        in insert_bytes space (zip ats bytes) m1)"

text \<open>The spaces holding bytes, sorted by name (byte-wise).\<close>

definition spaces :: "machine \<Rightarrow> string list" where
  "spaces m = sort_key (map (of_char :: char \<Rightarrow> nat)) (map fst (filter (\<lambda>(_, b). b \<noteq> []) (mem m)))"

definition uninitialized_registers :: "machine \<Rightarrow> (u64 \<times> nat \<times> site) list" where
  "uninitialized_registers m =
     sort_key (\<lambda>(off, sz, (_, step)). (step, off, sz)) (map (\<lambda>((off, sz), s). (off, sz, s)) (uninitialized m))"

definition answer_port :: "u64 \<Rightarrow> u64 list \<Rightarrow> machine \<Rightarrow> machine" where
  "answer_port port values m = m\<lparr>port_answers := AList.update port (values, 0) (port_answers m)\<rparr>"

definition unanswered_ports :: "machine \<Rightarrow> (u64 \<times> site) list" where
  "unanswered_ports m = sort_key (\<lambda>(port, (_, step)). (step, port)) (unanswered m)"

definition note_register_read :: "u64 \<Rightarrow> nat \<Rightarrow> machine \<Rightarrow> machine" where
  "note_register_read offset sz m =
     (if list_all (\<lambda>i. map_of (bank_of m ''register'') (offset + of_nat i) \<noteq> None) [0..<sz] then m
      else m\<lparr>uninitialized := or_insert (offset, sz) (at_site m) (uninitialized m)\<rparr>)"

text \<open>
  Reading an operand: the value, and the machine with the read noted (the source notes it through a
  \<^verbatim>\<open>RefCell\<close>).
\<close>

definition read_arg :: "parg \<Rightarrow> machine \<Rightarrow> u64 \<times> machine" where
  "read_arg a m =
     (case a of
        Var v \<Rightarrow>
          (read m (vspace v) (voffset v) (vsize v),
           if vspace v = ''register'' then note_register_read (voffset v) (vsize v) m else m)
      | Space s \<Rightarrow> (0, m))"

definition sread_arg :: "parg \<Rightarrow> machine \<Rightarrow> u64 \<times> machine" where
  "sread_arg a m =
     (case a of
        Var v \<Rightarrow> (let (x, m1) = read_arg a m in (sext x (vsize v), m1))
      | Space s \<Rightarrow> (0, m))"

text \<open>The bytes held in a space as sorted runs of consecutive addresses.\<close>

definition push_run :: "u64 \<times> u8 \<Rightarrow> (u64 \<times> u8 list) list \<Rightarrow> (u64 \<times> u8 list) list" where
  "push_run p runs =
     (case runs of
        [] \<Rightarrow> [(fst p, [snd p])]
      | _ \<Rightarrow> (let (start, bytes) = last runs
              in if start + of_nat (length bytes) = fst p then butlast runs @ [(start, bytes @ [snd p])]
                 else runs @ [(fst p, [snd p])]))"

definition written :: "machine \<Rightarrow> string \<Rightarrow> (u64 \<times> u8 list) list" where
  "written m space = fold push_run (sort_key fst (bank_of m space)) []"

subsection \<open>Bytes of a value\<close>

lemma or_bytes_Suc: "or_bytes f (Suc n) = or_bytes f n OR shl64 (ucast (f n)) (8 * n)"
  by (simp add: or_bytes_def)

lemma bit_or_bytes:
  "n \<le> 8 \<Longrightarrow> bit (or_bytes f n) k \<longleftrightarrow> k < 8 * n \<and> bit (f (k div 8)) (k mod 8)"
proof (induction n)
  case 0
  show ?case by (simp add: or_bytes_def)
next
  case (Suc n)
  have b: "bit (ucast (f n) :: u64) j \<longleftrightarrow> j < 8 \<and> bit (f n) j" for j
    using bit_imp_le_length [of "f n" j] by (auto simp: bit_unsigned_iff)
  have s: "bit (shl64 (ucast (f n)) (8 * n)) k \<longleftrightarrow> 8 * n \<le> k \<and> k < 8 * n + 8 \<and> bit (f n) (k - 8 * n)"
    using Suc.prems by (auto simp: shl64_def bit_push_bit_iff b)
  have d: "k div 8 = n \<and> k mod 8 = k - 8 * n" if "8 * n \<le> k" "k < 8 * n + 8"
  proof -
    have "k = 8 * n + (k - 8 * n)" "k - 8 * n < 8" using that by auto
    then show ?thesis by (metis div_mult_self4 mod_mult_self4 add.commute div_less mod_less add_0 mult.commute add_cancel_left_left numeral_neq_zero)
  qed
  show ?case
    using Suc d unfolding or_bytes_Suc bit_or_iff s by (cases "k < 8 * n") (auto simp: not_less)
qed

lemma bit_byte: "i < 8 \<Longrightarrow> j < 8 \<Longrightarrow> bit (ucast (shr64 v (8 * i) AND 0xff) :: u8) j \<longleftrightarrow> bit v (8 * i + j)"
proof -
  assume ij: "i < 8" "j < 8"
  then have "bit (0xff :: u64) j"
    using bit_mask_iff [where 'a = "64 word", of 8 j] by (simp add: mask_eq_exp_minus_1)
  then show ?thesis using ij by (simp add: bit_unsigned_iff bit_and_iff shr64_def bit_drop_bit_eq)
qed

lemma bytes_of_value:
  assumes "n \<le> 8" "\<And>i. i < n \<Longrightarrow> f i = ucast (shr64 v (8 * i) AND 0xff)"
  shows "or_bytes f n = v AND mask (8 * n)"
proof (rule bit_eqI)
  fix k
  have "bit (or_bytes f n) k \<longleftrightarrow> k < 8 * n \<and> bit (f (k div 8)) (k mod 8)" by (rule bit_or_bytes [OF assms(1)])
  also have "\<dots> \<longleftrightarrow> k < 8 * n \<and> bit v k"
    using assms(1) assms(2) [of "k div 8"] bit_byte [of "k div 8" "k mod 8" v] by auto
  finally show "bit (or_bytes f n) k = bit (v AND mask (8 * n)) k" using assms(1) by (auto simp: bit_and_iff bit_mask_iff)
qed

lemma or_bytes_cong: "(\<And>i. i < n \<Longrightarrow> f i = g i) \<Longrightarrow> or_bytes f n = or_bytes g n"
  unfolding or_bytes_def by (rule fold_cong) auto

subsection \<open>Banks\<close>

lemma map_of_fold_update:
  "map_of (fold (\<lambda>(a, b). AList.update a b) kvs al) = map_of al ++ map_of (rev kvs)"
  by (induction kvs arbitrary: al) (auto simp: update_conv' map_add_upd_left split: prod.splits)

lemma map_of_distinct_rev: "distinct (map fst xs) \<Longrightarrow> map_of (rev xs) = map_of xs"
  by (rule map_of_eqI) (auto simp: rev_map [symmetric] map_of_eq_Some_iff distinct_rev)

lemma bank_insert [machine_simps]:
  "map_of (bank_of (insert_bytes space kvs m) space') =
     (if space' = space then map_of (bank_of m space) ++ map_of (rev kvs) else map_of (bank_of m space'))"
  by (simp add: bank_of_def insert_bytes_def update_conv' map_of_fold_update)

lemma insert_bytes_frame [machine_simps]:
  "fill (insert_bytes s kvs m) = fill m" "pool (insert_bytes s kvs m) = pool m"
  "backing_image (insert_bytes s kvs m) = backing_image m" "big_endian (insert_bytes s kvs m) = big_endian m"
  "address_mask (insert_bytes s kvs m) = address_mask m" "trace (insert_bytes s kvs m) = trace m"
  "effects (insert_bytes s kvs m) = effects m" "effect_sites (insert_bytes s kvs m) = effect_sites m"
  by (simp_all add: insert_bytes_def)

lemma record_frame [machine_simps]:
  "mem (record_effect e m) = mem m" "fill (record_effect e m) = fill m" "pool (record_effect e m) = pool m"
  "backing_image (record_effect e m) = backing_image m" "big_endian (record_effect e m) = big_endian m"
  "address_mask (record_effect e m) = address_mask m" "trace (record_effect e m) = trace m"
  by (simp_all add: record_effect_def)

lemma bus_frame: "address_mask m' = address_mask m \<Longrightarrow> bus m' = bus m"
  by (intro ext) (simp add: bus_def)

lemma byte_at_frame:
  "address_mask m' = address_mask m \<Longrightarrow> big_endian m' = big_endian m \<Longrightarrow> byte_at m' = byte_at m"
  by (intro ext) (simp add: byte_at_def bus_frame [of m' m])

lemma unwritten_frame:
  "backing_image m' = backing_image m \<Longrightarrow> fill m' = fill m \<Longrightarrow> pool m' = pool m \<Longrightarrow> unwritten m' = unwritten m"
  unfolding unwritten_def by (intro ext) (simp only:)

lemma write_val_frame [machine_simps]:
  "fill (write_val s off sz v m) = fill m" "pool (write_val s off sz v m) = pool m"
  "backing_image (write_val s off sz v m) = backing_image m" "big_endian (write_val s off sz v m) = big_endian m"
  "address_mask (write_val s off sz v m) = address_mask m" "trace (write_val s off sz v m) = trace m"
  by (simp_all add: write_val_def Let_def machine_simps)

lemma read_byte_write:
  assumes "space \<noteq> ''const''" and ats: "distinct (map (byte_at m space (bus m space off) sz) [0..<min sz 8])"
  shows "i < min sz 8 \<Longrightarrow> read_byte (write_val space off sz v m) space (byte_at m space (bus m space off) sz i)
       = ucast (shr64 v (8 * i) AND 0xff)"
    "space' \<noteq> space \<or> a \<notin> byte_at m space (bus m space off) sz ` {..<min sz 8} \<Longrightarrow>
       read_byte (write_val space off sz v m) space' a = read_byte m space' a"
proof -
  let ?ats = "map (byte_at m space (bus m space off) sz) [0..<min sz 8]"
  let ?bs = "map (\<lambda>i. ucast (shr64 v (8 * i) AND 0xff) :: u8) [0..<min sz 8]"
  let ?m1 = "if traced_space m space \<and> \<not> in_scratch m (bus m space off)
    then record_effect (EStore space (bus m space off) sz (emu_mask v sz)) m else m"
  have bo: "bank_of ?m1 = bank_of m" by (intro ext) (simp add: bank_of_def machine_simps)
  have ba: "byte_at ?m1 = byte_at m" by (intro byte_at_frame) (simp_all add: machine_simps)
  have w: "write_val space off sz v m = insert_bytes space (zip ?ats ?bs) ?m1"
    unfolding write_val_def Let_def using assms(1) by (simp add: ba split del: if_split)
  have bk: "map_of (bank_of (write_val space off sz v m) s) =
      (if s = space then map_of (bank_of m space) ++ map_of (rev (zip ?ats ?bs)) else map_of (bank_of m s))" for s
    unfolding w by (simp add: bank_insert bo)
  have rv: "map_of (rev (zip ?ats ?bs)) = map_of (zip ?ats ?bs)"
    by (rule map_of_distinct_rev) (use ats in simp)
  have un: "unwritten (write_val space off sz v m) = unwritten m" by (rule unwritten_frame) (simp_all add: machine_simps)
  show "i < min sz 8 \<Longrightarrow> read_byte (write_val space off sz v m) space (byte_at m space (bus m space off) sz i)
       = ucast (shr64 v (8 * i) AND 0xff)"
  proof -
    assume i: "i < min sz 8"
    then have "map_of (zip ?ats ?bs) (?ats ! i) = Some (?bs ! i)" using ats by (intro map_of_zip_nth) auto
    then show ?thesis using i by (simp add: read_byte_def bk rv)
  qed
  show "space' \<noteq> space \<or> a \<notin> byte_at m space (bus m space off) sz ` {..<min sz 8} \<Longrightarrow>
       read_byte (write_val space off sz v m) space' a = read_byte m space' a"
  proof -
    assume o: "space' \<noteq> space \<or> a \<notin> byte_at m space (bus m space off) sz ` {..<min sz 8}"
    have "map_of (bank_of (write_val space off sz v m) space') a = map_of (bank_of m space') a"
    proof (cases "space' = space")
      case True
      then have "a \<notin> set ?ats" using o by (auto simp: lessThan_atLeast0)
      then have "map_of (zip ?ats ?bs) a = None" by (subst map_of_zip_is_None) simp_all
      then show ?thesis unfolding bk rv True by (simp only: map_add_def simp_thms if_True option.case)
    qed (simp add: bk)
    then show ?thesis unfolding read_byte_def un by (simp only:)
  qed
qed


subsection \<open>Values\<close>

text \<open>
  The address lines of a masked space are its low lines, at least three of them, so that the bytes of
  one value stay apart.
\<close>

definition bus_ok :: "machine \<Rightarrow> bool" where
  "bus_ok m = (case address_mask m of
     None \<Rightarrow> True | Some (s, am) \<Rightarrow> \<exists>k. 3 \<le> k \<and> k \<le> 64 \<and> am = mask k)"

lemma bus_cases:
  assumes "bus_ok m"
  obtains k where "3 \<le> k" "k \<le> 64" "\<And>a. bus m space a = a AND mask k"
proof (cases "\<exists>am. address_mask m = Some (space, am)")
  case True
  then obtain am where am: "address_mask m = Some (space, am)" by blast
  then obtain k where "3 \<le> k" "k \<le> 64" "am = mask k" using assms by (auto simp: bus_ok_def)
  then show thesis using am that by (auto simp: bus_def)
next
  case False
  have "a AND mask 64 = a" for a :: u64
    by (simp only: word_uint_eq_iff uint_and_mask) (rule mod_pos_pos_trivial, use unsigned_less [of a] in simp_all)
  moreover have "bus m space a = a" for a using False by (auto simp: bus_def split: option.splits prod.splits)
  ultimately show thesis using that [of 64] by simp
qed

lemma mask_add: "k \<le> 64 \<Longrightarrow> ((a AND mask k) + b) AND mask k = (a + b :: u64) AND mask k"
  by (simp only: word_uint_eq_iff uint_masked(1) uint_and_mask [of a] mod_add_left_eq)

lemma byte_at_bus: "bus_ok m \<Longrightarrow> byte_at m space (bus m space off) sz i = byte_at m space off sz i"
  by (erule bus_cases [of m space]) (simp add: byte_at_def mask_add)

lemma byte_at_inj:
  assumes "bus_ok m" "i < n" "j < n" "n \<le> 8" "n \<le> sz" "byte_at m space off sz i = byte_at m space off sz j"
  shows "i = j"
proof -
  obtain k where k: "3 \<le> k" "k \<le> 64" "\<And>a. bus m space a = a AND mask k" using bus_cases [OF assms(1)] by metis
  have near: "a = b" if e: "(off + of_nat a) AND mask k = (off + of_nat b) AND mask k"
      and ab: "a < c + 8" "b < c + 8" "c \<le> a" "c \<le> b" for a b c :: nat
  proof -
    have u: "uint ((off + of_nat a) AND mask k) = (uint off + int a) mod 2 ^ k" for a
    proof -
      have "uint (of_nat a :: u64) mod 2 ^ k = int a mod 2 ^ k"
        using k(2) by (simp add: unsigned_of_nat take_bit_eq_mod zmod_int imod_pow_mod)
      then show ?thesis unfolding uint_masked(1) [OF k(2)] by (metis mod_add_right_eq)
    qed
    have "(2 :: int) ^ k dvd int a - int b" using e u [of a] u [of b]
      by (metis mod_eq_dvd_iff add_diff_cancel_left)
    moreover have "(8 :: int) \<le> 2 ^ k" using power_increasing [OF k(1), of "2 :: int"] by simp
    then have "\<bar>int a - int b\<bar> < 2 ^ k" using ab by linarith
    ultimately have "int a - int b = 0" using dvd_imp_le_int [of "int a - int b" "2 ^ k"] by fastforce
    then show ?thesis by simp
  qed
  show ?thesis
  proof (cases "space \<in> big_endian m")
    case True
    then have "sz - 1 - i = sz - 1 - j"
      using assms(2-6) k(3) by (intro near [where c = "sz - n"]) (auto simp: byte_at_def)
    then show ?thesis using assms(2,3,5) by linarith
  next
    case False
    then show ?thesis using assms(2-6) k(3) by (intro near [where c = 0]) (auto simp: byte_at_def)
  qed
qed

definition value_addrs :: "machine \<Rightarrow> string \<Rightarrow> u64 \<Rightarrow> nat \<Rightarrow> u64 set" where
  "value_addrs m space off sz = byte_at m space off sz ` {..<min sz 8}"

lemma byte_at_distinct:
  "bus_ok m \<Longrightarrow> distinct (map (byte_at m space (bus m space off) sz) [0..<min sz 8])"
proof -
  assume ok: "bus_ok m"
  have "x = y" if "byte_at m space off sz x = byte_at m space off sz y" "x < min sz 8" "y < min sz 8" for x y
    by (rule byte_at_inj [OF ok that(2,3) _ _ that(1)]) auto
  then show ?thesis by (auto simp: distinct_map inj_on_def byte_at_bus [OF ok])
qed

lemma write_val_bus_ok [simp]: "bus_ok (write_val s off sz v m) = bus_ok m"
  by (simp add: bus_ok_def machine_simps)

lemma read_write_same:
  assumes "bus_ok m" "space \<noteq> ''const''" "1 \<le> sz" "sz \<le> 8"
  shows "read (write_val space off sz v m) space off sz = emu_mask v sz"
proof -
  let ?w = "write_val space off sz v m"
  have ba: "byte_at ?w = byte_at m" by (intro byte_at_frame) (simp_all add: machine_simps)
  have "read_byte ?w space (byte_at ?w space off sz i) = ucast (shr64 v (8 * i) AND 0xff)" if "i < sz" for i
    using read_byte_write(1) [OF assms(2) byte_at_distinct [OF assms(1)], of i sz off v] that assms(4)
    unfolding ba byte_at_bus [OF assms(1)] by simp
  then have "or_bytes (\<lambda>i. read_byte ?w space (byte_at ?w space off sz i)) sz = v AND mask (8 * sz)"
    by (intro bytes_of_value [OF assms(4)]) blast
  then show ?thesis using assms by (simp add: read_def emu_mask_eq)
qed

lemma read_write_other:
  assumes "bus_ok m" "space \<noteq> ''const''"
    and "space' \<noteq> space \<or> value_addrs m space' off' sz' \<inter> value_addrs m space off sz = {}"
  shows "read (write_val space off sz v m) space' off' sz' = read m space' off' sz'"
proof -
  let ?w = "write_val space off sz v m"
  have ba: "byte_at ?w = byte_at m" by (intro byte_at_frame) (simp_all add: machine_simps)
  have "read_byte ?w space' (byte_at ?w space' off' sz' i) = read_byte m space' (byte_at m space' off' sz' i)" if "i < min sz' 8" for i
  proof -
    have "byte_at m space' off' sz' i \<in> value_addrs m space' off' sz'" using that by (simp add: value_addrs_def)
    then have "space' \<noteq> space \<or> byte_at m space' off' sz' i \<notin> byte_at m space (bus m space off) sz ` {..<min sz 8}"
      using assms(3) unfolding value_addrs_def [of m space] byte_at_bus [OF assms(1)] by blast
    then show ?thesis unfolding ba by (rule read_byte_write(2) [OF assms(2) byte_at_distinct [OF assms(1)]])
  qed
  then show ?thesis unfolding read_def by (metis or_bytes_cong)
qed

lemma write_const: "write_val ''const'' off sz v m = m"
  by (simp add: write_val_def)

subsection \<open>Registers\<close>

text \<open>
  What the rest of the interpreter relies on in the register file: a write is read back, cut to its
  size, and leaves the registers alone that share no byte with it.
\<close>

locale register_file =
  fixes ok :: "'m \<Rightarrow> bool" and rd :: "'m \<Rightarrow> u64 \<Rightarrow> nat \<Rightarrow> u64" and wr :: "u64 \<Rightarrow> nat \<Rightarrow> u64 \<Rightarrow> 'm \<Rightarrow> 'm"
    and apart :: "'m \<Rightarrow> u64 \<times> nat \<Rightarrow> u64 \<times> nat \<Rightarrow> bool"
  assumes ok_wr: "ok (wr off sz v m) = ok m"
    and rd_same: "\<lbrakk>ok m; 1 \<le> sz; sz \<le> 8\<rbrakk> \<Longrightarrow> rd (wr off sz v m) off sz = emu_mask v sz"
    and rd_apart: "\<lbrakk>ok m; apart m (off', sz') (off, sz)\<rbrakk> \<Longrightarrow> rd (wr off sz v m) off' sz' = rd m off' sz'"
    and apart_wr: "apart (wr off sz v m) = apart m"
begin

text \<open>A sequence of writes, as the interpreter sets flags.\<close>

definition wr_all :: "((u64 \<times> nat) \<times> u64) list \<Rightarrow> 'm \<Rightarrow> 'm" where
  "wr_all ws m = fold (\<lambda>((off, sz), v). wr off sz v) ws m"

lemma wr_all_simps: "wr_all [] m = m" "wr_all (((off, sz), v) # ws) m = wr_all ws (wr off sz v m)"
  by (simp_all add: wr_all_def)

lemma wr_all_ok: "ok (wr_all ws m) = ok m" "apart (wr_all ws m) = apart m"
  by (induction ws arbitrary: m) (auto simp: wr_all_simps ok_wr apart_wr)

lemma rd_all_apart:
  "\<lbrakk>ok m; list_all (\<lambda>(r, _). apart m (off, sz) r) ws\<rbrakk> \<Longrightarrow> rd (wr_all ws m) off sz = rd m off sz"
  by (induction ws arbitrary: m) (auto simp: wr_all_simps ok_wr apart_wr rd_apart)

lemma rd_all_member:
  assumes "ok m" "1 \<le> sz" "sz \<le> 8" "list_all (\<lambda>(r, _). apart m (off, sz) r) ws"
  shows "rd (wr_all (us @ ((off, sz), v) # ws) m) off sz = emu_mask v sz"
proof -
  have "wr_all (us @ ((off, sz), v) # ws) m = wr_all ws (wr off sz v (wr_all us m))"
    by (simp add: wr_all_def)
  then show ?thesis using assms by (simp add: rd_all_apart ok_wr wr_all_ok apart_wr rd_same)
qed

end

definition reg_apart :: "machine \<Rightarrow> u64 \<times> nat \<Rightarrow> u64 \<times> nat \<Rightarrow> bool" where
  "reg_apart m r s \<longleftrightarrow> value_addrs m ''register'' (fst r) (snd r) \<inter> value_addrs m ''register'' (fst s) (snd s) = {}"

interpretation regs: register_file bus_ok "\<lambda>m. read m ''register''" "write_val ''register''" reg_apart
proof
  show "reg_apart (write_val ''register'' off sz v m) = reg_apart m" for off sz v m
  proof -
    have "byte_at (write_val ''register'' off sz v m) = byte_at m" by (intro byte_at_frame) (simp_all add: machine_simps)
    then show ?thesis by (intro ext) (simp add: reg_apart_def value_addrs_def)
  qed
qed (simp_all add: read_write_same read_write_other reg_apart_def)

text \<open>Single bytes are apart when the registers differ.\<close>

lemma reg_apart_bytes:
  assumes "''register'' \<notin> fst ` set_option (address_mask m)"
  shows "reg_apart m (a, 1) (b, 1) \<longleftrightarrow> a \<noteq> b"
proof -
  have "bus m ''register'' x = x" for x using assms by (auto simp: bus_def split: option.splits)
  then show ?thesis by (simp add: reg_apart_def value_addrs_def byte_at_def lessThan_Suc eq_commute [of b])
qed

subsection \<open>The effect record\<close>

text \<open>Every recorded effect has its site.\<close>

definition trace_ok :: "machine \<Rightarrow> bool" where
  "trace_ok m \<longleftrightarrow> length (effect_sites m) = length (effects m)"

lemma record_trace_ok [simp]: "trace_ok (record_effect e m) = trace_ok m"
  by (simp add: trace_ok_def record_effect_def)

lemma insert_trace_ok [simp]: "trace_ok (insert_bytes s kvs m) = trace_ok m"
  by (simp add: trace_ok_def machine_simps)

lemma write_trace_ok [simp]: "trace_ok (write_val s off sz v m) = trace_ok m"
  by (auto simp: write_val_def Let_def)

lemma write_bytes_trace_ok [simp]: "trace_ok (write_bytes s off bs m) = trace_ok m"
proof -
  have "trace_ok (fold (\<lambda>(a, b). record_effect (f a b)) kvs m) = trace_ok m" for f :: "u64 \<Rightarrow> u8 \<Rightarrow> effect" and kvs
    by (induction kvs arbitrary: m) (simp_all add: case_prod_beta)
  then show ?thesis by (simp add: write_bytes_def Let_def)
qed


subsection \<open>Properties of the machine state\<close>

text \<open>
  (C35) A value written to a location reads back cut to its size, in either byte order and through
  narrowed address lines, and every value that shares no byte with it (or lives in another space) is
  unchanged.
\<close>

theorem read_after_write:
  assumes "bus_ok m" "space \<noteq> ''const''" "1 \<le> sz" "sz \<le> 8"
    and "space' \<noteq> space \<or> value_addrs m space' off' sz' \<inter> value_addrs m space off sz = {}"
  shows "read (write_val space off sz v m) space off sz = emu_mask v sz
    \<and> read (write_val space off sz v m) space' off' sz' = read m space' off' sz'"
  using read_write_same [OF assms(1-4)] read_write_other [OF assms(1,2,5)] by blast

definition demo_machine :: machine where
  "demo_machine = machine_default\<lparr>big_endian := {''ram''}, address_mask := Some (''ram'', 0xffffff), trace := True\<rparr>"

theorem read_after_write_witness:
  "read (write_val ''ram'' 0xffc000 4 0x11223344 demo_machine) ''ram'' 0xffc000 4 = 0x11223344"
proof -
  have "bus_ok demo_machine"
    by (auto simp: bus_ok_def demo_machine_def mask_eq_exp_minus_1 intro!: exI [of _ 24])
  then show ?thesis
    using read_after_write [of demo_machine "''ram''" 4 "''register''" 0 4 "0xffc000" "0x11223344"]
    by (simp add: emu_mask_def shl64_def)
qed

text \<open>
  Recording is complete and sited: a store to a traced space outside the scratch window appends
  exactly one effect with the decoded address, the size and the value cut to it, at the current site;
  any other store appends nothing; effects and sites stay in step.
\<close>

theorem store_is_recorded:
  assumes "trace_ok m" "space \<noteq> ''const''"
  shows "trace_ok (write_val space off sz v m)
    \<and> effects (write_val space off sz v m) =
        effects m @ (if traced_space m space \<and> \<not> in_scratch m (bus m space off)
                     then [EStore space (bus m space off) sz (emu_mask v sz)] else [])
    \<and> effect_sites (write_val space off sz v m) =
        effect_sites m @ (if traced_space m space \<and> \<not> in_scratch m (bus m space off) then [at_site m] else [])"
  using assms by (simp add: write_val_def Let_def machine_simps) (simp add: record_effect_def)

theorem store_is_recorded_witness:
  "effects (write_val ''ram'' 0xff000010 1 0x1ff demo_machine) = [EStore ''ram'' 0x10 1 0xff]"
  using store_is_recorded [of demo_machine "''ram''" "0xff000010" 1 "0x1ff"]
  by (simp add: trace_ok_def demo_machine_def machine_default_def traced_space_def in_scratch_def bus_def emu_mask_def shl64_def)

subsection \<open>Runs of written bytes\<close>

definition run_bytes :: "u64 \<times> u8 list \<Rightarrow> (u64 \<times> u8) list" where
  "run_bytes r = zip (map (\<lambda>i. fst r + of_nat i) [0..<length (snd r)]) (snd r)"

fun separated :: "(u64 \<times> u8 list) list \<Rightarrow> bool" where
  "separated (r # s # rs) \<longleftrightarrow> fst r + of_nat (length (snd r)) \<noteq> fst s \<and> separated (s # rs)"
| "separated rs \<longleftrightarrow> True"

lemma separated_snoc:
  "separated (rs @ [r]) \<longleftrightarrow> separated rs \<and> (rs \<noteq> [] \<longrightarrow> fst (last rs) + of_nat (length (snd (last rs))) \<noteq> fst r)"
  by (induction rs rule: separated.induct) auto

lemma run_bytes_snoc:
  "run_bytes (s, bs @ [b]) = run_bytes (s, bs) @ [(s + of_nat (length bs), b)]"
  by (simp add: run_bytes_def)

lemma push_run_snoc:
  "push_run p (rs @ [(s, bs)]) =
     (if s + of_nat (length bs) = fst p then rs @ [(s, bs @ [snd p])] else rs @ [(s, bs), (fst p, [snd p])])"
  by (cases rs) (simp_all add: push_run_def)

lemma push_run_bytes:
  "concat (map run_bytes (push_run p runs)) = concat (map run_bytes runs) @ [p]"
proof (cases runs rule: rev_cases)
  case Nil
  then show ?thesis by (simp add: push_run_def run_bytes_def)
next
  case (snoc rs r)
  then show ?thesis by (cases r; cases p) (simp add: push_run_snoc run_bytes_snoc, simp add: run_bytes_def)
qed

lemma push_run_shape:
  assumes "list_all (\<lambda>r. snd r \<noteq> []) runs" "separated runs"
  shows "list_all (\<lambda>r. snd r \<noteq> []) (push_run p runs) \<and> separated (push_run p runs)"
proof (cases runs rule: rev_cases)
  case Nil
  then show ?thesis by (simp add: push_run_def)
next
  case (snoc rs r)
  obtain s bs where r: "r = (s, bs)" by (cases r)
  have "separated (rs @ [(s, bs @ [b])])" for b
    using assms(2) unfolding snoc r separated_snoc by simp
  moreover have "separated ((rs @ [(s, bs)]) @ [(fst p, [snd p])])" if "s + of_nat (length bs) \<noteq> fst p"
    using that assms(2) unfolding snoc r by (subst separated_snoc) simp
  ultimately show ?thesis
    using assms(1) by (simp add: snoc r push_run_snoc)
qed

text \<open>
  \<open>written\<close> lists exactly the bytes of a space in address order: read byte by byte, its runs are the
  sorted contents; no run is empty and no two neighbouring runs touch.
\<close>

theorem written_runs:
  "concat (map run_bytes (written m space)) = sort_key fst (bank_of m space)
    \<and> list_all (\<lambda>r. snd r \<noteq> []) (written m space) \<and> separated (written m space)"
proof -
  have "concat (map run_bytes (fold push_run xs runs)) = concat (map run_bytes runs) @ xs" for xs runs
    by (induction xs arbitrary: runs) (simp_all add: push_run_bytes)
  moreover have "list_all (\<lambda>r. snd r \<noteq> []) runs \<Longrightarrow> separated runs \<Longrightarrow>
      list_all (\<lambda>r. snd r \<noteq> []) (fold push_run xs runs) \<and> separated (fold push_run xs runs)" for xs runs
    by (induction xs arbitrary: runs) (use push_run_shape in auto)
  ultimately show ?thesis by (simp add: written_def)
qed


end
