(* ===== verification/Emu_M68k.thy ===== *)
theory Emu_M68k
  imports Emu_Machine
begin

text \<open>
  The stateful part of \<^verbatim>\<open>sleigh/emu_m68k.rs\<close>: what the 68000's state modifier does to a machine, in
  place of an instruction's p-code (\<open>execute\<close>) or around it (\<open>state_before\<close>, \<open>adjust_after\<close>).
\<close>

subsection \<open>The language description the interpreter uses\<close>

text \<open>
  What \<^verbatim>\<open>emu.rs\<close> reads of a \<^verbatim>\<open>Spec\<close>: its spaces in order (name, big-endian), the default space, the user
  operations, the registers by name, the state modifier's class, and how one instruction resolves.  The
  constructor walk of the SLEIGH engine is the field \<open>sp_resolve\<close>: from the bytes at an address and a context it
  gives the instruction's length, whether its template has a delay slot, the context it leaves, and, once the
  fall-through address is known, its mnemonic and operations.
\<close>

record instruction =
  i_address :: u64
  i_bytes :: "u8 list"
  i_mnemonic :: string
  i_ops :: "pcode_op list"

record resolved =
  r_length :: nat
  r_delay_slot :: bool
  r_context :: "u32 list"
  r_mnemonic :: "u64 \<Rightarrow> string"
  r_ops :: "u64 \<Rightarrow> pcode_op list"

record spec =
  sp_spaces :: "(string \<times> bool) list"
  sp_default_space :: nat
  sp_userops :: "u64 \<rightharpoonup> string"
  sp_register_offset :: "string \<rightharpoonup> u64"
  sp_emulate_modifier :: "string option"
  sp_resolve :: "u8 list \<Rightarrow> u64 \<Rightarrow> u32 list \<Rightarrow> resolved option"

definition ends_with :: "string \<Rightarrow> string \<Rightarrow> bool" where
  "ends_with s suf \<longleftrightarrow> length suf \<le> length s \<and> drop (length s - length suf) s = suf"

definition digit_char :: "nat \<Rightarrow> char" where
  "digit_char i = char_of (48 + i)"

fun those_list :: "'a option list \<Rightarrow> 'a list option" where
  "those_list [] = Some []"
| "those_list (x # xs) =
     (case x of None \<Rightarrow> None | Some a \<Rightarrow> (case those_list xs of None \<Rightarrow> None | Some as \<Rightarrow> Some (a # as)))"

definition for_spec :: "spec \<Rightarrow> m68k option" where
  "for_spec spec =
     (case sp_emulate_modifier spec of
        None \<Rightarrow> None
      | Some cls \<Rightarrow>
          if \<not> ends_with cls ''.m68kEmulateInstructionStateModifier'' then None
          else
            let reg = sp_register_offset spec in
            (case (those_list (map (\<lambda>i. reg (CHR ''D'' # [digit_char i])) [0..<8]),
                   those_list (map (\<lambda>i. reg (if i = 7 then ''SP'' else CHR ''A'' # [digit_char i])) [0..<8]),
                   reg ''XF'', reg ''NF'', reg ''ZF'', reg ''VF'', reg ''CF'') of
               (Some d, Some a, Some x, Some n, Some z, Some v, Some c) \<Rightarrow>
                 Some \<lparr>m_d = d, m_a = a, m_x = x, m_n = n, m_z = z, m_v = v, m_c = c,
                       m_ram = fst (sp_spaces spec ! sp_default_space spec)\<rparr>
             | _ \<Rightarrow> None))"

subsection \<open>Executing and adjusting\<close>

abbreviation rd_reg :: "machine \<Rightarrow> u64 \<Rightarrow> nat \<Rightarrow> u64" where
  "rd_reg m off sz \<equiv> read m ''register'' off sz"

abbreviation wr_reg :: "u64 \<Rightarrow> nat \<Rightarrow> u64 \<Rightarrow> machine \<Rightarrow> machine" where
  "wr_reg off sz v m \<equiv> write_val ''register'' off sz v m"

definition x_flag :: "m68k \<Rightarrow> machine \<Rightarrow> bool" where
  "x_flag self m \<longleftrightarrow> rd_reg m (m_x self) 1 AND 1 \<noteq> 0"

definition set_bcd_flags :: "m68k \<Rightarrow> bcd_flags \<Rightarrow> u64 \<Rightarrow> machine \<Rightarrow> machine" where
  "set_bcd_flags self fl z m =
     (let (carry, overflow, negative, nonzero) = fl;
          m = wr_reg (m_x self) 1 (of_bool64 carry) m;
          m = wr_reg (m_c self) 1 (of_bool64 carry) m;
          m = wr_reg (m_v self) 1 (of_bool64 overflow) m;
          m = wr_reg (m_n self) 1 (of_bool64 negative) m
      in wr_reg (m_z self) 1 (if nonzero then 0 else z) m)"

definition execute_shift ::
  "m68k \<Rightarrow> shift_kind \<Rightarrow> bool \<Rightarrow> nat \<Rightarrow> nat \<Rightarrow> bool \<Rightarrow> nat \<Rightarrow> machine \<Rightarrow> machine" where
  "execute_shift self kind left bits count by_register dy m =
     (let n = (if by_register then unat (rd_reg m (m_d self ! count) 4 AND 63)
               else if count = 0 then 8 else count);
          old = rd_reg m (m_d self ! dy) 4;
          x = (rd_reg m (m_x self) 1 AND 1 \<noteq> 0);
          r = shift kind left bits old n x;
          keep = (if bits = 32 then 0 else 0xffffffff AND NOT (shl64 1 bits - 1));
          m = wr_reg (m_d self ! dy) 4 ((old AND keep) OR s_value r) m;
          m = (case s_x r of None \<Rightarrow> m | Some x \<Rightarrow> wr_reg (m_x self) 1 (of_bool64 x) m);
          m = wr_reg (m_n self) 1 (shr64 (s_value r) (bits - 1) AND 1) m;
          m = wr_reg (m_z self) 1 (of_bool64 (s_value r = 0)) m;
          m = wr_reg (m_v self) 1 (of_bool64 (s_overflow r)) m
      in wr_reg (m_c self) 1 (of_bool64 (s_carry r)) m)"

definition predecrement :: "m68k \<Rightarrow> nat \<Rightarrow> machine \<Rightarrow> u64 \<times> machine" where
  "predecrement self r m =
     (let addr = (rd_reg m (m_a self ! r) 4 - (if r = 7 then 2 else 1)) AND 0xffffffff
      in (addr, wr_reg (m_a self ! r) 4 addr m))"

definition execute_bcd :: "m68k \<Rightarrow> bool \<Rightarrow> nat \<Rightarrow> nat \<Rightarrow> bool \<Rightarrow> machine \<Rightarrow> machine" where
  "execute_bcd self add rx ry memory m =
     (let x = (rd_reg m (m_x self) 1 AND 1 \<noteq> 0);
          (src, dst, at, m) =
            (if memory
             then let (ay, m1) = predecrement self ry m;
                      src = ucast (read m1 (m_ram self) ay 1);
                      (ax, m2) = predecrement self rx m1
                  in (src, ucast (read m2 (m_ram self) ax 1), Some ax, m2)
             else (ucast (rd_reg m (m_d self ! ry) 4), ucast (rd_reg m (m_d self ! rx) 4), None, m));
          r = (if add then bcd_add dst src x else bcd_sub dst src x);
          m = (case at of
                 Some ax \<Rightarrow> write_val (m_ram self) ax 1 (ucast (d_value r)) m
               | None \<Rightarrow>
                   (let dx = rd_reg m (m_d self ! rx) 4
                    in wr_reg (m_d self ! rx) 4 ((dx AND NOT 0xff) OR ucast (d_value r)) m));
          z = rd_reg m (m_z self) 1
      in set_bcd_flags self (d_carry r, d_overflow r, d_value r AND 0x80 \<noteq> 0, d_value r \<noteq> 0) z m)"

text \<open>\<open>None\<close>: the modifier does not replace this instruction.\<close>

definition execute :: "m68k \<Rightarrow> insn \<Rightarrow> machine \<Rightarrow> machine option" where
  "execute self i m =
     (case i of
        Shift kind left bits count by_register dy \<Rightarrow>
          Some (execute_shift self kind left bits count by_register dy m)
      | Bcd add rx ry memory \<Rightarrow> Some (execute_bcd self add rx ry memory m)
      | _ \<Rightarrow> None)"

definition state_before :: "m68k \<Rightarrow> insn \<Rightarrow> machine \<Rightarrow> before" where
  "state_before self i m =
     \<lparr>b_dividend = (case i of DivW _ dn \<Rightarrow> rd_reg m (m_d self ! dn) 4 | _ \<Rightarrow> 0),
      b_z = rd_reg m (m_z self) 1, b_nbcd_flags = None, b_quotient = None\<rparr>"

definition quotient_fits :: "bool \<Rightarrow> u64 \<Rightarrow> bool" where
  "quotient_fits is_signed q = (if is_signed then - 0x8000 \<le> sint q \<and> sint q \<le> 0x7fff else q \<le> 0xffff)"

definition adjust_after :: "m68k \<Rightarrow> insn \<Rightarrow> before \<Rightarrow> machine \<Rightarrow> machine" where
  "adjust_after self i b m =
     (case i of
        Nbcd \<Rightarrow>
          (case b_nbcd_flags b of None \<Rightarrow> m | Some fl \<Rightarrow> set_bcd_flags self fl (b_z b) m)
      | DivW is_signed dn \<Rightarrow>
          (case b_quotient b of
             None \<Rightarrow> m
           | Some q \<Rightarrow>
               (let m = wr_reg (m_c self) 1 0 m
                in if quotient_fits is_signed q
                   then let m = wr_reg (m_n self) 1 (shr64 q 15 AND 1) m;
                            m = wr_reg (m_z self) 1 (of_bool64 (q AND 0xffff = 0)) m
                        in wr_reg (m_v self) 1 0 m
                   else let m = wr_reg (m_d self ! dn) 4 (b_dividend b) m;
                            m = wr_reg (m_n self) 1 1 m;
                            m = wr_reg (m_z self) 1 0 m
                        in wr_reg (m_v self) 1 1 m))
      | ShiftMemory kind left \<Rightarrow>
          if \<not> (kind = Arithmetic \<and> left) then wr_reg (m_v self) 1 0 m else m
      | _ \<Rightarrow> m)"

subsection \<open>The register file of the modifier\<close>

definition m68k_file :: "m68k \<Rightarrow> (u64 \<times> nat) list" where
  "m68k_file self = [(m_x self, 1), (m_c self, 1), (m_v self, 1), (m_n self, 1), (m_z self, 1)] @ map (\<lambda>d. (d, 4)) (m_d self)"

definition m68k_ok :: "m68k \<Rightarrow> machine \<Rightarrow> bool" where
  "m68k_ok self m \<longleftrightarrow> bus_ok m \<and> length (m_d self) = 8 \<and> sorted_wrt (reg_apart m) (m68k_file self)"

lemma reg_apart_sym: "reg_apart m r s \<Longrightarrow> reg_apart m s r"
  by (simp add: reg_apart_def Int_commute)

lemma m68k_ok_wr [simp]: "m68k_ok self (wr_reg off sz v m) = m68k_ok self m"
  by (simp add: m68k_ok_def regs.apart_wr)

lemma m68k_apart:
  assumes "m68k_ok self m"
  shows "reg_apart m (m_x self, 1) (m_c self, 1)" "reg_apart m (m_x self, 1) (m_v self, 1)"
    "reg_apart m (m_x self, 1) (m_n self, 1)" "reg_apart m (m_x self, 1) (m_z self, 1)"
    "reg_apart m (m_c self, 1) (m_v self, 1)" "reg_apart m (m_c self, 1) (m_n self, 1)"
    "reg_apart m (m_c self, 1) (m_z self, 1)" "reg_apart m (m_v self, 1) (m_n self, 1)"
    "reg_apart m (m_v self, 1) (m_z self, 1)" "reg_apart m (m_n self, 1) (m_z self, 1)"
    "r \<in> {(m_x self, 1), (m_c self, 1), (m_v self, 1), (m_n self, 1), (m_z self, 1)} \<Longrightarrow> i < 8 \<Longrightarrow> reg_apart m r (m_d self ! i, 4)"
    "i < 8 \<Longrightarrow> j < 8 \<Longrightarrow> i \<noteq> j \<Longrightarrow> reg_apart m (m_d self ! i, 4) (m_d self ! j, 4)"
proof -
  have s: "sorted_wrt (reg_apart m) (m68k_file self)" and l: "length (m_d self) = 8" using assms by (auto simp: m68k_ok_def)
  show "reg_apart m (m_x self, 1) (m_c self, 1)" "reg_apart m (m_x self, 1) (m_v self, 1)"
    "reg_apart m (m_x self, 1) (m_n self, 1)" "reg_apart m (m_x self, 1) (m_z self, 1)"
    "reg_apart m (m_c self, 1) (m_v self, 1)" "reg_apart m (m_c self, 1) (m_n self, 1)"
    "reg_apart m (m_c self, 1) (m_z self, 1)" "reg_apart m (m_v self, 1) (m_n self, 1)"
    "reg_apart m (m_v self, 1) (m_z self, 1)" "reg_apart m (m_n self, 1) (m_z self, 1)"
    using s by (simp_all add: m68k_file_def)
  show "r \<in> {(m_x self, 1), (m_c self, 1), (m_v self, 1), (m_n self, 1), (m_z self, 1)} \<Longrightarrow> i < 8 \<Longrightarrow> reg_apart m r (m_d self ! i, 4)"
    using s l by (auto simp: m68k_file_def)
  show "reg_apart m (m_d self ! i, 4) (m_d self ! j, 4)" if "i < 8" "j < 8" "i \<noteq> j"
  proof -
    have "sorted_wrt (reg_apart m) (map (\<lambda>d. (d, 4)) (m_d self))"
      using s unfolding m68k_file_def sorted_wrt_append by blast
    then have "a < b \<Longrightarrow> b < 8 \<Longrightarrow> reg_apart m (m_d self ! a, 4) (m_d self ! b, 4)" for a b
      using l sorted_wrt_nth_less by fastforce
    then show ?thesis using that reg_apart_sym by (cases "i < j") auto
  qed
qed

lemma set_bcd_flags_all:
  "set_bcd_flags self (c, v, n, nz) z m = regs.wr_all
     [((m_x self, 1), of_bool64 c), ((m_c self, 1), of_bool64 c), ((m_v self, 1), of_bool64 v),
      ((m_n self, 1), of_bool64 n), ((m_z self, 1), if nz then 0 else z)] m"
  by (simp add: set_bcd_flags_def regs.wr_all_simps Let_def)

lemma flag_byte: "emu_mask (of_bool64 b) (Suc 0) = of_bool64 b"
  by (simp add: of_bool64_def emu_mask_def shl64_def)

text \<open>Reading through the writes of a modifier: a step per write, the last write to a register wins.\<close>

lemma m68k_read:
  assumes "m68k_ok self m"
  shows "rd_reg (wr_reg off 1 v m) off 1 = emu_mask v 1" "rd_reg (wr_reg off 4 v m) off 4 = emu_mask v 4"
    "reg_apart m (o', s') (off, sz) \<Longrightarrow> rd_reg (wr_reg off sz v m) o' s' = rd_reg m o' s'"
  using assms regs.rd_same [of m 1 off v] regs.rd_same [of m 4 off v] regs.rd_apart [of m o' s' off sz v]
  by (simp_all add: m68k_ok_def)

lemma set_bcd_flags_reads:
  assumes ok: "m68k_ok self m" and m': "m' = set_bcd_flags self (c, v, n, nz) z m"
  shows "m68k_ok self m'"
    "rd_reg m' (m_x self) 1 = of_bool64 c" "rd_reg m' (m_c self) 1 = of_bool64 c"
    "rd_reg m' (m_v self) 1 = of_bool64 v" "rd_reg m' (m_n self) 1 = of_bool64 n"
    "rd_reg m' (m_z self) 1 = (if nz then 0 else emu_mask z 1)"
    "i < 8 \<Longrightarrow> rd_reg m' (m_d self ! i) 4 = rd_reg m (m_d self ! i) 4"
proof -
  note ap = m68k_apart [OF ok]
  have b: "bus_ok m" using ok by (simp add: m68k_ok_def)
  show "m68k_ok self m'" using ok by (simp add: m' set_bcd_flags_def Let_def)
  have z0: "emu_mask 0 (Suc 0) = 0" by (simp add: emu_mask_def)
  show "rd_reg m' (m_x self) 1 = of_bool64 c"
    unfolding m' set_bcd_flags_all using regs.rd_all_member [OF b, of 1 "m_x self" _ "[]"] ap by (simp add: flag_byte)
  show "rd_reg m' (m_c self) 1 = of_bool64 c"
    unfolding m' set_bcd_flags_all using regs.rd_all_member [OF b, of 1 "m_c self" _ "[_]"] ap by (simp add: flag_byte)
  show "rd_reg m' (m_v self) 1 = of_bool64 v"
    unfolding m' set_bcd_flags_all using regs.rd_all_member [OF b, of 1 "m_v self" _ "[_, _]"] ap by (simp add: flag_byte)
  show "rd_reg m' (m_n self) 1 = of_bool64 n"
    unfolding m' set_bcd_flags_all using regs.rd_all_member [OF b, of 1 "m_n self" _ "[_, _, _]"] ap by (simp add: flag_byte)
  show "rd_reg m' (m_z self) 1 = (if nz then 0 else emu_mask z 1)"
    unfolding m' set_bcd_flags_all using regs.rd_all_member [OF b, of 1 "m_z self" "[]" "[_, _, _, _]"] z0 by simp
  show "rd_reg m' (m_d self ! i) 4 = rd_reg m (m_d self ! i) 4" if "i < 8"
    unfolding m' set_bcd_flags_all
    by (rule regs.rd_all_apart [OF b]) (use ap(11) that reg_apart_sym in auto)
qed


lemma read_bound: "space \<noteq> ''const'' \<Longrightarrow> sz \<le> 8 \<Longrightarrow> read m space off sz AND mask (8 * sz) = read m space off sz"
  by (rule bit_eqI) (auto simp: read_def bit_and_iff bit_mask_iff bit_or_bytes)

subsection \<open>Decimal instructions\<close>

lemma byte_bits: "bit (ucast (w :: u8) :: u64) k \<Longrightarrow> k < 8"
  by (auto simp: bit_unsigned_iff dest: bit_imp_le_length)

lemma set_low_byte:
  assumes "dx AND mask 32 = dx"
  shows "emu_mask ((dx AND NOT 0xff) OR ucast (w :: u8)) 4 = (dx AND NOT 0xff) OR ucast w"
proof -
  have dx: "bit dx k \<Longrightarrow> k < 32" for k
  proof -
    assume "bit dx k"
    then have "bit (dx AND mask 32) k" using assms by metis
    then show ?thesis by (simp add: bit_and_iff bit_mask_iff)
  qed
  have "emu_mask ((dx AND NOT 0xff) OR ucast w) 4 = ((dx AND NOT 0xff) OR ucast w) AND mask 32" by (simp add: emu_mask_eq)
  also have "\<dots> = (dx AND NOT 0xff) OR ucast w"
    by (rule bit_eqI) (auto simp: bit_and_iff bit_or_iff bit_mask_iff dest: dx byte_bits)
  finally show ?thesis .
qed

lemma execute_bcd_register:
  assumes ok: "m68k_ok self m" and i: "rx < 8" "ry < 8"
    and r: "r = (if add then bcd_add else bcd_sub) (ucast (rd_reg m (m_d self ! rx) 4)) (ucast (rd_reg m (m_d self ! ry) 4)) (x_flag self m)"
    and ex: "execute self (Bcd add rx ry False) m = Some m'"
  shows "rd_reg m' (m_d self ! rx) 4 = (rd_reg m (m_d self ! rx) 4 AND NOT 0xff) OR ucast (d_value r)"
    "rd_reg m' (m_x self) 1 = of_bool64 (d_carry r)" "rd_reg m' (m_c self) 1 = of_bool64 (d_carry r)"
    "rd_reg m' (m_z self) 1 = (if d_value r \<noteq> 0 then 0 else rd_reg m (m_z self) 1)"
    "j < 8 \<Longrightarrow> j \<noteq> rx \<Longrightarrow> rd_reg m' (m_d self ! j) 4 = rd_reg m (m_d self ! j) 4"
proof -
  let ?dx = "rd_reg m (m_d self ! rx) 4"
  let ?v = "(?dx AND NOT 0xff) OR ucast (d_value r) :: u64"
  let ?m1 = "wr_reg (m_d self ! rx) 4 ?v m"
  have ok1: "m68k_ok self ?m1" using ok by simp
  have z: "rd_reg (wr_reg (m_d self ! rx) 4 w m) (m_z self) (Suc 0) = rd_reg m (m_z self) (Suc 0)" for w
    using m68k_apart(11) [OF ok, of "(m_z self, 1)" rx] i by (intro m68k_read(3) [OF ok]) simp
  have m': "m' = set_bcd_flags self (d_carry r, d_overflow r, d_value r AND 0x80 \<noteq> 0, d_value r \<noteq> 0) (rd_reg m (m_z self) 1) ?m1"
    using ex unfolding execute_def execute_bcd_def r x_flag_def by (simp add: Let_def z split: if_splits)
  note rd = set_bcd_flags_reads [OF ok1 m']
  have dxm: "?dx AND mask 32 = ?dx" using read_bound [of "''register''" 4 m] by simp
  have zb: "emu_mask (rd_reg m (m_z self) 1) 1 = rd_reg m (m_z self) 1"
    using read_bound [of "''register''" 1 m] by (simp add: emu_mask_eq)
  show "rd_reg m' (m_d self ! rx) 4 = ?v"
    using rd(7) [OF i(1)] m68k_read(2) [OF ok, of "m_d self ! rx" ?v] set_low_byte [OF dxm] by simp
  show "rd_reg m' (m_x self) 1 = of_bool64 (d_carry r)" "rd_reg m' (m_c self) 1 = of_bool64 (d_carry r)"
    using rd by blast+
  show "rd_reg m' (m_z self) 1 = (if d_value r \<noteq> 0 then 0 else rd_reg m (m_z self) 1)" using rd(6) zb by simp
  show "rd_reg m' (m_d self ! j) 4 = rd_reg m (m_d self ! j) 4" if "j < 8" "j \<noteq> rx"
    using rd(7) [OF that(1)] m68k_read(3) [OF ok m68k_apart(12) [OF ok that(1) i(1) that(2)]] by simp
qed


lemma divw_after:
  assumes ok: "m68k_ok self m" and i: "dn < 8" and q: "b_quotient b = Some q"
    and m': "m' = adjust_after self (DivW is_signed dn) b m"
  shows "m68k_ok self m'" "rd_reg m' (m_c self) 1 = 0" "rd_reg m' (m_x self) 1 = rd_reg m (m_x self) 1"
    "rd_reg m' (m_v self) 1 = of_bool64 (\<not> quotient_fits is_signed q)"
    "rd_reg m' (m_d self ! dn) 4 = (if quotient_fits is_signed q then rd_reg m (m_d self ! dn) 4 else emu_mask (b_dividend b) 4)"
proof -
  note ap = m68k_apart [OF ok] m68k_apart [OF ok, THEN reg_apart_sym]
  have b: "bus_ok m" using ok by (simp add: m68k_ok_def)
  let ?flags = "[((m_n self, 1), shr64 q 15 AND 1), ((m_z self, 1), of_bool64 (q AND 0xffff = 0)), ((m_v self, 1), 0)]"
  let ?trap = "[((m_n self, 1), 1), ((m_z self, 1), 0), ((m_v self, 1), 1)]"
  let ?ws = "((m_c self, 1), 0) # (if quotient_fits is_signed q then ?flags else ((m_d self ! dn, 4), b_dividend b) # ?trap)"
  have w: "m' = regs.wr_all ?ws m" unfolding m' adjust_after_def using q by (simp add: regs.wr_all_simps Let_def)
  have nd: "reg_apart m (m_d self ! dn, 4) (r, 1)" "reg_apart m (r, 1) (m_d self ! dn, 4)"
    if "r \<in> {m_x self, m_c self, m_v self, m_n self, m_z self}" for r
    using ap(11) [of "(r, 1)" dn] that i reg_apart_sym by auto
  show "m68k_ok self m'" using ok unfolding m' adjust_after_def by (simp add: q Let_def)
  have z0: "emu_mask 0 (Suc 0) = 0" "emu_mask 1 (Suc 0) = 1" by (simp_all add: emu_mask_def shl64_def)
  show "rd_reg m' (m_c self) 1 = 0"
    unfolding w using regs.rd_all_member [OF b, of 1 "m_c self" _ "[]"] ap nd z0 by simp
  show "rd_reg m' (m_x self) 1 = rd_reg m (m_x self) 1"
    unfolding w by (rule regs.rd_all_apart [OF b]) (use ap nd in simp)
  show "rd_reg m' (m_v self) 1 = of_bool64 (\<not> quotient_fits is_signed q)"
    unfolding w using regs.rd_all_member [OF b, of 1 "m_v self" "[]" "[_, _, _]"] regs.rd_all_member [OF b, of 1 "m_v self" "[]" "[_, _, _, _]"] z0
    by (simp add: of_bool64_def)
  show "rd_reg m' (m_d self ! dn) 4 = (if quotient_fits is_signed q then rd_reg m (m_d self ! dn) 4 else emu_mask (b_dividend b) 4)"
  proof (cases "quotient_fits is_signed q")
    case True
    then show ?thesis unfolding w using nd by (simp add: regs.rd_all_apart [OF b])
  next
    case False
    then show ?thesis unfolding w using nd regs.rd_all_member [OF b, of 4 "m_d self ! dn" _ "[_]"] by simp
  qed
qed

definition demo_m68k :: m68k where
  "demo_m68k = \<lparr>m_d = map (\<lambda>i. 4 * of_nat i) [0..<8], m_a = map (\<lambda>i. 32 + 4 * of_nat i) [0..<8],
     m_x = 100, m_n = 101, m_z = 102, m_v = 103, m_c = 104, m_ram = ''ram''\<rparr>"

definition demo_68000 :: machine where
  "demo_68000 = machine_default\<lparr>big_endian := {''ram'', ''register''}, address_mask := Some (''ram'', 0xffffff)\<rparr>"

lemma demo_68000_ok: "m68k_ok demo_m68k demo_68000"
proof -
  have "bus_ok demo_68000"
    by (auto simp: bus_ok_def demo_68000_def mask_eq_exp_minus_1 intro!: exI [of _ 24])
  moreover have "sorted_wrt (reg_apart demo_68000) (m68k_file demo_m68k)"
    by code_simp
  ultimately show ?thesis by (simp add: m68k_ok_def demo_m68k_def)
qed

text \<open>
  (C37) \<open>abcd Dy,Dx\<close> and \<open>sbcd Dy,Dx\<close> as the modifier executes them on the machine: on two packed decimal
  operands \<open>a\<close> and \<open>b\<close> the low byte of \<open>Dx\<close> becomes the code of the sum (difference) with X modulo 100, the
  rest of \<open>Dx\<close> and every other data register stay, X and C say whether the result left \<open>0..99\<close>, and Z is
  cleared by a non-zero result and otherwise kept.
\<close>

theorem execute_bcd_decimal:
  assumes ok: "m68k_ok self m" and i: "rx < 8" "ry < 8" and ab: "a < 100" "b < 100"
    and dx: "ucast (rd_reg m (m_d self ! rx) 4) = bcd_encode a"
    and dy: "ucast (rd_reg m (m_d self ! ry) 4) = bcd_encode b"
    and tot: "tot = (if add then int a + int b + of_bool (x_flag self m) else int a - int b - of_bool (x_flag self m))"
  shows "\<exists>m'. execute self (Bcd add rx ry False) m = Some m'
    \<and> rd_reg m' (m_d self ! rx) 4 = (rd_reg m (m_d self ! rx) 4 AND NOT 0xff) OR ucast (bcd_encode (nat (tot mod 100)))
    \<and> rd_reg m' (m_x self) 1 = of_bool64 (tot \<notin> {0..99}) \<and> rd_reg m' (m_c self) 1 = of_bool64 (tot \<notin> {0..99})
    \<and> rd_reg m' (m_z self) 1 = (if tot mod 100 \<noteq> 0 then 0 else rd_reg m (m_z self) 1)
    \<and> (\<forall>j. j < 8 \<and> j \<noteq> rx \<longrightarrow> rd_reg m' (m_d self ! j) 4 = rd_reg m (m_d self ! j) 4)"
proof -
  let ?r = "(if add then bcd_add else bcd_sub) (ucast (rd_reg m (m_d self ! rx) 4)) (ucast (rd_reg m (m_d self ! ry) 4)) (x_flag self m)"
  obtain m' where m': "execute self (Bcd add rx ry False) m = Some m'" by (simp add: execute_def)
  note ex = execute_bcd_register [OF ok i refl m']
  have v: "d_value ?r = bcd_encode (nat (tot mod 100))"
  proof (cases add)
    case True
    have "nat (tot mod 100) = (a + b + of_bool (x_flag self m)) mod 100"
      using True tot by (simp add: nat_mod_distrib nat_add_distrib)
    then show ?thesis using bcd_add_decimal(1) [OF ab] True by (simp add: dx dy)
  next
    case False
    then show ?thesis using bcd_sub_decimal(1) [OF ab] tot by (simp add: dx dy)
  qed
  have c: "d_carry ?r \<longleftrightarrow> tot \<notin> {0..99}"
    using bcd_add_decimal(2) [OF ab, of "x_flag self m"] bcd_sub_decimal(2) [OF ab, of "x_flag self m"] ab tot
    by (cases add; cases "x_flag self m") (auto simp: dx dy)
  have z: "bcd_encode (nat (tot mod 100)) = 0 \<longleftrightarrow> tot mod 100 = 0"
  proof -
    have "nat (tot mod 100) < 100" by simp
    from unat_bcd [OF this] have "unat (bcd_encode (nat (tot mod 100))) = 0 \<longleftrightarrow> nat (tot mod 100) = 0"
      by auto
    then show ?thesis using pos_mod_sign [of 100 tot] by (auto simp: unat_eq_0)
  qed
  show ?thesis using m' ex v c z by (intro exI [of _ m']) auto
qed


definition demo_operands :: machine where
  "demo_operands = wr_reg 0 4 0x12345699 (wr_reg 4 4 0x45 demo_68000)"

lemma demo_operands_ok: "m68k_ok demo_m68k demo_operands"
  by (simp add: demo_operands_def demo_68000_ok)

theorem execute_bcd_decimal_witness:
  "\<exists>m'. execute demo_m68k (Bcd True 0 1 False) demo_operands = Some m'
     \<and> rd_reg m' 0 4 = 0x12345644 \<and> rd_reg m' 104 1 = 1"
proof -
  have h: "ucast (rd_reg demo_operands (m_d demo_m68k ! 0) 4) = bcd_encode 99"
    "ucast (rd_reg demo_operands (m_d demo_m68k ! 1) 4) = bcd_encode 45" by code_simp+
  have f: "\<not> x_flag demo_m68k demo_operands" "rd_reg demo_operands (m_d demo_m68k ! 0) 4 = 0x12345699"
    "m_d demo_m68k ! 0 = 0" "m_c demo_m68k = 104" by code_simp+
  have t: "144 = (if True then int 99 + int 45 + of_bool (x_flag demo_m68k demo_operands)
      else int 99 - int 45 - of_bool (x_flag demo_m68k demo_operands))" using f by simp
  have v: "(0x12345699 AND NOT 0xff) OR ucast (bcd_encode (nat (144 mod 100))) = (0x12345644 :: u64)" by code_simp
  obtain m' where "execute demo_m68k (Bcd True 0 1 False) demo_operands = Some m'"
    "rd_reg m' (m_d demo_m68k ! 0) 4 = (rd_reg demo_operands (m_d demo_m68k ! 0) 4 AND NOT 0xff) OR ucast (bcd_encode (nat (144 mod 100)))"
    "rd_reg m' (m_c demo_m68k) 1 = of_bool64 (144 \<notin> {0..99 :: int})"
    using execute_bcd_decimal [OF demo_operands_ok _ _ _ _ h t] by auto
  then show ?thesis unfolding f(2) v unfolding f by (intro exI [of _ m']) (simp add: of_bool64_def)
qed

text \<open>
  (C38) \<open>divu.w\<close> and \<open>divs.w\<close>.  After the p-code has divided (quotient \<open>q\<close>), the modifier clears C, sets V
  exactly when the quotient is outside the sixteen-bit range of the instruction, and then puts back the
  dividend, so that an overflowing division leaves its register as it was; X is never touched.
\<close>

theorem divw_overflow:
  assumes "m68k_ok self m" "dn < 8" "b_quotient b = Some q"
  shows "rd_reg (adjust_after self (DivW is_signed dn) b m) (m_c self) 1 = 0
    \<and> rd_reg (adjust_after self (DivW is_signed dn) b m) (m_x self) 1 = rd_reg m (m_x self) 1
    \<and> rd_reg (adjust_after self (DivW is_signed dn) b m) (m_v self) 1
        = of_bool64 (if is_signed then sint q \<notin> {- (2 ^ 15)..<2 ^ 15} else uint q \<notin> {0..<2 ^ 16})
    \<and> rd_reg (adjust_after self (DivW is_signed dn) b m) (m_d self ! dn) 4
        = (if (if is_signed then sint q \<in> {- (2 ^ 15)..<2 ^ 15} else uint q \<in> {0..<2 ^ 16})
           then rd_reg m (m_d self ! dn) 4 else emu_mask (b_dividend b) 4)"
proof -
  have "quotient_fits is_signed q \<longleftrightarrow> (if is_signed then sint q \<in> {- (2 ^ 15)..<2 ^ 15} else uint q \<in> {0..<2 ^ 16})"
    by (auto simp: quotient_fits_def word_le_def)
  then show ?thesis using divw_after [OF assms refl] by auto
qed

theorem divw_overflow_witness:
  "rd_reg (adjust_after demo_m68k (DivW False 0) \<lparr>b_dividend = 0x20000, b_z = 0, b_nbcd_flags = None, b_quotient = Some 0x10000\<rparr>
     demo_operands) (m_d demo_m68k ! 0) 4 = 0x20000"
proof -
  let ?b = "\<lparr>b_dividend = 0x20000, b_z = 0, b_nbcd_flags = None, b_quotient = Some 0x10000\<rparr>"
  have "b_quotient ?b = Some 0x10000" by simp
  from divw_overflow [OF demo_operands_ok _ this, of 0 False] show ?thesis
    by (simp add: emu_mask_def shl64_def)
qed

end
