(* ===== verification/Emu_Step.thy ===== *)
theory Emu_Step
  imports Emu_M68k "HOL-Library.Signed_Division"
begin

text \<open>
  One operation of the p-code interpreter, \<^verbatim>\<open>Machine::step\<close> of \<^verbatim>\<open>sleigh/emu.rs\<close>, with the user operations
  (\<open>callother\<close>), the float family, the division fault rule and the census of operations it does not model.
  A step is \<open>None\<close> where the source panics.
\<close>

subsection \<open>The float family\<close>

text \<open>
  The host's binary64 arithmetic is a parameter: its values are a type variable and the operations the
  source applies to them are the fields of a record.
\<close>

record 'f fpu =
  fp_of_f32 :: "u32 \<Rightarrow> 'f"
  fp_of_f64 :: "u64 \<Rightarrow> 'f"
  fp_to_f32 :: "'f \<Rightarrow> u32"
  fp_to_f64 :: "'f \<Rightarrow> u64"
  fp_add :: "'f \<Rightarrow> 'f \<Rightarrow> 'f"
  fp_sub :: "'f \<Rightarrow> 'f \<Rightarrow> 'f"
  fp_mult :: "'f \<Rightarrow> 'f \<Rightarrow> 'f"
  fp_div :: "'f \<Rightarrow> 'f \<Rightarrow> 'f"
  fp_neg :: "'f \<Rightarrow> 'f"
  fp_abs :: "'f \<Rightarrow> 'f"
  fp_sqrt :: "'f \<Rightarrow> 'f"
  fp_ceil :: "'f \<Rightarrow> 'f"
  fp_floor :: "'f \<Rightarrow> 'f"
  fp_round :: "'f \<Rightarrow> 'f"
  fp_eq :: "'f \<Rightarrow> 'f \<Rightarrow> bool"
  fp_lt :: "'f \<Rightarrow> 'f \<Rightarrow> bool"
  fp_le :: "'f \<Rightarrow> 'f \<Rightarrow> bool"
  fp_is_nan :: "'f \<Rightarrow> bool"
  fp_of_int :: "int \<Rightarrow> 'f"
  fp_to_int :: "'f \<Rightarrow> int"

definition ieee_size :: "nat \<Rightarrow> nat option" where
  "ieee_size sz = (if sz = 4 \<or> sz = 8 then Some sz else None)"

definition host_float :: "'f fpu \<Rightarrow> u64 \<Rightarrow> nat \<Rightarrow> 'f option" where
  "host_float fp encoding sz =
     (case ieee_size sz of
        None \<Rightarrow> None
      | Some n \<Rightarrow> Some (if n = 4 then fp_of_f32 fp (ucast encoding) else fp_of_f64 fp encoding))"

definition float_encode :: "'f fpu \<Rightarrow> 'f \<Rightarrow> nat \<Rightarrow> u64" where
  "float_encode fp host sz = (if sz = 4 then ucast (fp_to_f32 fp host) else fp_to_f64 fp host)"

text \<open>Both operands of a binary operation, decoded in the format of the first; the second is read only then.\<close>

definition float_pair :: "'f fpu \<Rightarrow> u64 \<Rightarrow> nat \<Rightarrow> parg list \<Rightarrow> machine \<Rightarrow> ('f \<times> 'f) option \<times> machine" where
  "float_pair fp x isz rest m =
     (case host_float fp x isz of
        None \<Rightarrow> (None, m)
      | Some a \<Rightarrow>
          (case rest of
             [] \<Rightarrow> (None, m)
           | arg # _ \<Rightarrow>
               (let (y, m1) = read_arg arg m
                in (map_option (Pair a) (host_float fp y isz), m1))))"

definition float_bin ::
  "'f fpu \<Rightarrow> ('f \<Rightarrow> 'f \<Rightarrow> 'f) \<Rightarrow> u64 \<Rightarrow> nat \<Rightarrow> nat \<Rightarrow> parg list \<Rightarrow> machine \<Rightarrow> u64 option \<times> machine" where
  "float_bin fp f x isz osize rest m =
     (let (p, m1) = float_pair fp x isz rest m
      in (case p of
            None \<Rightarrow> None
          | Some (a, b) \<Rightarrow> if osize = isz then Some (float_encode fp (f a b) isz) else None, m1))"

definition float_cmp ::
  "'f fpu \<Rightarrow> ('f \<Rightarrow> 'f \<Rightarrow> bool) \<Rightarrow> u64 \<Rightarrow> nat \<Rightarrow> parg list \<Rightarrow> machine \<Rightarrow> u64 option \<times> machine" where
  "float_cmp fp f x isz rest m =
     (let (p, m1) = float_pair fp x isz rest m
      in (case p of None \<Rightarrow> None | Some (a, b) \<Rightarrow> Some (of_bool64 (f a b)), m1))"

definition float_un :: "'f fpu \<Rightarrow> ('f \<Rightarrow> 'f) \<Rightarrow> u64 \<Rightarrow> nat \<Rightarrow> nat \<Rightarrow> u64 option" where
  "float_un fp f x isz osize =
     (case host_float fp x isz of
        None \<Rightarrow> None
      | Some a \<Rightarrow> if osize = isz then Some (float_encode fp (f a) isz) else None)"

definition float_trunc :: "'f fpu \<Rightarrow> 'f \<Rightarrow> nat \<Rightarrow> u64" where
  "float_trunc fp v osize =
     (let ival = (if fp_is_nan fp v \<or> fp_lt fp v (fp_of_int fp (- (2 ^ 63))) \<or> fp_le fp (fp_of_int fp (2 ^ 63)) v
                  then - (2 ^ 63) else fp_to_int fp v)
      in emu_mask (word_of_int ival) osize)"

text \<open>\<open>None\<close> in the first component: not modelled at these widths.\<close>

definition float_op :: "'f fpu \<Rightarrow> opcode \<Rightarrow> pcode_op \<Rightarrow> nat \<Rightarrow> machine \<Rightarrow> u64 option \<times> machine" where
  "float_op fp opc op osize m0 =
     (case op_ins op of
        [] \<Rightarrow> (None, m0)
      | arg0 # rest \<Rightarrow>
          (case as_var arg0 of
             None \<Rightarrow> (None, m0)
           | Some v0 \<Rightarrow>
               (let isz = vsize v0; (x, m) = read_arg arg0 m0
                in case opc of
                     FloatAdd \<Rightarrow> float_bin fp (fp_add fp) x isz osize rest m
                   | FloatSub \<Rightarrow> float_bin fp (fp_sub fp) x isz osize rest m
                   | FloatMult \<Rightarrow> float_bin fp (fp_mult fp) x isz osize rest m
                   | FloatDiv \<Rightarrow> float_bin fp (fp_div fp) x isz osize rest m
                   | FloatNeg \<Rightarrow> (float_un fp (fp_neg fp) x isz osize, m)
                   | FloatAbs \<Rightarrow> (float_un fp (fp_abs fp) x isz osize, m)
                   | FloatSqrt \<Rightarrow> (float_un fp (fp_sqrt fp) x isz osize, m)
                   | FloatCeil \<Rightarrow> (float_un fp (fp_ceil fp) x isz osize, m)
                   | FloatFloor \<Rightarrow> (float_un fp (fp_floor fp) x isz osize, m)
                   | FloatRound \<Rightarrow> (float_un fp (fp_round fp) x isz osize, m)
                   | FloatEqual \<Rightarrow> float_cmp fp (fp_eq fp) x isz rest m
                   | FloatNotequal \<Rightarrow> float_cmp fp (\<lambda>a b. \<not> fp_eq fp a b) x isz rest m
                   | FloatLess \<Rightarrow> float_cmp fp (fp_lt fp) x isz rest m
                   | FloatLessequal \<Rightarrow> float_cmp fp (fp_le fp) x isz rest m
                   | FloatNan \<Rightarrow> (map_option (\<lambda>a. of_bool64 (fp_is_nan fp a)) (host_float fp x isz), m)
                   | FloatInt2float \<Rightarrow>
                       (map_option (float_encode fp (fp_of_int fp (sint (sext x isz)))) (ieee_size osize), m)
                   | FloatFloat2float \<Rightarrow>
                       (case host_float fp x isz of
                          None \<Rightarrow> (None, m)
                        | Some a \<Rightarrow> (map_option (float_encode fp a) (ieee_size osize), m))
                   | FloatTrunc \<Rightarrow> (map_option (\<lambda>v. float_trunc fp v osize) (host_float fp x isz), m)
                   | _ \<Rightarrow> (None, m))))"

definition float_family :: "opcode \<Rightarrow> bool" where
  "float_family opc \<longleftrightarrow> opc \<in> {FloatAdd, FloatSub, FloatMult, FloatDiv, FloatNeg, FloatAbs, FloatSqrt, FloatCeil,
     FloatFloor, FloatRound, FloatEqual, FloatNotequal, FloatLess, FloatLessequal, FloatNan, FloatInt2float,
     FloatFloat2float, FloatTrunc}"

subsection \<open>The census of operations not modelled\<close>

fun show_nat :: "nat \<Rightarrow> string" where
  "show_nat n = (if n < 10 then [digit_char n] else show_nat (n div 10) @ [digit_char (n mod 10)])"

declare show_nat.simps [simp del]

text \<open>The size of the first input, or a default when there is none or it is not a varnode.\<close>

definition first_size :: "pcode_op \<Rightarrow> nat \<Rightarrow> nat" where
  "first_size op d =
     (case op_ins op of [] \<Rightarrow> d | arg # _ \<Rightarrow> (case as_var arg of None \<Rightarrow> d | Some v \<Rightarrow> vsize v))"

definition userop_index :: "pcode_op \<Rightarrow> u64" where
  "userop_index op =
     (case op_ins op of [] \<Rightarrow> - 1 | arg # _ \<Rightarrow> (case as_var arg of None \<Rightarrow> - 1 | Some v \<Rightarrow> voffset v))"

definition unmodeled_label :: "string \<Rightarrow> pcode_op \<Rightarrow> machine \<Rightarrow> string" where
  "unmodeled_label name op m =
     (if name \<noteq> ''CALLOTHER'' then
        if take 6 name = ''FLOAT_'' then name @ ''@'' @ show_nat (first_size op 0) else name
      else
        (let idx = userop_index op
         in case userops m idx of
              Some n \<Rightarrow> ''CALLOTHER:'' @ n
            | None \<Rightarrow> ''CALLOTHER:#'' @ show_nat (unat idx)))"

text \<open>\<open>unmodeled_ops\<close> is a set of labels, kept as a list without repetitions.\<close>

definition note_unmodeled :: "string \<Rightarrow> pcode_op \<Rightarrow> machine \<Rightarrow> machine" where
  "note_unmodeled name op m = m\<lparr>unmodeled_ops := List.insert (unmodeled_label name op m) (unmodeled_ops m)\<rparr>"

definition count_unmodeled :: "string \<Rightarrow> pcode_op \<Rightarrow> machine \<Rightarrow> machine" where
  "count_unmodeled name op m = note_unmodeled name op (m\<lparr>unmodeled := unmodeled m + 1\<rparr>)"

subsection \<open>User operations\<close>

definition userop_kind :: "machine \<Rightarrow> pcode_op \<Rightarrow> user_op" where
  "userop_kind m op =
     (case userops m (userop_index op) of
        None \<Rightarrow> UUnknown
      | Some n \<Rightarrow>
          if n = ''LOCK'' \<or> n = ''UNLOCK'' then ULock
          else if n = ''in'' then UIn
          else if n = ''out'' then UOut
          else if n = ''swi'' then USwi
          else if n = ''bcdAdjust'' then UBcdAdjust
          else UUnknown)"

text \<open>Operand \<open>i\<close> of an operation, zero when it has none.\<close>

definition operand :: "pcode_op \<Rightarrow> nat \<Rightarrow> machine \<Rightarrow> u64 \<times> machine" where
  "operand op i m = (if i < length (op_ins op) then read_arg (op_ins op ! i) m else (0, m))"

definition soperand :: "pcode_op \<Rightarrow> nat \<Rightarrow> machine \<Rightarrow> u64 \<times> machine" where
  "soperand op i m = (if i < length (op_ins op) then sread_arg (op_ins op ! i) m else (0, m))"

definition operand_size :: "pcode_op \<Rightarrow> nat \<Rightarrow> nat" where
  "operand_size op i =
     (if i < length (op_ins op) then (case as_var (op_ins op ! i) of None \<Rightarrow> 0 | Some v \<Rightarrow> vsize v) else 0)"

definition record_if_traced :: "effect \<Rightarrow> machine \<Rightarrow> machine" where
  "record_if_traced e m = (if trace m then record_effect e m else m)"

definition read_port :: "u64 \<Rightarrow> nat \<Rightarrow> machine \<Rightarrow> u64 \<times> machine" where
  "read_port port osize m =
     (case map_of (port_answers m) port of
        Some (x # xs, reads) \<Rightarrow>
          (let values = x # xs; v = values ! min reads (length values - 1)
           in (emu_mask v osize, m\<lparr>port_answers := AList.update port (values, reads + 1) (port_answers m)\<rparr>))
      | _ \<Rightarrow>
          (case fill m of None \<Rightarrow> 0 | Some seed \<Rightarrow> emu_mask (mix seed port 0x494e) osize,
           m\<lparr>unanswered := or_insert port (at_site m) (unanswered m)\<rparr>))"

text \<open>The value a user operation computes, or \<open>None\<close> where the operation ends with no output written.\<close>

definition callother_value :: "pcode_op \<Rightarrow> nat \<Rightarrow> machine \<Rightarrow> u64 option \<times> machine" where
  "callother_value op osize m =
     (case userop_kind m op of
        ULock \<Rightarrow> (None, m)
      | UOut \<Rightarrow>
          (let (port, m) = operand op 1 m; (val, m) = operand op 2 m
           in (None, record_if_traced (EPort True port (operand_size op 2) val) m))
      | UIn \<Rightarrow>
          (let (port, m) = operand op 1 m; (v, m) = read_port port osize m
           in (Some v, record_if_traced (EPort False port osize v) m))
      | USwi \<Rightarrow>
          (let (n, m) = operand op 1 m;
               args = map (\<lambda>(off, sz). read m ''register'' off sz) (swi_args m)
           in (Some (swi_vector OR (n AND 0xff)), record_if_traced (ESwi n args) m))
      | UBcdAdjust \<Rightarrow>
          (case (modifier m, adjusting m) of
             (Some m68k, Some (Nbcd, _)) \<Rightarrow>
               (let (tmp, m) = operand op 1 m; (value, flags) = nbcd_adjust tmp (x_flag m68k m)
                in (Some value,
                    m\<lparr>adjusting := map_option (\<lambda>(i, b). (i, b\<lparr>b_nbcd_flags := Some flags\<rparr>)) (adjusting m)\<rparr>))
           | _ \<Rightarrow> (Some 0, count_unmodeled ''CALLOTHER'' op m))
      | UUnknown \<Rightarrow> (Some 0, count_unmodeled ''CALLOTHER'' op m))"

definition callother :: "pcode_op \<Rightarrow> nat \<Rightarrow> machine \<Rightarrow> flow \<times> machine" where
  "callother op osize m =
     (let (res, m) = callother_value op osize m
      in (FNext,
          case (res, op_out op) of
            (Some r, Some v) \<Rightarrow> write_val (vspace v) (voffset v) (vsize v) (emu_mask r (vsize v)) m
          | _ \<Rightarrow> m))"

subsection \<open>Faults and the state modifier\<close>

definition fault :: "machine \<Rightarrow> flow \<times> machine" where
  "fault m = (FFault, record_if_traced EFault m)"

definition begin_adjusted :: "insn \<Rightarrow> machine \<Rightarrow> bool \<times> machine" where
  "begin_adjusted i m =
     (case modifier m of
        None \<Rightarrow> (False, m)
      | Some m68k \<Rightarrow>
          (case execute m68k i m of
             Some m' \<Rightarrow> (True, m')
           | None \<Rightarrow> (False, m\<lparr>adjusting := Some (i, state_before m68k i m)\<rparr>)))"

definition end_adjusted :: "machine \<Rightarrow> machine" where
  "end_adjusted m =
     (case (adjusting m, modifier m) of
        (Some (i, b), Some m68k) \<Rightarrow> adjust_after m68k i b (m\<lparr>adjusting := None\<rparr>)
      | _ \<Rightarrow> m\<lparr>adjusting := None\<rparr>)"

definition remember_quotient :: "pcode_op \<Rightarrow> u64 \<Rightarrow> bool \<Rightarrow> machine \<Rightarrow> machine" where
  "remember_quotient op quo is_signed m =
     m\<lparr>adjusting := map_option (\<lambda>(i, b). (i, b\<lparr>b_quotient := Some quo\<rparr>)) (adjusting m),
       last_quotient := map_option (\<lambda>v. (v, quo, is_signed)) (op_out op)\<rparr>"

definition narrows_quotient_lossily :: "pcode_op \<Rightarrow> machine \<Rightarrow> bool \<times> machine" where
  "narrows_quotient_lossily op m =
     (case (last_quotient m, op_ins op, op_out op) of
        (Some (q, value, is_signed), Var input # rest, Some out) \<Rightarrow>
          if input \<noteq> q \<or> vsize q \<le> vsize out then (False, m)
          else
            let (off, m) = (case rest of [] \<Rightarrow> (0, m) | arg # _ \<Rightarrow> read_arg arg m)
            in if off \<noteq> 0 then (False, m)
               else
                 let kept = emu_mask value (vsize out)
                 in (if is_signed then sext kept (vsize out) \<noteq> sext value (vsize q)
                     else kept \<noteq> emu_mask value (vsize q), m)
      | _ \<Rightarrow> (False, m))"

definition branch_to :: "pcode_op \<Rightarrow> flow" where
  "branch_to op =
     (case op_ins op of
        [] \<Rightarrow> FNext
      | target # _ \<Rightarrow>
          (case as_var target of
             None \<Rightarrow> FNext
           | Some v \<Rightarrow> if is_const v then FRel (sext (voffset v) (vsize v)) else FJump (voffset v)))"

subsection \<open>A step\<close>

text \<open>The operation whose arm of \<^verbatim>\<open>step\<close> runs: \<open>opcode_name\<close> has no name for two of the numbers.\<close>

definition op_kind :: "u32 \<Rightarrow> opcode option" where
  "op_kind n = (if n = 60 \<or> n = 61 then None else from_u32 n)"

definition sdiv64 :: "u64 \<Rightarrow> u64 \<Rightarrow> u64" where
  "sdiv64 a b = word_of_int (sint a sdiv sint b)"

definition srem64 :: "u64 \<Rightarrow> u64 \<Rightarrow> u64" where
  "srem64 a b = word_of_int (sint a smod sint b)"

definition one_operand :: "opcode \<Rightarrow> bool" where
  "one_operand opc \<longleftrightarrow> opc \<in> {Copy, IntNegate, Int2comp, IntZext, IntSext, BoolNegate, Popcount, Lzcount}"

text \<open>The arms that compute a value from the operands alone; only the operands an arm names are read.\<close>

definition value_arm :: "opcode \<Rightarrow> pcode_op \<Rightarrow> nat \<Rightarrow> machine \<Rightarrow> u64 option \<times> machine" where
  "value_arm opc op osize m =
     (let isz = first_size op (if opc = Lzcount then 8 else osize);
          (a, m1) = operand op 0 m;
          sa = fst (soperand op 0 m);
          (b, m2) = (if one_operand opc then (0, m1) else operand op 1 m1);
          sb = (if one_operand opc then 0 else fst (soperand op 1 m1))
      in (alu opc isz a b sa sb, m2))"

text \<open>
  A division arm: the divisor is tested first, as read; the quotient or remainder is then taken at the
  output's size (unsigned) or at the operands' own sizes (signed).
\<close>

definition divide_arm :: "opcode \<Rightarrow> pcode_op \<Rightarrow> nat \<Rightarrow> machine \<Rightarrow> ((flow + u64) \<times> machine) option" where
  "divide_arm opc op osize m =
     (let (b, m1) = operand op 1 m
      in if b = 0 then Some (case fault m1 of (f, m') \<Rightarrow> (Inl f, m'))
         else
           let (a, m2) = operand op 0 m1;
               sa = fst (soperand op 0 m1); sb = fst (soperand op 1 m)
           in if opc = IntDiv \<or> opc = IntRem
              then let d = emu_mask b osize
                   in if d = 0 then None
                      else if opc = IntDiv
                      then let q = emu_mask a osize div d in Some (Inr q, remember_quotient op q False m2)
                      else Some (Inr (emu_mask a osize mod d), m2)
              else if sb = 0 then None
              else if opc = IntSdiv
              then let q = sdiv64 sa sb in Some (Inr q, remember_quotient op q True m2)
              else Some (Inr (srem64 sa sb), m2))"

definition subpiece_arm :: "pcode_op \<Rightarrow> machine \<Rightarrow> (flow + u64) \<times> machine" where
  "subpiece_arm op m =
     (let (lossy, m1) = narrows_quotient_lossily op m
      in if lossy then (case fault m1 of (f, m') \<Rightarrow> (Inl f, m'))
         else let (a, m2) = operand op 0 m1; (b, m3) = operand op 1 m2
              in (Inr (shr64 a (unat (b * 8))), m3))"

definition load_arm :: "pcode_op \<Rightarrow> nat \<Rightarrow> machine \<Rightarrow> u64 \<times> machine" where
  "load_arm op osize m =
     (case op_ins op of
        Space spc # ptr # _ \<Rightarrow> (let (addr, m1) = read_arg ptr m in (read m1 spc addr osize, m1))
      | _ \<Rightarrow> (0, m))"

definition store_arm :: "pcode_op \<Rightarrow> machine \<Rightarrow> machine" where
  "store_arm op m =
     (case op_ins op of
        Space spc # ptr # val # _ \<Rightarrow>
          (let (addr, m1) = read_arg ptr m; (v, m2) = read_arg val m1;
               sz = (case as_var val of None \<Rightarrow> 0 | Some vn \<Rightarrow> vsize vn)
           in write_val spc addr sz v m2)
      | _ \<Rightarrow> m)"

text \<open>\<open>Inl\<close>: the arm returns this flow; \<open>Inr\<close>: the value the end of \<^verbatim>\<open>step\<close> writes.\<close>

definition step_arm :: "'f fpu \<Rightarrow> pcode_op \<Rightarrow> machine \<Rightarrow> ((flow + u64) \<times> machine) option" where
  "step_arm fp op m =
     (let osize = (case op_out op of None \<Rightarrow> 0 | Some v \<Rightarrow> vsize v);
          unknown = Some (Inr 0, count_unmodeled (pcode_op_name op) op m)
      in case op_kind (opcode_number op) of
           None \<Rightarrow> unknown
         | Some opc \<Rightarrow>
             (case opc of
                Return \<Rightarrow> Some (Inl FStop, m)
              | Branch \<Rightarrow> Some (Inl (branch_to op), m)
              | Cbranch \<Rightarrow>
                  (let (c, m1) = operand op 1 m
                   in Some (Inl (if c AND 1 \<noteq> 0 then branch_to op else FNext), m1))
              | Branchind \<Rightarrow> (let (t, m1) = operand op 0 m in Some (Inl (FJump t), m1))
              | Call \<Rightarrow> Some (Inl FNext, m)
              | Callind \<Rightarrow> Some (Inl FNext, m)
              | Subpiece \<Rightarrow> Some (subpiece_arm op m)
              | IntDiv \<Rightarrow> divide_arm opc op osize m
              | IntRem \<Rightarrow> divide_arm opc op osize m
              | IntSdiv \<Rightarrow> divide_arm opc op osize m
              | IntSrem \<Rightarrow> divide_arm opc op osize m
              | Load \<Rightarrow> (let (v, m1) = load_arm op osize m in Some (Inr v, m1))
              | Store \<Rightarrow> Some (Inl FNext, store_arm op m)
              | Callother \<Rightarrow> (let (f, m1) = callother op osize m in Some (Inl f, m1))
              | _ \<Rightarrow>
                  if float_family opc
                  then (case float_op fp opc op osize m of
                          (Some v, m1) \<Rightarrow> Some (Inr v, m1)
                        | (None, m1) \<Rightarrow> Some (Inr 0, count_unmodeled (pcode_op_name op) op m1))
                  else (case value_arm opc op osize m of
                          (Some v, m1) \<Rightarrow> Some (Inr v, m1)
                        | (None, _) \<Rightarrow> unknown)))"

definition write_result :: "pcode_op \<Rightarrow> u64 \<Rightarrow> machine \<Rightarrow> machine" where
  "write_result op res m =
     (case op_out op of
        None \<Rightarrow> m
      | Some v \<Rightarrow>
          (let m1 = write_val (vspace v) (voffset v) (vsize v) (emu_mask res (vsize v)) m
           in if op_kind (opcode_number op) \<notin> {Some IntDiv, Some IntSdiv}
                 \<and> (case last_quotient m1 of None \<Rightarrow> False | Some (q, _, _) \<Rightarrow> q = v)
              then m1\<lparr>last_quotient := None\<rparr> else m1))"

definition step :: "'f fpu \<Rightarrow> pcode_op \<Rightarrow> machine \<Rightarrow> (flow \<times> machine) option" where
  "step fp op m =
     (case step_arm fp op m of
        None \<Rightarrow> None
      | Some (Inl f, m1) \<Rightarrow> Some (f, m1)
      | Some (Inr res, m1) \<Rightarrow> Some (FNext, write_result op res m1))"

subsection \<open>What every operation keeps\<close>

text \<open>
  A relation between machine states that the interpreter's primitive updates respect: writing a value,
  recording an effect while tracing, and the updates of its own bookkeeping.  Every operation of the
  interpreter then respects it.
\<close>

locale machine_relation =
  fixes R :: "machine \<Rightarrow> machine \<Rightarrow> bool"
  assumes R_refl: "R m m"
    and R_trans: "R m1 m2 \<Longrightarrow> R m2 m3 \<Longrightarrow> R m1 m3"
    and R_write: "R m (write_val s off sz v m)"
    and R_record: "trace m \<Longrightarrow> R m (record_effect e m)"
    and R_uninitialized: "R m (m\<lparr>uninitialized := u\<rparr>)"
    and R_unmodeled: "R m (m\<lparr>unmodeled := n\<rparr>)" "R m (m\<lparr>unmodeled_ops := ops\<rparr>)"
    and R_ports: "R m (m\<lparr>port_answers := pa\<rparr>)" "R m (m\<lparr>unanswered := un\<rparr>)"
    and R_adjusting: "R m (m\<lparr>adjusting := adj\<rparr>)"
    and R_quotient: "R m (m\<lparr>last_quotient := lq\<rparr>)"
begin

lemma chain:
  assumes "R m0 m"
  shows "R m0 (write_val s off sz v m)" "R m0 (m\<lparr>uninitialized := u\<rparr>)" "R m0 (m\<lparr>unmodeled := n\<rparr>)"
    "R m0 (m\<lparr>unmodeled_ops := ops\<rparr>)" "R m0 (m\<lparr>port_answers := pa\<rparr>)" "R m0 (m\<lparr>unanswered := un\<rparr>)"
    "R m0 (m\<lparr>adjusting := adj\<rparr>)" "R m0 (m\<lparr>last_quotient := lq\<rparr>)" "R m0 (record_if_traced e m)"
  using R_trans [OF assms] R_refl R_write R_uninitialized R_unmodeled R_ports R_adjusting R_quotient R_record
  by (auto simp: record_if_traced_def)

lemma R_note: "R m0 m \<Longrightarrow> R m0 (note_register_read off sz m)"
  by (simp add: note_register_read_def chain)

lemma R_read_arg: "R m0 m \<Longrightarrow> R m0 (snd (read_arg a m))"
  by (simp add: read_arg_def R_note split: parg.splits)

lemma R_operand: "R m0 m \<Longrightarrow> R m0 (snd (operand op i m))"
  by (simp add: operand_def R_read_arg)

lemma R_count: "R m0 m \<Longrightarrow> R m0 (count_unmodeled name op m)"
  unfolding count_unmodeled_def note_unmodeled_def by (intro chain)

lemma R_read_port: "R m0 m \<Longrightarrow> R m0 (snd (read_port port osize m))"
  unfolding read_port_def by (auto simp: Let_def chain split: option.splits list.splits prod.splits)

lemmas R_reads = R_read_arg R_operand R_count R_read_port chain

lemma R_float_pair: "R m0 m \<Longrightarrow> R m0 (snd (float_pair fp x isz rest m))"
  unfolding float_pair_def by (auto simp: case_prod_beta R_reads split: option.splits list.splits)

lemma R_float_op: "R m0 m \<Longrightarrow> R m0 (snd (float_op fp opc op osize m))"
  unfolding float_op_def float_bin_def float_cmp_def
  by (cases opc) (auto simp: case_prod_beta Let_def R_reads R_float_pair split: option.splits list.splits)

lemma R_callother: "R m0 m \<Longrightarrow> R m0 (snd (callother op osize m))"
proof -
  assume "R m0 m"
  then have "R m0 (snd (callother_value op osize m))"
    unfolding callother_value_def
    by (auto simp: case_prod_beta Let_def R_reads split: user_op.splits option.splits insn.splits)
  then show ?thesis unfolding callother_def by (auto simp: case_prod_beta Let_def chain split: option.splits)
qed

lemma R_fault: "R m0 m \<Longrightarrow> R m0 (snd (fault m))"
  by (simp add: fault_def chain)

lemma R_remember: "R m0 m \<Longrightarrow> R m0 (remember_quotient op q s m)"
  unfolding remember_quotient_def by (intro chain)

lemma R_lossily: "R m0 m \<Longrightarrow> R m0 (snd (narrows_quotient_lossily op m))"
  unfolding narrows_quotient_lossily_def
  by (auto simp: case_prod_beta Let_def R_reads split: option.splits list.splits parg.splits)

lemma R_write_result: "R m0 m \<Longrightarrow> R m0 (write_result op r m)"
  unfolding write_result_def by (auto simp: Let_def chain split: option.splits)

lemma R_set_bcd_flags: "R m0 m \<Longrightarrow> R m0 (set_bcd_flags self fl z m)"
  unfolding set_bcd_flags_def by (simp only: Let_def case_prod_beta) (intro chain)

lemma R_predecrement: "R m0 m \<Longrightarrow> R m0 (snd (predecrement self r m))"
  by (simp add: predecrement_def Let_def chain)

lemma R_execute_shift: "R m0 m \<Longrightarrow> R m0 (execute_shift self kind left bits count by_register dy m)"
  unfolding execute_shift_def Let_def
  by (intro chain) (cases "s_x (shift kind left bits (rd_reg m (m_d self ! dy) 4)
     (if by_register then unat (rd_reg m (m_d self ! count) 4 AND 63) else if count = 0 then 8 else count)
     (rd_reg m (m_x self) 1 AND 1 \<noteq> 0))"; simp add: chain)

lemma R_execute_bcd: "R m0 m \<Longrightarrow> R m0 (execute_bcd self add rx ry memory m)"
  unfolding execute_bcd_def Let_def case_prod_beta
  by (intro R_set_bcd_flags) (cases memory; simp add: chain R_predecrement)

lemma R_execute: "execute self i m = Some m' \<Longrightarrow> R m0 m \<Longrightarrow> R m0 m'"
  by (cases i) (auto simp: execute_def R_execute_shift R_execute_bcd)

lemma R_adjust_after: "R m0 m \<Longrightarrow> R m0 (adjust_after self i b m)"
  unfolding adjust_after_def Let_def by (cases i) (simp_all add: chain R_set_bcd_flags split: option.splits)

lemma R_begin: "R m0 m \<Longrightarrow> R m0 (snd (begin_adjusted i m))"
  unfolding begin_adjusted_def by (auto simp: chain split: option.splits dest: R_execute)

lemma R_end: "R m0 m \<Longrightarrow> R m0 (end_adjusted m)"
  unfolding end_adjusted_def by (auto simp: chain R_adjust_after split: option.splits)

lemma R_value_arm: "R m0 m \<Longrightarrow> R m0 (snd (value_arm opc op osize m))"
  by (simp add: value_arm_def Let_def case_prod_beta R_reads)

lemma R_divide: "divide_arm opc op osize m = Some (r, m') \<Longrightarrow> R m0 m \<Longrightarrow> R m0 m'"
  by (auto simp: divide_arm_def Let_def case_prod_beta split: if_splits intro: R_reads R_fault R_remember)

lemma R_subpiece: "R m0 m \<Longrightarrow> R m0 (snd (subpiece_arm op m))"
  by (simp add: subpiece_arm_def Let_def case_prod_beta R_lossily R_fault R_reads)

lemma R_load: "R m0 m \<Longrightarrow> R m0 (snd (load_arm op osize m))"
  by (auto simp: load_arm_def Let_def case_prod_beta R_reads split: list.splits parg.splits)

lemma R_store: "R m0 m \<Longrightarrow> R m0 (store_arm op m)"
  by (auto simp: store_arm_def Let_def case_prod_beta R_reads split: list.splits parg.splits option.splits)

end

text \<open>The arms of a step that are not control flow, memory, division, narrowing or a user operation.\<close>

definition plain_op :: "opcode \<Rightarrow> bool" where
  "plain_op opc \<longleftrightarrow> opc \<notin> {Return, Branch, Cbranch, Branchind, Call, Callind, Subpiece, IntDiv, IntRem, IntSdiv, IntSrem,
     Load, Store, Callother}"

abbreviation out_size :: "pcode_op \<Rightarrow> nat" where
  "out_size op \<equiv> (case op_out op of None \<Rightarrow> 0 | Some v \<Rightarrow> vsize v)"

lemma step_arm_plain:
  assumes k: "op_kind (opcode_number op) = Some opc" and p: "plain_op opc"
  shows "step_arm fp op m =
     (if float_family opc
      then (case float_op fp opc op (out_size op) m of
              (Some v, m1) \<Rightarrow> Some (Inr v, m1)
            | (None, m1) \<Rightarrow> Some (Inr 0, count_unmodeled (pcode_op_name op) op m1))
      else (case value_arm opc op (out_size op) m of
              (Some v, m1) \<Rightarrow> Some (Inr v, m1)
            | (None, _) \<Rightarrow> Some (Inr 0, count_unmodeled (pcode_op_name op) op m)))"
  using p unfolding step_arm_def k Let_def option.case by (cases opc) (simp_all only: opcode.case plain_op_def, simp_all)

lemma step_arm_divide:
  "op_kind (opcode_number op) = Some opc \<Longrightarrow> opc \<in> {IntDiv, IntRem, IntSdiv, IntSrem} \<Longrightarrow>
   step_arm fp op m = divide_arm opc op (out_size op) m"
  by (auto simp: step_arm_def Let_def)

lemma plain_op_cases:
  obtains "plain_op opc" | "opc \<in> {IntDiv, IntRem, IntSdiv, IntSrem}"
  | "opc \<in> {Return, Branch, Cbranch, Branchind, Call, Callind}" | "opc = Subpiece" | "opc = Load" | "opc = Store" | "opc = Callother"
  by (auto simp: plain_op_def)

context machine_relation
begin

lemma R_step_arm:
  assumes s: "step_arm fp op m = Some (r, m')" and m: "R m0 m"
  shows "R m0 m'"
proof (cases "op_kind (opcode_number op)")
  case None
  then show ?thesis using s m by (auto simp: step_arm_def R_count)
next
  case (Some opc)
  show ?thesis
  proof (cases opc rule: plain_op_cases)
    case 1
    have f: "R m0 (snd (float_op fp opc op (out_size op) m))" by (rule R_float_op [OF m])
    have v: "R m0 (snd (value_arm opc op (out_size op) m))" by (rule R_value_arm [OF m])
    show ?thesis using s f v m unfolding step_arm_plain [OF Some 1]
      by (auto split: if_splits prod.splits option.splits intro: R_count)
  next
    case 2
    then show ?thesis using s m R_divide step_arm_divide [OF Some 2, of fp m] by metis
  next
    case 3
    then show ?thesis using s m Some by (auto simp: step_arm_def Let_def case_prod_beta intro: R_operand)
  next
    case 4
    then show ?thesis using s Some R_subpiece [OF m, of op] by (auto simp: step_arm_def Let_def)
  next
    case 5
    then show ?thesis using s Some R_load [OF m] by (auto simp: step_arm_def Let_def case_prod_beta)
  next
    case 6
    then show ?thesis using s Some R_store [OF m] by (auto simp: step_arm_def Let_def)
  next
    case 7
    then show ?thesis using s Some R_callother [OF m] by (auto simp: step_arm_def Let_def case_prod_beta)
  qed
qed

lemma R_step: "step fp op m = Some (f, m') \<Longrightarrow> R m0 m \<Longrightarrow> R m0 m'"
  unfolding step_def by (auto split: option.splits sum.splits prod.splits dest: R_step_arm intro: R_write_result)

end

subsection \<open>The configuration is constant and the record only grows\<close>

text \<open>The fields no operation changes: the memory behind the written bytes, the byte orders, the bus, the language.\<close>

definition same_config :: "machine \<Rightarrow> machine \<Rightarrow> bool" where
  "same_config m m' \<longleftrightarrow> fill m' = fill m \<and> pool m' = pool m \<and> backing_image m' = backing_image m
     \<and> big_endian m' = big_endian m \<and> address_mask m' = address_mask m \<and> userops m' = userops m
     \<and> swi_args m' = swi_args m \<and> modifier m' = modifier m \<and> trace m' = trace m \<and> quiet m' = quiet m
     \<and> at_site m' = at_site m"

lemma write_val_config: "same_config m (write_val s off sz v m)"
  by (simp add: same_config_def write_val_def Let_def insert_bytes_def record_effect_def)

interpretation config: machine_relation same_config
proof
  show "same_config m1 m3" if "same_config m1 m2" "same_config m2 m3" for m1 m2 m3
    using that by (simp add: same_config_def)
qed (simp_all add: write_val_config, simp_all add: same_config_def record_effect_def)

text \<open>The effects recorded so far stay, every new one is at the current site, and nothing is recorded unless tracing.\<close>

definition appends :: "machine \<Rightarrow> machine \<Rightarrow> bool" where
  "appends m m' \<longleftrightarrow> at_site m' = at_site m \<and> trace m' = trace m \<and> (\<exists>es. effects m' = effects m @ es
     \<and> effect_sites m' = effect_sites m @ replicate (length es) (at_site m) \<and> (es \<noteq> [] \<longrightarrow> trace m))"

lemma appends_record: "trace m \<Longrightarrow> appends m (record_effect e m)"
  by (auto simp: appends_def record_effect_def intro!: exI [of _ "[e]"])

lemma appends_refl: "appends m m"
  by (auto simp: appends_def)

lemma appends_trans:
  assumes "appends m1 m2" "appends m2 m3"
  shows "appends m1 m3"
proof -
  obtain es fs where "effects m2 = effects m1 @ es" "effects m3 = effects m2 @ fs"
    "effect_sites m2 = effect_sites m1 @ replicate (length es) (at_site m1)"
    "effect_sites m3 = effect_sites m2 @ replicate (length fs) (at_site m2)"
    "es \<noteq> [] \<longrightarrow> trace m1" "fs \<noteq> [] \<longrightarrow> trace m2" and same: "at_site m2 = at_site m1" "trace m2 = trace m1"
    "at_site m3 = at_site m2" "trace m3 = trace m2"
    using assms unfolding appends_def by blast
  then show ?thesis unfolding appends_def by (intro conjI exI [of _ "es @ fs"]) (auto simp: replicate_add)
qed

lemma appends_fields:
  "effects m' = effects m \<Longrightarrow> effect_sites m' = effect_sites m \<Longrightarrow> at_site m' = at_site m \<Longrightarrow> trace m' = trace m \<Longrightarrow> appends m m'"
  by (simp add: appends_def)

lemma appends_write: "appends m (write_val s off sz v m)"
proof -
  have i: "appends m' (insert_bytes s kvs m')" for kvs m'
    by (rule appends_fields) (simp_all add: insert_bytes_def)
  have r: "appends m (record_effect e m)" if "traced_space m s" for e
    using that appends_record by (simp add: traced_space_def)
  show ?thesis unfolding write_val_def Let_def using i r appends_trans [OF r i] appends_refl by auto
qed

interpretation trail: machine_relation appends
  by unfold_locales (auto simp: appends_write appends_record appends_refl intro: appends_trans appends_fields)

subsection \<open>Operands\<close>

lemma read_masked: "sz \<le> 8 \<Longrightarrow> emu_mask (read m space off sz) sz = read m space off sz"
proof (cases "sz = 0")
  case False
  assume "sz \<le> 8"
  then show ?thesis
  proof (cases "space = ''const''")
    case True
    have "(x AND mask (8 * sz)) AND mask (8 * sz) = x AND mask (8 * sz)" for x :: u64 by (simp add: and.assoc)
    then show ?thesis using True False \<open>sz \<le> 8\<close> by (simp add: read_def emu_mask_eq)
  next
    case False
    then show ?thesis using read_bound [OF False \<open>sz \<le> 8\<close>, of m off] \<open>sz \<noteq> 0\<close> \<open>sz \<le> 8\<close> by (simp add: emu_mask_eq)
  qed
qed (simp add: emu_mask_def)

lemma sext_zero: "sext v sz = 0 \<Longrightarrow> emu_mask v sz = 0"
proof (cases "sz = 0 \<or> 8 \<le> sz")
  case False
  assume "sext v sz = 0"
  then have "emu_mask v sz XOR shl64 1 (sz * 8 - 1) = shl64 1 (sz * 8 - 1)" using False by (simp add: sext_def Let_def)
  then have "(emu_mask v sz XOR shl64 1 (sz * 8 - 1)) XOR shl64 1 (sz * 8 - 1) = 0" by simp
  then show ?thesis by (simp only: xor.assoc xor_self_eq xor.right_neutral)
qed (auto simp: sext_def emu_mask_def)

lemma sread_zero: "fst (sread_arg a m) = 0 \<Longrightarrow> fst (read_arg a m) = 0"
proof (cases a)
  case (Var v)
  assume "fst (sread_arg a m) = 0"
  then have "sext (read m (vspace v) (voffset v) (vsize v)) (vsize v) = 0" by (simp add: Var sread_arg_def read_arg_def)
  from sext_zero [OF this] show ?thesis
    using read_masked [of "vsize v" m] by (cases "vsize v \<le> 8") (auto simp: Var read_arg_def emu_mask_def)
qed (simp add: read_arg_def)

lemma soperand_zero: "fst (soperand op i m) = 0 \<Longrightarrow> fst (operand op i m) = 0"
  by (auto simp: operand_def soperand_def dest: sread_zero)

text \<open>Reading an operand only notes the read: it changes no byte.\<close>

lemma note_mem [machine_simps]: "mem (note_register_read off sz m) = mem m"
  by (simp add: note_register_read_def)

lemma read_arg_mem [machine_simps]: "mem (snd (read_arg a m)) = mem m"
  by (simp add: read_arg_def machine_simps split: parg.splits)

lemma operand_mem [machine_simps]: "mem (snd (operand op i m)) = mem m"
  by (simp add: operand_def machine_simps)

lemma read_frame:
  assumes "mem m' = mem m" "same_config m m'"
  shows "read m' = read m"
proof -
  have "unwritten m' = unwritten m" "byte_at m' = byte_at m"
    using assms(2) by (auto intro!: unwritten_frame byte_at_frame simp: same_config_def)
  then show ?thesis using assms(1) unfolding read_def read_byte_def bank_of_def by (intro ext) (simp only:)
qed

lemma operand_config: "same_config m (snd (operand op i m))"
  by (rule config.R_operand [OF config.R_refl])

lemma operand_read: "read (snd (operand op i m)) = read m"
  by (rule read_frame [OF operand_mem operand_config])

lemma read_arg_frame: "read m' = read m \<Longrightarrow> fst (read_arg a m') = fst (read_arg a m)"
  by (simp add: read_arg_def split: parg.splits)

lemma operand_frame: "read m' = read m \<Longrightarrow> fst (operand op i m') = fst (operand op i m)"
  unfolding operand_def by (cases "i < length (op_ins op)") (simp_all only: if_True if_False fst_conv, erule read_arg_frame)

lemma sread_arg_frame: "read m' = read m \<Longrightarrow> fst (sread_arg a m') = fst (sread_arg a m)"
  by (simp add: sread_arg_def read_arg_def split: parg.splits)

lemma soperand_frame: "read m' = read m \<Longrightarrow> fst (soperand op i m') = fst (soperand op i m)"
  unfolding soperand_def by (cases "i < length (op_ins op)") (simp_all only: if_True if_False fst_conv, erule sread_arg_frame)

subsection \<open>Panics and faults\<close>

text \<open>
  (C34) The interpreter panics on exactly one kind of operation: an unsigned division or remainder whose
  divisor is not zero as read but zero at the output's width.  Signed division never panics, and no other
  operation does.
\<close>

theorem step_panics_iff:
  "step fp op m = None \<longleftrightarrow>
     op_kind (opcode_number op) \<in> {Some IntDiv, Some IntRem}
     \<and> fst (operand op 1 m) \<noteq> 0 \<and> emu_mask (fst (operand op 1 m)) (out_size op) = 0"
proof -
  have "step_arm fp op m = None \<longleftrightarrow>
     op_kind (opcode_number op) \<in> {Some IntDiv, Some IntRem}
     \<and> fst (operand op 1 m) \<noteq> 0 \<and> emu_mask (fst (operand op 1 m)) (out_size op) = 0" (is "?l \<longleftrightarrow> ?r")
  proof (cases "op_kind (opcode_number op)")
    case None
    then show ?thesis by (simp add: step_arm_def)
  next
    case (Some opc)
    show ?thesis
    proof (cases opc rule: plain_op_cases)
      case 1
      then have "opc \<notin> {IntDiv, IntRem}" by (auto simp: plain_op_def)
      then show ?thesis unfolding step_arm_plain [OF Some 1] using Some by (auto split: prod.splits option.splits)
    next
      case 2
      have "fst (soperand op 1 m) = 0 \<Longrightarrow> fst (operand op 1 m) = 0" by (rule soperand_zero)
      then show ?thesis using 2 Some unfolding step_arm_divide [OF Some 2] divide_arm_def
        by (auto simp: Let_def case_prod_beta)
    qed (use Some in \<open>auto simp: step_arm_def Let_def case_prod_beta\<close>)
  qed
  then show ?thesis by (auto simp: step_def split: option.splits sum.splits prod.splits)
qed

text \<open>
  Division by zero is a fault, never a value: for all four division operations a divisor that reads
  zero ends the step with a fault, no byte of the machine changes, and a tracing machine records exactly one
  fault, at the current site.
\<close>

theorem division_by_zero_faults:
  assumes "op_kind (opcode_number op) \<in> {Some IntDiv, Some IntRem, Some IntSdiv, Some IntSrem}" "fst (operand op 1 m) = 0"
  shows "\<exists>m'. step fp op m = Some (FFault, m') \<and> mem m' = mem m
    \<and> effects m' = effects m @ (if trace m then [EFault] else [])
    \<and> effect_sites m' = effect_sites m @ (if trace m then [at_site m] else [])"
proof -
  let ?m1 = "snd (operand op 1 m)"
  obtain opc where opc: "op_kind (opcode_number op) = Some opc" "opc \<in> {IntDiv, IntRem, IntSdiv, IntSrem}"
    using assms(1) by auto
  have "step fp op m = Some (FFault, record_if_traced EFault ?m1)"
    using assms(2) unfolding step_def step_arm_divide [OF opc] divide_arm_def
    by (simp add: Let_def case_prod_beta fault_def)
  moreover have "trace ?m1 = trace m" "at_site ?m1 = at_site m" "mem ?m1 = mem m"
    using operand_config [of m op 1] operand_mem [of op 1 m] by (simp_all add: same_config_def)
  moreover have "effects ?m1 = effects m" "effect_sites ?m1 = effect_sites m"
    by (simp_all add: operand_def read_arg_def note_register_read_def split: parg.splits)
  ultimately show ?thesis by (simp add: record_if_traced_def record_effect_def)
qed

definition demo_fpu :: "unit fpu" where
  "demo_fpu = \<lparr>fp_of_f32 = \<lambda>_. (), fp_of_f64 = \<lambda>_. (), fp_to_f32 = \<lambda>_. 0, fp_to_f64 = \<lambda>_. 0, fp_add = \<lambda>_ _. (),
     fp_sub = \<lambda>_ _. (), fp_mult = \<lambda>_ _. (), fp_div = \<lambda>_ _. (), fp_neg = id, fp_abs = id, fp_sqrt = id,
     fp_ceil = id, fp_floor = id, fp_round = id, fp_eq = \<lambda>_ _. True, fp_lt = \<lambda>_ _. False, fp_le = \<lambda>_ _. True,
     fp_is_nan = \<lambda>_. False, fp_of_int = \<lambda>_. (), fp_to_int = \<lambda>_. 0\<rparr>"

text \<open>\<open>unique[0x100, 8] = EAX (8 bytes) / ECX\<close>, with \<open>ECX\<close> never written.\<close>

abbreviation reg_var :: "u64 \<Rightarrow> nat \<Rightarrow> parg" where
  "reg_var off sz \<equiv> Var \<lparr>vspace = ''register'', voffset = off, vsize = sz\<rparr>"

definition demo_div :: pcode_op where
  "demo_div = \<lparr>opcode_number = 33, op_out = Some \<lparr>vspace = ''unique'', voffset = 0x100, vsize = 8\<rparr>,
     op_ins = [reg_var 0 8, reg_var 16 8], op_dest = Other\<rparr>"

theorem division_by_zero_faults_witness:
  "\<exists>m'. step demo_fpu demo_div demo_machine = Some (FFault, m') \<and> effects m' = [EFault] \<and> effect_sites m' = [(0, 0)]"
proof -
  have "op_kind (opcode_number demo_div) \<in> {Some IntDiv, Some IntRem, Some IntSdiv, Some IntSrem}"
    "fst (operand demo_div 1 demo_machine) = 0"
    by (simp_all add: op_kind_def from_u32_def op_table_def demo_div_def operand_def read_arg_def demo_machine_def
        machine_default_def read_def read_byte_def bank_of_def unwritten_def or_bytes_def upt_rec shl64_def)
  from division_by_zero_faults [OF this, of demo_fpu] show ?thesis by (auto simp: demo_machine_def machine_default_def)
qed

lemma uint_emu_mask: "1 \<le> sz \<Longrightarrow> sz \<le> 8 \<Longrightarrow> uint (emu_mask v sz) = take_bit (8 * sz) (uint v)"
  by (simp add: emu_mask_eq uint_and_mask take_bit_eq_mod)

lemma emu_mask_zero: "emu_mask 0 sz = 0"
  by (simp add: emu_mask_def)

lemma write_result_read:
  "op_out op = Some v \<Longrightarrow> read (write_result op r m) = read (write_val (vspace v) (voffset v) (vsize v) (emu_mask r (vsize v)) m)"
  by (rule read_frame) (auto simp: write_result_def Let_def same_config_def)

lemma write_result_bus_ok: "bus_ok (write_result op r m) = bus_ok m"
  using config.R_write_result [OF config.R_refl, of m op r] by (simp add: bus_ok_def same_config_def)

subsection \<open>Narrowing a quotient\<close>

lemma read_const_zero: "is_const z \<Longrightarrow> voffset z = 0 \<Longrightarrow> fst (read_arg (Var z) m) = 0"
  by (simp add: read_arg_def is_const_def read_def emu_mask_def)

lemma divide_step:
  assumes k: "op_kind (opcode_number D) = Some (if is_signed then IntSdiv else IntDiv)" "op_out D = Some q"
    and ok: "bus_ok m" "vspace q \<noteq> ''const''" "1 \<le> vsize q" "vsize q \<le> 8"
    and nz: "emu_mask (fst (operand D 1 m)) (vsize q) \<noteq> 0"
    and v: "value = (if is_signed then sdiv64 (fst (soperand D 0 m)) (fst (soperand D 1 m))
      else emu_mask (fst (operand D 0 m)) (vsize q) div emu_mask (fst (operand D 1 m)) (vsize q))"
  shows "\<exists>m1. step fp D m = Some (FNext, m1) \<and> last_quotient m1 = Some (q, value, is_signed) \<and> bus_ok m1
    \<and> read m1 (vspace q) (voffset q) (vsize q) = emu_mask value (vsize q)"
proof -
  let ?b = "operand D 1 m" and ?a = "operand D 0 (snd (operand D 1 m))"
  let ?m2 = "remember_quotient D value is_signed (snd ?a)"
  have nz1: "fst ?b \<noteq> 0" using nz emu_mask_zero by metis
  have f: "fst (operand D 0 (snd (operand D i m))) = fst (operand D 0 m)"
    "fst (soperand D 0 (snd (operand D i m))) = fst (soperand D 0 m)" for i
    by (rule operand_frame [OF operand_read] soperand_frame [OF operand_read])+
  have "fst (soperand D 1 m) \<noteq> 0" using soperand_zero nz1 by blast
  then have "step_arm fp D m = Some (Inr value, ?m2)"
    using nz nz1 k by (auto simp: step_arm_divide [OF k(1)] divide_arm_def Let_def case_prod_beta f v)
  then have s: "step fp D m = Some (FNext, write_result D value ?m2)" by (simp add: step_def)
  have cfg: "same_config m ?m2"
    by (rule config.R_remember [OF config.R_operand [OF config.R_operand [OF config.R_refl]]])
  then have b2: "bus_ok ?m2" using ok(1) by (simp add: bus_ok_def same_config_def)
  let ?w = "write_val (vspace q) (voffset q) (vsize q) (emu_mask value (vsize q)) ?m2"
  have w: "write_result D value ?m2 = ?w" using k by (auto simp: write_result_def)
  have "read ?w (vspace q) (voffset q) (vsize q) = emu_mask (emu_mask value (vsize q)) (vsize q)"
    by (rule read_write_same [OF b2 ok(2-4)])
  moreover have "emu_mask (emu_mask value (vsize q)) (vsize q) = emu_mask value (vsize q)" by (simp add: emu_mask_def and.assoc)
  moreover have "last_quotient ?w = Some (q, value, is_signed)"
    using k by (simp add: write_val_def Let_def insert_bytes_def record_effect_def remember_quotient_def)
  ultimately show ?thesis using s b2 w by auto
qed

lemma narrowing_step:
  assumes k: "op_kind (opcode_number S) = Some Subpiece" "op_ins S = [Var q, Var z]" "is_const z" "voffset z = 0" "op_out S = Some out"
    and ok: "bus_ok m" "vspace out \<noteq> ''const''" "1 \<le> vsize out" "vsize out < vsize q" "vsize q \<le> 8"
    and lq: "last_quotient m = Some (q, value, is_signed)"
    and rd: "read m (vspace q) (voffset q) (vsize q) = emu_mask value (vsize q)"
    and lossy: "lossy \<longleftrightarrow> (if is_signed then sext (emu_mask value (vsize out)) (vsize out) \<noteq> sext value (vsize q)
      else emu_mask value (vsize out) \<noteq> emu_mask value (vsize q))"
  shows "\<exists>f m2. step fp S m = Some (f, m2) \<and> f = (if lossy then FFault else FNext)
    \<and> (\<not> lossy \<longrightarrow> read m2 (vspace out) (voffset out) (vsize out) = emu_mask (emu_mask value (vsize q)) (vsize out))"
proof -
  let ?m1 = "snd (read_arg (Var z) m)"
  have n: "narrows_quotient_lossily S m = (lossy, ?m1)"
    using k lq ok lossy read_const_zero [OF k(3,4)] by (auto simp: narrows_quotient_lossily_def Let_def case_prod_beta)
  show ?thesis
  proof (cases lossy)
    case True
    then have "step_arm fp S m = Some (Inl FFault, record_if_traced EFault ?m1)"
      using k by (simp add: step_arm_def Let_def subpiece_arm_def n fault_def)
    then show ?thesis using True by (simp add: step_def)
  next
    case False
    let ?m2 = "snd (operand S 1 (snd (operand S 0 ?m1)))"
    have c1: "same_config m ?m1" by (rule config.R_read_arg [OF config.R_refl])
    have r1: "read ?m1 = read m" by (rule read_frame [OF read_arg_mem c1])
    have a: "fst (operand S 0 ?m1) = emu_mask value (vsize q)"
      using operand_frame [OF r1, of S 0] rd k(2) by (simp add: operand_def read_arg_def)
    have b: "fst (operand S 1 (snd (operand S 0 ?m1))) = 0"
      using k read_const_zero [OF k(3,4)] by (simp add: operand_def)
    have "step_arm fp S m = Some (Inr (emu_mask value (vsize q)), ?m2)"
      using k False a b by (simp add: step_arm_def Let_def subpiece_arm_def n case_prod_beta shr64_def)
    then have s: "step fp S m = Some (FNext, write_result S (emu_mask value (vsize q)) ?m2)" by (simp add: step_def)
    let ?r = "emu_mask (emu_mask value (vsize q)) (vsize out)"
    let ?w = "write_val (vspace out) (voffset out) (vsize out) ?r ?m2"
    have cfg: "same_config m ?m2" by (intro config.R_operand c1)
    then have "bus_ok ?m2" using ok(1) by (simp add: bus_ok_def same_config_def)
    then have "read ?w (vspace out) (voffset out) (vsize out) = emu_mask ?r (vsize out)"
      using ok by (intro read_write_same) auto
    moreover have "read (write_result S (emu_mask value (vsize q)) ?m2) = read ?w"
      by (rule write_result_read [OF k(5)])
    moreover have "emu_mask ?r (vsize out) = ?r" by (simp add: emu_mask_def and.assoc)
    ultimately show ?thesis using s False by auto
  qed
qed

text \<open>When the narrowing loses something, in terms of the quotient as a number.\<close>

lemma unsigned_loss:
  assumes "1 \<le> o'" "o' \<le> n" "n \<le> 8" and Q: "uint (emu_mask value n) = Q"
  shows "emu_mask value o' \<noteq> emu_mask value n \<longleftrightarrow> Q \<notin> {0..<2 ^ (8 * o')}"
proof -
  have "uint (emu_mask value o') = take_bit (8 * o') Q"
    using assms by (simp add: uint_emu_mask take_bit_take_bit min_def flip: Q)
  then have "emu_mask value o' = emu_mask value n \<longleftrightarrow> take_bit (8 * o') Q = Q" by (simp only: word_uint_eq_iff Q)
  then show ?thesis using Q unsigned_greater_eq [of "emu_mask value n"] by (auto simp: take_bit_int_eq_self_iff)
qed

lemma signed_loss:
  assumes "1 \<le> o'" "o' \<le> n" "n \<le> 8" and Q: "sint (sext value n) = Q"
  shows "sext (emu_mask value o') o' \<noteq> sext value n \<longleftrightarrow> Q \<notin> {- (2 ^ (8 * o' - 1))..<2 ^ (8 * o' - 1)}"
proof -
  have o8: "o' \<le> 8" and n1: "1 \<le> n" and lt: "\<not> 8 * o' \<le> 8 * o' - Suc 0" using assms by auto
  have "sint (sext (emu_mask value o') o') = signed_take_bit (8 * o' - 1) (uint value)"
    using assms(1) lt by (simp add: sint_sext [OF assms(1) o8] uint_emu_mask [OF assms(1) o8] signed_take_bit_take_bit)
  also have "\<dots> = signed_take_bit (8 * o' - 1) Q"
  proof -
    have "min (8 * o' - 1) (8 * n - 1) = 8 * o' - 1" using assms by simp
    then show ?thesis by (simp only: sint_sext [OF n1 assms(3)] signed_take_bit_signed_take_bit flip: Q)
  qed
  finally have "sext (emu_mask value o') o' = sext value n \<longleftrightarrow> signed_take_bit (8 * o' - 1) Q = Q"
    by (metis Q signed_word_eqI)
  then show ?thesis by (auto simp: signed_take_bit_int_eq_self_iff)
qed


text \<open>
  (C28) The trap of a hardware divide.  An \<open>INT_DIV\<close> (\<open>INT_SDIV\<close>) followed by the \<open>SUBPIECE\<close> that narrows its
  output to the destination faults exactly when the quotient \<open>Q\<close> of the two operands does not fit the
  destination, unsigned (signed); otherwise the destination holds the quotient.
\<close>

theorem quotient_narrowing:
  assumes D: "op_kind (opcode_number D) = Some (if is_signed then IntSdiv else IntDiv)" "op_out D = Some q"
    and S: "op_kind (opcode_number S) = Some Subpiece" "op_ins S = [Var q, Var z]" "is_const z" "voffset z = 0" "op_out S = Some out"
    and ok: "bus_ok m" "vspace q \<noteq> ''const''" "vspace out \<noteq> ''const''"
    and sizes: "1 \<le> vsize out" "vsize out < vsize q" "vsize q \<le> 8"
    and nz: "emu_mask (fst (operand D 1 m)) (vsize q) \<noteq> 0"
    and Q: "Q = (if is_signed
      then signed_take_bit (8 * vsize q - 1) (sint (fst (soperand D 0 m)) sdiv sint (fst (soperand D 1 m)))
      else uint (emu_mask (fst (operand D 0 m)) (vsize q)) div uint (emu_mask (fst (operand D 1 m)) (vsize q)))"
    and fits: "fits \<longleftrightarrow> (if is_signed then Q \<in> {- (2 ^ (8 * vsize out - 1))..<2 ^ (8 * vsize out - 1)}
      else Q \<in> {0..<2 ^ (8 * vsize out)})"
  shows "\<exists>m1 f m2. step fp D m = Some (FNext, m1) \<and> step fp S m1 = Some (f, m2)
    \<and> f = (if fits then FNext else FFault)
    \<and> (fits \<longrightarrow> uint (read m2 (vspace out) (voffset out) (vsize out)) = take_bit (8 * vsize out) Q)"
proof -
  define w where "w = (if is_signed then sdiv64 (fst (soperand D 0 m)) (fst (soperand D 1 m))
      else emu_mask (fst (operand D 0 m)) (vsize q) div emu_mask (fst (operand D 1 m)) (vsize q))"
  have sz: "1 \<le> vsize q" "vsize out \<le> vsize q" "vsize out \<le> 8" using sizes by auto
  obtain m1 where m1: "step fp D m = Some (FNext, m1)" "last_quotient m1 = Some (q, w, is_signed)" "bus_ok m1"
    "read m1 (vspace q) (voffset q) (vsize q) = emu_mask w (vsize q)"
    using divide_step [OF D ok(1,2) sz(1) sizes(3) nz w_def] by blast
  have val: "if is_signed then sint (sext w (vsize q)) = Q else uint (emu_mask w (vsize q)) = Q"
  proof (cases is_signed)
    case True
    have "min (8 * vsize q - 1) 63 = 8 * vsize q - 1" "8 * vsize q - 1 < 64" using sizes by auto
    then have "signed_take_bit (8 * vsize q - 1) (uint (word_of_int k :: u64)) = signed_take_bit (8 * vsize q - 1) k" for k
      by (simp add: uint_word_of_int_eq signed_take_bit_take_bit)
    then show ?thesis using True by (simp add: w_def sdiv64_def sint_sext [OF sz(1) sizes(3)] Q)
  next
    case False
    let ?a = "emu_mask (fst (operand D 0 m)) (vsize q)" and ?b = "emu_mask (fst (operand D 1 m)) (vsize q)"
    have "uint ?a < 2 ^ (8 * vsize q)" by (simp add: uint_emu_mask [OF sz(1) sizes(3)])
    moreover have "uint ?b \<noteq> 0" using nz by (metis unsigned_0 word_uint_eq_iff)
    then have "1 \<le> uint ?b" using uint_ge_0 [of ?b] by linarith
    then have "uint ?a div uint ?b \<le> uint ?a" using zdiv_mono2 [of "uint ?a" 1 "uint ?b"] by simp
    moreover have "0 \<le> uint ?a div uint ?b" by (intro div_int_pos_iff [THEN iffD2]) simp
    ultimately have "take_bit (8 * vsize q) (uint ?a div uint ?b) = uint ?a div uint ?b"
      by (simp add: take_bit_int_eq_self_iff pos_imp_zdiv_nonneg_iff)
    then show ?thesis using False by (simp add: w_def Q uint_emu_mask [OF sz(1) sizes(3)] uint_div_distrib)
  qed
  have loss: "\<not> fits \<longleftrightarrow> (if is_signed then sext (emu_mask w (vsize out)) (vsize out) \<noteq> sext w (vsize q)
      else emu_mask w (vsize out) \<noteq> emu_mask w (vsize q))"
    using val fits signed_loss [OF sizes(1) sz(2) sizes(3), of w Q] unsigned_loss [OF sizes(1) sz(2) sizes(3), of w Q]
    by (cases is_signed) (simp_all split del: if_split add: if_True if_False)
  obtain f m2 where s: "step fp S m1 = Some (f, m2)" "f = (if \<not> fits then FFault else FNext)"
    and rd: "\<not> \<not> fits \<longrightarrow> read m2 (vspace out) (voffset out) (vsize out) = emu_mask (emu_mask w (vsize q)) (vsize out)"
    using narrowing_step [OF S m1(3) ok(3) sizes m1(2,4) loss] by blast
  have "take_bit (8 * vsize out) (take_bit (8 * vsize q) (uint w)) = take_bit (8 * vsize out) Q"
  proof (cases is_signed)
    case True
    then have "signed_take_bit (8 * vsize q - 1) (uint w) = Q" using val by (simp add: sint_sext [OF sz(1) sizes(3)])
    moreover have "take_bit (8 * vsize out) (signed_take_bit (8 * vsize q - 1) k) = take_bit (8 * vsize out) k" for k :: int
      using sizes by (simp add: take_bit_signed_take_bit)
    ultimately show ?thesis using sz by (metis take_bit_take_bit min_def mult_le_mono2)
  next
    case False
    then show ?thesis using val by (simp add: uint_emu_mask [OF sz(1) sizes(3)])
  qed
  then have "fits \<longrightarrow> uint (read m2 (vspace out) (voffset out) (vsize out)) = take_bit (8 * vsize out) Q"
    using rd by (simp add: uint_emu_mask [OF sizes(1) sz(3)] uint_emu_mask [OF sz(1) sizes(3)])
  then show ?thesis using m1(1) s by auto
qed


definition demo_narrow :: pcode_op where
  "demo_narrow = \<lparr>opcode_number = 63, op_out = Some \<lparr>vspace = ''register'', voffset = 0, vsize = 4\<rparr>,
     op_ins = [Var \<lparr>vspace = ''unique'', voffset = 0x100, vsize = 8\<rparr>, Var \<lparr>vspace = ''const'', voffset = 0, vsize = 4\<rparr>],
     op_dest = Other\<rparr>"

definition demo_dividend :: machine where
  "demo_dividend = write_val ''register'' 16 8 2 (write_val ''register'' 0 8 0x300000000 demo_machine)"

lemma demo_machine_bus: "bus_ok demo_machine"
  by (auto simp: bus_ok_def demo_machine_def mask_eq_exp_minus_1 intro!: exI [of _ 24])

theorem quotient_narrowing_witness:
  "\<exists>m1 m2. step demo_fpu demo_div demo_dividend = Some (FNext, m1) \<and> step demo_fpu demo_narrow m1 = Some (FFault, m2)"
proof -
  have k: "op_kind (opcode_number demo_div) = Some (if False then IntSdiv else IntDiv)"
    "op_kind (opcode_number demo_narrow) = Some Subpiece"
    by (simp_all add: op_kind_def from_u32_def op_table_def demo_div_def demo_narrow_def)
  have b: "bus_ok demo_dividend" by (simp add: demo_dividend_def demo_machine_bus)
  have v: "fst (operand demo_div 0 demo_dividend) = 0x300000000" "fst (operand demo_div 1 demo_dividend) = 2"
    by code_simp+
  show ?thesis
    using quotient_narrowing [OF k(1) _ k(2) _ _ _ _ b, of "\<lparr>vspace = ''unique'', voffset = 0x100, vsize = 8\<rparr>" _ _ "0x180000000" False demo_fpu] v
    by (simp add: demo_div_def demo_narrow_def is_const_def emu_mask_def)
qed

subsection \<open>Flags\<close>

text \<open>The signed reading of an operand of \<open>sz\<close> bytes.\<close>

abbreviation sval :: "nat \<Rightarrow> u64 \<Rightarrow> int" where
  "sval sz v \<equiv> signed_take_bit (8 * sz - 1) (uint v)"

lemma carry_alu:
  assumes "1 \<le> sz" "sz \<le> 8" "emu_mask a sz = a" "emu_mask b sz = b"
  shows "alu IntCarry sz a b sa sb = Some (of_bool64 (2 ^ (8 * sz) \<le> uint a + uint b))"
proof -
  have u: "uint a < 2 ^ (8 * sz)" "uint b < 2 ^ (8 * sz)"
    using uint_emu_mask [OF assms(1,2), of a] uint_emu_mask [OF assms(1,2), of b] assms(3,4) by (metis take_bit_int_less_exp)+
  have "emu_mask (- 1) sz = mask (8 * sz)" using assms by (simp add: emu_mask_eq)
  then have top: "uint (emu_mask (- 1) sz) = 2 ^ (8 * sz) - 1"
    using assms by (simp only: uint_mask_eq) (simp add: mask_eq_exp_minus_1)
  have none: "checked_add64 a b = None \<longleftrightarrow> 2 ^ 64 \<le> uint a + uint b"
  proof -
    have "checked_add64 a b = None \<longleftrightarrow> 2 ^ 64 \<le> int (unat a + unat b)"
      by (auto simp: checked_add64_def simp del: of_nat_add)
    then show ?thesis by simp
  qed
  have p: "(2 :: int) ^ (8 * sz) \<le> 2 ^ 64" using assms by (intro power_increasing) auto
  have "(a + b > emu_mask (- 1) sz \<or> checked_add64 a b = None) \<longleftrightarrow> 2 ^ (8 * sz) \<le> uint a + uint b"
  proof (cases "2 ^ 64 \<le> uint a + uint b")
    case True
    then show ?thesis using none p by auto
  next
    case False
    then have "uint (a + b) = uint a + uint b" by (simp add: uint_plus_if')
    then show ?thesis using none top False p by (auto simp: word_less_def)
  qed
  then show ?thesis by (simp add: alu_def Let_def assms(3,4))
qed

lemma signed_wrap_sign:
  fixes A B :: int
  assumes n: "1 \<le> n" and A: "- (2 ^ (n - 1)) \<le> A" "A < 2 ^ (n - 1)" and B: "- (2 ^ (n - 1)) \<le> B" "B < 2 ^ (n - 1)"
  shows "(A < 0) = (B < 0) \<and> (A < 0) \<noteq> (signed_take_bit (n - 1) (A + B) < 0) \<longleftrightarrow> A + B \<notin> {- (2 ^ (n - 1))..<2 ^ (n - 1)}"
    "(A < 0) \<noteq> (B < 0) \<and> (A < 0) \<noteq> (signed_take_bit (n - 1) (A - B) < 0) \<longleftrightarrow> A - B \<notin> {- (2 ^ (n - 1))..<2 ^ (n - 1)}"
proof -
  define H :: int where "H = 2 ^ (n - 1)"
  have wrap: "signed_take_bit (n - 1) k = (if H \<le> k then k - 2 * H else if k < - H then k + 2 * H else k)"
    if "- 2 * H \<le> k" "k < 2 * H" for k
  proof -
    have "2 * H = 2 ^ Suc (n - 1)" by (simp add: H_def)
    then have "signed_take_bit (n - 1) (k - 2 * H) = signed_take_bit (n - 1) k" "signed_take_bit (n - 1) (k + 2 * H) = signed_take_bit (n - 1) k"
      by (simp_all only: signed_take_bit_eq_iff_take_bit_eq take_bit_eq_mod mod_add_self2 minus_mod_self2)
    then show ?thesis
      using that signed_take_bit_int_eq_self [of "n - 1" k] signed_take_bit_int_eq_self [of "n - 1" "k - 2 * H"]
        signed_take_bit_int_eq_self [of "n - 1" "k + 2 * H"] unfolding H_def [symmetric] by auto
  qed
  have P: "0 < H" by (simp add: H_def)
  show "(A < 0) = (B < 0) \<and> (A < 0) \<noteq> (signed_take_bit (n - 1) (A + B) < 0) \<longleftrightarrow> A + B \<notin> {- (2 ^ (n - 1))..<2 ^ (n - 1)}"
    using wrap [of "A + B"] A B P unfolding H_def [symmetric] by auto
  show "(A < 0) \<noteq> (B < 0) \<and> (A < 0) \<noteq> (signed_take_bit (n - 1) (A - B) < 0) \<longleftrightarrow> A - B \<notin> {- (2 ^ (n - 1))..<2 ^ (n - 1)}"
    using wrap [of "A - B"] A B P unfolding H_def [symmetric] by auto
qed


lemma signed_take_bit_sint: "n \<le> 63 \<Longrightarrow> signed_take_bit n (sint (w :: u64)) = signed_take_bit n (uint w)"
proof -
  assume "n \<le> 63"
  then have "min n 63 = n" by simp
  moreover have "sint w = signed_take_bit 63 (uint w)" by (simp add: sint_uint)
  ultimately show ?thesis by (simp only: signed_take_bit_signed_take_bit)
qed

lemma sval_range: "1 \<le> sz \<Longrightarrow> - (2 ^ (8 * sz - 1)) \<le> sval sz v" "1 \<le> sz \<Longrightarrow> sval sz v < 2 ^ (8 * sz - 1)"
  by (simp_all add: signed_take_bit_int_greater_eq_minus_exp signed_take_bit_int_less_exp)

lemma signed_overflow_alu:
  assumes sz: "1 \<le> sz" "sz \<le> 8"
  shows "alu IntScarry sz a b (sext a sz) (sext b sz)
      = Some (of_bool64 (sval sz a + sval sz b \<notin> {- (2 ^ (8 * sz - 1))..<2 ^ (8 * sz - 1)}))"
    "alu IntSborrow sz a b (sext a sz) (sext b sz)
      = Some (of_bool64 (sval sz a - sval sz b \<notin> {- (2 ^ (8 * sz - 1))..<2 ^ (8 * sz - 1)}))"
proof -
  have n: "8 * sz - 1 \<le> 63" "1 \<le> 8 * sz" using sz by auto
  have rd: "sint (sext (emu_mask w sz) sz) = signed_take_bit (8 * sz - 1) (sint w)" for w
  proof -
    have "\<not> 8 * sz \<le> 8 * sz - Suc 0" using sz by simp
    then have "signed_take_bit (8 * sz - 1) (take_bit (8 * sz) (uint w)) = signed_take_bit (8 * sz - 1) (uint w)"
      by (simp add: signed_take_bit_take_bit)
    then show ?thesis by (simp only: sint_sext [OF sz] uint_emu_mask [OF sz] signed_take_bit_sint [OF n(1)])
  qed
  have "signed_take_bit (8 * sz - 1) (sint (x + y)) = signed_take_bit (8 * sz - 1) (sint x + sint y)"
    "signed_take_bit (8 * sz - 1) (sint (x - y)) = signed_take_bit (8 * sz - 1) (sint x - sint y)" for x y :: u64
  proof -
    have m: "min (8 * sz - 1) 63 = 8 * sz - 1" using n by simp
    have "sint (x + y) = signed_take_bit 63 (sint x + sint y)" "sint (x - y) = signed_take_bit 63 (sint x - sint y)"
      by (simp_all add: sint_word_ariths)
    then show "signed_take_bit (8 * sz - 1) (sint (x + y)) = signed_take_bit (8 * sz - 1) (sint x + sint y)"
      "signed_take_bit (8 * sz - 1) (sint (x - y)) = signed_take_bit (8 * sz - 1) (sint x - sint y)"
      by (simp_all only: signed_take_bit_signed_take_bit m)
  qed
  note w = this
  note s = signed_wrap_sign [OF n(2) sval_range [OF sz(1), of a] sval_range [OF sz(1), of b]]
  show "alu IntScarry sz a b (sext a sz) (sext b sz)
      = Some (of_bool64 (sval sz a + sval sz b \<notin> {- (2 ^ (8 * sz - 1))..<2 ^ (8 * sz - 1)}))"
    unfolding alu_def Let_def opcode.case unfolding rd w unfolding sint_sext [OF sz] s(1) ..
  show "alu IntSborrow sz a b (sext a sz) (sext b sz)
      = Some (of_bool64 (sval sz a - sval sz b \<notin> {- (2 ^ (8 * sz - 1))..<2 ^ (8 * sz - 1)}))"
    unfolding alu_def Let_def opcode.case unfolding rd w unfolding sint_sext [OF sz] s(2) ..
qed

text \<open>
  (C36) The carry and overflow flags are facts about the operands' width: for operands of \<open>sz\<close> bytes,
  \<open>INT_CARRY\<close> is one exactly when the sum of the operands leaves the unsigned range, and \<open>INT_SCARRY\<close> and
  \<open>INT_SBORROW\<close> exactly when the signed sum and difference leave the signed range.
\<close>

theorem overflow_flags:
  assumes "1 \<le> sz" "sz \<le> 8" "emu_mask a sz = a" "emu_mask b sz = b"
  shows "alu IntCarry sz a b (sext a sz) (sext b sz) = Some (of_bool64 (2 ^ (8 * sz) \<le> uint a + uint b))
    \<and> alu IntScarry sz a b (sext a sz) (sext b sz)
        = Some (of_bool64 (sval sz a + sval sz b \<notin> {- (2 ^ (8 * sz - 1))..<2 ^ (8 * sz - 1)}))
    \<and> alu IntSborrow sz a b (sext a sz) (sext b sz)
        = Some (of_bool64 (sval sz a - sval sz b \<notin> {- (2 ^ (8 * sz - 1))..<2 ^ (8 * sz - 1)}))"
  using carry_alu [OF assms] signed_overflow_alu [OF assms(1,2)] by blast

theorem overflow_flags_witness:
  "alu IntCarry 4 0xffffffff 1 (sext 0xffffffff 4) (sext 1 4) = Some 1
   \<and> alu IntScarry 4 0xffffffff 1 (sext 0xffffffff 4) (sext 1 4) = Some 0"
proof -
  have "emu_mask 0xffffffff 4 = 0xffffffff" "emu_mask 1 4 = 1" by (simp_all add: emu_mask_def shl64_def)
  moreover have "sval 4 0xffffffff = - 1" "sval 4 1 = 1" by (simp_all add: signed_take_bit_eq_take_bit_minus take_bit_eq_mod bit_iff_odd)
  ultimately show ?thesis using overflow_flags [of 4 "0xffffffff" 1] by (simp add: of_bool64_def)
qed

subsection \<open>Complementary comparisons\<close>

text \<open>
  The operation \<open>get_booleanflip\<close> returns for an integer comparison, with its operands exchanged when
  it says so, computes the opposite truth value on every pair of operands; \<open>BOOL_NEGATE\<close> of a truth value
  is undone by \<open>COPY\<close>.
\<close>

theorem booleanflip_complements:
  assumes "get_booleanflip opc = Some (opc', swap)" "\<not> float_family opc" "opc = BoolNegate \<longrightarrow> a \<le> 1"
  shows "\<exists>r. alu opc isz a b sa sb = Some r
    \<and> (if swap then alu opc' isz b a sb sa else alu opc' isz a b sa sb) = Some (of_bool64 (r = 0))"
proof (cases "opc = BoolNegate")
  case True
  have "a = 0 \<or> a = 1" using assms(3) True by (metis word_le_nat_alt le_SucE le_zero_eq unat_0_iff unat_1 One_nat_def word_unat_eq_iff)
  then show ?thesis using True assms(1) by (auto simp: get_booleanflip_def alu_def of_bool64_def)
next
  case False
  then have "opc \<in> {IntEqual, IntNotequal, IntSless, IntSlessequal, IntLess, IntLessequal}"
    using assms(1,2) unfolding get_booleanflip_def float_family_def by (cases opc) auto
  moreover have "of_bool64 p = 0 \<longleftrightarrow> \<not> p" for p by (simp add: of_bool64_def)
  ultimately show ?thesis using assms(1)
    by (elim insertE) (simp_all add: get_booleanflip_def alu_def not_less not_le)
qed

theorem booleanflip_complements_witness:
  "\<exists>r. alu IntLess 4 3 5 3 5 = Some r \<and> alu IntLessequal 4 5 3 5 3 = Some (of_bool64 (r = 0))"
  using booleanflip_complements [of IntLess IntLessequal True 3 4 5 3 5] by (simp add: get_booleanflip_def float_family_def)

subsection \<open>What a step computes\<close>

lemma alu_one_operand: "one_operand opc \<Longrightarrow> alu opc isz a b sa sb = alu opc isz a 0 sa 0"
  unfolding one_operand_def by (elim insertE) (simp_all add: alu_def)

text \<open>The value of an operation on a machine: \<open>alu\<close> applied to the operands as read.\<close>

definition value_on :: "opcode \<Rightarrow> pcode_op \<Rightarrow> machine \<Rightarrow> u64 option" where
  "value_on opc op m = alu opc (first_size op (if opc = Lzcount then 8 else out_size op))
     (fst (operand op 0 m)) (fst (operand op 1 m)) (fst (soperand op 0 m)) (fst (soperand op 1 m))"

lemma value_arm_on: "value_arm opc op (out_size op) m
    = (value_on opc op m, if one_operand opc then snd (operand op 0 m) else snd (operand op 1 (snd (operand op 0 m))))"
proof -
  have f: "fst (operand op 1 (snd (operand op i m))) = fst (operand op 1 m)"
    "fst (soperand op 1 (snd (operand op i m))) = fst (soperand op 1 m)" for i
    by (rule operand_frame [OF operand_read] soperand_frame [OF operand_read])+
  show ?thesis
  proof (cases "one_operand opc")
    case True
    then show ?thesis
      unfolding value_arm_def value_on_def Let_def case_prod_beta alu_one_operand [OF True, of _ _ "fst (operand op 1 m)"] by simp
  next
    case False
    then show ?thesis using f by (simp add: value_arm_def value_on_def Let_def case_prod_beta)
  qed
qed

lemma write_result_reads:
  assumes "bus_ok m" "op_out op = Some v" "vspace v \<noteq> ''const''" "1 \<le> vsize v" "vsize v \<le> 8"
  shows "read (write_result op r m) (vspace v) (voffset v) (vsize v) = emu_mask r (vsize v)"
    "s \<noteq> vspace v \<or> value_addrs m s off sz \<inter> value_addrs m (vspace v) (voffset v) (vsize v) = {} \<Longrightarrow>
       read (write_result op r m) s off sz = read m s off sz"
  unfolding write_result_read [OF assms(2)]
  by (simp_all add: read_write_same [OF assms(1,3,4,5)] read_write_other [OF assms(1,3)] emu_mask_def and.assoc)

lemma value_addrs_config: "same_config m m' \<Longrightarrow> value_addrs m' = value_addrs m"
  using byte_at_frame [of m' m] by (intro ext) (simp add: value_addrs_def same_config_def)

text \<open>
  (C29) An operation that computes a value writes it, cut to the output's size, to its output location and
  goes on to the next operation; every location in another space or sharing no byte with the output reads
  as before.
\<close>

theorem step_computes:
  assumes k: "op_kind (opcode_number op) = Some opc" "value_on opc op m = Some r" and o: "op_out op = Some v"
    and ok: "bus_ok m" "vspace v \<noteq> ''const''" "1 \<le> vsize v" "vsize v \<le> 8"
  shows "\<exists>m'. step fp op m = Some (FNext, m')
    \<and> read m' (vspace v) (voffset v) (vsize v) = emu_mask r (vsize v)
    \<and> (\<forall>s off sz. s \<noteq> vspace v \<or> value_addrs m s off sz \<inter> value_addrs m (vspace v) (voffset v) (vsize v) = {}
         \<longrightarrow> read m' s off sz = read m s off sz)"
proof -
  have p: "plain_op opc" "\<not> float_family opc"
    using k(2) unfolding value_on_def plain_op_def float_family_def by (auto simp: alu_def)
  let ?m1 = "snd (value_arm opc op (out_size op) m)"
  have "step_arm fp op m = Some (Inr r, ?m1)"
    using k p by (simp add: step_arm_plain [OF k(1) p(1)] value_arm_on)
  then have s: "step fp op m = Some (FNext, write_result op r ?m1)" by (simp add: step_def)
  have c: "same_config m ?m1" by (rule config.R_value_arm [OF config.R_refl])
  have "mem ?m1 = mem m" by (simp add: value_arm_on machine_simps)
  then have rd: "read ?m1 = read m" by (rule read_frame [OF _ c])
  have b: "bus_ok ?m1" using ok(1) c by (simp add: bus_ok_def same_config_def)
  note w = write_result_reads [OF b o ok(2-4)]
  show ?thesis
    by (intro exI [of _ "write_result op r ?m1"] conjI s w(1) allI impI)
      (simp add: w(2) value_addrs_config [OF c] rd)
qed

definition demo_add :: pcode_op where
  "demo_add = \<lparr>opcode_number = 19, op_out = Some \<lparr>vspace = ''register'', voffset = 0, vsize = 4\<rparr>,
     op_ins = [reg_var 0 4, reg_var 4 4], op_dest = Other\<rparr>"

definition demo_addends :: machine where
  "demo_addends = write_val ''register'' 4 4 1 (write_val ''register'' 0 4 0xffffffff demo_machine)"

theorem step_computes_witness:
  "\<exists>m'. step demo_fpu demo_add demo_addends = Some (FNext, m') \<and> read m' ''register'' 0 4 = 0 \<and> read m' ''register'' 4 4 = 1"
proof -
  have k: "op_kind (opcode_number demo_add) = Some IntAdd" by (simp add: op_kind_def from_u32_def op_table_def demo_add_def)
  have b: "bus_ok demo_addends" by (simp add: demo_addends_def demo_machine_bus)
  have v: "fst (operand demo_add 0 demo_addends) = 0xffffffff" "fst (operand demo_add 1 demo_addends) = 1"
    "read demo_addends ''register'' 4 4 = 1" by code_simp+
  have r: "value_on IntAdd demo_add demo_addends = Some 0x100000000"
    unfolding value_on_def v by (simp add: alu_def)
  have d: "value_addrs demo_addends ''register'' 4 4 \<inter> value_addrs demo_addends ''register'' 0 4 = {}" by code_simp
  show ?thesis
    using step_computes [OF k r _ b, of "\<lparr>vspace = ''register'', voffset = 0, vsize = 4\<rparr>" demo_fpu] v d
    by (auto simp: demo_add_def emu_mask_def shl64_def)
qed

text \<open>
  An operation outside the modelled set is never silent: it goes on with a zero in its output, but it
  is counted and its label is in the census of operations not modelled, so that the run cannot be taken as
  evidence.
\<close>

definition unmodeled_op :: "opcode \<Rightarrow> bool" where
  "unmodeled_op opc \<longleftrightarrow> opc \<in> {Piece, Cast, Ptradd, Ptrsub, Segmentop, Cpoolref, New, Insert, Extract}"

lemma write_result_census [machine_simps]:
  "unmodeled (write_result op r m) = unmodeled m" "unmodeled_ops (write_result op r m) = unmodeled_ops m"
  by (auto simp: write_result_def Let_def write_val_def insert_bytes_def record_effect_def split: option.splits)

theorem unmodeled_is_counted:
  assumes k: "op_kind (opcode_number op) = None \<or> (\<exists>opc. op_kind (opcode_number op) = Some opc \<and> unmodeled_op opc)"
  shows "\<exists>m'. step fp op m = Some (FNext, m') \<and> unmodeled m' = unmodeled m + 1
    \<and> set (unmodeled_ops m') = insert (unmodeled_label (pcode_op_name op) op m) (set (unmodeled_ops m))
    \<and> (\<forall>v. op_out op = Some v \<and> bus_ok m \<and> vspace v \<noteq> ''const'' \<and> 1 \<le> vsize v \<and> vsize v \<le> 8
         \<longrightarrow> read m' (vspace v) (voffset v) (vsize v) = 0)"
proof -
  let ?m1 = "count_unmodeled (pcode_op_name op) op m"
  have "step_arm fp op m = Some (Inr 0, ?m1)"
  proof (cases "op_kind (opcode_number op)")
    case None
    then show ?thesis by (simp add: step_arm_def)
  next
    case (Some opc)
    then have u: "unmodeled_op opc" using k by auto
    then have p: "plain_op opc" "\<not> float_family opc" "value_on opc op m = None"
      by (auto simp: unmodeled_op_def plain_op_def float_family_def value_on_def alu_def)
    then show ?thesis by (simp add: step_arm_plain [OF Some p(1)] value_arm_on)
  qed
  then have s: "step fp op m = Some (FNext, write_result op 0 ?m1)" by (simp add: step_def)
  have "same_config m ?m1" by (rule config.R_count [OF config.R_refl])
  then have "bus_ok m \<Longrightarrow> bus_ok ?m1" by (simp add: bus_ok_def same_config_def)
  then have "read (write_result op 0 ?m1) (vspace v) (voffset v) (vsize v) = 0"
    if "op_out op = Some v" "bus_ok m" "vspace v \<noteq> ''const''" "1 \<le> vsize v" "vsize v \<le> 8" for v
    using write_result_reads(1) [of ?m1 op v 0] that by (simp add: emu_mask_zero)
  then show ?thesis using s
    by (intro exI [of _ "write_result op 0 ?m1"])
      (auto simp: machine_simps count_unmodeled_def note_unmodeled_def unmodeled_label_def)
qed

definition demo_segment :: pcode_op where
  "demo_segment = \<lparr>opcode_number = 67, op_out = None, op_ins = [], op_dest = Other\<rparr>"

theorem unmodeled_is_counted_witness:
  "\<exists>m'. step demo_fpu demo_segment demo_machine = Some (FNext, m') \<and> unmodeled m' = 1 \<and> set (unmodeled_ops m') = {''SEGMENTOP''}"
proof -
  have "op_kind (opcode_number demo_segment) = Some Segmentop" "unmodeled_op Segmentop"
    by (simp_all add: op_kind_def from_u32_def op_table_def demo_segment_def unmodeled_op_def)
  moreover have "pcode_op_name demo_segment = ''SEGMENTOP''"
    by (simp add: pcode_op_name_def opcode_name_def opcode_names_def demo_segment_def)
  ultimately show ?thesis using unmodeled_is_counted [of demo_segment demo_fpu demo_machine]
    by (auto simp: unmodeled_label_def demo_machine_def machine_default_def)
qed

text \<open>
  A step only extends the record: the effects and sites recorded before stay a prefix, each new effect is
  at the machine's current site, nothing is recorded on a machine that does not trace, and no operation
  changes the machine's configuration (its fill and image, byte orders, address lines, user operations,
  state modifier).
\<close>

theorem step_extends_record: "step fp op m = Some (f, m') \<Longrightarrow> appends m m' \<and> same_config m m'"
  by (auto dest: trail.R_step [OF _ trail.R_refl] config.R_step [OF _ config.R_refl])

theorem step_extends_record_witness:
  "\<exists>f m'. step demo_fpu demo_segment demo_machine = Some (f, m') \<and> appends demo_machine m'"
proof -
  obtain f m' where "step demo_fpu demo_segment demo_machine = Some (f, m')"
    by (simp add: step_def step_arm_def op_kind_def from_u32_def op_table_def demo_segment_def value_arm_def Let_def
        case_prod_beta alu_def float_family_def)
  then show ?thesis using step_extends_record by blast
qed

end
