(* ===== verification/Emu_Run.thy ===== *)
theory Emu_Run
  imports Emu_Step
begin

text \<open>
  Running a program: the linear sweep of \<^verbatim>\<open>Spec::disassemble_ctx\<close> (\<^verbatim>\<open>sleigh/engine.rs\<close>), the differential run
  \<^verbatim>\<open>run_traced\<close>, and \<^verbatim>\<open>Image\<close> with its on-demand decoding and \<^verbatim>\<open>resume\<close> (\<^verbatim>\<open>sleigh/emu.rs\<close>).  The operations of one
  instruction form a loop bounded by the step budget; the loop over instructions takes fuel.
\<close>

subsection \<open>The linear sweep\<close>

definition insn_length :: "spec \<Rightarrow> resolved \<Rightarrow> u8 list \<Rightarrow> u64 \<Rightarrow> nat" where
  "insn_length spec node buf addr =
     (let ilen = max (r_length node) 1
      in if r_delay_slot node \<and> ilen < length buf
         then (case sp_resolve spec (drop ilen buf) (addr + of_nat ilen) (r_context node) of
                 Some dn \<Rightarrow> ilen + max (r_length dn) 1
               | None \<Rightarrow> ilen)
         else ilen)"

lemma insn_length_pos [simp]: "0 < insn_length spec node buf addr"
  by (auto simp: insn_length_def Let_def split: option.splits)

function disassemble_from :: "spec \<Rightarrow> u8 list \<Rightarrow> u64 \<Rightarrow> u32 list \<Rightarrow> nat \<Rightarrow> instruction list" where
  "disassemble_from spec bytes base context pos =
     (if pos < length bytes then
        (case sp_resolve spec (drop pos bytes) (base + of_nat pos) context of
           None \<Rightarrow> []
         | Some node \<Rightarrow>
             (let addr = base + of_nat pos;
                  ilen = insn_length spec node (drop pos bytes) addr;
                  next_addr = addr + of_nat ilen;
                  nb = min ilen (length bytes - pos)
              in \<lparr>i_address = addr, i_bytes = take nb (drop pos bytes) @ replicate (ilen - nb) 0,
                   i_mnemonic = r_mnemonic node next_addr, i_ops = r_ops node next_addr\<rparr>
                 # disassemble_from spec bytes base context (pos + ilen)))
      else [])"
  by pat_completeness auto
termination
  by (relation "measure (\<lambda>(spec, bytes, base, context, pos). length bytes - pos)")
    (auto simp: Let_def intro!: diff_less_mono2)

declare disassemble_from.simps [simp del]

definition disassemble_ctx :: "spec \<Rightarrow> u8 list \<Rightarrow> u64 \<Rightarrow> u32 list \<Rightarrow> instruction list" where
  "disassemble_ctx spec bytes base context = disassemble_from spec bytes base context 0"


subsection \<open>A differential run\<close>

record run_config =
  c_seed :: u64
  c_scratch :: "u64 \<times> u64"
  c_call_args :: "u64 \<rightharpoonup> (u64 \<times> nat) list"
  c_default_args :: "(u64 \<times> nat) list"
  c_stack_targets :: "u64 set"
  c_sp :: "u64 \<times> nat"
  c_call_clobbers :: "(u64 \<times> nat) list"
  c_call_modifies :: "u64 \<rightharpoonup> (u64 \<times> nat) list"
  c_call_flag_clobbers :: "(u64 \<times> nat) list"
  c_call_flag_returns :: "u64 \<rightharpoonup> flag_return"
  c_site_flag_returns :: "u64 \<rightharpoonup> flag_return"
  c_ordinal_flag_returns :: "u64 \<rightharpoonup> flag_return"
  c_call_reg_returns :: "u64 \<rightharpoonup> reg_return"
  c_site_reg_returns :: "u64 \<rightharpoonup> reg_return"
  c_ordinal_reg_returns :: "u64 \<rightharpoonup> reg_return"
  c_is_candidate_run :: bool
  c_max_steps :: nat
  c_pool :: "u64 list"
  c_image :: "(u64 \<times> u8 list) list"
  c_max_effects :: nat

definition or_opt :: "'a option \<Rightarrow> 'a option \<Rightarrow> 'a option" where
  "or_opt a b = (case a of None \<Rightarrow> b | Some x \<Rightarrow> Some x)"

definition first_arg :: "pcode_op \<Rightarrow> parg" where
  "first_arg op = (case op_ins op of [] \<Rightarrow> Space [] | a # _ \<Rightarrow> a)"

text \<open>The callee of a call: the varnode's own offset when direct, the value it holds when indirect.\<close>

definition call_target :: "bool \<Rightarrow> pcode_op \<Rightarrow> machine \<Rightarrow> u64 \<times> machine" where
  "call_target indirect op m =
     (if indirect then read_arg (first_arg op) m
      else
        case op_ins op of
          Var v # _ \<Rightarrow> if is_const v then read_arg (first_arg op) m else (voffset v, m)
        | _ \<Rightarrow> read_arg (first_arg op) m)"

definition clobber_registers :: "run_config \<Rightarrow> u64 \<Rightarrow> u64 \<Rightarrow> machine \<Rightarrow> machine" where
  "clobber_registers cfg target calls m =
     (let clobbers = (case c_call_modifies cfg target of None \<Rightarrow> c_call_clobbers cfg | Some v \<Rightarrow> v);
          m = fold (\<lambda>(off, sz). wr_reg off sz (call_clobber_fill (c_seed cfg) target calls off)) clobbers m
      in fold (\<lambda>(off, sz). wr_reg off sz (call_flag_bit (c_seed cfg) target calls off)) (c_call_flag_clobbers cfg) m)"

definition deliver_flag :: "run_config \<Rightarrow> u64 \<Rightarrow> u64 \<Rightarrow> flag_return \<Rightarrow> machine \<Rightarrow> machine" where
  "deliver_flag cfg target calls fr m =
     (case fr_from fr of
        FromBit \<Rightarrow>
          (let b = call_flag_bit (c_seed cfg) target calls (fst (fr_flag fr));
               m = wr_reg (fst (fr_flag fr)) (snd (fr_flag fr)) b m
           in if c_is_candidate_run cfg then wr_reg (fst (fr_reg fr)) (snd (fr_reg fr)) b m else m)
      | from \<Rightarrow>
          (let v = rd_reg m (fst (fr_reg fr)) (snd (fr_reg fr));
               b = (if from = IsZero then of_bool64 (v = 0) else shr64 v (8 * snd (fr_reg fr) - 1) AND 1)
           in wr_reg (fst (fr_flag fr)) (snd (fr_flag fr)) b m))"

text \<open>A \<open>CALL\<close> or \<open>CALLIND\<close> as an event: recorded, then the callee's deterministic effect.\<close>

definition call_event :: "run_config \<Rightarrow> u64 \<Rightarrow> bool \<Rightarrow> pcode_op \<Rightarrow> u64 \<Rightarrow> machine \<Rightarrow> u64 \<times> machine" where
  "call_event cfg pc indirect op calls0 m =
     (let (target, m) = call_target indirect op m;
          vals = (if indirect \<or> target \<in> c_stack_targets cfg then []
                  else map (\<lambda>(off, sz). rd_reg m off sz)
                         (case c_call_args cfg target of None \<Rightarrow> c_default_args cfg | Some v \<Rightarrow> v));
          m = record_effect (ECall target vals) m;
          calls = calls0 + 1;
          (spoff, spsz) = c_sp cfg;
          m = wr_reg spoff spsz (rd_reg m spoff spsz + of_nat spsz) m;
          m = clobber_registers cfg target calls m;
          by_site = c_site_flag_returns cfg pc;
          m = (case by_site of None \<Rightarrow> m
               | Some fr \<Rightarrow> m\<lparr>flag_return_ordinals := flag_return_ordinals m @ [(calls, fr)]\<rparr>);
          m = (case or_opt (or_opt (c_call_flag_returns cfg target) by_site) (c_ordinal_flag_returns cfg calls) of
                 None \<Rightarrow> m
               | Some fr \<Rightarrow> deliver_flag cfg target calls fr m);
          reg_by_site = c_site_reg_returns cfg pc;
          m = (case reg_by_site of None \<Rightarrow> m
               | Some rr \<Rightarrow> m\<lparr>reg_return_ordinals := reg_return_ordinals m @ [(calls, rr)]\<rparr>);
          m = (case or_opt (or_opt (c_call_reg_returns cfg target) reg_by_site) (c_ordinal_reg_returns cfg calls) of
                 None \<Rightarrow> m
               | Some rr \<Rightarrow>
                   if c_is_candidate_run cfg
                   then wr_reg (fst (rr_dst rr)) (snd (rr_dst rr))
                          (call_clobber_fill (c_seed cfg) target calls (fst (rr_src rr))) m
                   else m)
      in (calls, m))"

text \<open>How the operations of one instruction end: the run ends, or it goes on, by a jump or by falling through.\<close>

datatype ops_end = EndRun bool | GoOn "u64 option"

definition relative_index :: "nat \<Rightarrow> u64 \<Rightarrow> nat" where
  "relative_index i d = nat (max 0 (int i + sint d))"

lemma budget_measure:
  "\<not> (c_max_steps cfg < steps + 1 \<or> b) \<Longrightarrow> ((fp, cfg, pc, ops, i', steps + 1, calls', m'), (fp, cfg, pc, ops, i, steps, calls, m))
     \<in> measure (\<lambda>(fp, cfg, pc, ops, i, steps, calls, m). c_max_steps cfg - steps)"
  by auto

function run_ops ::
  "'f fpu \<Rightarrow> run_config \<Rightarrow> u64 \<Rightarrow> pcode_op list \<Rightarrow> nat \<Rightarrow> nat \<Rightarrow> u64 \<Rightarrow> machine
   \<Rightarrow> (ops_end \<times> nat \<times> u64 \<times> machine) option" where
  "run_ops fp cfg pc ops i steps calls m =
     (if i < length ops then
        if c_max_steps cfg < steps + 1 \<or> c_max_effects cfg < length (effects m) then Some (EndRun False, steps + 1, calls, m)
        else
          let m1 = m\<lparr>at_site := (pc, steps + 1)\<rparr>; op = ops ! i in
          if op_kind (opcode_number op) \<in> {Some Call, Some Callind} then
            (case call_event cfg pc (op_kind (opcode_number op) = Some Callind) op calls m1 of
               (calls', m2) \<Rightarrow> run_ops fp cfg pc ops (i + 1) (steps + 1) calls' m2)
          else if op_kind (opcode_number op) = Some Return then Some (EndRun True, steps + 1, calls, m1)
          else
            (case step fp op m1 of
               None \<Rightarrow> None
             | Some (FNext, m2) \<Rightarrow> run_ops fp cfg pc ops (i + 1) (steps + 1) calls m2
             | Some (FRel d, m2) \<Rightarrow> run_ops fp cfg pc ops (relative_index i d) (steps + 1) calls m2
             | Some (FJump t, m2) \<Rightarrow> Some (GoOn (Some t), steps + 1, calls, m2)
             | Some (FStop, m2) \<Rightarrow> Some (EndRun True, steps + 1, calls, m2)
             | Some (FFault, m2) \<Rightarrow> Some (EndRun True, steps + 1, calls, m2))
      else Some (GoOn None, steps, calls, m))"
  by pat_completeness auto
termination
  by (relation "measure (\<lambda>(fp, cfg, pc, ops, i, steps, calls, m). c_max_steps cfg - steps)")
    (rule wf_measure, (erule budget_measure)+)

declare run_ops.simps [simp del]

type_synonym prog = "u64 \<rightharpoonup> pcode_op list \<times> u64 \<times> insn option"

definition prog_entry :: "m68k option \<Rightarrow> instruction \<Rightarrow> pcode_op list \<times> u64 \<times> insn option" where
  "prog_entry m68k i =
     (i_ops i, i_address i + of_nat (length (i_bytes i)),
      case m68k of None \<Rightarrow> None | Some _ \<Rightarrow> classify (i_mnemonic i) (i_bytes i))"

definition sweep :: "spec \<Rightarrow> u8 list \<Rightarrow> u64 \<Rightarrow> u32 list \<Rightarrow> prog" where
  "sweep spec bytes base context =
     map_of (rev (map (\<lambda>i. (i_address i, prog_entry (for_spec spec) i)) (disassemble_ctx spec bytes base context)))"

definition decode_window :: nat where
  "decode_window = 64"

text \<open>The instruction at \<open>pc\<close>, decoded on demand when the sweep did not reach it.\<close>

definition fetch :: "spec \<Rightarrow> u8 list \<Rightarrow> u64 \<Rightarrow> u32 list \<Rightarrow> u64 \<Rightarrow> prog \<Rightarrow> prog option" where
  "fetch spec bytes base context pc prog =
     (if prog pc \<noteq> None then Some prog
      else if pc < base then None
      else
        let off = unat (pc - base) in
        if length bytes \<le> off then None
        else
          let e = min (off + decode_window) (length bytes) in
          (case disassemble_ctx spec (take (e - off) (drop off bytes)) pc context of
             [] \<Rightarrow> None
           | insn # _ \<Rightarrow>
               if e = length bytes \<or> i_address insn + of_nat (length (i_bytes insn)) \<le> base + of_nat e
               then Some (prog(pc \<mapsto> prog_entry (for_spec spec) insn))
               else None))"

subsection \<open>Loops over turns\<close>

text \<open>A loop as the iteration of one turn: it ends with a result, goes on with a new state, or panics.\<close>

datatype 'r outcome = Ran 'r | Panics | No_fuel

datatype ('s, 'r) turn = Ends 'r | Again 's | Aborts

fun iterate :: "('s \<Rightarrow> ('s, 'r) turn) \<Rightarrow> nat \<Rightarrow> 's \<Rightarrow> 'r outcome" where
  "iterate t 0 s = No_fuel"
| "iterate t (Suc fuel) s = (case t s of Ends r \<Rightarrow> Ran r | Again s' \<Rightarrow> iterate t fuel s' | Aborts \<Rightarrow> Panics)"

locale loop_invariant =
  fixes t :: "'s \<Rightarrow> ('s, 'r) turn" and inv :: "'s \<Rightarrow> bool" and post :: "'r \<Rightarrow> bool"
  assumes inv_again: "inv s \<Longrightarrow> t s = Again s' \<Longrightarrow> inv s'"
    and inv_ends: "inv s \<Longrightarrow> t s = Ends r \<Longrightarrow> post r"
begin

lemma iterate_post: "inv s \<Longrightarrow> iterate t fuel s = Ran r \<Longrightarrow> post r"
  by (induction fuel arbitrary: s) (auto split: turn.splits dest: inv_again inv_ends)

end

locale loop_variant =
  fixes t :: "'s \<Rightarrow> ('s, 'r) turn" and inv :: "'s \<Rightarrow> bool" and variant :: "'s \<Rightarrow> nat"
  assumes keeps: "inv s \<Longrightarrow> t s = Again s' \<Longrightarrow> inv s'"
    and decreases: "inv s \<Longrightarrow> t s = Again s' \<Longrightarrow> variant s' < variant s"
begin

lemma iterate_ends: "inv s \<Longrightarrow> variant s < fuel \<Longrightarrow> iterate t fuel s \<noteq> No_fuel"
proof (induction fuel arbitrary: s)
  case (Suc fuel)
  show ?case
  proof (cases "t s")
    case (Again s')
    with Suc show ?thesis using keeps decreases by fastforce
  qed simp_all
qed simp

end

type_synonym run_state = "prog \<times> u64 \<times> nat \<times> u64 \<times> machine"

definition run_turn ::
  "'f fpu \<Rightarrow> spec \<Rightarrow> u8 list \<Rightarrow> u64 \<Rightarrow> u32 list \<Rightarrow> run_config \<Rightarrow> run_state \<Rightarrow> (run_state, machine \<times> bool) turn" where
  "run_turn fp spec bytes base context cfg st =
     (case st of (prog, pc, steps, calls, m) \<Rightarrow>
        (case fetch spec bytes base context pc prog of
           None \<Rightarrow> Ends (m, False)
         | Some prog' \<Rightarrow>
             (case the (prog' pc) of (ops, next_pc, fix) \<Rightarrow>
                (case (case fix of None \<Rightarrow> (False, m) | Some f \<Rightarrow> begin_adjusted f (m\<lparr>at_site := (pc, steps + 1)\<rparr>)) of
                   (True, m1) \<Rightarrow> Again (prog', next_pc, steps + 1, calls, m1)
                 | (False, m1) \<Rightarrow>
                     (case run_ops fp cfg pc ops 0 steps calls m1 of
                        None \<Rightarrow> Aborts
                      | Some (EndRun finished, _, _, m2) \<Rightarrow> Ends (m2, finished)
                      | Some (GoOn jump, steps', calls', m2) \<Rightarrow>
                          Again (prog', case jump of None \<Rightarrow> next_pc | Some t \<Rightarrow> t, steps', calls', end_adjusted m2))))))"

definition big_endian_spaces :: "spec \<Rightarrow> string set" where
  "big_endian_spaces spec = set (map fst (filter snd (sp_spaces spec)))"

definition default_space_name :: "spec \<Rightarrow> string" where
  "default_space_name spec =
     (if sp_default_space spec < length (sp_spaces spec) then fst (sp_spaces spec ! sp_default_space spec) else [])"

definition traced_machine :: "spec \<Rightarrow> (string \<times> u64 \<times> u64 \<times> nat) list \<Rightarrow> run_config \<Rightarrow> machine" where
  "traced_machine spec inputs cfg =
     (let m = machine_default\<lparr>fill := Some (c_seed cfg), pool := c_pool cfg, trace := True, quiet := Some (c_scratch cfg),
                userops := sp_userops spec, swi_args := c_default_args cfg, big_endian := big_endian_spaces spec,
                modifier := for_spec spec\<rparr>;
          m = fold (\<lambda>(at, chunk) m. fold (\<lambda>(i, b). write_val (default_space_name spec) (at + of_nat i) 1 (ucast b))
                      (enumerate 0 chunk) m) (c_image cfg) m;
          m = fold (\<lambda>(space, offset, value, sz). write_val space offset sz value) inputs m
      in m\<lparr>effects := [], effect_sites := []\<rparr>)"

definition run_traced ::
  "'f fpu \<Rightarrow> nat \<Rightarrow> spec \<Rightarrow> u8 list \<Rightarrow> u64 \<Rightarrow> u32 list \<Rightarrow> (string \<times> u64 \<times> u64 \<times> nat) list \<Rightarrow> run_config
   \<Rightarrow> (machine \<times> bool) outcome" where
  "run_traced fp fuel spec bytes base context inputs cfg =
     (case iterate (run_turn fp spec bytes base context cfg) fuel
             (sweep spec bytes base context, base, 0, 0, traced_machine spec inputs cfg) of
        Ran (m, finished) \<Rightarrow> Ran (m\<lparr>adjusting := None\<rparr>, finished)
      | r \<Rightarrow> r)"

subsection \<open>Images\<close>

datatype stop = Returned | Faulted | NoInstruction u64 | StepCap

record run =
  run_machine :: machine
  run_steps :: nat
  run_stop :: stop

record run_options =
  o_entry :: "u64 option"
  o_follow_calls :: bool
  o_max_steps :: nat
  o_trace :: bool
  o_stubs :: "u64 set"

definition run_options_default :: run_options where
  "run_options_default = \<lparr>o_entry = None, o_follow_calls = False, o_max_steps = 5000000, o_trace = False, o_stubs = {}\<rparr>"

record decoded =
  dc_ops :: "pcode_op list"
  dc_next :: u64
  dc_calls :: bool
  dc_adjust :: "insn option"

record image =
  im_spec :: spec
  im_blocks :: "(u64 \<times> u8 list) list"
  im_base :: u64
  im_context :: "u32 list"
  im_decoded :: "(u64 \<times> decoded) list"
  im_memory :: "backing option"
  im_stack_pointer :: "(u64 \<times> nat) option"
  im_address_mask :: "u64 option"
  im_m68k :: "m68k option"

definition from_blocks :: "spec \<Rightarrow> (u64 \<times> u8 list) list \<Rightarrow> u32 list \<Rightarrow> image" where
  "from_blocks spec blocks0 context =
     (let blocks = sort_key fst (filter (\<lambda>(_, b). b \<noteq> []) blocks0)
      in \<lparr>im_spec = spec, im_blocks = blocks, im_base = (case blocks of [] \<Rightarrow> 0 | (start, _) # _ \<Rightarrow> start),
          im_context = context, im_decoded = [], im_memory = None, im_stack_pointer = None,
          im_address_mask = None, im_m68k = for_spec spec\<rparr>)"

definition image_new :: "spec \<Rightarrow> u8 list \<Rightarrow> u64 \<Rightarrow> u32 list \<Rightarrow> image" where
  "image_new spec bytes base context = (from_blocks spec [(base, bytes)] context)\<lparr>im_base := base\<rparr>"

definition with_stack_pointer :: "u64 \<Rightarrow> nat \<Rightarrow> image \<Rightarrow> image" where
  "with_stack_pointer offset sz im = im\<lparr>im_stack_pointer := Some (offset, sz)\<rparr>"

definition with_address_mask :: "u64 \<Rightarrow> image \<Rightarrow> image" where
  "with_address_mask am im = im\<lparr>im_address_mask := Some am\<rparr>"

definition with_image_memory :: "image \<Rightarrow> image" where
  "with_image_memory im =
     im\<lparr>im_memory := Some \<lparr>bk_space = fst (sp_spaces (im_spec im) ! sp_default_space (im_spec im)), bk_blocks = im_blocks im\<rparr>\<rparr>"

definition image_decoded :: "image \<Rightarrow> nat" where
  "image_decoded im = length (im_decoded im)"

definition decoded_entry :: "m68k option \<Rightarrow> instruction \<Rightarrow> decoded" where
  "decoded_entry m68k i =
     \<lparr>dc_ops = i_ops i, dc_next = i_address i + of_nat (length (i_bytes i)),
      dc_calls = list_ex (\<lambda>o'. op_kind (opcode_number o') \<in> {Some Call, Some Callind}) (i_ops i),
      dc_adjust = (case m68k of None \<Rightarrow> None | Some _ \<Rightarrow> classify (i_mnemonic i) (i_bytes i))\<rparr>"

text \<open>The instructions of a window that may be kept: all of them, or those that end inside a cut window.\<close>

definition whole_insns :: "bool \<Rightarrow> u64 \<Rightarrow> instruction list \<Rightarrow> instruction list" where
  "whole_insns is_cut window_end insns =
     takeWhile (\<lambda>i. \<not> (is_cut \<and> window_end < i_address i + of_nat (length (i_bytes i)))) insns"

definition decode_at :: "u64 \<Rightarrow> image \<Rightarrow> image option" where
  "decode_at pc im =
     (case partition_point (\<lambda>(start, _). start \<le> pc) (im_blocks im) of
        0 \<Rightarrow> None
      | Suc k \<Rightarrow>
          (let (start, bytes) = im_blocks im ! k; off = unat (pc - start)
           in if length bytes \<le> off then None
              else
                let e = min (off + decode_window) (length bytes);
                    insns = whole_insns (e < length bytes) (start + of_nat e)
                              (disassemble_ctx (im_spec im) (take (e - off) (drop off bytes)) pc (im_context im))
                in Some (im\<lparr>im_decoded := fold (\<lambda>i. or_insert (i_address i) (decoded_entry (im_m68k im) i)) insns (im_decoded im)\<rparr>)))"

definition image_at :: "u64 \<Rightarrow> image \<Rightarrow> decoded option \<times> image" where
  "image_at pc im =
     (if map_of (im_decoded im) pc \<noteq> None then (map_of (im_decoded im) pc, im)
      else
        case decode_at pc im of
          None \<Rightarrow> (None, im)
        | Some im' \<Rightarrow> (map_of (im_decoded im') pc, im'))"

definition image_machine :: "image \<Rightarrow> machine" where
  "image_machine im = machine_default\<lparr>
     userops := sp_userops (im_spec im), backing_image := im_memory im, big_endian := big_endian_spaces (im_spec im),
     address_mask := map_option (Pair (fst (sp_spaces (im_spec im) ! sp_default_space (im_spec im)))) (im_address_mask im),
     modifier := im_m68k im\<rparr>"

subsection \<open>Running an image\<close>

text \<open>The calls entered and not yet returned from, innermost first.\<close>

type_synonym frames = "(u64 \<times> u64 option) list"

definition restore_sp :: "(u64 \<times> nat) option \<Rightarrow> u64 option \<Rightarrow> machine \<Rightarrow> machine" where
  "restore_sp stack sp m = (case (stack, sp) of (Some (off, sz), Some v) \<Rightarrow> wr_reg off sz v m | _ \<Rightarrow> m)"

definition image_call_target :: "bool \<Rightarrow> run_options \<Rightarrow> pcode_op \<Rightarrow> machine \<Rightarrow> u64 option \<times> machine" where
  "image_call_target direct opts op m =
     (if o_follow_calls opts \<or> trace m
      then (case op_ins op of
              [] \<Rightarrow> (Some 0, m)
            | Var v # _ \<Rightarrow>
                if direct \<and> \<not> is_const v then (Some (voffset v), m)
                else (case read_arg (Var v) m of (t, m') \<Rightarrow> (Some t, m'))
            | arg # _ \<Rightarrow> (case read_arg arg m of (t, m') \<Rightarrow> (Some t, m')))
      else (None, m))"

definition is_interrupt :: "u64 option \<Rightarrow> bool" where
  "is_interrupt target = (case target of None \<Rightarrow> False | Some t \<Rightarrow> t AND NOT 0xff = swi_vector)"

text \<open>\<open>Inl\<close>: the call is entered at this address; \<open>Inr\<close>: it is skipped.\<close>

definition image_call ::
  "run_options \<Rightarrow> (u64 \<times> nat) option \<Rightarrow> u64 option \<Rightarrow> bool \<Rightarrow> pcode_op \<Rightarrow> u64 option \<Rightarrow> machine
   \<Rightarrow> (u64 option + unit) \<times> machine" where
  "image_call opts stack bus_mask direct op sp m =
     (let (target0, m) = image_call_target direct opts op m;
          interrupt = is_interrupt target0;
          target = (case (target0, bus_mask) of
                      (Some t, Some am) \<Rightarrow> if interrupt then Some t else Some (t AND am)
                    | (t, _) \<Rightarrow> t);
          m = (if trace m \<and> \<not> interrupt
               then record_effect (ECall (case target of None \<Rightarrow> 0 | Some t \<Rightarrow> t) []) m else m)
      in if o_follow_calls opts \<and> \<not> interrupt then (Inl target, m)
         else (Inr (), restore_sp stack sp m))"

datatype image_end = Stops stop | Continues "u64 option"

lemma cap_measure:
  "\<not> o_max_steps opts \<le> steps \<Longrightarrow>
   ((fp, opts, stack, bm, pc, ops, nxt, sp, i', steps + 1, fr', m'), (fp, opts, stack, bm, pc, ops, nxt, sp, i, steps, fr, m))
     \<in> measure (\<lambda>(fp, opts, stack, bm, pc, ops, nxt, sp, i, steps, fr, m). o_max_steps opts - steps)"
  by auto

function image_ops ::
  "'f fpu \<Rightarrow> run_options \<Rightarrow> (u64 \<times> nat) option \<Rightarrow> u64 option \<Rightarrow> u64 \<Rightarrow> pcode_op list \<Rightarrow> u64 \<Rightarrow> u64 option \<Rightarrow> nat \<Rightarrow> nat
   \<Rightarrow> frames \<Rightarrow> machine \<Rightarrow> (image_end \<times> nat \<times> frames \<times> machine) option" where
  "image_ops fp opts stack bus_mask pc ops next_pc sp i steps frames m =
     (if i < length ops then
        if o_max_steps opts \<le> steps then Some (Stops StepCap, steps, frames, m)
        else
          let m1 = m\<lparr>at_site := (pc, steps + 1)\<rparr>; op = ops ! i; kind = op_kind (opcode_number op) in
          if kind \<in> {Some Call, Some Callind} then
            (case image_call opts stack bus_mask (kind = Some Call) op sp m1 of
               (Inl target, m2) \<Rightarrow> Some (Continues target, steps + 1, (next_pc, sp) # frames, m2)
             | (Inr _, m2) \<Rightarrow> image_ops fp opts stack bus_mask pc ops next_pc sp (i + 1) (steps + 1) frames m2)
          else if o_follow_calls opts \<and> kind = Some Return then
            (case frames of
               [] \<Rightarrow> Some (Stops Returned, steps + 1, [], m1)
             | _ # frames' \<Rightarrow>
                 (case operand op 0 m1 of (t, m2) \<Rightarrow> Some (Continues (Some t), steps + 1, frames', m2)))
          else
            (case step fp op m1 of
               None \<Rightarrow> None
             | Some (FNext, m2) \<Rightarrow> image_ops fp opts stack bus_mask pc ops next_pc sp (i + 1) (steps + 1) frames m2
             | Some (FRel d, m2) \<Rightarrow>
                 image_ops fp opts stack bus_mask pc ops next_pc sp (relative_index i d) (steps + 1) frames m2
             | Some (FJump t, m2) \<Rightarrow> Some (Continues (Some t), steps + 1, frames, m2)
             | Some (FStop, m2) \<Rightarrow> Some (Stops Returned, steps + 1, frames, m2)
             | Some (FFault, m2) \<Rightarrow> Some (Stops Faulted, steps + 1, frames, m2))
      else Some (Continues None, steps, frames, m))"
  by pat_completeness auto
termination
  by (relation "measure (\<lambda>(fp, opts, stack, bm, pc, ops, nxt, sp, i, steps, fr, m). o_max_steps opts - steps)")
    (rule wf_measure, (erule cap_measure)+)

declare image_ops.simps [simp del]

type_synonym resume_state = "image \<times> u64 \<times> nat \<times> frames \<times> machine"

definition finish :: "image \<Rightarrow> machine \<Rightarrow> nat \<Rightarrow> stop \<Rightarrow> (resume_state, image \<times> run) turn" where
  "finish im m steps st = Ends (im, \<lparr>run_machine = m\<lparr>adjusting := None\<rparr>, run_steps = steps, run_stop = st\<rparr>)"

text \<open>Control reached a stub.\<close>

definition stub_turn :: "run_options \<Rightarrow> u64 \<Rightarrow> resume_state \<Rightarrow> (resume_state, image \<times> run) turn" where
  "stub_turn opts pc s =
     (case s of (im, _, steps, frames, m) \<Rightarrow>
        if o_max_steps opts \<le> steps then finish im m steps StepCap
        else
          let m1 = record_if_traced (EStub pc) (m\<lparr>at_site := (pc, steps + 1)\<rparr>)
          in (case frames of
                [] \<Rightarrow> finish im m1 (steps + 1) Returned
              | (ret, sp) # frames' \<Rightarrow> Again (im, ret, steps + 1, frames', restore_sp (im_stack_pointer im) sp m1)))"

text \<open>The stack pointer at the start of an instruction that calls, when the image names the register.\<close>

definition sp_at_call :: "image \<Rightarrow> decoded \<Rightarrow> machine \<Rightarrow> u64 option" where
  "sp_at_call im insn m =
     (case (dc_calls insn, im_stack_pointer im) of (True, Some (off, sz)) \<Rightarrow> Some (rd_reg m off sz) | _ \<Rightarrow> None)"

text \<open>One decoded instruction: executed whole by the state modifier, or operation by operation.\<close>

definition insn_turn :: "'f fpu \<Rightarrow> run_options \<Rightarrow> u64 \<Rightarrow> decoded \<Rightarrow> resume_state \<Rightarrow> (resume_state, image \<times> run) turn" where
  "insn_turn fp opts pc insn s =
     (case s of (im, _, steps, frames, m) \<Rightarrow>
        if dc_adjust insn \<noteq> None \<and> o_max_steps opts \<le> steps then finish im m steps StepCap
        else
          (case (case dc_adjust insn of
                   None \<Rightarrow> (False, m)
                 | Some adj \<Rightarrow> begin_adjusted adj (m\<lparr>at_site := (pc, steps + 1)\<rparr>)) of
             (True, m1) \<Rightarrow> Again (im, dc_next insn, steps + 1, frames, m1)
           | (False, m1) \<Rightarrow>
               (case image_ops fp opts (im_stack_pointer im) (im_address_mask im) pc (dc_ops insn) (dc_next insn)
                          (sp_at_call im insn m1) 0 steps frames m1 of
                     None \<Rightarrow> Aborts
                   | Some (Stops st, steps', _, m2) \<Rightarrow> finish im m2 steps' st
                   | Some (Continues jump, steps', frames', m2) \<Rightarrow>
                       Again (im, case jump of None \<Rightarrow> dc_next insn | Some t \<Rightarrow> t, steps', frames', end_adjusted m2))))"

definition resume_turn :: "'f fpu \<Rightarrow> run_options \<Rightarrow> resume_state \<Rightarrow> (resume_state, image \<times> run) turn" where
  "resume_turn fp opts s =
     (case s of (im, pc0, steps, frames, m) \<Rightarrow>
        (let pc = (case im_address_mask im of None \<Rightarrow> pc0 | Some am \<Rightarrow> pc0 AND am)
         in if pc \<in> o_stubs opts then stub_turn opts pc s
            else
              (case image_at pc im of
                 (None, im') \<Rightarrow> finish im' m steps (NoInstruction pc)
               | (Some insn, im') \<Rightarrow> insn_turn fp opts pc insn (im', pc0, steps, frames, m))))"

definition fresh_run :: "bool \<Rightarrow> machine \<Rightarrow> machine" where
  "fresh_run tr m = m\<lparr>effects := [], effect_sites := [], uninitialized := [], unanswered := [], unmodeled := 0,
     unmodeled_ops := [], last_quotient := None, trace := tr\<rparr>"

definition resume :: "'f fpu \<Rightarrow> nat \<Rightarrow> run_options \<Rightarrow> machine \<Rightarrow> image \<Rightarrow> (image \<times> run) outcome" where
  "resume fp fuel opts m im =
     iterate (resume_turn fp opts) fuel
       (im, case o_entry opts of None \<Rightarrow> im_base im | Some e \<Rightarrow> e, 0, [], fresh_run (o_trace opts) m)"

definition image_run ::
  "'f fpu \<Rightarrow> nat \<Rightarrow> (string \<times> u64 \<times> u64 \<times> nat) list \<Rightarrow> run_options \<Rightarrow> image \<Rightarrow> (image \<times> run) outcome" where
  "image_run fp fuel inputs opts im =
     resume fp fuel opts (fold (\<lambda>(space, offset, value, sz). write_val space offset sz value) inputs (image_machine im)) im"

definition run_with ::
  "'f fpu \<Rightarrow> nat \<Rightarrow> spec \<Rightarrow> u8 list \<Rightarrow> u64 \<Rightarrow> u32 list \<Rightarrow> (string \<times> u64 \<times> u64 \<times> nat) list \<Rightarrow> run_options
   \<Rightarrow> (image \<times> run) outcome" where
  "run_with fp fuel spec bytes base context inputs opts = image_run fp fuel inputs opts (image_new spec bytes base context)"

definition run_default ::
  "'f fpu \<Rightarrow> nat \<Rightarrow> spec \<Rightarrow> u8 list \<Rightarrow> u64 \<Rightarrow> u32 list \<Rightarrow> (string \<times> u64 \<times> u64 \<times> nat) list \<Rightarrow> (image \<times> run) outcome" where
  "run_default fp fuel spec bytes base context inputs = run_with fp fuel spec bytes base context inputs run_options_default"

end
