(* ===== verification/Emu_Order.thy ===== *)
theory Emu_Order
  imports Emu_Run
begin

text \<open>
  The record of a run: what an operation, an instruction and a stub append to it, as an invariant of the
  loop over instructions of \<^verbatim>\<open>Image::resume\<close>.
\<close>

subsection \<open>The record of a run is in program order\<close>

text \<open>The sites of the effects recorded by \<open>n\<close> steps: one per effect, with their steps ascending in \<open>1..n\<close>.\<close>

definition sites_ok :: "nat \<Rightarrow> machine \<Rightarrow> bool" where
  "sites_ok n m \<longleftrightarrow> length (effect_sites m) = length (effects m) \<and> sorted (map snd (effect_sites m))
     \<and> (\<forall>s \<in> set (effect_sites m). 1 \<le> snd s \<and> snd s \<le> n)"

lemma sites_ok_same:
  "effects m' = effects m \<Longrightarrow> effect_sites m' = effect_sites m \<Longrightarrow> sites_ok n m \<Longrightarrow> sites_ok n m'"
  by (simp add: sites_ok_def)

lemma sites_ok_appends:
  assumes ok: "sites_ok n m" and a: "appends (m\<lparr>at_site := (pc, n + 1)\<rparr>) m'"
  shows "sites_ok (n + 1) m'"
proof -
  obtain es where "effects m' = effects m @ es" "effect_sites m' = effect_sites m @ replicate (length es) (pc, n + 1)"
    using a by (auto simp: appends_def)
  then show ?thesis using ok by (fastforce simp: sites_ok_def sorted_append)
qed

lemma wr_reg_effects [machine_simps]:
  "effects (wr_reg off sz v m) = effects m" "effect_sites (wr_reg off sz v m) = effect_sites m"
  by (simp_all add: write_val_def traced_space_def Let_def insert_bytes_def)

lemma end_adjusted_effects [machine_simps]:
  "effects (end_adjusted m) = effects m" "effect_sites (end_adjusted m) = effect_sites m"
proof -
  have b: "effects (set_bcd_flags self fl z m) = effects m" "effect_sites (set_bcd_flags self fl z m) = effect_sites m" for self fl z m
    by (simp_all add: set_bcd_flags_def case_prod_beta Let_def machine_simps)
  have "effects (adjust_after self i b m) = effects m \<and> effect_sites (adjust_after self i b m) = effect_sites m" for self i b m
    unfolding adjust_after_def Let_def by (cases i) (simp_all add: machine_simps b split: option.splits)
  then show "effects (end_adjusted m) = effects m" "effect_sites (end_adjusted m) = effect_sites m"
    unfolding end_adjusted_def by (simp_all split: option.splits prod.splits)
qed

lemma begin_adjusted_effects:
  "begin_adjusted i m = (False, m') \<Longrightarrow> effects m' = effects m \<and> effect_sites m' = effect_sites m"
  by (auto simp: begin_adjusted_def split: option.splits)

lemma restore_sp_appends: "appends m0 m \<Longrightarrow> appends m0 (restore_sp stack sp m)"
  by (auto simp: restore_sp_def trail.chain split: option.splits)

lemma image_call_appends: "appends m0 m \<Longrightarrow> appends m0 (snd (image_call opts stack bm direct op sp m))"
proof -
  assume a: "appends m0 m"
  have t: "appends m0 (snd (image_call_target direct opts op m))"
    using a by (auto simp: image_call_target_def case_prod_beta trail.R_read_arg split: list.splits parg.splits)
  have r: "appends m0 m' \<Longrightarrow> trace m' \<Longrightarrow> appends m0 (record_effect e m')" for m' e
    using appends_trans appends_record by blast
  show ?thesis unfolding image_call_def Let_def case_prod_beta using t by (auto intro!: restore_sp_appends r)
qed

text \<open>An inner loop keeps the record in order and its steps within the budget.\<close>

lemma image_ops_sites:
  assumes "image_ops fp opts stack bm pc ops nxt sp i steps frames m = Some (en, steps', frames', m')"
    "sites_ok steps m" "steps \<le> o_max_steps opts"
  shows "sites_ok steps' m' \<and> steps \<le> steps' \<and> steps' \<le> o_max_steps opts"
  using assms
proof (induction fp opts stack bm pc ops nxt sp i steps frames m rule: image_ops.induct)
  case (1 fp opts stack bm pc ops nxt sp i steps frames m)
  let ?m1 = "m\<lparr>at_site := (pc, steps + 1)\<rparr>" and ?op = "ops ! i"
  show ?case
  proof (cases "i < length ops \<and> \<not> o_max_steps opts \<le> steps")
    case False
    then show ?thesis using "1.prems" by (auto simp: image_ops.simps [of fp opts stack bm pc ops nxt sp i] split: if_splits)
  next
    case True
    then have le: "steps + 1 \<le> o_max_steps opts" by simp
    have ok: "appends ?m1 m2 \<Longrightarrow> sites_ok (steps + 1) m2" for m2 by (rule sites_ok_appends [OF "1.prems"(2)])
    have st: "step fp ?op ?m1 = Some (f, m2) \<Longrightarrow> sites_ok (steps + 1) m2" for f m2
      using ok trail.R_step [OF _ appends_refl] by blast
    have ca: "image_call opts stack bm d ?op sp ?m1 = (r, m2) \<Longrightarrow> sites_ok (steps + 1) m2" for d r m2
      using ok image_call_appends [OF appends_refl, of ?m1] by (metis snd_conv)
    have op: "operand ?op 0 ?m1 = (t, m2) \<Longrightarrow> sites_ok (steps + 1) m2" for t m2
      using ok trail.R_operand [OF appends_refl, of ?m1] by (metis snd_conv)
    have s1: "sites_ok (steps + 1) ?m1" by (rule ok [OF appends_refl])
    note eq = "1.prems"(1) [unfolded image_ops.simps [of fp opts stack bm pc ops nxt sp i] Let_def]
    consider (call) "op_kind (opcode_number ?op) \<in> {Some Call, Some Callind}"
      | (ret) "op_kind (opcode_number ?op) \<notin> {Some Call, Some Callind}" "o_follow_calls opts \<and> op_kind (opcode_number ?op) = Some Return"
      | (other) "op_kind (opcode_number ?op) \<notin> {Some Call, Some Callind}" "\<not> (o_follow_calls opts \<and> op_kind (opcode_number ?op) = Some Return)"
      by blast
    then show ?thesis
    proof cases
      case call
      obtain r m2 where c: "image_call opts stack bm (op_kind (opcode_number ?op) = Some Call) ?op sp ?m1 = (r, m2)" by fastforce
      show ?thesis
      proof (cases r)
        case (Inl t)
        then show ?thesis using eq True call c ca [OF c] le by auto
      next
        case (Inr u)
        then show ?thesis using eq True call c ca [OF c] le "1.IH"(1) [OF _ _ refl refl refl call c [symmetric] Inr] by auto
      qed
    next
      case ret
      then show ?thesis using eq True op s1 le by (auto split: list.splits prod.splits)
    next
      case other
      then obtain f m2 where s: "step fp ?op ?m1 = Some (f, m2)" using eq True by (auto split: option.splits)
      show ?thesis using eq True other s st [OF s] le
          "1.IH"(2) [OF _ _ refl refl refl other s refl] "1.IH"(3) [OF _ _ refl refl refl other s refl]
        by (cases f) auto
    qed
  qed
qed

text \<open>The order of the record as an invariant of the loop over instructions.\<close>

definition resume_inv :: "run_options \<Rightarrow> resume_state \<Rightarrow> bool" where
  "resume_inv opts s = (case s of (im, pc, steps, frames, m) \<Rightarrow> sites_ok steps m \<and> steps \<le> o_max_steps opts)"

definition run_ordered :: "run_options \<Rightarrow> image \<times> run \<Rightarrow> bool" where
  "run_ordered opts ir = (case ir of (im, r) \<Rightarrow> sites_ok (run_steps r) (run_machine r) \<and> run_steps r \<le> o_max_steps opts)"

lemma finish_ordered: "sites_ok steps m \<Longrightarrow> steps \<le> o_max_steps opts \<Longrightarrow> finish im m steps st = Ends r \<Longrightarrow> run_ordered opts r"
  by (auto simp: finish_def run_ordered_def intro: sites_ok_same [of _ m])

lemma finish_not_again: "finish im m steps st \<noteq> Again s"
  by (simp add: finish_def)

lemma stub_turn_ordered:
  assumes "resume_inv opts s"
  shows "stub_turn opts pc s = Ends r \<Longrightarrow> run_ordered opts r" "stub_turn opts pc s = Again s' \<Longrightarrow> resume_inv opts s'"
proof -
  obtain im pc0 steps frames m where s: "s = (im, pc0, steps, frames, m)" by (cases s)
  have inv: "sites_ok steps m" "steps \<le> o_max_steps opts" using assms by (auto simp: s resume_inv_def)
  let ?m1 = "m\<lparr>at_site := (pc, steps + 1)\<rparr>"
  have a: "appends ?m1 (record_if_traced (EStub pc) ?m1)" by (rule trail.chain(9) [OF appends_refl])
  note o = sites_ok_appends [OF inv(1) a] sites_ok_appends [OF inv(1) restore_sp_appends [OF a]]
  show "stub_turn opts pc s = Ends r \<Longrightarrow> run_ordered opts r"
    using inv o by (auto simp: s stub_turn_def Let_def split: if_splits list.splits dest!: finish_ordered [rotated 2])
  show "stub_turn opts pc s = Again s' \<Longrightarrow> resume_inv opts s'"
    using inv o by (auto simp: s stub_turn_def Let_def resume_inv_def finish_not_again split: if_splits list.splits)
qed

lemma insn_turn_cases:
  assumes "insn_turn fp opts pc insn (im, pc0, steps, frames, m) = t"
  obtains (cap) "dc_adjust insn \<noteq> None" "o_max_steps opts \<le> steps" "t = finish im m steps StepCap"
  | (whole) adj m1 where "dc_adjust insn = Some adj" "steps < o_max_steps opts" "begin_adjusted adj (m\<lparr>at_site := (pc, steps + 1)\<rparr>) = (True, m1)"
      "t = Again (im, dc_next insn, steps + 1, frames, m1)"
  | (abort) "t = Aborts"
  | (stops) m1 sp st steps' frames' m2 where "effects m1 = effects m" "effect_sites m1 = effect_sites m"
      "image_ops fp opts (im_stack_pointer im) (im_address_mask im) pc (dc_ops insn) (dc_next insn) sp 0 steps frames m1
         = Some (Stops st, steps', frames', m2)" "t = finish im m2 steps' st"
  | (goes) m1 sp jump steps' frames' m2 where "effects m1 = effects m" "effect_sites m1 = effect_sites m"
      "image_ops fp opts (im_stack_pointer im) (im_address_mask im) pc (dc_ops insn) (dc_next insn) sp 0 steps frames m1
         = Some (Continues jump, steps', frames', m2)"
      "t = Again (im, case jump of None \<Rightarrow> dc_next insn | Some t \<Rightarrow> t, steps', frames', end_adjusted m2)"
proof (cases "dc_adjust insn \<noteq> None \<and> o_max_steps opts \<le> steps")
  case True
  then show thesis using assms cap by (auto simp: insn_turn_def)
next
  case False
  obtain whole m1 where w: "(case dc_adjust insn of None \<Rightarrow> (False, m) | Some adj \<Rightarrow> begin_adjusted adj (m\<lparr>at_site := (pc, steps + 1)\<rparr>)) = (whole, m1)"
    by fastforce
  note t = assms [unfolded insn_turn_def prod.case w]
  show thesis
  proof (cases whole)
    case True
    then obtain adj where "dc_adjust insn = Some adj" "begin_adjusted adj (m\<lparr>at_site := (pc, steps + 1)\<rparr>) = (True, m1)"
      using w by (cases "dc_adjust insn") auto
    then show thesis using t False True \<open>\<not> (dc_adjust insn \<noteq> None \<and> _)\<close> by (intro local.whole [of adj m1]) auto
  next
    case nw: False
    have e: "effects m1 = effects m" "effect_sites m1 = effect_sites m"
      using w nw begin_adjusted_effects by (cases "dc_adjust insn"; fastforce)+
    show thesis
    proof (cases "image_ops fp opts (im_stack_pointer im) (im_address_mask im) pc (dc_ops insn) (dc_next insn) (sp_at_call im insn m1) 0 steps frames m1")
      case None
      then show thesis using t False nw abort by auto
    next
      case (Some r)
      then obtain en steps' frames' m2 where r: "r = (en, steps', frames', m2)" by (cases r)
      then show thesis using t False nw Some stops [OF e] goes [OF e] by (cases en) auto
    qed
  qed
qed

lemma insn_turn_ordered:
  assumes "resume_inv opts (im, pc0, steps, frames, m)"
  shows "insn_turn fp opts pc insn (im, pc0, steps, frames, m) = Ends r \<Longrightarrow> run_ordered opts r"
    "insn_turn fp opts pc insn (im, pc0, steps, frames, m) = Again s' \<Longrightarrow> resume_inv opts s'"
proof -
  have inv: "sites_ok steps m" "steps \<le> o_max_steps opts" using assms by (auto simp: resume_inv_def)
  have io: "sites_ok steps' m2 \<and> steps' \<le> o_max_steps opts \<and> sites_ok steps' (end_adjusted m2)"
    if "effects m1 = effects m" "effect_sites m1 = effect_sites m"
      "image_ops fp opts stack bm pc ops nxt sp 0 steps frames m1 = Some (en, steps', frames', m2)"
    for m1 stack bm ops nxt sp en steps' frames' m2
    using image_ops_sites [OF that(3) sites_ok_same [OF that(1,2) inv(1)] inv(2)] sites_ok_same [of "end_adjusted m2" m2]
    by (simp add: machine_simps)
  show "run_ordered opts r" if "insn_turn fp opts pc insn (im, pc0, steps, frames, m) = Ends r"
    using that
  proof (cases rule: insn_turn_cases)
    case cap
    then show ?thesis using finish_ordered [OF inv] by metis
  next
    case (stops m1 sp st steps' frames' m2)
    then show ?thesis using finish_ordered io [OF stops(1-3)] by metis
  qed simp_all
  show "resume_inv opts s'" if "insn_turn fp opts pc insn (im, pc0, steps, frames, m) = Again s'"
    using that
  proof (cases rule: insn_turn_cases)
    case (whole adj m1)
    have "appends (m\<lparr>at_site := (pc, steps + 1)\<rparr>) m1" using trail.R_begin [OF appends_refl, of "m\<lparr>at_site := (pc, steps + 1)\<rparr>" adj] whole(3) by simp
    from sites_ok_appends [OF inv(1) this] show ?thesis using whole by (simp add: resume_inv_def)
  next
    case (goes m1 sp jump steps' frames' m2)
    then show ?thesis using io [OF goes(1,2,3)] by (simp add: resume_inv_def)
  qed (auto simp: finish_not_again [symmetric])
qed

interpretation ordered: loop_invariant "resume_turn fp opts" "resume_inv opts" "run_ordered opts" for fp opts
proof
  fix s assume inv: "resume_inv opts s"
  obtain im pc0 steps frames m where s: "s = (im, pc0, steps, frames, m)" by (cases s)
  define pc where "pc = (case im_address_mask im of None \<Rightarrow> pc0 | Some am \<Rightarrow> pc0 AND am)"
  obtain d im' where at: "image_at pc im = (d, im')" by fastforce
  have t: "resume_turn fp opts s = (if pc \<in> o_stubs opts then stub_turn opts pc s
      else case d of None \<Rightarrow> finish im' m steps (NoInstruction pc) | Some insn \<Rightarrow> insn_turn fp opts pc insn (im', pc0, steps, frames, m))"
    unfolding resume_turn_def s prod.case Let_def pc_def [symmetric] at by (cases d) simp_all
  have inv': "resume_inv opts (im', pc0, steps, frames, m)" using inv by (simp add: s resume_inv_def)
  show "resume_inv opts s'" if "resume_turn fp opts s = Again s'" for s'
    using that stub_turn_ordered(2) [OF inv, of pc s'] insn_turn_ordered(2) [OF inv', of fp pc _ s'] unfolding t
    by (auto simp: finish_not_again simp del: split_paired_All split: if_splits option.splits)
  show "run_ordered opts r" if "resume_turn fp opts s = Ends r" for r
    using that stub_turn_ordered(1) [OF inv, of pc r] insn_turn_ordered(1) [OF inv', of fp pc _ r] inv unfolding t
    by (auto simp: s resume_inv_def split: if_splits option.splits intro: finish_ordered)
qed


definition demo_spec :: spec where
  "demo_spec = \<lparr>sp_spaces = [(''ram'', False), (''register'', False)], sp_default_space = 0, sp_userops = Map.empty,
     sp_register_offset = Map.empty, sp_emulate_modifier = None,
     sp_resolve = \<lambda>bytes addr ctx. if bytes = [] then None
       else Some \<lparr>r_length = 1, r_delay_slot = False, r_context = ctx, r_mnemonic = \<lambda>_. ''NOP'', r_ops = \<lambda>_. []\<rparr>\<rparr>"

definition demo_options :: run_options where
  "demo_options = run_options_default\<lparr>o_entry := Some 0x40, o_trace := True, o_stubs := {0x40}, o_max_steps := 10\<rparr>"

lemma demo_stub_run:
  "resume demo_fpu 1 demo_options machine_default (image_new demo_spec [] 0 []) = Ran (image_new demo_spec [] 0 [],
     \<lparr>run_machine = machine_default\<lparr>trace := True, at_site := (0x40, 1), effects := [EStub 0x40], effect_sites := [(0x40, 1)]\<rparr>,
      run_steps = 1, run_stop = Returned\<rparr>)"
  by (simp add: resume_def demo_options_def run_options_default_def resume_turn_def stub_turn_def finish_def fresh_run_def
      image_new_def from_blocks_def record_if_traced_def record_effect_def machine_default_def Let_def)



end
