(* ===== verification/Emu_Ends.thy ===== *)
theory Emu_Ends
  imports Emu_Order
begin

text \<open>
  Runs end: the linear sweep makes progress, an instruction without operations falls through towards
  the end of the finite image, and every other one spends a step of the budget.
\<close>

subsection \<open>The sweep makes progress\<close>

lemma disassemble_from_addresses:
  "i \<in> set (disassemble_from spec bytes base ctx pos) \<Longrightarrow>
   \<exists>p node. pos \<le> p \<and> p < length bytes \<and> i_address i = base + of_nat p
     \<and> length (i_bytes i) = insn_length spec node (drop p bytes) (base + of_nat p)
     \<and> sp_resolve spec (drop p bytes) (base + of_nat p) ctx = Some node"
proof (induction spec bytes base ctx pos rule: disassemble_from.induct)
  case (1 spec bytes base ctx pos)
  obtain node where node: "pos < length bytes" "sp_resolve spec (drop pos bytes) (base + of_nat pos) ctx = Some node"
  proof -
    have "disassemble_from spec bytes base ctx pos \<noteq> []" using "1.prems" by (metis empty_iff empty_set)
    then show thesis using that unfolding disassemble_from.simps [of spec bytes base ctx pos] by (simp split: if_splits option.splits)
  qed
  let ?l = "insn_length spec node (drop pos bytes) (base + of_nat pos)"
  have d: "disassemble_from spec bytes base ctx pos =
     \<lparr>i_address = base + of_nat pos, i_bytes = take (min ?l (length bytes - pos)) (drop pos bytes) @ replicate (?l - min ?l (length bytes - pos)) 0,
       i_mnemonic = r_mnemonic node (base + of_nat pos + of_nat ?l), i_ops = r_ops node (base + of_nat pos + of_nat ?l)\<rparr>
     # disassemble_from spec bytes base ctx (pos + ?l)"
    using node by (simp add: disassemble_from.simps [of spec bytes base ctx pos] Let_def)
  show ?case
  proof (cases "i \<in> set (disassemble_from spec bytes base ctx (pos + ?l))")
    case True
    then obtain p nd where "pos + ?l \<le> p" "p < length bytes" "i_address i = base + of_nat p"
      "length (i_bytes i) = insn_length spec nd (drop p bytes) (base + of_nat p)"
      "sp_resolve spec (drop p bytes) (base + of_nat p) ctx = Some nd"
      using "1.IH" [OF node] by blast
    then show ?thesis by (intro exI [of _ p] exI [of _ nd]) simp
  next
    case False
    then show ?thesis using "1.prems" node unfolding d by (intro exI [of _ pos] exI [of _ node]) auto
  qed
qed

text \<open>
  What the decoder is known to do: no instruction of a language is longer than fifteen bytes
  (\<open>DECODE_WINDOW\<close> rests on it), so one with its delay slot has at most thirty.
\<close>

definition short_insns :: "spec \<Rightarrow> bool" where
  "short_insns spec \<longleftrightarrow> (\<forall>bytes addr ctx node. sp_resolve spec bytes addr ctx = Some node \<longrightarrow> r_length node \<le> 15)"

lemma insn_length_bound: "short_insns spec \<Longrightarrow> sp_resolve spec bytes a ctx = Some node \<Longrightarrow> insn_length spec node buf addr \<le> 30"
proof -
  assume s: "short_insns spec" and n: "sp_resolve spec bytes a ctx = Some node"
  then have "r_length node \<le> 15" unfolding short_insns_def by blast
  moreover have "sp_resolve spec b x c = Some dn \<Longrightarrow> r_length dn \<le> 15" for b x c dn using s unfolding short_insns_def by blast
  ultimately show ?thesis unfolding insn_length_def Let_def by (fastforce split: option.splits)
qed

subsection \<open>Runs end\<close>

text \<open>The addresses the blocks of an image hold.\<close>

definition block_addrs :: "(u64 \<times> u8 list) list \<Rightarrow> nat set" where
  "block_addrs blocks = (\<Union>(start, bytes) \<in> set blocks. {unat start..<unat start + length bytes})"

definition blocks_size :: "(u64 \<times> u8 list) list \<Rightarrow> nat" where
  "blocks_size blocks = sum_list (map (length \<circ> snd) blocks)"

lemma finite_block_addrs: "finite (block_addrs blocks)"
  by (auto simp: block_addrs_def)

lemma card_block_addrs: "card (block_addrs blocks) \<le> blocks_size blocks"
proof (induction blocks)
  case (Cons b blocks)
  have "block_addrs (b # blocks) = {unat (fst b)..<unat (fst b) + length (snd b)} \<union> block_addrs blocks"
    by (auto simp: block_addrs_def split: prod.splits)
  then have "card (block_addrs (b # blocks)) \<le> card {unat (fst b)..<unat (fst b) + length (snd b)} + card (block_addrs blocks)"
    by (metis card_Un_le)
  then show ?case using Cons by (simp add: blocks_size_def)
qed (simp add: block_addrs_def blocks_size_def)

text \<open>How many addresses of the blocks lie at or above \<open>pc\<close>: falling through lowers it.\<close>

definition ahead :: "(u64 \<times> u8 list) list \<Rightarrow> u64 \<Rightarrow> nat" where
  "ahead blocks pc = card {a \<in> block_addrs blocks. unat pc \<le> a}"

lemma ahead_bound: "ahead blocks pc \<le> blocks_size blocks"
proof -
  have "{a \<in> block_addrs blocks. unat pc \<le> a} \<subseteq> block_addrs blocks" by blast
  then have "ahead blocks pc \<le> card (block_addrs blocks)" unfolding ahead_def by (rule card_mono [OF finite_block_addrs])
  then show ?thesis using card_block_addrs [of blocks] by (rule le_trans)
qed

lemma ahead_less:
  assumes "unat pc \<in> block_addrs blocks" "unat pc < unat pc'"
  shows "ahead blocks pc' < ahead blocks pc"
proof -
  let ?S = "\<lambda>p. {a \<in> block_addrs blocks. unat p \<le> a}"
  have "unat pc \<in> ?S pc" "unat pc \<notin> ?S pc'" "?S pc' \<subseteq> ?S pc" using assms by auto
  then have "?S pc' \<subset> ?S pc" by blast
  moreover have "finite (?S pc)" using finite_block_addrs by simp
  ultimately show ?thesis unfolding ahead_def by (metis psubset_card_mono)
qed

text \<open>Blocks that leave room for one instruction below the top of the address space.\<close>

definition blocks_ok :: "(u64 \<times> u8 list) list \<Rightarrow> bool" where
  "blocks_ok blocks \<longleftrightarrow> (\<forall>(start, bytes) \<in> set blocks. unat start + length bytes + 30 \<le> 2 ^ 64)"

definition image_ok :: "image \<Rightarrow> bool" where
  "image_ok im \<longleftrightarrow> short_insns (im_spec im) \<and> blocks_ok (im_blocks im)
     \<and> (\<forall>(a, d) \<in> set (im_decoded im). unat a \<in> block_addrs (im_blocks im) \<and> unat a < unat (dc_next d))"

lemma or_insert_set: "set (or_insert k v m) \<subseteq> insert (k, v) (set m)"
  by (auto simp: or_insert_def split: option.splits)

lemma fold_or_insert_set: "set (fold (\<lambda>i. or_insert (f i) (g i)) is m) \<subseteq> (\<lambda>i. (f i, g i)) ` set is \<union> set m"
proof (induction "is" arbitrary: m)
  case (Cons i "is")
  then show ?case using or_insert_set [of "f i" "g i" m] by fastforce
qed simp

lemma unat_add_small: "unat (a :: u64) + n < 2 ^ 64 \<Longrightarrow> unat (a + of_nat n) = unat a + n"
  by (simp add: unat_word_ariths unat_of_nat)

lemma partition_point_Suc: "partition_point P xs = Suc k \<Longrightarrow> k < length xs \<and> P (xs ! k)"
  unfolding partition_point_def using length_takeWhile_le [of P xs]
  by (metis Suc_le_lessD lessI nth_mem set_takeWhileD takeWhile_nth)

lemma decode_at_ok:
  assumes ok: "image_ok im" and d: "decode_at pc im = Some im'"
  shows "image_ok im' \<and> im_blocks im' = im_blocks im \<and> im_address_mask im' = im_address_mask im"
proof -
  obtain k start bytes where k: "partition_point (\<lambda>(start, _). start \<le> pc) (im_blocks im) = Suc k" "im_blocks im ! k = (start, bytes)"
    using d by (cases "im_blocks im ! (partition_point (\<lambda>(start, _). start \<le> pc) (im_blocks im) - 1)")
      (auto simp: decode_at_def split: nat.splits)
  define off where "off = unat (pc - start)"
  define e where "e = min (off + decode_window) (length bytes)"
  define insns where "insns = whole_insns (e < length bytes) (start + of_nat e)
     (disassemble_ctx (im_spec im) (take (e - off) (drop off bytes)) pc (im_context im))"
  have im': "off < length bytes" "im' = im\<lparr>im_decoded := fold (\<lambda>i. or_insert (i_address i) (decoded_entry (im_m68k im) i)) insns (im_decoded im)\<rparr>"
    using d unfolding decode_at_def k nat.case k(2) prod.case Let_def off_def [symmetric] e_def [symmetric] insns_def [symmetric]
    by (simp_all split: if_splits)
  have kb: "(start, bytes) \<in> set (im_blocks im)" "start \<le> pc"
    using partition_point_Suc [OF k(1)] k(2) by (metis nth_mem, auto)
  have bok: "unat start + length bytes + 30 \<le> 2 ^ 64" using ok kb(1) by (auto simp: image_ok_def blocks_ok_def)
  have pc: "unat pc = unat start + off" using kb(2) by (simp add: off_def unat_sub word_le_nat_alt)
  have new: "unat (i_address i) \<in> block_addrs (im_blocks im) \<and> unat (i_address i) < unat (dc_next (decoded_entry (im_m68k im) i))"
    if "i \<in> set insns" for i
  proof -
    have "i \<in> set (disassemble_from (im_spec im) (take (e - off) (drop off bytes)) pc (im_context im) 0)"
      using that unfolding insns_def whole_insns_def disassemble_ctx_def by (rule set_takeWhileD [THEN conjunct1])
    from disassemble_from_addresses [OF this] obtain p node buf a where p: "p < e - off" "i_address i = pc + of_nat p"
      "length (i_bytes i) = insn_length (im_spec im) node buf a" "sp_resolve (im_spec im) buf a (im_context im) = Some node"
      by (auto simp: e_def)
    have l: "1 \<le> length (i_bytes i)" "length (i_bytes i) \<le> 30"
      using insn_length_bound [OF _ p(4)] ok by (simp_all add: p(3) image_ok_def Suc_le_eq)
    have pe: "off + p < length bytes" using p(1) by (auto simp: e_def)
    then have a: "unat (i_address i) = unat start + off + p" using bok by (simp add: p(2) unat_add_small pc)
    then have "unat (i_address i + of_nat (length (i_bytes i))) = unat (i_address i) + length (i_bytes i)"
      using bok pe l(2) by (intro unat_add_small) simp
    moreover have "unat (i_address i) \<in> block_addrs (im_blocks im)" using kb(1) pe a by (force simp: block_addrs_def)
    ultimately show ?thesis using l(1) by (auto simp: decoded_entry_def)
  qed
  show ?thesis using ok new fold_or_insert_set [of i_address "decoded_entry (im_m68k im)" insns "im_decoded im"]
    unfolding im' image_ok_def by fastforce
qed

lemma image_at_ok:
  assumes "image_ok im" "image_at pc im = (d, im')"
  shows "image_ok im' \<and> im_blocks im' = im_blocks im \<and> im_address_mask im' = im_address_mask im"
    "d = Some insn \<Longrightarrow> unat pc \<in> block_addrs (im_blocks im) \<and> unat pc < unat (dc_next insn)"
proof -
  show same: "image_ok im' \<and> im_blocks im' = im_blocks im \<and> im_address_mask im' = im_address_mask im"
    using assms decode_at_ok [OF assms(1)] by (auto simp: image_at_def split: if_splits option.splits)
  assume "d = Some insn"
  then have "map_of (im_decoded im') pc = Some insn" using assms(2) by (auto simp: image_at_def split: if_splits option.splits)
  then show "unat pc \<in> block_addrs (im_blocks im) \<and> unat pc < unat (dc_next insn)"
    using same by (auto simp: image_ok_def dest!: map_of_SomeD)
qed

lemma image_ops_progress:
  assumes "image_ops fp opts stack bm pc ops nxt sp i steps frames m = Some (en, steps', frames', m')" "steps \<le> o_max_steps opts"
  shows "steps \<le> steps' \<and> steps' \<le> o_max_steps opts \<and> (en = Continues j \<and> steps' = steps \<longrightarrow> j = None)"
  using assms
proof (induction fp opts stack bm pc ops nxt sp i steps frames m rule: image_ops.induct)
  case (1 fp opts stack bm pc ops nxt sp i steps frames m)
  let ?m1 = "m\<lparr>at_site := (pc, steps + 1)\<rparr>" and ?op = "ops ! i"
  note eq = "1.prems"(1) [unfolded image_ops.simps [of fp opts stack bm pc ops nxt sp i] Let_def]
  show ?case
  proof (cases "i < length ops \<and> \<not> o_max_steps opts \<le> steps")
    case False
    then show ?thesis using eq "1.prems"(2) by (auto split: if_splits)
  next
    case True
    then have le: "steps + 1 \<le> o_max_steps opts" by simp
    show ?thesis
    proof (cases "op_kind (opcode_number ?op) \<in> {Some Call, Some Callind}")
      case call: True
      obtain r m2 where c: "image_call opts stack bm (op_kind (opcode_number ?op) = Some Call) ?op sp ?m1 = (r, m2)" by fastforce
      show ?thesis using eq True call c le "1.IH"(1) [OF _ _ refl refl refl call c [symmetric]] by (cases r) auto
    next
      case nc: False
      show ?thesis
      proof (cases "o_follow_calls opts \<and> op_kind (opcode_number ?op) = Some Return")
        case ret: True
        then show ?thesis using eq True nc le by (auto split: list.splits prod.splits)
      next
        case other: False
        then obtain f m2 where s: "step fp ?op ?m1 = Some (f, m2)" using eq True nc by (auto split: option.splits)
        show ?thesis using eq True nc other s le
            "1.IH"(2) [OF _ _ refl refl refl nc other s refl] "1.IH"(3) [OF _ _ refl refl refl nc other s refl]
          by (cases f) auto
      qed
    qed
  qed
qed

definition ends_inv :: "run_options \<Rightarrow> (u64 \<times> u8 list) list \<Rightarrow> resume_state \<Rightarrow> bool" where
  "ends_inv opts blocks s = (case s of (im, pc, steps, frames, m) \<Rightarrow>
     image_ok im \<and> im_blocks im = blocks \<and> im_address_mask im = None \<and> steps \<le> o_max_steps opts)"

definition ends_variant :: "run_options \<Rightarrow> (u64 \<times> u8 list) list \<Rightarrow> resume_state \<Rightarrow> nat" where
  "ends_variant opts blocks s = (case s of (im, pc, steps, frames, m) \<Rightarrow>
     (o_max_steps opts - steps) * (blocks_size blocks + 1) + ahead blocks pc)"

lemma variant_step:
  assumes "steps < steps'" "steps' \<le> k"
  shows "(k - steps') * (blocks_size blocks + 1) + ahead blocks pc' < (k - steps) * (blocks_size blocks + 1) + ahead blocks pc"
proof -
  have "ahead blocks pc' < blocks_size blocks + 1" using ahead_bound [of blocks pc'] by simp
  moreover have "(k - steps') * (blocks_size blocks + 1) + (blocks_size blocks + 1) \<le> (k - steps) * (blocks_size blocks + 1)"
  proof -
    have "(k - steps') + 1 \<le> k - steps" using assms by simp
    from mult_le_mono1 [OF this, of "blocks_size blocks + 1"] show ?thesis by (simp only: add_mult_distrib mult_1)
  qed
  ultimately show ?thesis by linarith
qed

lemma resume_turn_ends:
  assumes inv: "ends_inv opts blocks s" and t: "resume_turn fp opts s = Again s'"
  shows "ends_inv opts blocks s' \<and> ends_variant opts blocks s' < ends_variant opts blocks s"
proof -
  obtain im pc steps frames m where s: "s = (im, pc, steps, frames, m)" by (cases s)
  have i: "image_ok im" "im_blocks im = blocks" "im_address_mask im = None" "steps \<le> o_max_steps opts"
    using inv by (auto simp: s ends_inv_def)
  show ?thesis
  proof (cases "pc \<in> o_stubs opts")
    case True
    then have "stub_turn opts pc (im, pc, steps, frames, m) = Again s'" using t i by (simp add: s resume_turn_def)
    then obtain ret fr m' where "steps < o_max_steps opts" "s' = (im, ret, steps + 1, fr, m')"
      by (auto simp: stub_turn_def Let_def finish_not_again split: if_splits list.splits)
    then show ?thesis using i variant_step [of steps "steps + 1" "o_max_steps opts" blocks] by (simp add: s ends_inv_def ends_variant_def)
  next
    case False
    obtain d im' where at: "image_at pc im = (d, im')" by fastforce
    then obtain insn where d: "d = Some insn" using t i False by (cases d) (auto simp: s resume_turn_def finish_not_again)
    have i': "image_ok im'" "im_blocks im' = blocks" "im_address_mask im' = None" using image_at_ok(1) [OF i(1) at] i by auto
    have nx: "unat pc \<in> block_addrs blocks" "unat pc < unat (dc_next insn)" using image_at_ok(2) [OF i(1) at d] i by auto
    have "insn_turn fp opts pc insn (im', pc, steps, frames, m) = Again s'" using t i False at d by (simp add: s resume_turn_def)
    then show ?thesis
    proof (cases rule: insn_turn_cases)
      case (whole adj m1)
      then show ?thesis using i i' variant_step [of steps "steps + 1" "o_max_steps opts" blocks] by (simp add: s ends_inv_def ends_variant_def)
    next
      case (goes m1 sp jump steps' frames' m2)
      note pr = image_ops_progress [OF goes(3) i(4), of jump]
      show ?thesis
      proof (cases "steps' = steps")
        case True
        then show ?thesis using pr goes(4) i i' ahead_less [OF nx] by (simp add: s ends_inv_def ends_variant_def)
      next
        case False
        then show ?thesis using pr goes(4) i i' variant_step [of steps steps' "o_max_steps opts" blocks] by (simp add: s ends_inv_def ends_variant_def)
      qed
    qed (auto simp: finish_def)
  qed
qed

interpretation ends: loop_variant "resume_turn fp opts" "ends_inv opts blocks" "ends_variant opts blocks" for fp opts blocks
  by unfold_locales (auto dest: resume_turn_ends)

text \<open>
  (C15) A run over an image with every address line ends: with fuel for \<open>max_steps\<close> passes over the image it
  returns a result or panics, whatever the program does.  Instructions with no operations cost no step, and
  it is falling through the finite image that bounds them.
\<close>

theorem resume_ends:
  assumes "image_ok im" "im_address_mask im = None"
    and "o_max_steps opts * (blocks_size (im_blocks im) + 1) + blocks_size (im_blocks im) < fuel"
  shows "resume fp fuel opts m im \<noteq> No_fuel"
proof -
  let ?s = "(im, case o_entry opts of None \<Rightarrow> im_base im | Some e \<Rightarrow> e, 0, [], fresh_run (o_trace opts) m)"
  have "ends_inv opts (im_blocks im) ?s" using assms by (simp add: ends_inv_def)
  moreover have "ends_variant opts (im_blocks im) ?s < fuel"
    using assms(3) ahead_bound [of "im_blocks im" "case o_entry opts of None \<Rightarrow> im_base im | Some e \<Rightarrow> e"] by (simp add: ends_variant_def)
  ultimately show ?thesis unfolding resume_def by (rule ends.iterate_ends)
qed

definition demo_image :: image where
  "demo_image = image_new demo_spec [0, 0, 0, 0] 0 []"

lemma demo_image_ok: "image_ok demo_image"
  by (auto simp: image_ok_def demo_image_def image_new_def from_blocks_def short_insns_def demo_spec_def blocks_ok_def Let_def split: if_splits)

theorem resume_ends_witness:
  "resume demo_fpu (5000000 * 5 + 5) run_options_default machine_default demo_image \<noteq> No_fuel"
proof (rule resume_ends [OF demo_image_ok])
  show "im_address_mask demo_image = None" by (simp add: demo_image_def image_new_def from_blocks_def Let_def)
  have "im_blocks demo_image = [(0, [0, 0, 0, 0])]" by (simp add: demo_image_def image_new_def from_blocks_def Let_def)
  then show "o_max_steps run_options_default * (blocks_size (im_blocks demo_image) + 1) + blocks_size (im_blocks demo_image) < 5000000 * 5 + 5"
    by (simp add: run_options_default_def blocks_size_def)
qed

text \<open>An instruction that falls through without an operation.\<close>

lemma empty_turn:
  assumes "image_at (pc AND am) im = (Some insn, im')" "im_address_mask im = Some am" "pc AND am \<notin> o_stubs opts"
    "dc_ops insn = []" "dc_adjust insn = None" "adjusting m = None"
  shows "resume_turn fp opts (im, pc, steps, frames, m) = Again (im', dc_next insn, steps, frames, m)"
proof -
  have "m\<lparr>adjusting := None\<rparr> = m" using assms(6) by simp
  then have "end_adjusted m = m" using assms(6) by (simp add: end_adjusted_def)
  then show ?thesis using assms by (simp add: resume_turn_def insn_turn_def image_ops.simps)
qed

text \<open>
  (C33) With narrowed address lines the step budget does not bound a run: on an image that fills the address
  space the mask leaves and holds only instructions without operations, the program counter wraps
  round and the run never ends, for every budget and any amount of fuel.
\<close>

definition wrap_image :: image where
  "wrap_image = with_address_mask 1 (image_new demo_spec [0, 0] 0 [])"

definition wrap_decoded :: "(u64 \<times> decoded) list" where
  "wrap_decoded = [(0, \<lparr>dc_ops = [], dc_next = 1, dc_calls = False, dc_adjust = None\<rparr>),
                   (1, \<lparr>dc_ops = [], dc_next = 2, dc_calls = False, dc_adjust = None\<rparr>)]"

lemma wrap_decode: "decode_at 0 wrap_image = Some (wrap_image\<lparr>im_decoded := wrap_decoded\<rparr>)"
proof -
  have d: "disassemble_from demo_spec [0, 0] 0 [] 0 =
     [\<lparr>i_address = 0, i_bytes = [0], i_mnemonic = ''NOP'', i_ops = []\<rparr>, \<lparr>i_address = 1, i_bytes = [0], i_mnemonic = ''NOP'', i_ops = []\<rparr>]"
    by (simp add: disassemble_from.simps demo_spec_def insn_length_def Let_def)
  show ?thesis
    by (simp add: decode_at_def wrap_image_def with_address_mask_def image_new_def from_blocks_def partition_point_def Let_def
        decode_window_def whole_insns_def disassemble_ctx_def d or_insert_def decoded_entry_def wrap_decoded_def for_spec_def)
      (simp add: demo_spec_def)
qed

theorem wrapped_run_never_ends: "resume demo_fpu fuel (run_options_default\<lparr>o_max_steps := cap\<rparr>) machine_default wrap_image = No_fuel"
proof -
  let ?opts = "run_options_default\<lparr>o_max_steps := cap\<rparr>" and ?m = "fresh_run False machine_default"
  let ?im = "wrap_image\<lparr>im_decoded := wrap_decoded\<rparr>"
  have mask: "im_address_mask wrap_image = Some 1" "im_address_mask ?im = Some 1" by (simp_all add: wrap_image_def with_address_mask_def)
  have side: "adjusting ?m = None" "\<And>a. a \<notin> o_stubs ?opts"
    by (simp_all add: fresh_run_def machine_default_def run_options_default_def)
  have at0: "image_at 0 wrap_image = (Some (snd (wrap_decoded ! 0)), ?im)"
    unfolding image_at_def wrap_decode by (simp add: wrap_image_def with_address_mask_def image_new_def from_blocks_def Let_def wrap_decoded_def)
  have at: "image_at 0 ?im = (Some (snd (wrap_decoded ! 0)), ?im)" "image_at 1 ?im = (Some (snd (wrap_decoded ! 1)), ?im)"
    by (simp_all add: image_at_def wrap_decoded_def)
  have t0: "resume_turn demo_fpu ?opts (wrap_image, 0, 0, [], ?m) = Again (?im, 1, 0, [], ?m)"
    using empty_turn [of 0 1 wrap_image _ ?im ?opts ?m demo_fpu 0 "[]"] at0 mask side by (simp add: wrap_decoded_def)
  have t1: "resume_turn demo_fpu ?opts (?im, pc, 0, [], ?m) = Again (?im, (pc AND 1) + 1, 0, [], ?m)" if "pc AND 1 = 0 \<or> pc AND 1 = 1" for pc
    using that empty_turn [of pc 1 ?im _ ?im ?opts ?m demo_fpu 0 "[]"] at mask side by (auto simp: wrap_decoded_def)
  have "iterate (resume_turn demo_fpu ?opts) fuel (?im, pc, 0, [], ?m) = No_fuel" if "pc = 0 \<or> pc = 1 \<or> pc = 2" for fuel pc
    using that
  proof (induction fuel arbitrary: pc)
    case (Suc fuel)
    have "pc AND 1 = 0 \<or> pc AND 1 = 1" "(pc AND 1) + 1 = 1 \<or> (pc AND 1) + 1 = 2" using Suc.prems by auto
    then show ?case using Suc.IH [of "(pc AND 1) + 1"] t1 by auto
  qed simp
  then have "iterate (resume_turn demo_fpu ?opts) fuel (wrap_image, 0, 0, [], ?m) = No_fuel" by (cases fuel) (simp_all add: t0)
  moreover have "im_base wrap_image = 0" by (simp add: wrap_image_def with_address_mask_def image_new_def)
  ultimately show ?thesis by (simp add: resume_def run_options_default_def)
qed

subsection \<open>Differential runs end\<close>

lemma run_ops_progress:
  assumes "run_ops fp cfg pc ops i steps calls m = Some (GoOn j, steps', calls', m')"
  shows "steps \<le> steps' \<and> (steps < steps' \<longrightarrow> steps' \<le> c_max_steps cfg) \<and> (steps' = steps \<longrightarrow> j = None)"
  using assms
proof (induction fp cfg pc ops i steps calls m rule: run_ops.induct)
  case (1 fp cfg pc ops i steps calls m)
  let ?m1 = "m\<lparr>at_site := (pc, steps + 1)\<rparr>" and ?op = "ops ! i"
  note eq = "1.prems"(1) [unfolded run_ops.simps [of fp cfg pc ops i] Let_def]
  show ?case
  proof (cases "i < length ops \<and> \<not> (c_max_steps cfg < steps + 1 \<or> c_max_effects cfg < length (effects m))")
    case False
    then show ?thesis using eq by (auto split: if_splits)
  next
    case True
    then have le: "i < length ops" "\<not> (c_max_steps cfg < steps + 1 \<or> c_max_effects cfg < length (effects m))" "steps + 1 \<le> c_max_steps cfg" by auto
    show ?thesis
    proof (cases "op_kind (opcode_number ?op) \<in> {Some Call, Some Callind}")
      case call: True
      obtain c m2 where c: "call_event cfg pc (op_kind (opcode_number ?op) = Some Callind) ?op calls ?m1 = (c, m2)" by fastforce
      from "1.IH"(1) [OF le(1,2) refl refl call c [symmetric]] show ?thesis using eq le call c by auto
    next
      case nc: False
      then have nr: "op_kind (opcode_number ?op) \<noteq> Some Return" using eq le by auto
      then obtain f m2 where s: "step fp ?op ?m1 = Some (f, m2)" using eq le nc by (auto split: option.splits)
      show ?thesis using eq le nc nr s
          "1.IH"(2) [OF le(1,2) refl refl nc nr s refl] "1.IH"(3) [OF le(1,2) refl refl nc nr s refl]
        by (cases f) auto
    qed
  qed
qed

definition prog_ok :: "u8 list \<Rightarrow> u64 \<Rightarrow> prog \<Rightarrow> bool" where
  "prog_ok bytes base prog \<longleftrightarrow> (\<forall>pc ops nxt fix. prog pc = Some (ops, nxt, fix) \<longrightarrow>
     unat pc \<in> block_addrs [(base, bytes)] \<and> unat pc < unat nxt)"

lemma sweep_entry:
  assumes s: "short_insns spec" and b: "unat base + length bytes + 30 \<le> 2 ^ 64" and a: "unat at = unat base + off" "off + n \<le> length bytes"
    and i: "i \<in> set (disassemble_ctx spec (take n (drop off bytes)) at ctx)"
  shows "unat (i_address i) \<in> block_addrs [(base, bytes)]" "unat at \<le> unat (i_address i)"
    "unat (i_address i) < unat (i_address i + of_nat (length (i_bytes i)))"
proof -
  from disassemble_from_addresses [OF i [unfolded disassemble_ctx_def]]
  obtain p node buf x where p: "p < n" "i_address i = at + of_nat p" "length (i_bytes i) = insn_length spec node buf x"
    "sp_resolve spec buf x ctx = Some node" by auto
  have l: "0 < length (i_bytes i)" "length (i_bytes i) \<le> 30" using insn_length_bound [OF s p(4)] by (simp_all add: p(3) del: length_greater_0_conv)
  have e: "unat (i_address i) = unat base + off + p" using b a p(1) by (simp add: p(2) unat_add_small)
  then have "unat (i_address i + of_nat (length (i_bytes i))) = unat (i_address i) + length (i_bytes i)"
    using b a p(1) l(2) by (intro unat_add_small) simp
  then show "unat (i_address i) < unat (i_address i + of_nat (length (i_bytes i)))" using l(1) by linarith
  show "unat (i_address i) \<in> block_addrs [(base, bytes)]" "unat at \<le> unat (i_address i)" using e a p(1) by (auto simp: block_addrs_def)
qed

lemma sweep_ok:
  assumes "short_insns spec" "unat base + length bytes + 30 \<le> 2 ^ 64"
  shows "prog_ok bytes base (sweep spec bytes base ctx)"
proof -
  have "unat pc \<in> block_addrs [(base, bytes)] \<and> unat pc < unat nxt" if "sweep spec bytes base ctx pc = Some (ops, nxt, fix)" for pc ops nxt "fix"
  proof -
    have "(pc, ops, nxt, fix) \<in> (\<lambda>i. (i_address i, prog_entry (for_spec spec) i)) ` set (disassemble_ctx spec bytes base ctx)"
      using map_of_SomeD [OF that [unfolded sweep_def]] by (simp only: set_rev set_map)
    then obtain i where i: "(pc, ops, nxt, fix) = (i_address i, prog_entry (for_spec spec) i)" "i \<in> set (disassemble_ctx spec bytes base ctx)"
      by (rule imageE)
    from i(1) have "pc = i_address i" "nxt = i_address i + of_nat (length (i_bytes i))" by (simp_all add: prog_entry_def)
    then show ?thesis using sweep_entry [OF assms, of base 0 "length bytes" i ctx] i(2) by simp
  qed
  then show ?thesis by (simp add: prog_ok_def)
qed

lemma fetch_ok:
  assumes "short_insns spec" "unat base + length bytes + 30 \<le> 2 ^ 64" "prog_ok bytes base prog"
    "fetch spec bytes base ctx pc prog = Some prog'"
  shows "prog_ok bytes base prog' \<and> prog' pc \<noteq> None"
proof (cases "prog pc = None")
  case False
  then show ?thesis using assms(3,4) by (simp add: fetch_def)
next
  case True
  define off e where "off = unat (pc - base)" and "e = min (off + decode_window) (length bytes)"
  have f: "\<not> pc < base" "off < length bytes"
    using assms(4) True by (auto simp: fetch_def off_def Let_def not_le split: if_splits)
  then obtain insn rest where i: "disassemble_ctx spec (take (e - off) (drop off bytes)) pc ctx = insn # rest"
    "prog' = prog(pc \<mapsto> prog_entry (for_spec spec) insn)"
    using assms(4) True unfolding fetch_def Let_def off_def [symmetric] e_def [symmetric]
    by (cases "disassemble_ctx spec (take (e - off) (drop off bytes)) pc ctx") (auto split: if_splits)
  have pc: "unat pc = unat base + off" using f(1) by (simp add: off_def unat_sub word_le_nat_alt not_less)
  have "off + (e - off) \<le> length bytes" using f(2) by (simp add: e_def)
  from sweep_entry [OF assms(1,2) pc this, of insn ctx] i
  have "unat pc < unat (i_address insn + of_nat (length (i_bytes insn)))" by simp
  moreover have "unat pc \<in> block_addrs [(base, bytes)]" using pc f(2) by (simp add: block_addrs_def)
  ultimately show ?thesis using assms(3) by (auto simp: prog_ok_def i(2) prog_entry_def)
qed

definition traced_inv :: "spec \<Rightarrow> u8 list \<Rightarrow> u64 \<Rightarrow> run_state \<Rightarrow> bool" where
  "traced_inv spec bytes base s = (case s of (prog, pc, steps, calls, m) \<Rightarrow>
     short_insns spec \<and> unat base + length bytes + 30 \<le> 2 ^ 64 \<and> prog_ok bytes base prog)"

definition traced_variant :: "run_config \<Rightarrow> u8 list \<Rightarrow> u64 \<Rightarrow> run_state \<Rightarrow> nat" where
  "traced_variant cfg bytes base s = (case s of (prog, pc, steps, calls, m) \<Rightarrow>
     (c_max_steps cfg - steps) * (blocks_size [(base, bytes)] + 1) + ahead [(base, bytes)] pc)"

lemma run_turn_ends:
  assumes inv: "traced_inv spec bytes base s" and t: "run_turn fp spec bytes base ctx cfg s = Again s'"
  shows "traced_inv spec bytes base s' \<and> traced_variant cfg bytes base s' < traced_variant cfg bytes base s"
proof -
  obtain prog pc steps calls m where s: "s = (prog, pc, steps, calls, m)" by (cases s)
  have i: "short_insns spec" "unat base + length bytes + 30 \<le> 2 ^ 64" "prog_ok bytes base prog" using inv by (auto simp: s traced_inv_def)
  obtain prog' where f: "fetch spec bytes base ctx pc prog = Some prog'" using t by (auto simp: s run_turn_def split: option.splits)
  note ok = fetch_ok [OF i f]
  then obtain ops nxt fx where p: "prog' pc = Some (ops, nxt, fx)" by (metis option.exhaust prod_cases3)
  have nx: "unat pc \<in> block_addrs [(base, bytes)]" "unat pc < unat nxt" using ok p by (auto simp: prog_ok_def)
  note al = ahead_less [OF nx]
  obtain whole m1 where w: "(case fx of None \<Rightarrow> (False, m) | Some f \<Rightarrow> begin_adjusted f (m\<lparr>at_site := (pc, steps + 1)\<rparr>)) = (whole, m1)" by fastforce
  note t' = t [unfolded s run_turn_def prod.case f option.case p option.sel w]
  show ?thesis
  proof (cases whole)
    case True
    have "(c_max_steps cfg - (steps + 1)) * (blocks_size [(base, bytes)] + 1) \<le> (c_max_steps cfg - steps) * (blocks_size [(base, bytes)] + 1)"
      by (intro mult_le_mono1) simp
    then show ?thesis using t' True ok i al by (auto simp: s traced_inv_def traced_variant_def)
  next
    case False
    then obtain jump steps' calls' m2 where r: "run_ops fp cfg pc ops 0 steps calls m1 = Some (GoOn jump, steps', calls', m2)"
      "s' = (prog', case jump of None \<Rightarrow> nxt | Some t \<Rightarrow> t, steps', calls', end_adjusted m2)"
      using t' by (auto split: option.splits ops_end.splits)
    note pr = run_ops_progress [OF r(1)]
    show ?thesis
    proof (cases "steps' = steps")
      case True
      then show ?thesis using pr r ok i al by (simp add: s traced_inv_def traced_variant_def)
    next
      case False
      then show ?thesis using pr r ok i variant_step [of steps steps' "c_max_steps cfg" "[(base, bytes)]"]
        by (simp add: s traced_inv_def traced_variant_def)
    qed
  qed
qed

interpretation traced: loop_variant "run_turn fp spec bytes base ctx cfg" "traced_inv spec bytes base" "traced_variant cfg bytes base"
  for fp spec bytes base ctx cfg
  by unfold_locales (auto dest: run_turn_ends)

text \<open>
  (C31) A differential run ends: with fuel for \<open>max_steps\<close> passes over the function's bytes it returns its
  machine or panics, for any code, candidate or original.
\<close>

theorem run_traced_ends:
  assumes "short_insns spec" "unat base + length bytes + 30 \<le> 2 ^ 64"
    "c_max_steps cfg * (length bytes + 1) + length bytes < fuel"
  shows "run_traced fp fuel spec bytes base ctx inputs cfg \<noteq> No_fuel"
proof -
  let ?s = "(sweep spec bytes base ctx, base, 0, 0, traced_machine spec inputs cfg)"
  have "traced_inv spec bytes base ?s" using assms sweep_ok by (simp add: traced_inv_def)
  moreover have "traced_variant cfg bytes base ?s < fuel"
    using assms(3) ahead_bound [of "[(base, bytes)]" base] by (simp add: traced_variant_def blocks_size_def)
  ultimately have "iterate (run_turn fp spec bytes base ctx cfg) fuel ?s \<noteq> No_fuel" by (rule traced.iterate_ends)
  then show ?thesis by (auto simp: run_traced_def split: outcome.splits)
qed


definition demo_config :: run_config where
  "demo_config = \<lparr>c_seed = 7, c_scratch = (0, 0), c_call_args = Map.empty, c_default_args = [], c_stack_targets = {},
     c_sp = (16, 4), c_call_clobbers = [(0, 4), (8, 4)], c_call_modifies = Map.empty, c_call_flag_clobbers = [(0x200, 1)],
     c_call_flag_returns = [0x2000 \<mapsto> \<lparr>fr_flag = (0x200, 1), fr_reg = (0, 4), fr_from = FromBit\<rparr>],
     c_site_flag_returns = Map.empty, c_ordinal_flag_returns = Map.empty, c_call_reg_returns = Map.empty,
     c_site_reg_returns = [0x100 \<mapsto> \<lparr>rr_src = (8, 4), rr_dst = (0, 4)\<rparr>], c_ordinal_reg_returns = Map.empty,
     c_is_candidate_run = False, c_max_steps = 100, c_pool = [], c_image = [], c_max_effects = 10\<rparr>"

theorem run_traced_ends_witness: "run_traced demo_fpu 1000 demo_spec [0, 0, 0, 0] 0x1000 [] [] demo_config \<noteq> No_fuel"
  by (rule run_traced_ends) (auto simp: short_insns_def demo_spec_def demo_config_def split: if_splits)


end
