(* ===== verification/Emu_Call.thy ===== *)
theory Emu_Call
  imports Emu_Ends
begin

text \<open>
  The contracts of the differential harness (\<^verbatim>\<open>FlagReturn\<close>, \<^verbatim>\<open>RegReturn\<close> of \<^verbatim>\<open>sleigh/emu.rs\<close>): where the answer of a
  callee is read by the original's run and by the candidate's.
\<close>

subsection \<open>The answer of a callee reaches both runs\<close>

lemma flag_bit_mask: "emu_mask (call_flag_bit s t c off) sz = call_flag_bit s t c off"
proof (cases "sz = 0 \<or> 8 \<le> sz")
  case False
  let ?b = "fill_byte (s XOR t XOR shl64 c 8 XOR off) ''flag'' off AND 1"
  have b: "bit (ucast ?b :: u64) k \<Longrightarrow> k < 8 * sz" for k using False by (simp add: bit_unsigned_iff bit_and_iff bit_1_iff)
  show ?thesis using False unfolding call_flag_bit_def
    by (intro bit_eqI) (auto simp: emu_mask_eq bit_and_iff bit_mask_iff dest: b)
qed (auto simp: emu_mask_def)

lemma reg_apart_config: "same_config m m' \<Longrightarrow> reg_apart m' = reg_apart m"
  using value_addrs_config by (intro ext) (simp add: reg_apart_def)

lemma bus_ok_config: "same_config m m' \<Longrightarrow> bus_ok m' = bus_ok m"
  by (simp add: bus_ok_def same_config_def)

lemma call_target_config: "same_config m (snd (call_target indirect op m))"
  unfolding call_target_def
  by (auto intro: config.R_read_arg [OF config.R_refl] config.R_refl split: list.splits parg.splits)

lemma clobber_all:
  "clobber_registers cfg target calls m = regs.wr_all
     (map (\<lambda>r. (r, call_clobber_fill (c_seed cfg) target calls (fst r))) (case c_call_modifies cfg target of None \<Rightarrow> c_call_clobbers cfg | Some v \<Rightarrow> v)
      @ map (\<lambda>r. (r, call_flag_bit (c_seed cfg) target calls (fst r))) (c_call_flag_clobbers cfg)) m"
  by (simp add: clobber_registers_def Let_def regs.wr_all_def fold_map o_def case_prod_beta')

lemma wr_all_config: "same_config m0 m \<Longrightarrow> same_config m0 (regs.wr_all ws m)"
  by (induction ws arbitrary: m) (auto simp: regs.wr_all_def intro: config.chain)

text \<open>The machine a call leaves before its contracts are served: the event recorded, the return address popped, the clobbers.\<close>

definition after_clobbers :: "run_config \<Rightarrow> bool \<Rightarrow> pcode_op \<Rightarrow> u64 \<Rightarrow> machine \<Rightarrow> machine" where
  "after_clobbers cfg indirect op calls0 m0 =
     (let (target, m) = call_target indirect op m0;
          vals = (if indirect \<or> target \<in> c_stack_targets cfg then []
                  else map (\<lambda>(off, sz). rd_reg m off sz)
                         (case c_call_args cfg target of None \<Rightarrow> c_default_args cfg | Some v \<Rightarrow> v));
          m = record_effect (ECall target vals) m;
          (spoff, spsz) = c_sp cfg;
          m = wr_reg spoff spsz (rd_reg m spoff spsz + of_nat spsz) m
      in clobber_registers cfg target (calls0 + 1) m)"

lemma record_config: "same_config m0 m \<Longrightarrow> same_config m0 (record_effect e m)"
  by (simp add: same_config_def record_effect_def)

lemma after_clobbers_config: "same_config m (after_clobbers cfg indirect op calls m)"
  unfolding after_clobbers_def Let_def case_prod_beta clobber_all
  by (intro wr_all_config config.chain record_config call_target_config)

lemma call_event_after:
  assumes t: "fst (call_target indirect op m) = target"
    and a: "a = after_clobbers cfg indirect op calls m" and c: "c = calls + 1"
    and fr: "f = or_opt (or_opt (c_call_flag_returns cfg target) (c_site_flag_returns cfg pc)) (c_ordinal_flag_returns cfg c)"
    and rr: "r = or_opt (or_opt (c_call_reg_returns cfg target) (c_site_reg_returns cfg pc)) (c_ordinal_reg_returns cfg c)"
  shows "call_event cfg pc indirect op calls m =
    (let m = (case c_site_flag_returns cfg pc of None \<Rightarrow> a | Some fr \<Rightarrow> a\<lparr>flag_return_ordinals := flag_return_ordinals a @ [(c, fr)]\<rparr>);
         m = (case f of None \<Rightarrow> m | Some fr \<Rightarrow> deliver_flag cfg target c fr m);
         m = (case c_site_reg_returns cfg pc of None \<Rightarrow> m | Some rr \<Rightarrow> m\<lparr>reg_return_ordinals := reg_return_ordinals m @ [(c, rr)]\<rparr>)
     in (c, case r of None \<Rightarrow> m | Some rr \<Rightarrow> if c_is_candidate_run cfg
           then wr_reg (fst (rr_dst rr)) (snd (rr_dst rr)) (call_clobber_fill (c_seed cfg) target c (fst (rr_src rr))) m else m))"
  unfolding call_event_def after_clobbers_def a c fr rr t [symmetric] Let_def case_prod_beta by (simp only: fst_conv snd_conv)


text \<open>
  A callee that answers in a flag.  Where a flag contract names a bit and no register contract
  applies to the call, the two runs number the call alike and record the same events, the candidate's
  machine is the original's with one register written, and the bit the original reads in the flag is the
  bit the candidate reads in that register (and still finds in the flag).
\<close>

theorem flag_answer_delivered:
  assumes ok: "bus_ok m" and t: "fst (call_target indirect op m) = target"
    and fr: "or_opt (or_opt (c_call_flag_returns cfg target) (c_site_flag_returns cfg pc)) (c_ordinal_flag_returns cfg (calls + 1)) = Some fr"
      "fr_from fr = FromBit" "fr_flag fr = (foff, fsz)" "fr_reg fr = (roff, rsz)"
    and rr: "or_opt (or_opt (c_call_reg_returns cfg target) (c_site_reg_returns cfg pc)) (c_ordinal_reg_returns cfg (calls + 1)) = None"
    and sizes: "1 \<le> fsz" "fsz \<le> 8" "1 \<le> rsz" "rsz \<le> 8" and apart: "reg_apart m (foff, fsz) (roff, rsz)"
    and orig: "call_event (cfg\<lparr>c_is_candidate_run := False\<rparr>) pc indirect op calls m = (c1, m1)"
    and cand: "call_event (cfg\<lparr>c_is_candidate_run := True\<rparr>) pc indirect op calls m = (c2, m2)"
  shows "c1 = c2 \<and> effects m1 = effects m2 \<and> m2 = wr_reg roff rsz (rd_reg m1 foff fsz) m1
    \<and> rd_reg m2 roff rsz = rd_reg m1 foff fsz \<and> rd_reg m2 foff fsz = rd_reg m1 foff fsz"
proof -
  let ?b = "call_flag_bit (c_seed cfg) target (calls + 1) foff"
  define a where "a = after_clobbers cfg indirect op calls m"
  define a' where "a' = (case c_site_flag_returns cfg pc of None \<Rightarrow> a
    | Some fr \<Rightarrow> a\<lparr>flag_return_ordinals := flag_return_ordinals a @ [(calls + 1, fr)]\<rparr>)"
  have site: "c_site_reg_returns cfg pc = None" using rr by (auto simp: or_opt_def split: option.splits)
  have ev: "call_event (cfg\<lparr>c_is_candidate_run := cand\<rparr>) pc indirect op calls m
      = (calls + 1, if cand then wr_reg roff rsz ?b (wr_reg foff fsz ?b a') else wr_reg foff fsz ?b a')" for cand
  proof -
    have "a = after_clobbers (cfg\<lparr>c_is_candidate_run := cand\<rparr>) indirect op calls m"
      by (simp add: a_def after_clobbers_def clobber_registers_def cong: option.case_cong if_cong)
    from call_event_after [OF t this refl refl refl, of pc] show ?thesis
      using fr rr site by (simp add: Let_def deliver_flag_def a'_def)
  qed
  have m1: "c1 = calls + 1" "m1 = wr_reg foff fsz ?b a'" using orig ev [of False] by auto
  have m2: "c2 = calls + 1" "m2 = wr_reg roff rsz ?b m1" using cand ev [of True] m1 by auto
  have c: "same_config m a'"
    using after_clobbers_config [of m cfg indirect op calls] by (simp add: a'_def a_def same_config_def split: option.splits)
  then have c1: "same_config m m1" unfolding m1 by (rule config.chain)
  have f1: "rd_reg m1 foff fsz = ?b"
    using regs.rd_same [OF _ sizes(1,2)] bus_ok_config [OF c] ok by (simp add: m1 flag_bit_mask)
  have b1: "bus_ok m1" using bus_ok_config [OF c1] ok by simp
  then have "rd_reg m2 roff rsz = ?b" using regs.rd_same [OF _ sizes(3,4)] by (simp add: m2 flag_bit_mask)
  moreover have "rd_reg m2 foff fsz = rd_reg m1 foff fsz"
    using regs.rd_apart [OF b1] apart reg_apart_config [OF c1] by (simp add: m2)
  ultimately show ?thesis using m1(1) m2 f1 by (simp add: wr_reg_effects)
qed

text \<open>A direct call to \<open>0x2000\<close>.\<close>

definition demo_call :: pcode_op where
  "demo_call = \<lparr>opcode_number = 7, op_out = None, op_ins = [Var \<lparr>vspace = ''ram'', voffset = 0x2000, vsize = 4\<rparr>], op_dest = Other\<rparr>"

theorem flag_answer_delivered_witness:
  "rd_reg (snd (call_event (demo_config\<lparr>c_is_candidate_run := True\<rparr>) 0x300 False demo_call 0 demo_machine)) 0 4
   = rd_reg (snd (call_event (demo_config\<lparr>c_is_candidate_run := False\<rparr>) 0x300 False demo_call 0 demo_machine)) 0x200 1"
proof -
  have t: "fst (call_target False demo_call demo_machine) = 0x2000" by (simp add: call_target_def demo_call_def is_const_def)
  have ap: "reg_apart demo_machine (0x200, 1) (0, 4)" by code_simp
  have f: "or_opt (or_opt (c_call_flag_returns demo_config 0x2000) (c_site_flag_returns demo_config 0x300)) (c_ordinal_flag_returns demo_config (0 + 1))
      = Some \<lparr>fr_flag = (0x200, 1), fr_reg = (0, 4), fr_from = FromBit\<rparr>"
    and r: "or_opt (or_opt (c_call_reg_returns demo_config 0x2000) (c_site_reg_returns demo_config 0x300)) (c_ordinal_reg_returns demo_config (0 + 1)) = None"
    by (simp_all add: demo_config_def or_opt_def)
  obtain c1 m1 where o: "call_event (demo_config\<lparr>c_is_candidate_run := False\<rparr>) 0x300 False demo_call 0 demo_machine = (c1, m1)" by fastforce
  obtain c2 m2 where c: "call_event (demo_config\<lparr>c_is_candidate_run := True\<rparr>) 0x300 False demo_call 0 demo_machine = (c2, m2)" by fastforce
  have fields: "fr_from \<lparr>fr_flag = (0x200, 1), fr_reg = (0, 4), fr_from = FromBit\<rparr> = FromBit"
    "fr_flag \<lparr>fr_flag = (0x200, 1), fr_reg = (0, 4), fr_from = FromBit\<rparr> = (0x200, 1)"
    "fr_reg \<lparr>fr_flag = (0x200, 1), fr_reg = (0, 4), fr_from = FromBit\<rparr> = (0, 4)" by simp_all
  show ?thesis
    using flag_answer_delivered [OF demo_machine_bus t f fields r _ _ _ _ ap o c] unfolding o c snd_conv by auto
qed

text \<open>
  (C32) A callee that leaves its answer in a register the candidate cannot name.  Where a register contract
  applies to the call and no flag contract does, and the callee's clobber set destroys the source register
  without touching it again, the value the original reads in the source register is the value the candidate
  reads in the destination register; nothing else differs between the two machines.
\<close>

theorem register_answer_delivered:
  assumes ok: "bus_ok m" and t: "fst (call_target indirect op m) = target"
    and fr: "or_opt (or_opt (c_call_flag_returns cfg target) (c_site_flag_returns cfg pc)) (c_ordinal_flag_returns cfg (calls + 1)) = None"
    and rr: "or_opt (or_opt (c_call_reg_returns cfg target) (c_site_reg_returns cfg pc)) (c_ordinal_reg_returns cfg (calls + 1)) = Some rr"
      "rr_src rr = (soff, sz)" "rr_dst rr = (doff, sz)"
    and size: "1 \<le> sz" "sz \<le> 8"
    and cl: "(case c_call_modifies cfg target of None \<Rightarrow> c_call_clobbers cfg | Some v \<Rightarrow> v) = us @ (soff, sz) # ws"
    and apart: "list_all (reg_apart m (soff, sz)) (ws @ c_call_flag_clobbers cfg)"
    and orig: "call_event (cfg\<lparr>c_is_candidate_run := False\<rparr>) pc indirect op calls m = (c1, m1)"
    and cand: "call_event (cfg\<lparr>c_is_candidate_run := True\<rparr>) pc indirect op calls m = (c2, m2)"
  shows "c1 = c2 \<and> effects m1 = effects m2 \<and> m2 = wr_reg doff sz (call_clobber_fill (c_seed cfg) target c1 soff) m1
    \<and> rd_reg m2 doff sz = rd_reg m1 soff sz"
proof -
  let ?v = "call_clobber_fill (c_seed cfg) target (calls + 1) soff"
  define a where "a = after_clobbers cfg indirect op calls m"
  define a' where "a' = (case c_site_reg_returns cfg pc of None \<Rightarrow> a
    | Some rr \<Rightarrow> a\<lparr>reg_return_ordinals := reg_return_ordinals a @ [(calls + 1, rr)]\<rparr>)"
  have site: "c_site_flag_returns cfg pc = None" using fr by (auto simp: or_opt_def split: option.splits)
  have ev: "call_event (cfg\<lparr>c_is_candidate_run := cand\<rparr>) pc indirect op calls m = (calls + 1, if cand then wr_reg doff sz ?v a' else a')" for cand
  proof -
    have "a = after_clobbers (cfg\<lparr>c_is_candidate_run := cand\<rparr>) indirect op calls m"
      by (simp add: a_def after_clobbers_def clobber_registers_def cong: option.case_cong if_cong)
    from call_event_after [OF t this refl refl refl, of pc] show ?thesis
      using fr rr site by (simp add: Let_def a'_def cong: option.case_cong if_cong)
  qed
  have m1: "c1 = calls + 1" "m1 = a'" using orig ev [of False] by auto
  have m2: "c2 = calls + 1" "m2 = wr_reg doff sz ?v m1" using cand ev [of True] m1 by auto
  have c: "same_config m a" unfolding a_def by (rule after_clobbers_config)
  have rd: "read a' = read a" by (rule read_frame) (simp_all add: a'_def same_config_def split: option.splits)
  have src: "rd_reg a soff sz = emu_mask ?v sz"
  proof -
    define x where "x = call_target indirect op m"
    define b where "b = record_effect (ECall (fst x) (if indirect \<or> fst x \<in> c_stack_targets cfg then []
                  else map (\<lambda>(off, sz). rd_reg (snd x) off sz)
                         (case c_call_args cfg (fst x) of None \<Rightarrow> c_default_args cfg | Some v \<Rightarrow> v))) (snd x)"
    define d where "d = wr_reg (fst (c_sp cfg)) (snd (c_sp cfg)) (rd_reg b (fst (c_sp cfg)) (snd (c_sp cfg)) + of_nat (snd (c_sp cfg))) b"
    have xt: "fst x = target" using t by (simp add: x_def)
    have ad: "a = clobber_registers cfg target (calls + 1) d"
      unfolding a_def after_clobbers_def Let_def case_prod_beta d_def b_def x_def t ..
    have cd: "same_config m d" unfolding d_def b_def x_def by (intro config.chain record_config call_target_config)
    have "list_all (\<lambda>(r, _). reg_apart d (soff, sz) r)
        (map (\<lambda>r. (r, call_clobber_fill (c_seed cfg) target (calls + 1) (fst r))) ws
         @ map (\<lambda>r. (r, call_flag_bit (c_seed cfg) target (calls + 1) (fst r))) (c_call_flag_clobbers cfg))"
      using apart by (auto simp: reg_apart_config [OF cd] list_all_iff)
    from regs.rd_all_member [OF _ size this, of "map (\<lambda>r. (r, call_clobber_fill (c_seed cfg) target (calls + 1) (fst r))) us" ?v]
    show ?thesis using ok by (simp add: ad clobber_all cl bus_ok_config [OF cd])
  qed
  have "same_config m a'" using c by (simp add: a'_def same_config_def split: option.splits)
  then have "bus_ok m1" using ok bus_ok_config by (simp add: m1)
  then have "rd_reg m2 doff sz = emu_mask ?v sz" unfolding m2 by (rule regs.rd_same [OF _ size])
  then show ?thesis using m1 m2 src rd by (simp add: wr_reg_effects)
qed

definition demo_indirect :: pcode_op where
  "demo_indirect = \<lparr>opcode_number = 8, op_out = None, op_ins = [reg_var 4 4], op_dest = Other\<rparr>"

theorem register_answer_delivered_witness:
  "rd_reg (snd (call_event (demo_config\<lparr>c_is_candidate_run := True\<rparr>) 0x100 True demo_indirect 0 demo_machine)) 0 4
   = rd_reg (snd (call_event (demo_config\<lparr>c_is_candidate_run := False\<rparr>) 0x100 True demo_indirect 0 demo_machine)) 8 4"
proof -
  have t: "fst (call_target True demo_indirect demo_machine) = 0" by code_simp
  have ap: "list_all (reg_apart demo_machine (8, 4)) ([] @ c_call_flag_clobbers demo_config)" by code_simp
  have r: "or_opt (or_opt (c_call_reg_returns demo_config 0) (c_site_reg_returns demo_config 0x100)) (c_ordinal_reg_returns demo_config (0 + 1))
      = Some \<lparr>rr_src = (8, 4), rr_dst = (0, 4)\<rparr>"
    and f: "or_opt (or_opt (c_call_flag_returns demo_config 0) (c_site_flag_returns demo_config 0x100)) (c_ordinal_flag_returns demo_config (0 + 1)) = None"
    and cl: "(case c_call_modifies demo_config 0 of None \<Rightarrow> c_call_clobbers demo_config | Some v \<Rightarrow> v) = [(0, 4)] @ (8, 4) # []"
    by (simp_all add: demo_config_def or_opt_def)
  have fields: "rr_src \<lparr>rr_src = (8, 4), rr_dst = (0, 4)\<rparr> = (8, 4)" "rr_dst \<lparr>rr_src = (8, 4), rr_dst = (0, 4)\<rparr> = (0, 4)" by simp_all
  obtain c1 m1 where o: "call_event (demo_config\<lparr>c_is_candidate_run := False\<rparr>) 0x100 True demo_indirect 0 demo_machine = (c1, m1)" by fastforce
  obtain c2 m2 where c: "call_event (demo_config\<lparr>c_is_candidate_run := True\<rparr>) 0x100 True demo_indirect 0 demo_machine = (c2, m2)" by fastforce
  show ?thesis
    using register_answer_delivered [OF demo_machine_bus t f r fields _ _ cl ap o c] unfolding o c snd_conv by auto
qed

end
