(* ===== verification/Fd_Space.thy ===== *)
theory Fd_Space
  imports Address_Set Word_Mask "HOL-Library.Product_Lexorder" "HOL-Library.Signed_Division"
begin

text \<open>
  \<^verbatim>\<open>decompile/space.rs\<close>: the address spaces of a target and their registry, the sorted lists of disjoint
  ranges that say which stack offsets may hold locals, and the join records that name a logical value
  held in several physical pieces.  Byte sizes (\<^verbatim>\<open>u32\<close> in the code) are \<open>nat\<close>; offsets are 64-bit words.
\<close>

subsection \<open>Spaces\<close>

datatype space_kind = KConstant | KProcessor | KInternal | KSpacebase | KSpecial

record aspace =
  sp_id :: space_id
  sp_name :: string
  sp_kind :: space_kind
  sp_addr_size :: nat
  sp_big_endian :: bool
  sp_wordsize :: nat
  sp_delay :: int
  sp_deadcodedelay :: int
  sp_spacebase :: "(address \<times> nat) list"
  sp_contain :: "space_id option"

definition space_is_constant :: "aspace \<Rightarrow> bool" where
  "space_is_constant s \<longleftrightarrow> sp_kind s = KConstant"

definition is_heritaged :: "aspace \<Rightarrow> bool" where
  "is_heritaged s \<longleftrightarrow> sp_kind s \<in> {KProcessor, KInternal, KSpacebase}"

definition highest :: "aspace \<Rightarrow> u64" where
  "highest s =
     (let m = (if 8 \<le> sp_addr_size s then - 1 else shl64 1 (sp_addr_size s * 8) - 1)
      in if 1 < sp_wordsize s then m * of_nat (sp_wordsize s) + (of_nat (sp_wordsize s) - 1) else m)"

text \<open>
  The modulus \<open>highest + 1\<close> is computed in \<^verbatim>\<open>i64\<close>; the remainder is the truncated one, corrected when it
  is negative.
\<close>

definition wrap_offset :: "aspace \<Rightarrow> u64 \<Rightarrow> u64" where
  "wrap_offset s off =
     (let h = highest s
      in if off \<le> h then off
         else if sint h = 2 ^ 63 - 1 then off
         else let m = sint h + 1
              in if m = 0 then off
                 else let res = sint off smod m
                      in word_of_int (if res < 0 then res + m else res))"

subsection \<open>Range lists\<close>

record srange =
  rspc :: space_id
  rfirst :: u64
  rlast :: u64

type_synonym range_list = "srange list"

definition upper_bound :: "range_list \<Rightarrow> space_id \<Rightarrow> u64 \<Rightarrow> nat" where
  "upper_bound t spc off = partition_point (\<lambda>r. (rspc r, rfirst r) \<le> (spc, off)) t"

text \<open>The chaining loop of \<open>longest_fit\<close>, over the ranges from index \<open>i\<close> on.\<close>

fun fit_loop :: "space_id \<Rightarrow> u64 \<Rightarrow> range_list \<Rightarrow> u64 \<Rightarrow> u64 \<Rightarrow> u64" where
  "fit_loop spc maxsize [] offset sizeres = sizeres"
| "fit_loop spc maxsize (r # rs) offset sizeres =
     (if rspc r \<noteq> spc \<or> rfirst r > offset then sizeres
      else let sizeres' = sizeres + (rlast r + 1 - offset)
           in if sizeres' \<ge> maxsize then sizeres' else fit_loop spc maxsize rs (rlast r + 1) sizeres')"

definition longest_fit :: "range_list \<Rightarrow> space_id \<Rightarrow> u64 \<Rightarrow> u64 \<Rightarrow> u64" where
  "longest_fit t spc off maxsize =
     (let i = upper_bound t spc off
      in if t = [] \<or> i = 0 then 0
         else if rspc (t ! (i - 1)) \<noteq> spc \<or> rlast (t ! (i - 1)) < off then 0
         else fit_loop spc maxsize (drop (i - 1) t) off 0)"

text \<open>The first range that reaches \<open>first\<close>: where both updates start.\<close>

definition first_reaching :: "range_list \<Rightarrow> space_id \<Rightarrow> u64 \<Rightarrow> nat" where
  "first_reaching t spc first =
     (let i = upper_bound t spc first
      in if i \<noteq> 0 \<and> \<not> (rspc (t ! (i - 1)) \<noteq> spc \<or> rlast (t ! (i - 1)) < first) then i - 1 else i)"

definition srange_lt :: "srange \<Rightarrow> srange \<Rightarrow> bool" where
  "srange_lt a b \<longleftrightarrow> (rspc a, rfirst a, rlast a) < (rspc b, rfirst b, rlast b)"

text \<open>\<open>None\<close>: the slice \<open>iter1..iter2\<close> is not a range and indexing panics.\<close>

definition insert_range :: "range_list \<Rightarrow> space_id \<Rightarrow> u64 \<Rightarrow> u64 \<Rightarrow> range_list option" where
  "insert_range t spc first lst =
     (let iter1 = first_reaching t spc first;
          iter2 = upper_bound t spc lst
      in if iter2 < iter1 then None
         else let hit = take (iter2 - iter1) (drop iter1 t);
                  f = fold (\<lambda>r a. min a (rfirst r)) hit first;
                  l = fold (\<lambda>r a. max a (rlast r)) hit lst;
                  t' = take iter1 t @ drop iter2 t;
                  ins = \<lparr>rspc = spc, rfirst = f, rlast = l\<rparr>;
                  pos = partition_point (\<lambda>r. srange_lt r ins) t'
              in Some (take pos t' @ ins # drop pos t'))"

definition remove_range :: "range_list \<Rightarrow> space_id \<Rightarrow> u64 \<Rightarrow> u64 \<Rightarrow> range_list option" where
  "remove_range t spc first lst =
     (if t = [] then Some t
      else let iter1 = first_reaching t spc first;
               iter2 = upper_bound t spc lst
           in if iter2 < iter1 then None
              else let hit = take (iter2 - iter1) (drop iter1 t);
                       keep = concat (map (\<lambda>r.
                         (if rfirst r < first then [\<lparr>rspc = spc, rfirst = rfirst r, rlast = first - 1\<rparr>] else [])
                         @ (if rlast r > lst then [\<lparr>rspc = spc, rfirst = lst + 1, rlast = rlast r\<rparr>] else [])) hit)
                   in Some (sort_key (\<lambda>r. (rspc r, rfirst r, rlast r)) (take iter1 t @ keep @ drop iter2 t)))"

definition in_range :: "range_list \<Rightarrow> address \<Rightarrow> nat \<Rightarrow> bool" where
  "in_range t a sz =
     (let i = upper_bound t (addr_space a) (addr_offset a)
      in if t = [] \<or> i = 0 then False
         else let r = t ! (i - 1)
              in rspc r = addr_space a \<and> rlast r \<ge> addr_offset a + of_nat sz - 1)"

subsection \<open>The space manager\<close>

definition heritage_delay :: "space_kind \<Rightarrow> string \<Rightarrow> int" where
  "heritage_delay k name =
     (case k of
        KConstant \<Rightarrow> 0 | KInternal \<Rightarrow> 0 | KSpecial \<Rightarrow> 0
      | KProcessor \<Rightarrow> (if name \<noteq> ''register'' then 1 else 0)
      | KSpacebase \<Rightarrow> 1)"

record join_record =
  j_pieces :: "(address \<times> nat) list"
  j_addr :: address
  j_size :: nat

record space_manager =
  sm_spaces :: "aspace list"
  sm_by_name :: "string \<rightharpoonup> space_id"
  sm_joins :: "join_record list"
  sm_join_allocate :: u64

definition by_name :: "space_manager \<Rightarrow> string \<Rightarrow> space_id option" where
  "by_name m name = sm_by_name m name"

definition sm_add :: "space_manager \<Rightarrow> string \<Rightarrow> space_kind \<Rightarrow> nat \<Rightarrow> nat \<Rightarrow> space_id \<times> space_manager" where
  "sm_add m name kind addr_size wordsize =
     (case sm_by_name m name of
        Some i \<Rightarrow> (i, m)
      | None \<Rightarrow>
          let i = of_nat (length (sm_spaces m)); delay = heritage_delay kind name
          in (i, m\<lparr>sm_spaces := sm_spaces m @ [\<lparr>sp_id = i, sp_name = name, sp_kind = kind,
                     sp_addr_size = addr_size, sp_big_endian = False, sp_wordsize = wordsize, sp_delay = delay,
                     sp_deadcodedelay = delay, sp_spacebase = [], sp_contain = None\<rparr>],
                   sm_by_name := (sm_by_name m)(name \<mapsto> i)\<rparr>))"

definition sm_get :: "space_manager \<Rightarrow> space_id \<Rightarrow> aspace" where
  "sm_get m i = sm_spaces m ! unat i"

definition upd_space :: "space_id \<Rightarrow> (aspace \<Rightarrow> aspace) \<Rightarrow> space_manager \<Rightarrow> space_manager" where
  "upd_space i g m = m\<lparr>sm_spaces := (sm_spaces m)[unat i := g (sm_spaces m ! unat i)]\<rparr>"

definition set_deadcode_delay :: "space_manager \<Rightarrow> space_id \<Rightarrow> int \<Rightarrow> space_manager" where
  "set_deadcode_delay m i delay = upd_space i (\<lambda>s. s\<lparr>sp_deadcodedelay := delay\<rparr>) m"

definition set_spacebase :: "space_manager \<Rightarrow> space_id \<Rightarrow> address \<Rightarrow> nat \<Rightarrow> space_manager" where
  "set_spacebase m i reg sz = upd_space i (\<lambda>s. s\<lparr>sp_spacebase := sp_spacebase s @ [(reg, sz)]\<rparr>) m"

definition set_contain :: "space_manager \<Rightarrow> space_id \<Rightarrow> space_id \<Rightarrow> space_manager" where
  "set_contain m i c = upd_space i (\<lambda>s. s\<lparr>sp_contain := Some c\<rparr>) m"

definition set_big_endian :: "space_manager \<Rightarrow> bool \<Rightarrow> space_manager" where
  "set_big_endian m big = m\<lparr>sm_spaces := map (\<lambda>s. s\<lparr>sp_big_endian := big\<rparr>) (sm_spaces m)\<rparr>"

definition set_ram_addr_size :: "space_manager \<Rightarrow> nat \<Rightarrow> space_manager" where
  "set_ram_addr_size m sz =
     (case by_name m ''ram'' of
        None \<Rightarrow> m
      | Some ram \<Rightarrow> if 0 < sz then upd_space ram (\<lambda>s. s\<lparr>sp_addr_size := sz\<rparr>) m else m)"

definition set_stack_pointer :: "space_manager \<Rightarrow> address \<Rightarrow> nat \<Rightarrow> space_manager" where
  "set_stack_pointer m reg sz =
     (case by_name m ''stack'' of
        None \<Rightarrow> m
      | Some stack \<Rightarrow>
          set_spacebase (upd_space stack (\<lambda>s. s\<lparr>sp_spacebase := [], sp_addr_size := sz\<rparr>) m) stack reg sz)"

definition is_big_endian :: "space_manager \<Rightarrow> space_id \<Rightarrow> bool" where
  "is_big_endian m i = sp_big_endian (sm_spaces m ! unat i)"

definition space_by_spacebase :: "space_manager \<Rightarrow> address \<Rightarrow> nat \<Rightarrow> space_id option" where
  "space_by_spacebase m loc sz = map_option sp_id (find (\<lambda>s. (loc, sz) \<in> set (sp_spacebase s)) (sm_spaces m))"

text \<open>\<open>standard\<close>: the x86-64 spaces, the stack pointer of the stack and the memory that contains it.\<close>

definition sm_empty :: space_manager where
  "sm_empty = \<lparr>sm_spaces = [], sm_by_name = (\<lambda>_. None), sm_joins = [], sm_join_allocate = 0\<rparr>"

definition sm_standard :: space_manager where
  "sm_standard =
     (let (_, m) = sm_add sm_empty ''const'' KConstant 8 1;
          (_, m) = sm_add m ''ram'' KProcessor 8 1;
          (register, m) = sm_add m ''register'' KProcessor 4 1;
          (_, m) = sm_add m ''unique'' KInternal 4 1;
          (stack, m) = sm_add m ''stack'' KSpacebase 8 1;
          m = set_spacebase m stack \<lparr>addr_space = register, addr_offset = 0x20\<rparr> 8
      in (case by_name m ''ram'' of None \<Rightarrow> m | Some ram \<Rightarrow> set_contain m stack ram))"

definition from_spaces :: "aspace list \<Rightarrow> space_manager" where
  "from_spaces ss =
     \<lparr>sm_spaces = ss, sm_by_name = fold (\<lambda>s t. t(sp_name s \<mapsto> sp_id s)) ss (\<lambda>_. None),
      sm_joins = [], sm_join_allocate = 0\<rparr>"

definition justified_contain :: "space_manager \<Rightarrow> address \<Rightarrow> nat \<Rightarrow> address \<Rightarrow> nat \<Rightarrow> bool \<Rightarrow> u64 option" where
  "justified_contain m a sz op2 sz2 forceleft =
     (if addr_space a \<noteq> addr_space op2 \<or> sz = 0 \<or> sz2 = 0 then None
      else if addr_offset op2 < addr_offset a then None
      else let off1 = addr_offset a + (of_nat sz - 1); off2 = addr_offset op2 + (of_nat sz2 - 1)
           in if off2 > off1 then None
              else if is_big_endian m (addr_space a) \<and> \<not> forceleft then Some (off1 - off2)
              else Some (addr_offset op2 - addr_offset a))"

subsection \<open>Joins\<close>

definition find_join :: "space_manager \<Rightarrow> address \<Rightarrow> join_record option" where
  "find_join m a = find (\<lambda>r. j_addr r = a) (sm_joins m)"

text \<open>\<open>None\<close>: one of the assertions fails.\<close>

definition find_add_join :: "space_manager \<Rightarrow> (address \<times> nat) list \<Rightarrow> nat \<Rightarrow> (address \<times> space_manager) option" where
  "find_add_join m pieces logical_size =
     (if pieces = [] \<or> length pieces = 1 \<and> logical_size = 0 \<or> logical_size \<noteq> 0 \<and> length pieces \<noteq> 1 then None
      else let sz = (if logical_size \<noteq> 0 then logical_size else sum_list (map snd pieces) mod 2 ^ 32)
           in if sz = 0 then None
              else case find (\<lambda>r. j_pieces r = pieces \<and> j_size r = sz) (sm_joins m) of
                     Some r \<Rightarrow> Some (j_addr r, m)
                   | None \<Rightarrow>
                       let (spc, m) = (case by_name m ''join'' of Some i \<Rightarrow> (i, m) | None \<Rightarrow> sm_add m ''join'' KSpecial 8 1);
                           m = upd_space spc (\<lambda>s. s\<lparr>sp_big_endian := sp_big_endian (sm_spaces m ! 0)\<rparr>) m;
                           a = \<lparr>addr_space = spc, addr_offset = sm_join_allocate m\<rparr>
                       in Some (a, m\<lparr>sm_join_allocate := sm_join_allocate m + ((of_nat sz + 15) AND NOT 15),
                                     sm_joins := sm_joins m @ [\<lparr>j_pieces = pieces, j_addr = a, j_size = sz\<rparr>]\<rparr>))"

text \<open>The loop over the pieces, least significant storage first; positions count from the first piece.\<close>

fun piece_at :: "(nat \<times> address \<times> nat) list \<Rightarrow> u64 \<Rightarrow> (address \<times> nat) option" where
  "piece_at [] off = None"
| "piece_at ((pos, a, sz) # ps) off =
     (if off < of_nat sz then Some (a\<lparr>addr_offset := addr_offset a + off\<rparr>, pos) else piece_at ps (off - of_nat sz))"

definition join_equivalent_address :: "space_manager \<Rightarrow> join_record \<Rightarrow> u64 \<Rightarrow> (address \<times> nat) option" where
  "join_equivalent_address m r offset =
     (if offset < addr_offset (j_addr r) then None
      else let ps = enumerate 0 (j_pieces r)
           in piece_at (if is_big_endian m (addr_space (fst (hd (j_pieces r)))) then ps else rev ps)
                (offset - addr_offset (j_addr r)))"

definition join_range :: "space_manager \<Rightarrow> address \<Rightarrow> nat \<Rightarrow> (address \<times> nat) list option" where
  "join_range m a sz =
     (case find (\<lambda>r. addr_space (j_addr r) = addr_space a \<and> addr_offset (j_addr r) \<le> addr_offset a
                   \<and> addr_offset a < addr_offset (j_addr r) + of_nat (j_size r)) (sm_joins m) of
        None \<Rightarrow> None
      | Some r \<Rightarrow>
          (case join_equivalent_address m r (addr_offset a) of
             None \<Rightarrow> None
           | Some (first, p1) \<Rightarrow>
               if sz = 0 then None
               else case checked_add64 (addr_offset a) (of_nat sz - 1) of
                      None \<Rightarrow> None
                    | Some end_off \<Rightarrow>
                        (case join_equivalent_address m r end_off of
                           None \<Rightarrow> None
                         | Some (lst, p2) \<Rightarrow>
                             if p1 = p2 then Some [(first, sz)]
                             else
                               let lo = min p1 p2; hi = max p1 p2;
                                   pieces = take (hi + 1 - lo) (drop lo (j_pieces r));
                                   trunc_first = unat (addr_offset first - addr_offset (fst (j_pieces r ! p1)));
                                   trunc_last = snd (j_pieces r ! p2)
                                     - unat (addr_offset lst - addr_offset (fst (j_pieces r ! p2))) - 1;
                                   high = length pieces - 1;
                                   (s, e) = (if p2 < p1 then (high, 0) else (0, high));
                                   pieces = pieces[s := (first, snd (pieces ! s) - trunc_first)];
                                   pieces = pieces[e := (fst (pieces ! e), snd (pieces ! e) - trunc_last)]
                               in Some pieces)))"

text \<open>\<open>None\<close>: the expectation that the subrange is covered fails.\<close>

definition renormalize_join_address :: "space_manager \<Rightarrow> address \<Rightarrow> nat \<Rightarrow> (address \<times> space_manager) option" where
  "renormalize_join_address m a sz =
     (if by_name m ''join'' \<noteq> Some (addr_space a) then Some (a, m)
      else if (case find_join m a of Some r \<Rightarrow> j_size r = sz | None \<Rightarrow> False) then Some (a, m)
      else case join_range m a sz of
             None \<Rightarrow> None
           | Some pieces \<Rightarrow> if length pieces = 1 then Some (fst (hd pieces), m) else find_add_join m pieces 0)"

definition normalized_address_eq :: "space_manager \<Rightarrow> address \<Rightarrow> nat \<Rightarrow> address \<Rightarrow> bool" where
  "normalized_address_eq m a sz other =
     (if by_name m ''join'' \<noteq> Some (addr_space a) then a = other
      else if (case find_join m a of Some r \<Rightarrow> j_size r = sz | None \<Rightarrow> False) then a = other
      else case join_range m a sz of
             None \<Rightarrow> False
           | Some pieces \<Rightarrow>
               if length pieces = 1 then fst (hd pieces) = other
               else (case find_join m other of Some r \<Rightarrow> j_size r = sz \<and> j_pieces r = pieces | None \<Rightarrow> False))"

subsection \<open>What a range list denotes\<close>

definition rl_addrs :: "range_list \<Rightarrow> address set" where
  "rl_addrs t = {a. \<exists>r \<in> set t. addr_space a = rspc r \<and> rfirst r \<le> addr_offset a \<and> addr_offset a \<le> rlast r}"

definition rl_before :: "srange \<Rightarrow> srange \<Rightarrow> bool" where
  "rl_before a b \<longleftrightarrow> rspc a < rspc b \<or> rspc a = rspc b \<and> rlast a < rfirst b"

definition rl_ok :: "range_list \<Rightarrow> bool" where
  "rl_ok t \<longleftrightarrow> sorted_wrt rl_before t \<and> (\<forall>r \<in> set t. rfirst r \<le> rlast r)"

lemma rl_addrs_append: "rl_addrs (s @ t) = rl_addrs s \<union> rl_addrs t"
  by (auto simp: rl_addrs_def)

lemma rl_addrs_Cons:
  "rl_addrs (r # t) = {a. addr_space a = rspc r \<and> rfirst r \<le> addr_offset a \<and> addr_offset a \<le> rlast r} \<union> rl_addrs t"
  by (auto simp: rl_addrs_def)

lemma rl_addrs_Nil: "rl_addrs [] = {}"
  by (simp add: rl_addrs_def)

lemmas rl_addrs_simps = rl_addrs_append rl_addrs_Cons rl_addrs_Nil

lemma upper_bound_le: "upper_bound t spc off \<le> length t"
  by (simp add: upper_bound_def partition_point_le)

lemma rl_before_key: "rl_before a b \<Longrightarrow> rfirst a \<le> rlast a \<Longrightarrow> (rspc a, rfirst a) < (rspc b, rfirst b)"
  by (auto simp: rl_before_def less_eq_prod_def less_prod_def)

lemma partition_point_iff:
  assumes "\<And>a b. a < b \<Longrightarrow> b < length xs \<Longrightarrow> P (xs ! b) \<Longrightarrow> P (xs ! a)" "i < length xs"
  shows "i < partition_point P xs \<longleftrightarrow> P (xs ! i)"
proof
  assume "i < partition_point P xs"
  then have "takeWhile P xs ! i \<in> set (takeWhile P xs)" and "takeWhile P xs ! i = xs ! i"
    unfolding partition_point_def by (rule nth_mem, rule takeWhile_nth)
  then show "P (xs ! i)" using set_takeWhileD by metis
next
  assume P: "P (xs ! i)"
  show "i < partition_point P xs"
  proof (rule ccontr)
    assume n: "\<not> i < partition_point P xs"
    then have l: "length (takeWhile P xs) < length xs" and le: "length (takeWhile P xs) \<le> i"
      using assms(2) unfolding partition_point_def by linarith+
    have "\<not> P (xs ! length (takeWhile P xs))" by (rule nth_length_takeWhile [OF l])
    then show False using P le assms(1) [OF _ assms(2)] by (cases "length (takeWhile P xs) = i") auto
  qed
qed

lemma upper_bound_iff:
  assumes "rl_ok t" "i < length t"
  shows "i < upper_bound t spc off \<longleftrightarrow> (rspc (t ! i), rfirst (t ! i)) \<le> (spc, off)"
  unfolding upper_bound_def
proof (rule partition_point_iff [OF _ assms(2)])
  fix a b assume ab: "a < b" "b < length t" and p: "(rspc (t ! b), rfirst (t ! b)) \<le> (spc, off)"
  then have "rl_before (t ! a) (t ! b)" "rfirst (t ! a) \<le> rlast (t ! a)"
    using assms(1) by (auto simp: rl_ok_def sorted_wrt_iff_nth_less)
  then have "(rspc (t ! a), rfirst (t ! a)) < (rspc (t ! b), rfirst (t ! b))" by (rule rl_before_key)
  then show "(rspc (t ! a), rfirst (t ! a)) \<le> (spc, off)" using p by (meson less_imp_le order_trans)
qed

lemma in_drop_nth: "r \<in> set (drop j t) \<Longrightarrow> \<exists>k. r = t ! k \<and> j \<le> k \<and> k < length t"
proof -
  assume "r \<in> set (drop j t)"
  then obtain n where "n < length (drop j t)" "drop j t ! n = r" unfolding in_set_conv_nth by blast
  then show ?thesis by (intro exI [of _ "j + n"]) auto
qed

lemma in_slice_nth: "r \<in> set (take n (drop i t)) \<Longrightarrow> \<exists>k. r = t ! k \<and> i \<le> k \<and> k < i + n \<and> k < length t"
proof -
  assume "r \<in> set (take n (drop i t))"
  then obtain m where "m < length (take n (drop i t))" "take n (drop i t) ! m = r" unfolding in_set_conv_nth by blast
  then show ?thesis by (intro exI [of _ "i + m"]) auto
qed

lemma key_le: "(a :: space_id, b :: u64) \<le> (c, d) \<longleftrightarrow> a < c \<or> a = c \<and> b \<le> d"
  by (auto simp: less_eq_prod_def)

lemma upper_bound_lt:
  assumes "rl_ok t" "i < length t"
  shows "i < upper_bound t spc off \<longleftrightarrow> rspc (t ! i) < spc \<or> rspc (t ! i) = spc \<and> rfirst (t ! i) \<le> off"
  unfolding upper_bound_iff [OF assms] key_le ..

lemma first_reaching_cases:
  fixes spc :: space_id
  obtains "first_reaching t spc first = upper_bound t spc first"
      "upper_bound t spc first = 0 \<or> rspc (t ! (upper_bound t spc first - 1)) \<noteq> spc
         \<or> rlast (t ! (upper_bound t spc first - 1)) < first"
  | "first_reaching t spc first = upper_bound t spc first - 1" "0 < upper_bound t spc first"
      "rspc (t ! (upper_bound t spc first - 1)) = spc" "first \<le> rlast (t ! (upper_bound t spc first - 1))"
proof (cases "upper_bound t spc first \<noteq> 0 \<and> \<not> (rspc (t ! (upper_bound t spc first - 1)) \<noteq> spc
    \<or> rlast (t ! (upper_bound t spc first - 1)) < first)")
  case True
  then have "first_reaching t spc first = upper_bound t spc first - 1"
    unfolding first_reaching_def Let_def by (rule if_P)
  moreover have "0 < upper_bound t spc first" "first \<le> rlast (t ! (upper_bound t spc first - 1))"
    "rspc (t ! (upper_bound t spc first - 1)) = spc"
    using True by (auto simp: not_less)
  ultimately show thesis using that(2) by blast
next
  case False
  then have "first_reaching t spc first = upper_bound t spc first"
    unfolding first_reaching_def Let_def by (rule if_not_P)
  then show thesis using that(1) False by blast
qed

lemma rl_nth:
  assumes "rl_ok t" shows "a < b \<Longrightarrow> b < length t \<Longrightarrow> rl_before (t ! a) (t ! b)"
    and "a < length t \<Longrightarrow> rfirst (t ! a) \<le> rlast (t ! a)"
  using assms by (simp_all add: rl_ok_def sorted_wrt_iff_nth_less)

text \<open>The three parts of the list an update sees: before it, hit by it, after it.\<close>

lemma rl_split_before:
  assumes ok: "rl_ok t" and r: "r \<in> set (take (first_reaching t spc first) t)"
  shows "rspc r < spc \<or> rspc r = spc \<and> rlast r < first"
proof -
  let ?u = "upper_bound t spc first"
  obtain k where k: "r = t ! k" "k < first_reaching t spc first" "k < length t"
    using in_slice_nth [of r "first_reaching t spc first" 0 t] r by auto
  have le: "first_reaching t spc first \<le> ?u" by (rule first_reaching_cases [of t spc first]) auto
  have u: "0 < ?u" "?u - 1 < length t" using k upper_bound_le [of t spc first] le by linarith+
  have p: "rspc (t ! (?u - 1)) < spc \<or> rspc (t ! (?u - 1)) = spc \<and> rfirst (t ! (?u - 1)) \<le> first"
    using upper_bound_lt [OF ok u(2), of spc first] u by simp
  have b: "rl_before r (t ! (?u - 1))" if "k < ?u - 1" unfolding k by (rule rl_nth(1) [OF ok that u(2)])
  show ?thesis
  proof (cases "k < ?u - 1")
    case True show ?thesis using b [OF True] p by (auto simp: rl_before_def)
  next
    case False
    then have "k = ?u - 1" using k le by linarith
    then show ?thesis using p k by (cases rule: first_reaching_cases [of t spc first]) auto
  qed
qed

lemma rl_split_after:
  assumes ok: "rl_ok t" and r: "r \<in> set (drop (upper_bound t spc lst) t)"
  shows "spc < rspc r \<or> rspc r = spc \<and> lst < rfirst r"
proof -
  obtain k where k: "r = t ! k" "upper_bound t spc lst \<le> k" "k < length t" using in_drop_nth [OF r] by blast
  then have "\<not> (rspc r < spc \<or> rspc r = spc \<and> rfirst r \<le> lst)"
    using upper_bound_lt [OF ok k(3), of spc lst] by simp
  then show ?thesis by auto
qed

lemma upper_bound_mono:
  assumes ok: "rl_ok t" and le: "first \<le> lst"
  shows "upper_bound t spc first \<le> upper_bound t spc lst"
proof (rule ccontr)
  let ?j = "upper_bound t spc lst"
  assume c: "\<not> upper_bound t spc first \<le> ?j"
  then have j: "?j < upper_bound t spc first" "?j < length t" using upper_bound_le [of t spc first] by linarith+
  then have "rspc (t ! ?j) < spc \<or> rspc (t ! ?j) = spc \<and> rfirst (t ! ?j) \<le> lst"
    using upper_bound_lt [OF ok j(2), of spc first] le by auto
  then show False using upper_bound_lt [OF ok j(2), of spc lst] by simp
qed

lemma rl_split_le:
  assumes "rl_ok t" "first \<le> lst" shows "first_reaching t spc first \<le> upper_bound t spc lst"
  using upper_bound_mono [OF assms, of spc] by (cases rule: first_reaching_cases [of t spc first]) auto

lemma rl_split_hit:
  assumes ok: "rl_ok t" and le: "first \<le> lst"
    and r: "r \<in> set (take (upper_bound t spc lst - first_reaching t spc first) (drop (first_reaching t spc first) t))"
  shows "rspc r = spc \<and> first \<le> rlast r \<and> rfirst r \<le> lst"
proof -
  let ?u = "upper_bound t spc first"
  obtain k where k: "r = t ! k" "first_reaching t spc first \<le> k" "k < upper_bound t spc lst" "k < length t"
    using in_slice_nth [OF r] rl_split_le [OF ok le, of spc] by auto
  have p: "rspc r < spc \<or> rspc r = spc \<and> rfirst r \<le> lst"
    using upper_bound_lt [OF ok k(4), of spc lst] k by simp
  show ?thesis
  proof (cases "k < ?u")
    case True
    then show ?thesis
    proof (cases rule: first_reaching_cases [of t spc first])
      case 2
      then have "k = ?u - 1" using True k by linarith
      then show ?thesis using 2 p k by auto
    qed (use True k in linarith)
  next
    case False
    then have "\<not> (rspc r < spc \<or> rspc r = spc \<and> rfirst r \<le> first)"
      using upper_bound_lt [OF ok k(4), of spc first] k by simp
    then show ?thesis using p rl_nth(2) [OF ok k(4)] k by auto
  qed
qed

lemma rl_parts:
  assumes "i \<le> j" shows "t = take i t @ take (j - i) (drop i t) @ drop j t"
  by (metis append_take_drop_id assms drop_drop le_add_diff_inverse2)

definition span :: "space_id \<Rightarrow> u64 \<Rightarrow> u64 \<Rightarrow> address set" where
  "span spc first lst = {a. addr_space a = spc \<and> first \<le> addr_offset a \<and> addr_offset a \<le> lst}"

lemma rl_addrs_iff: "a \<in> rl_addrs t \<longleftrightarrow> (\<exists>r \<in> set t. a \<in> span (rspc r) (rfirst r) (rlast r))"
  by (auto simp: rl_addrs_def span_def)

lemma fold_min_least:
  fixes g :: "'r \<Rightarrow> u64"
  shows "fold (\<lambda>r a. min a (g r)) hit x \<in> insert x (g ` set hit)" "fold (\<lambda>r a. min a (g r)) hit x \<le> x"
    "r \<in> set hit \<Longrightarrow> fold (\<lambda>r a. min a (g r)) hit x \<le> g r"
proof (induction hit arbitrary: x)
  case (Cons h hit)
  { case 1 show ?case using Cons(1) [of "min x (g h)"] by (auto simp: min_def split: if_splits) }
  { case 2 show ?case using Cons(2) [of "min x (g h)"] by simp }
  { case 3 then show ?case using Cons(2,3) [of "min x (g h)"] by auto }
qed auto

lemma fold_max_greatest:
  fixes g :: "'r \<Rightarrow> u64"
  shows "fold (\<lambda>r a. max a (g r)) hit x \<in> insert x (g ` set hit)" "x \<le> fold (\<lambda>r a. max a (g r)) hit x"
    "r \<in> set hit \<Longrightarrow> g r \<le> fold (\<lambda>r a. max a (g r)) hit x"
proof (induction hit arbitrary: x)
  case (Cons h hit)
  { case 1 show ?case using Cons(1) [of "max x (g h)"] by (auto simp: max_def split: if_splits) }
  { case 2 show ?case using Cons(2) [of "max x (g h)"] by simp }
  { case 3 then show ?case using Cons(2,3) [of "max x (g h)"] by auto }
qed auto

lemma hit_union:
  fixes first lst f l :: u64
  assumes "first \<le> lst" "\<forall>r \<in> set hit. rspc r = spc \<and> first \<le> rlast r \<and> rfirst r \<le> lst"
    and f: "f \<in> insert first (rfirst ` set hit)" "f \<le> first" "\<forall>r \<in> set hit. f \<le> rfirst r"
    and l: "l \<in> insert lst (rlast ` set hit)" "lst \<le> l" "\<forall>r \<in> set hit. rlast r \<le> l"
  shows "span spc f l = rl_addrs hit \<union> span spc first lst"
proof (intro set_eqI iffI)
  fix a assume a: "a \<in> span spc f l"
  show "a \<in> rl_addrs hit \<union> span spc first lst"
  proof (cases "first \<le> addr_offset a \<and> addr_offset a \<le> lst")
    case True then show ?thesis using a by (simp add: span_def)
  next
    case False
    then consider "addr_offset a < first" | "lst < addr_offset a" by (auto simp: not_le)
    then have "\<exists>r \<in> set hit. rfirst r \<le> addr_offset a \<and> addr_offset a \<le> rlast r"
    proof cases
      case 1
      then obtain r where "r \<in> set hit" "rfirst r \<le> addr_offset a" using a f(1) by (auto simp: span_def)
      then show ?thesis using assms(2) 1 by (meson less_imp_le order_trans)
    next
      case 2
      then obtain r where "r \<in> set hit" "addr_offset a \<le> rlast r" using a l(1) by (auto simp: span_def)
      then show ?thesis using assms(2) 2 by (meson less_imp_le order_trans)
    qed
    then show ?thesis using a assms(2) by (auto simp: rl_addrs_def span_def)
  qed
next
  fix a assume "a \<in> rl_addrs hit \<union> span spc first lst"
  then show "a \<in> span spc f l"
  proof
    assume "a \<in> rl_addrs hit"
    then obtain r where r: "r \<in> set hit" "addr_space a = rspc r" "rfirst r \<le> addr_offset a" "addr_offset a \<le> rlast r"
      by (auto simp: rl_addrs_def)
    then show ?thesis using assms(2) f(3) l(3) by (auto simp: span_def intro: order_trans)
  qed (use f(2) l(2) in \<open>auto simp: span_def intro: order_trans\<close>)
qed

lemma rl_ok_append:
  "rl_ok (A @ B) \<longleftrightarrow> rl_ok A \<and> rl_ok B \<and> (\<forall>a \<in> set A. \<forall>b \<in> set B. rl_before a b)"
  by (auto simp: rl_ok_def sorted_wrt_append)

lemma rl_ok_Cons: "rl_ok (r # B) \<longleftrightarrow> rfirst r \<le> rlast r \<and> (\<forall>b \<in> set B. rl_before r b) \<and> rl_ok B"
  by (auto simp: rl_ok_def)

lemma srange_lt_before:
  assumes "rl_before a b" "rfirst a \<le> rlast a" shows "srange_lt a b" "\<not> srange_lt b a"
proof -
  have "(rspc a, rfirst a) < (rspc b, rfirst b)" by (rule rl_before_key [OF assms])
  then have "rspc a < rspc b \<or> rspc a = rspc b \<and> rfirst a < rfirst b" by (auto simp: less_prod_def)
  then show "srange_lt a b" "\<not> srange_lt b a" by (auto simp: srange_lt_def)
qed

text \<open>Placing a new range between the ranges before and after it.\<close>

lemma place_range:
  assumes "rl_ok (A @ H @ B)" "f \<le> l" "\<forall>h \<in> set H. rspc h = spc"
    and A: "\<forall>r \<in> set A. rspc r < spc \<or> rspc r = spc \<and> rlast r < f"
    and B: "\<forall>r \<in> set B. spc < rspc r \<or> rspc r = spc \<and> l < rfirst r"
  defines "ins \<equiv> \<lparr>rspc = spc, rfirst = f, rlast = l\<rparr>"
  shows "rl_ok (A @ ins # B)" "partition_point (\<lambda>r. srange_lt r ins) (A @ B) = length A"
proof -
  have b: "\<forall>r \<in> set A. rl_before r ins" "\<forall>r \<in> set B. rl_before ins r" using A B by (auto simp: ins_def rl_before_def)
  have i: "rfirst ins \<le> rlast ins" using assms(2) by (simp add: ins_def)
  show "rl_ok (A @ ins # B)" using assms(1) b i by (auto simp: rl_ok_append rl_ok_Cons)
  have "\<forall>r \<in> set A. rfirst r \<le> rlast r" using assms(1) by (simp add: rl_ok_append rl_ok_def)
  then have "\<forall>r \<in> set A. srange_lt r ins" using b(1) srange_lt_before(1) by blast
  moreover have "\<forall>r \<in> set B. \<not> srange_lt r ins" using b(2) srange_lt_before(2) i by blast
  ultimately have "takeWhile (\<lambda>r. srange_lt r ins) (A @ B) = A" by (cases B) (auto simp: takeWhile_append2 takeWhile_tail)
  then show "partition_point (\<lambda>r. srange_lt r ins) (A @ B) = length A" by (simp add: partition_point_def)
qed

lemma rl_split:
  assumes ok: "rl_ok t" and le: "first \<le> lst"
  obtains A H B where "t = A @ H @ B" "first_reaching t spc first = length A" "upper_bound t spc lst = length A + length H"
    "\<forall>r \<in> set A. rspc r < spc \<or> rspc r = spc \<and> rlast r < first"
    "\<forall>r \<in> set H. rspc r = spc \<and> first \<le> rlast r \<and> rfirst r \<le> lst"
    "\<forall>r \<in> set B. spc < rspc r \<or> rspc r = spc \<and> lst < rfirst r"
proof -
  let ?i = "first_reaching t spc first" and ?j = "upper_bound t spc lst"
  have ij: "?i \<le> ?j" "?j \<le> length t" by (rule rl_split_le [OF ok le], rule upper_bound_le)
  have "t = take ?i t @ take (?j - ?i) (drop ?i t) @ drop ?j t" by (rule rl_parts [OF ij(1)])
  moreover have "?i = length (take ?i t)" "?j = length (take ?i t) + length (take (?j - ?i) (drop ?i t))"
    using ij by auto
  ultimately show thesis
    using that rl_split_before [OF ok, of _ spc first] rl_split_after [OF ok, of _ spc lst] rl_split_hit [OF ok le, of _ spc]
    by blast
qed

lemma insert_range_parts:
  assumes ok: "rl_ok t" and le: "first \<le> lst"
  obtains A H B f l where "t = A @ H @ B" "insert_range t spc first lst = Some (A @ \<lparr>rspc = spc, rfirst = f, rlast = l\<rparr> # B)"
    "rl_ok (A @ \<lparr>rspc = spc, rfirst = f, rlast = l\<rparr> # B)" "span spc f l = rl_addrs H \<union> span spc first lst"
proof -
  obtain A H B where t: "t = A @ H @ B" and ij: "first_reaching t spc first = length A" "upper_bound t spc lst = length A + length H"
    and A: "\<forall>r \<in> set A. rspc r < spc \<or> rspc r = spc \<and> rlast r < first"
    and H: "\<forall>r \<in> set H. rspc r = spc \<and> first \<le> rlast r \<and> rfirst r \<le> lst"
    and B: "\<forall>r \<in> set B. spc < rspc r \<or> rspc r = spc \<and> lst < rfirst r"
    by (rule rl_split [OF ok le])
  define f where "f = fold (\<lambda>r a. min a (rfirst r)) H first"
  define l where "l = fold (\<lambda>r a. max a (rlast r)) H lst"
  note F = fold_min_least [where g = rfirst and hit = H and x = first, folded f_def]
  note L = fold_max_greatest [where g = rlast and hit = H and x = lst, folded l_def]
  have u: "span spc f l = rl_addrs H \<union> span spc first lst"
    using F(3) L(3) by (intro hit_union [OF le H F(1,2) _ L(1,2)]) blast+
  have bef: "\<forall>a \<in> set A. \<forall>h \<in> set H. rl_before a h" "\<forall>h \<in> set H. \<forall>b \<in> set B. rl_before h b"
    using ok unfolding t by (simp_all add: rl_ok_append)
  have "rspc r < spc \<or> rspc r = spc \<and> rlast r < f" if r: "r \<in> set A" for r
  proof (cases "rspc r < spc")
    case False
    then have s: "rspc r = spc" "rlast r < first" using A r by auto
    then have "\<forall>h \<in> set H. rlast r < rfirst h" using bef(1) r H by (auto simp: rl_before_def)
    then show ?thesis using F(1) s by auto
  qed simp
  moreover have "spc < rspc r \<or> rspc r = spc \<and> l < rfirst r" if r: "r \<in> set B" for r
  proof (cases "spc < rspc r")
    case False
    then have s: "rspc r = spc" "lst < rfirst r" using B r by auto
    then have "\<forall>h \<in> set H. rlast h < rfirst r" using bef(2) r H by (auto simp: rl_before_def)
    then show ?thesis using L(1) s by auto
  qed simp
  moreover have "f \<le> l" using F(2) L(2) le by (meson order_trans)
  moreover have "rl_ok (A @ H @ B)" using ok t by simp
  ultimately have p: "rl_ok (A @ \<lparr>rspc = spc, rfirst = f, rlast = l\<rparr> # B)"
    "partition_point (\<lambda>r. srange_lt r \<lparr>rspc = spc, rfirst = f, rlast = l\<rparr>) (A @ B) = length A"
    using H place_range [of A H B f l spc] by blast+
  have "insert_range t spc first lst = Some (A @ \<lparr>rspc = spc, rfirst = f, rlast = l\<rparr> # B)"
    unfolding insert_range_def Let_def ij by (simp add: t p(2) flip: f_def l_def)
  then show thesis using that [OF t _ p(1) u] by blast
qed

lemma insert_range_ok:
  assumes "rl_ok t" "first \<le> lst"
  shows "\<exists>t'. insert_range t spc first lst = Some t' \<and> rl_ok t' \<and> rl_addrs t' = rl_addrs t \<union> span spc first lst"
proof -
  obtain A H B f l where p: "t = A @ H @ B"
    "insert_range t spc first lst = Some (A @ \<lparr>rspc = spc, rfirst = f, rlast = l\<rparr> # B)"
    "rl_ok (A @ \<lparr>rspc = spc, rfirst = f, rlast = l\<rparr> # B)" "span spc f l = rl_addrs H \<union> span spc first lst"
    by (rule insert_range_parts [OF assms])
  have "rl_addrs (A @ \<lparr>rspc = spc, rfirst = f, rlast = l\<rparr> # B) = rl_addrs A \<union> span spc f l \<union> rl_addrs B"
    by (auto simp: rl_addrs_simps span_def)
  also have "\<dots> = rl_addrs t \<union> span spc first lst" unfolding p(1,4) rl_addrs_append by blast
  finally show ?thesis using p(2,3) by blast
qed

lemma rl_refine:
  assumes "rl_ok t" "\<forall>h \<in> set t. rl_ok (g h) \<and> (\<forall>r \<in> set (g h). rspc r = rspc h \<and> rfirst h \<le> rfirst r \<and> rlast r \<le> rlast h)"
  shows "rl_ok (concat (map g t))"
  using assms
proof (induction t)
  case (Cons h t)
  have "rl_before a b" if a: "a \<in> set (g h)" and b: "h' \<in> set t" "b \<in> set (g h')" for a b h'
  proof -
    have "rl_before h h'" using Cons.prems(1) b(1) by (simp add: rl_ok_Cons)
    moreover have "rspc a = rspc h" "rlast a \<le> rlast h" "rspc b = rspc h'" "rfirst h' \<le> rfirst b"
      using Cons.prems(2) a b by simp_all
    ultimately show ?thesis unfolding rl_before_def by (metis order_le_less_trans order_less_le_trans)
  qed
  moreover have "rl_ok (concat (map g t))"
    using Cons.prems by (intro Cons.IH) (simp_all add: rl_ok_Cons)
  moreover have "rl_ok (g h)" using Cons.prems by simp
  ultimately show ?case unfolding list.map concat.simps rl_ok_append set_concat set_map by blast
qed (simp add: rl_ok_def)

lemma rl_ok_sorted: "rl_ok t \<Longrightarrow> sort_key (\<lambda>r. (rspc r, rfirst r, rlast r)) t = t"
proof (rule sort_key_id_if_sorted)
  assume ok: "rl_ok t"
  show "sorted (map (\<lambda>r. (rspc r, rfirst r, rlast r)) t)"
    unfolding sorted_wrt_map
  proof (rule sorted_wrt_mono_rel [of t rl_before])
    fix a b assume "a \<in> set t" "b \<in> set t" "rl_before a b"
    then have "srange_lt a b" using ok srange_lt_before(1) by (auto simp: rl_ok_def)
    then show "(rspc a, rfirst a, rlast a) \<le> (rspc b, rfirst b, rlast b)" unfolding srange_lt_def by (rule less_imp_le)
  qed (use ok in \<open>simp add: rl_ok_def\<close>)
qed

definition cut_range :: "space_id \<Rightarrow> u64 \<Rightarrow> u64 \<Rightarrow> srange \<Rightarrow> srange list" where
  "cut_range spc first lst r =
     (if rspc r = spc \<and> first \<le> rlast r \<and> rfirst r \<le> lst
      then (if rfirst r < first then [\<lparr>rspc = spc, rfirst = rfirst r, rlast = first - 1\<rparr>] else [])
         @ (if rlast r > lst then [\<lparr>rspc = spc, rfirst = lst + 1, rlast = rlast r\<rparr>] else [])
      else [r])"

lemma pred_lt_u64: "(a :: u64) < b \<Longrightarrow> x \<le> b - 1 \<longleftrightarrow> x < b"
  using unat_pred_u64 [of a b] by (auto simp: word_le_nat_alt word_less_nat_alt)

lemma succ_le_u64: "(b :: u64) < a \<Longrightarrow> b + 1 \<le> x \<longleftrightarrow> b < x"
  using unat_succ_u64 [of b a] by (auto simp: word_le_nat_alt word_less_nat_alt)

lemma rl_ok_single: "rl_ok [r] \<longleftrightarrow> rfirst r \<le> rlast r"
  by (simp add: rl_ok_def)

lemma interval_cut:
  fixes a b c d x :: "'a :: linorder"
  assumes "c \<le> b" "a \<le> d" "c \<le> d"
  shows "a \<le> x \<and> x < c \<or> d < x \<and> x \<le> b \<longleftrightarrow> (a \<le> x \<and> x \<le> b) \<and> \<not> (c \<le> x \<and> x \<le> d)"
  using assms by auto

definition cut_left :: "space_id \<Rightarrow> u64 \<Rightarrow> srange \<Rightarrow> srange list" where
  "cut_left spc first r = (if rfirst r < first then [\<lparr>rspc = spc, rfirst = rfirst r, rlast = first - 1\<rparr>] else [])"

definition cut_right :: "space_id \<Rightarrow> u64 \<Rightarrow> srange \<Rightarrow> srange list" where
  "cut_right spc lst r = (if rlast r > lst then [\<lparr>rspc = spc, rfirst = lst + 1, rlast = rlast r\<rparr>] else [])"

lemma cut_left:
  "rl_ok (cut_left spc first h)" "r \<in> set (cut_left spc first h) \<Longrightarrow> rspc r = spc \<and> rfirst r = rfirst h \<and> rlast r < first"
  "a \<in> rl_addrs (cut_left spc first h) \<longleftrightarrow> addr_space a = spc \<and> rfirst h \<le> addr_offset a \<and> addr_offset a < first"
proof -
  have p: "x \<le> first - 1 \<longleftrightarrow> x < first" if "rfirst h < first" for x by (rule pred_lt_u64 [OF that])
  have p1: "first - 1 < first" if "rfirst h < first" using p [OF that, of "first - 1"] by (simp only: order_refl)
  show "rl_ok (cut_left spc first h)"
    using p [of "rfirst h"] by (cases "rfirst h < first") (simp_all add: cut_left_def rl_ok_single rl_ok_def)
  show "r \<in> set (cut_left spc first h) \<Longrightarrow> rspc r = spc \<and> rfirst r = rfirst h \<and> rlast r < first"
    using p1 by (cases "rfirst h < first") (simp_all only: cut_left_def if_True if_False list.set srange.simps, auto)
  show "a \<in> rl_addrs (cut_left spc first h) \<longleftrightarrow> addr_space a = spc \<and> rfirst h \<le> addr_offset a \<and> addr_offset a < first"
    by (cases "rfirst h < first") (auto simp: cut_left_def rl_addrs_simps p)
qed

lemma cut_right:
  "rl_ok (cut_right spc lst h)" "r \<in> set (cut_right spc lst h) \<Longrightarrow> rspc r = spc \<and> rlast r = rlast h \<and> lst < rfirst r"
  "a \<in> rl_addrs (cut_right spc lst h) \<longleftrightarrow> addr_space a = spc \<and> lst < addr_offset a \<and> addr_offset a \<le> rlast h"
proof -
  have q: "lst + 1 \<le> x \<longleftrightarrow> lst < x" if "lst < rlast h" for x by (rule succ_le_u64 [OF that])
  have q1: "lst < lst + 1" if "lst < rlast h" using q [OF that, of "lst + 1"] by (simp only: order_refl)
  show "rl_ok (cut_right spc lst h)"
    using q [of "rlast h"] by (cases "lst < rlast h") (simp_all add: cut_right_def rl_ok_single rl_ok_def)
  show "r \<in> set (cut_right spc lst h) \<Longrightarrow> rspc r = spc \<and> rlast r = rlast h \<and> lst < rfirst r"
    using q1 by (cases "lst < rlast h") (simp_all only: cut_right_def if_True if_False list.set srange.simps, auto)
  show "a \<in> rl_addrs (cut_right spc lst h) \<longleftrightarrow> addr_space a = spc \<and> lst < addr_offset a \<and> addr_offset a \<le> rlast h"
    by (cases "lst < rlast h") (auto simp: cut_right_def rl_addrs_simps q)
qed

lemma cut_range_parts:
  "cut_range spc first lst r =
     (if rspc r = spc \<and> first \<le> rlast r \<and> rfirst r \<le> lst then cut_left spc first r @ cut_right spc lst r else [r])"
  unfolding cut_range_def cut_left_def cut_right_def ..

lemma cut_range_within:
  assumes "rfirst h \<le> rlast h" "first \<le> lst"
  shows "rl_ok (cut_range spc first lst h) \<and>
    (\<forall>r \<in> set (cut_range spc first lst h). rspc r = rspc h \<and> rfirst h \<le> rfirst r \<and> rlast r \<le> rlast h)"
proof (cases "rspc h = spc \<and> first \<le> rlast h \<and> rfirst h \<le> lst")
  case hit: True
  have "rl_ok (cut_left spc first h @ cut_right spc lst h)" unfolding rl_ok_append
  proof (intro conjI cut_left(1) cut_right(1) ballI)
    fix a b assume "a \<in> set (cut_left spc first h)" "b \<in> set (cut_right spc lst h)"
    then have "rspc a = rspc b" "rlast a < first" "lst < rfirst b" using cut_left(2) cut_right(2) by metis+
    then show "rl_before a b" unfolding rl_before_def using assms(2) by (meson less_trans order_less_le_trans)
  qed
  moreover have "rspc r = rspc h \<and> rfirst h \<le> rfirst r \<and> rlast r \<le> rlast h"
    if "r \<in> set (cut_left spc first h) \<or> r \<in> set (cut_right spc lst h)" for r
    using that
  proof
    assume "r \<in> set (cut_left spc first h)"
    then have "rspc r = spc" "rfirst r = rfirst h" "rlast r < first" using cut_left(2) by metis+
    then show ?thesis using hit by (metis less_imp_le order_trans order_refl)
  next
    assume "r \<in> set (cut_right spc lst h)"
    then have "rspc r = spc" "rlast r = rlast h" "lst < rfirst r" using cut_right(2) by metis+
    then show ?thesis using hit by (metis less_imp_le order_trans order_refl)
  qed
  moreover have "cut_range spc first lst h = cut_left spc first h @ cut_right spc lst h"
    unfolding cut_range_parts using hit by (rule if_P)
  ultimately show ?thesis by (simp only: set_append Un_iff) blast
next
  case False
  then have "cut_range spc first lst h = [h]" unfolding cut_range_parts by (rule if_not_P)
  then show ?thesis using assms(1) by (simp add: rl_ok_single)
qed

lemma cut_range_addrs:
  assumes "first \<le> lst"
  shows "rl_addrs (cut_range spc first lst h) = rl_addrs [h] - span spc first lst"
proof (cases "rspc h = spc \<and> first \<le> rlast h \<and> rfirst h \<le> lst")
  case hit: True
  have eq: "a \<in> rl_addrs (cut_left spc first h @ cut_right spc lst h) \<longleftrightarrow> a \<in> rl_addrs [h] - span spc first lst" for a
  proof -
    have h: "a \<in> rl_addrs [h] \<longleftrightarrow> addr_space a = spc \<and> (rfirst h \<le> addr_offset a \<and> addr_offset a \<le> rlast h)"
      using hit by (simp add: rl_addrs_simps)
    have s: "a \<in> span spc first lst \<longleftrightarrow> addr_space a = spc \<and> (first \<le> addr_offset a \<and> addr_offset a \<le> lst)"
      by (simp add: span_def)
    have "rfirst h \<le> addr_offset a \<and> addr_offset a < first \<or> lst < addr_offset a \<and> addr_offset a \<le> rlast h
      \<longleftrightarrow> (rfirst h \<le> addr_offset a \<and> addr_offset a \<le> rlast h) \<and> \<not> (first \<le> addr_offset a \<and> addr_offset a \<le> lst)"
      using hit assms interval_cut [of first "rlast h" "rfirst h" lst "addr_offset a"] by blast
    then show ?thesis unfolding rl_addrs_append Un_iff cut_left(3) cut_right(3) Diff_iff h s by blast
  qed
  have c: "cut_range spc first lst h = cut_left spc first h @ cut_right spc lst h"
    unfolding cut_range_parts using hit by (rule if_P)
  show ?thesis unfolding c using eq by (rule set_eqI)
next
  case miss: False
  have "a \<notin> span spc first lst" if "a \<in> rl_addrs [h]" for a
  proof
    assume "a \<in> span spc first lst"
    then have "rspc h = spc" "first \<le> addr_offset a" "addr_offset a \<le> rlast h" "rfirst h \<le> addr_offset a" "addr_offset a \<le> lst"
      using that by (simp_all add: span_def rl_addrs_simps)
    then have "first \<le> rlast h" "rfirst h \<le> lst" using order_trans by blast+
    then show False using miss \<open>rspc h = spc\<close> by blast
  qed
  moreover have c: "cut_range spc first lst h = [h]" unfolding cut_range_parts using miss by (rule if_not_P)
  ultimately show ?thesis unfolding c by blast
qed

lemma rl_addrs_concat: "rl_addrs (concat (map g t)) = (\<Union>h \<in> set t. rl_addrs (g h))"
  by (induction t) (auto simp: rl_addrs_simps)

lemma remove_range_ok:
  assumes ok: "rl_ok t" and le: "first \<le> lst"
  shows "\<exists>t'. remove_range t spc first lst = Some t' \<and> rl_ok t' \<and> rl_addrs t' = rl_addrs t - span spc first lst"
proof -
  obtain A H B where t: "t = A @ H @ B" and ij: "first_reaching t spc first = length A" "upper_bound t spc lst = length A + length H"
    and A: "\<forall>r \<in> set A. rspc r < spc \<or> rspc r = spc \<and> rlast r < first"
    and H: "\<forall>r \<in> set H. rspc r = spc \<and> first \<le> rlast r \<and> rfirst r \<le> lst"
    and B: "\<forall>r \<in> set B. spc < rspc r \<or> rspc r = spc \<and> lst < rfirst r"
    by (rule rl_split [OF ok le])
  let ?g = "cut_range spc first lst"
  have "map ?g A = map (\<lambda>r. [r]) A" "map ?g B = map (\<lambda>r. [r]) B"
    using A B by (auto simp: cut_range_def)
  moreover have "map ?g H = map (\<lambda>r. (if rfirst r < first then [\<lparr>rspc = spc, rfirst = rfirst r, rlast = first - 1\<rparr>] else [])
         @ (if rlast r > lst then [\<lparr>rspc = spc, rfirst = lst + 1, rlast = rlast r\<rparr>] else [])) H"
    using H by (auto simp: cut_range_def)
  moreover have "rl_ok (concat (map ?g t))"
    using cut_range_within [OF _ le] rl_ok_def ok by (intro rl_refine [OF ok]) blast
  ultimately have rm: "remove_range t spc first lst = Some (concat (map ?g t))"
    unfolding remove_range_def Let_def ij using rl_ok_sorted [of "concat (map ?g t)"] by (simp add: t del: map_eq_conv)
  moreover have "rl_addrs (concat (map ?g t)) = (\<Union>h \<in> set t. rl_addrs [h] - span spc first lst)"
    unfolding rl_addrs_concat using cut_range_addrs [OF le] by simp
  moreover have "(\<Union>h \<in> set t. rl_addrs [h] - span spc first lst) = rl_addrs t - span spc first lst"
    by (auto simp: rl_addrs_iff)
  ultimately show ?thesis using \<open>rl_ok (concat (map ?g t))\<close> by auto
qed

lemma in_range_iff:
  assumes ok: "rl_ok t" and sz: "1 \<le> sz" "unat (addr_offset a) + sz \<le> 2 ^ 64"
  shows "in_range t a sz \<longleftrightarrow> (\<exists>r \<in> set t. rspc r = addr_space a \<and> rfirst r \<le> addr_offset a \<and> addr_offset a + of_nat sz - 1 \<le> rlast r)"
proof -
  let ?s = "addr_space a" and ?o = "addr_offset a" and ?u = "upper_bound t (addr_space a) (addr_offset a)"
  let ?e = "?o + of_nat sz - 1"
  have e: "?o \<le> ?e"
  proof -
    have n: "unat (of_nat (sz - 1) :: u64) = sz - 1"
      using sz by (simp add: unsigned_of_nat take_bit_eq_mod del: of_nat_diff)
    have "unat (?o + of_nat (sz - 1)) = unat ?o + (sz - 1)"
      using sz n by (subst unat_plus_if') simp
    moreover have "?e = ?o + of_nat (sz - 1)" using sz by (simp add: of_nat_diff)
    ultimately show ?thesis unfolding word_le_nat_alt by (metis le_add1)
  qed
  have ul: "?u \<le> length t" by (rule upper_bound_le)
  show ?thesis
  proof
    assume "in_range t a sz"
    then have u: "?u \<noteq> 0" "rspc (t ! (?u - 1)) = ?s" "?e \<le> rlast (t ! (?u - 1))"
      by (auto simp: in_range_def Let_def split: if_splits)
    then have l: "?u - 1 < length t" "?u - 1 < ?u" using ul by linarith+
    then have "rfirst (t ! (?u - 1)) \<le> ?o" using upper_bound_lt [OF ok l(1), of ?s ?o] u(2) by auto
    then show "\<exists>r \<in> set t. rspc r = ?s \<and> rfirst r \<le> ?o \<and> ?e \<le> rlast r" using u l(1) by (intro bexI [of _ "t ! (?u - 1)"]) auto
  next
    assume "\<exists>r \<in> set t. rspc r = ?s \<and> rfirst r \<le> ?o \<and> ?e \<le> rlast r"
    then obtain k where k: "k < length t" "rspc (t ! k) = ?s" "rfirst (t ! k) \<le> ?o" "?e \<le> rlast (t ! k)"
      by (metis in_set_conv_nth)
    then have ku: "k < ?u" using upper_bound_lt [OF ok k(1), of ?s ?o] by auto
    have l: "?u - 1 < length t" "?u - 1 < ?u" using ku ul by linarith+
    have "k = ?u - 1"
    proof (rule ccontr)
      assume "k \<noteq> ?u - 1"
      then have "rl_before (t ! k) (t ! (?u - 1))" using rl_nth(1) [OF ok _ l(1)] ku by simp
      then have "rlast (t ! k) < ?o" using upper_bound_lt [OF ok l(1), of ?s ?o] l(2) k(2) by (auto simp: rl_before_def)
      then show False using e k(4) by auto
    qed
    then show "in_range t a sz" using k ku by (auto simp: in_range_def Let_def)
  qed
qed

lemma unat_plus1: "(x :: u64) \<noteq> - 1 \<Longrightarrow> unat (x + 1) = unat x + 1"
proof -
  assume "x \<noteq> - 1"
  then have "x < - 1" by (metis order_le_less word_order.extremum)
  then show ?thesis by (rule unat_succ_u64)
qed

lemma unat_lt64: "unat (x :: u64) < 2 ^ 64"
  using unat_u64_bound [of x] by simp

lemma unat_diff64: "b \<le> a \<Longrightarrow> unat (a - b :: u64) = unat a - unat b"
  by (rule unat_sub)

definition at_offset :: "space_id \<Rightarrow> nat \<Rightarrow> address" where
  "at_offset spc n = \<lparr>addr_space = spc, addr_offset = of_nat n\<rparr>"

lemma at_offset_in:
  assumes "n < 2 ^ 64"
  shows "at_offset spc n \<in> rl_addrs t \<longleftrightarrow> (\<exists>r \<in> set t. rspc r = spc \<and> unat (rfirst r) \<le> n \<and> n \<le> unat (rlast r))"
proof -
  have "unat (of_nat n :: u64) = n" using assms by (simp add: unsigned_of_nat take_bit_eq_mod)
  then show ?thesis by (auto simp: rl_addrs_def at_offset_def word_le_nat_alt)
qed

text \<open>The chaining loop: it extends the covered run from \<open>offset\<close> and stops at its end or past \<open>maxsize\<close>.\<close>

lemma fit_loop_spec:
  fixes maxsize :: u64
  assumes "rl_ok rs" "\<forall>r \<in> set rs. spc \<le> rspc r \<and> (rspc r = spc \<longrightarrow> rlast r \<noteq> - 1)"
    and "\<forall>r \<in> set rs. rspc r = spc \<longrightarrow> offset \<le> rlast r" "unat sizeres \<le> unat offset"
  defines "n \<equiv> unat (fit_loop spc maxsize rs offset sizeres)"
  shows "unat sizeres \<le> n \<and> unat offset + (n - unat sizeres) < 2 ^ 64
    \<and> (\<forall>x. unat offset \<le> x \<and> x < unat offset + (n - unat sizeres) \<longrightarrow> at_offset spc x \<in> rl_addrs rs)
    \<and> (n < unat maxsize \<longrightarrow> at_offset spc (unat offset + (n - unat sizeres)) \<notin> rl_addrs rs)"
  using assms(1-4) unfolding n_def
proof (induction spc maxsize rs offset sizeres rule: fit_loop.induct)
  case (1 spc maxsize offset sizeres)
  then show ?case using unat_u64_bound [of offset] by (simp add: rl_addrs_simps)
next
  case (2 spc maxsize r rs offset sizeres)
  let ?s = "sizeres + (rlast r + 1 - offset)"
  show ?case
  proof (cases "rspc r \<noteq> spc \<or> rfirst r > offset")
    case True
    have later: "spc < rspc q \<or> rspc q = spc \<and> offset < rfirst q" if "q \<in> set (r # rs)" for q
    proof -
      have "q = r \<or> rl_before r q" using "2.prems"(1) that by (auto simp: rl_ok_Cons)
      moreover have "rfirst r \<le> rlast r" using "2.prems"(1) by (simp add: rl_ok_Cons)
      moreover have "spc \<le> rspc r" using "2.prems"(2) by simp
      ultimately show ?thesis using True by (auto simp: rl_before_def)
    qed
    have "at_offset spc (unat offset) \<notin> rl_addrs (r # rs)"
      unfolding at_offset_in [OF unat_lt64 [of offset]]
    proof clarify
      fix q assume q: "q \<in> set (r # rs)" "spc = rspc q" "unat (rfirst q) \<le> unat offset"
      then show False using later [OF q(1)] by (auto simp: word_less_nat_alt)
    qed
    then show ?thesis using True unat_u64_bound [of offset] by auto
  next
    case False
    then have r: "rspc r = spc" "rfirst r \<le> offset" "offset \<le> rlast r" "rlast r \<noteq> - 1"
      using "2.prems"(2,3) by auto
    have len: "unat (rlast r + 1 - offset) = unat (rlast r) + 1 - unat offset"
      using r(3) unat_plus1 [OF r(4)] by (subst unat_diff64) (simp_all add: word_le_nat_alt)
    have lt: "unat (rlast r) + 1 < 2 ^ 64" using unat_plus1 [OF r(4)] unat_u64_bound [of "rlast r + 1"] by simp
    have s: "unat ?s = unat sizeres + (unat (rlast r) + 1 - unat offset)"
      using len lt "2.prems"(4) r(3) by (subst unat_plus_if') (auto simp: word_le_nat_alt)
    have cov: "at_offset spc x \<in> rl_addrs (r # rs)" if "unat offset \<le> x" "x \<le> unat (rlast r)" for x
      using that r unat_u64_bound [of "rlast r"] by (subst at_offset_in) (auto simp: word_le_nat_alt)
    have eq: "fit_loop spc maxsize (r # rs) offset sizeres
      = (if maxsize \<le> ?s then ?s else fit_loop spc maxsize rs (rlast r + 1) ?s)"
      using False by (simp add: Let_def)
    show ?thesis
    proof (cases "maxsize \<le> ?s")
      case True
      then have "unat maxsize \<le> unat ?s" by (simp add: word_le_nat_alt)
      then show ?thesis unfolding eq using True s lt cov r(3) by (auto simp: word_le_nat_alt)
    next
      case more: False
      have "rl_ok rs" "\<forall>q \<in> set rs. spc \<le> rspc q \<and> (rspc q = spc \<longrightarrow> rlast q \<noteq> - 1)"
        using "2.prems"(1,2) by (simp_all add: rl_ok_Cons)
      moreover have "\<forall>q \<in> set rs. rspc q = spc \<longrightarrow> rlast r + 1 \<le> rlast q"
      proof (intro ballI impI)
        fix q assume q: "q \<in> set rs" "rspc q = spc"
        then have "rlast r < rfirst q" "rfirst q \<le> rlast q" using "2.prems"(1) r(1) by (auto simp: rl_ok_Cons rl_before_def rl_ok_def)
        then show "rlast r + 1 \<le> rlast q" using unat_plus1 [OF r(4)] by (simp add: word_le_nat_alt word_less_nat_alt)
      qed
      moreover have "unat ?s \<le> unat (rlast r + 1)" using s unat_plus1 [OF r(4)] "2.prems"(4) r(3) by (simp add: word_le_nat_alt)
      ultimately have ih: "unat ?s \<le> unat (fit_loop spc maxsize rs (rlast r + 1) ?s)"
        "unat (rlast r + 1) + (unat (fit_loop spc maxsize rs (rlast r + 1) ?s) - unat ?s) < 2 ^ 64"
        "\<forall>x. unat (rlast r + 1) \<le> x \<and> x < unat (rlast r + 1) + (unat (fit_loop spc maxsize rs (rlast r + 1) ?s) - unat ?s) \<longrightarrow> at_offset spc x \<in> rl_addrs rs"
        "unat (fit_loop spc maxsize rs (rlast r + 1) ?s) < unat maxsize \<longrightarrow>
           at_offset spc (unat (rlast r + 1) + (unat (fit_loop spc maxsize rs (rlast r + 1) ?s) - unat ?s)) \<notin> rl_addrs rs"
        using "2.IH" False more by (auto simp: Let_def)
      define m where "m = unat (fit_loop spc maxsize rs (rlast r + 1) ?s)"
      have b: "unat offset + (m - unat sizeres) = unat (rlast r + 1) + (m - unat ?s)"
        using ih(1) s unat_plus1 [OF r(4)] r(3) unfolding m_def by (auto simp: word_le_nat_alt)
      have c: "at_offset spc x \<in> rl_addrs (r # rs)" if "unat offset \<le> x" "x < unat offset + (m - unat sizeres)" for x
      proof (cases "x \<le> unat (rlast r)")
        case True then show ?thesis using cov that by blast
      next
        case False
        then have "at_offset spc x \<in> rl_addrs rs" using ih(3) that b unat_plus1 [OF r(4)] unfolding m_def by auto
        then show ?thesis by (simp add: rl_addrs_simps)
      qed
      have e: "at_offset spc (unat offset + (m - unat sizeres)) \<notin> rl_addrs (r # rs)" if "m < unat maxsize"
      proof -
        have "at_offset spc (unat (rlast r + 1) + (m - unat ?s)) \<notin> rl_addrs rs" using ih(4) that unfolding m_def by blast
        moreover have "at_offset spc (unat (rlast r + 1) + (m - unat ?s)) \<notin> rl_addrs [r]"
          using ih(2) unat_plus1 [OF r(4)] unfolding m_def by (subst at_offset_in) auto
        ultimately show ?thesis unfolding b using rl_addrs_append [of "[r]" rs] by simp
      qed
      have "unat sizeres \<le> m" using ih(1) s unfolding m_def by simp
      then show ?thesis unfolding eq using more ih(2) b c e by (simp flip: m_def)
    qed
  qed
qed

lemma longest_fit_spec:
  fixes off maxsize :: u64
  assumes ok: "rl_ok t" and top: "\<forall>r \<in> set t. rspc r = spc \<longrightarrow> rlast r \<noteq> - 1" and mx: "0 < maxsize"
  defines "n \<equiv> unat (longest_fit t spc off maxsize)"
  shows "(\<forall>x. unat off \<le> x \<and> x < unat off + n \<longrightarrow> x < 2 ^ 64 \<and> at_offset spc x \<in> rl_addrs t)"
    "n < unat maxsize \<Longrightarrow> at_offset spc (unat off + n) \<notin> rl_addrs t"
proof -
  let ?u = "upper_bound t spc off"
  have ul: "?u \<le> length t" by (rule upper_bound_le)
  have none: "at_offset spc (unat off) \<notin> rl_addrs t" if z: "?u = 0 \<or> rspc (t ! (?u - 1)) \<noteq> spc \<or> rlast (t ! (?u - 1)) < off"
  proof
    assume "at_offset spc (unat off) \<in> rl_addrs t"
    then obtain k where k: "k < length t" "rspc (t ! k) = spc" "rfirst (t ! k) \<le> off" "off \<le> rlast (t ! k)"
      unfolding at_offset_in [OF unat_lt64 [of off]] by (auto simp: in_set_conv_nth word_le_nat_alt)
    then have "in_range t \<lparr>addr_space = spc, addr_offset = off\<rparr> 1"
      using unat_u64_bound [of off] by (subst in_range_iff [OF ok]) (auto intro!: bexI [of _ "t ! k"])
    then show False using z by (auto simp: in_range_def Let_def not_less split: if_splits)
  qed
  have "(\<forall>x. unat off \<le> x \<and> x < unat off + n \<longrightarrow> x < 2 ^ 64 \<and> at_offset spc x \<in> rl_addrs t)
    \<and> (n < unat maxsize \<longrightarrow> at_offset spc (unat off + n) \<notin> rl_addrs t)"
  proof (cases "?u = 0 \<or> rspc (t ! (?u - 1)) \<noteq> spc \<or> rlast (t ! (?u - 1)) < off")
    case True
    then have "n = 0" using ul by (auto simp: n_def longest_fit_def Let_def)
    then show ?thesis using none [OF True] by auto
  next
    case False
    let ?A = "take (?u - 1) t" and ?B = "drop (?u - 1) t"
    have u: "?u - 1 < length t" "t \<noteq> []" using False ul by auto
    have n: "n = unat (fit_loop spc maxsize ?B off 0)" using False u by (simp add: n_def longest_fit_def Let_def)
    have okB: "rl_ok ?B" using ok by (metis append_take_drop_id rl_ok_append)
    have hd: "?B = t ! (?u - 1) # drop ?u t" using u False Cons_nth_drop_Suc [OF u(1)] by simp
    have B: "spc \<le> rspc r \<and> (rspc r = spc \<longrightarrow> rlast r \<noteq> - 1 \<and> off \<le> rlast r)" if r: "r \<in> set ?B" for r
    proof -
      have "r = t ! (?u - 1) \<or> rl_before (t ! (?u - 1)) r" using okB r unfolding hd by (auto simp: rl_ok_Cons)
      moreover have "rfirst r \<le> rlast r" using okB r by (simp add: rl_ok_def)
      moreover have "r \<in> set t" using r by (metis in_set_dropD)
      ultimately show ?thesis using False top by (auto simp: rl_before_def)
    qed
    note f = fit_loop_spec [of ?B spc off 0 maxsize, folded n, simplified]
    have A: "at_offset spc x \<notin> rl_addrs ?A" if x: "unat off \<le> x" "x < 2 ^ 64" for x
    proof
      assume "at_offset spc x \<in> rl_addrs ?A"
      then obtain k where k: "k < ?u - 1" "rspc (t ! k) = spc" "x \<le> unat (rlast (t ! k))"
        unfolding at_offset_in [OF x(2)] by (auto simp: in_set_conv_nth)
      then have "rl_before (t ! k) (t ! (?u - 1))" using rl_nth(1) [OF ok _ u(1)] by blast
      moreover have "rfirst (t ! (?u - 1)) \<le> off"
        using upper_bound_lt [OF ok u(1), of spc off] False u by auto
      ultimately show False using k(2,3) x(1) False by (auto simp: rl_before_def word_less_nat_alt word_le_nat_alt)
    qed
    have tAB: "rl_addrs t = rl_addrs ?A \<union> rl_addrs ?B" by (metis append_take_drop_id rl_addrs_append)
    show ?thesis using f okB B A tAB by (auto simp: le_add1)
  qed
  then show "(\<forall>x. unat off \<le> x \<and> x < unat off + n \<longrightarrow> x < 2 ^ 64 \<and> at_offset spc x \<in> rl_addrs t)"
    "n < unat maxsize \<Longrightarrow> at_offset spc (unat off + n) \<notin> rl_addrs t" by auto
qed

subsection \<open>Offsets within a space\<close>

lemma smod_fix: "0 < m \<Longrightarrow> (if a smod m < 0 then a smod m + m else a smod m) = a mod m" for a m :: int
proof -
  assume m: "0 < m"
  have e: "a smod m = (if 0 \<le> a then a mod m else - ((- a) mod m))"
    using m by (auto simp: signed_modulo_int_def sgn_if)
  show ?thesis
  proof (cases "0 \<le> a")
    case True
    then show ?thesis using e pos_mod_sign [OF m, of a] by (simp only: if_True leD [THEN eq_False [THEN iffD2]] if_False)
  next
    case False
    then have s: "a smod m = - ((- a) mod m)" using e by simp
    have b: "0 \<le> (- a) mod m" "(- a) mod m < m" using m by simp_all
    have "a mod m = (if (- a) mod m = 0 then 0 else m - (- a) mod m)" using zmod_zminus1_eq_if [of "- a" m] by simp
    then show ?thesis unfolding s using b by auto
  qed
qed

lemma highest_mask: "sp_wordsize s \<le> 1 \<Longrightarrow> highest s = mask (8 * min (sp_addr_size s) 8)"
  by (simp add: highest_def Let_def shl64_def mask_eq_exp_minus_1 push_bit_of_1 min_def mult.commute)

lemma wrap_offset_and:
  assumes "sp_wordsize s \<le> 1"
  shows "wrap_offset s off = off AND highest s"
proof (cases "8 \<le> sp_addr_size s")
  case True
  then have "highest s = - 1" using highest_mask [OF assms] by (simp add: min_def mask_eq_exp_minus_1)
  then show ?thesis by (simp add: wrap_offset_def Let_def)
next
  case False
  let ?k = "8 * sp_addr_size s"
  have k: "?k \<le> 56" using False by simp
  have h: "highest s = mask ?k" using highest_mask [OF assms] False by (simp add: min_def)
  have uh: "uint (mask ?k :: u64) = 2 ^ ?k - 1"
    using unat_mask64 [of ?k] k by (simp add: uint_nat of_nat_diff)
  have le: "(2 :: int) ^ ?k \<le> 2 ^ 56" using k by (intro power_increasing) auto
  have sh: "sint (mask ?k :: u64) = 2 ^ ?k - 1"
  proof -
    have "sint (mask ?k :: u64) = signed_take_bit 63 (2 ^ ?k - 1)" using uh by (simp add: sint_uint)
    also have "\<dots> = 2 ^ ?k - 1"
    proof (rule signed_take_bit_int_eq_self)
      have "(0 :: int) < 2 ^ ?k" by simp
      then have "0 \<le> (2 :: int) ^ ?k - 1" by linarith
      then show "- (2 ^ 63) \<le> (2 :: int) ^ ?k - 1" by (rule order_trans [rotated]) simp
      show "(2 :: int) ^ ?k - 1 < 2 ^ 63" using le by simp
    qed
    finally show ?thesis .
  qed
  show ?thesis
  proof (cases "off \<le> highest s")
    case True
    then have "uint off < 2 ^ ?k" using uh h by (simp add: word_le_def)
    then have "take_bit ?k off = off" by (simp add: word_uint_eq_iff unsigned_take_bit_eq take_bit_int_eq_self)
    then show ?thesis using True by (simp add: wrap_offset_def Let_def h take_bit_eq_mask)
  next
    case big: False
    have n: "sint (highest s) \<noteq> 2 ^ 63 - 1" "sint (highest s) + 1 = 2 ^ ?k" using sh h le by simp_all
    have "wrap_offset s off = word_of_int (sint off mod 2 ^ ?k)"
      using big n by (simp add: wrap_offset_def Let_def smod_fix del: if_distrib)
    also have "\<dots> = word_of_int (take_bit ?k (uint off))"
    proof -
      have "take_bit ?k (sint off) = take_bit ?k (take_bit 64 (sint off))" using k by (simp add: take_bit_take_bit min_def)
      also have "take_bit 64 (sint off) = uint off" using uint_sint [of off] by simp
      finally show ?thesis by (simp add: take_bit_eq_mod)
    qed
    also have "\<dots> = take_bit ?k off" by (simp flip: unsigned_take_bit_eq)
    finally show ?thesis by (simp add: h take_bit_eq_mask)
  qed
qed

subsection \<open>Interned joins\<close>

definition rec_end :: "join_record \<Rightarrow> nat" where
  "rec_end r = unat (addr_offset (j_addr r)) + j_size r"

definition joins_ok :: "space_manager \<Rightarrow> bool" where
  "joins_ok m \<longleftrightarrow>
     (\<forall>r \<in> set (sm_joins m). sm_by_name m ''join'' = Some (addr_space (j_addr r)) \<and> 0 < j_size r
        \<and> rec_end r \<le> unat (sm_join_allocate m))
     \<and> sorted_wrt (\<lambda>r q. rec_end r \<le> unat (addr_offset (j_addr q)) \<and> (j_pieces r, j_size r) \<noteq> (j_pieces q, j_size q)) (sm_joins m)"

lemma round16:
  assumes "unat x + sz + 15 < 2 ^ 64"
  shows "unat x + sz \<le> unat (x + ((of_nat sz + 15) AND NOT 15) :: u64)"
proof -
  let ?w = "of_nat sz + 15 :: u64"
  have w: "unat ?w = sz + 15"
    using assms by (simp add: unat_word_ariths unsigned_of_nat take_bit_eq_mod)
  have "(15 :: u64) = mask 4" by (simp add: mask_eq_exp_minus_1)
  moreover have "(?w AND NOT (mask 4)) + take_bit 4 ?w = ?w"
    by (subst disjunctive_add) (auto simp: bit_simps intro!: bit_eqI)
  ultimately have "?w AND NOT 15 = ?w - take_bit 4 ?w" by (metis add_diff_cancel_right')
  moreover have t: "unat (take_bit 4 ?w) = (sz + 15) mod 16"
  proof -
    have "unat (take_bit 4 ?w) = take_bit 4 (unat ?w)" by (rule unsigned_take_bit_eq)
    then show ?thesis unfolding w by (simp add: take_bit_eq_mod)
  qed
  moreover have "take_bit 4 ?w \<le> ?w" unfolding word_le_nat_alt t w by simp
  ultimately have u: "unat (?w AND NOT 15) = sz + 15 - (sz + 15) mod 16" by (simp add: unat_sub w)
  have lt: "(sz + 15) mod 16 \<le> 15" using mod_less_divisor [of 16 "sz + 15"] by linarith
  have "unat x + unat (?w AND NOT 15) < 2 ^ 64" unfolding u using assms by linarith
  then have "unat (x + (?w AND NOT 15)) = unat x + (sz + 15 - (sz + 15) mod 16)"
    unfolding u [symmetric] by (subst unat_plus_if') (simp del: unat_of_nat)
  then show ?thesis using lt by linarith
qed

lemma find_join_unique:
  assumes ok: "joins_ok m" and r: "r \<in> set (sm_joins m)" shows "find_join m (j_addr r) = Some r"
proof -
  obtain i where i: "i < length (sm_joins m)" "r = sm_joins m ! i" using r by (metis in_set_conv_nth)
  have "j_addr (sm_joins m ! k) \<noteq> j_addr r" if "k < i" for k
  proof -
    have "rec_end (sm_joins m ! k) \<le> unat (addr_offset (j_addr r))" "0 < j_size (sm_joins m ! k)"
      using ok i that by (auto simp: joins_ok_def sorted_wrt_iff_nth_less)
    then show ?thesis by (auto simp: rec_end_def)
  qed
  then show ?thesis unfolding find_join_def find_Some_iff using i by (intro exI [of _ i]) auto
qed

lemma find_join_in: "find_join m a = Some r \<Longrightarrow> r \<in> set (sm_joins m) \<and> j_addr r = a"
  unfolding find_join_def find_Some_iff by auto

lemma joins_ok_distinct:
  assumes "joins_ok m" "r \<in> set (sm_joins m)" "q \<in> set (sm_joins m)" "j_pieces r = j_pieces q" "j_size r = j_size q"
  shows "r = q"
proof (rule ccontr)
  assume "r \<noteq> q"
  obtain i k where "i < length (sm_joins m)" "r = sm_joins m ! i" "k < length (sm_joins m)" "q = sm_joins m ! k"
    using assms(2,3) by (metis in_set_conv_nth)
  then show False using assms(1,4,5) \<open>r \<noteq> q\<close> unfolding joins_ok_def sorted_wrt_iff_nth_less
    by (metis linorder_cases)
qed

lemma find_pieces:
  assumes "joins_ok m" "r \<in> set (sm_joins m)"
  shows "find (\<lambda>q. j_pieces q = j_pieces r \<and> j_size q = j_size r) (sm_joins m) = Some r"
proof (cases "find (\<lambda>q. j_pieces q = j_pieces r \<and> j_size q = j_size r) (sm_joins m)")
  case None then show ?thesis using assms(2) by (auto simp: find_None_iff)
next
  case (Some q)
  then have "q \<in> set (sm_joins m)" "j_pieces q = j_pieces r" "j_size q = j_size r" by (auto simp: find_Some_iff)
  then show ?thesis using Some joins_ok_distinct [OF assms(1)] assms(2) by metis
qed

definition join_size :: "(address \<times> nat) list \<Rightarrow> nat \<Rightarrow> nat" where
  "join_size pieces logical_size = (if logical_size \<noteq> 0 then logical_size else sum_list (map snd pieces) mod 2 ^ 32)"

lemma sm_add_joins: "sm_joins (snd (sm_add m n k a w)) = sm_joins m" "sm_join_allocate (snd (sm_add m n k a w)) = sm_join_allocate m"
  "sm_by_name (snd (sm_add m n k a w)) n = Some (fst (sm_add m n k a w))"
  by (auto simp: sm_add_def Let_def split: option.splits)

lemma find_add_join_new:
  assumes "find_add_join m pieces ls = Some (a, m')"
    and "find (\<lambda>r. j_pieces r = pieces \<and> j_size r = join_size pieces ls) (sm_joins m) = None"
  shows "sm_joins m' = sm_joins m @ [\<lparr>j_pieces = pieces, j_addr = a, j_size = join_size pieces ls\<rparr>]"
    "sm_join_allocate m' = sm_join_allocate m + ((of_nat (join_size pieces ls) + 15) AND NOT 15)"
    "addr_offset a = sm_join_allocate m" "sm_by_name m' ''join'' = Some (addr_space a)" "0 < join_size pieces ls"
    "sm_by_name m ''join'' = Some s \<Longrightarrow> addr_space a = s"
  using assms sm_add_joins [of m "''join''" KSpecial 8 1] unfolding find_add_join_def join_size_def [symmetric] Let_def by_name_def
  by (auto simp: upd_space_def split: if_splits option.splits prod.splits)

text \<open>Interning: the record is found under the address returned, again by its pieces, and no other record moves.\<close>

lemma find_add_join_interns:
  assumes ok: "joins_ok m" and f: "find_add_join m pieces ls = Some (a, m')"
    and room: "unat (sm_join_allocate m) + join_size pieces ls + 15 < 2 ^ 64"
  shows "joins_ok m'" "find_join m' a = Some \<lparr>j_pieces = pieces, j_addr = a, j_size = join_size pieces ls\<rparr>"
    "find_add_join m' pieces ls = Some (a, m')" "\<And>b r. find_join m b = Some r \<Longrightarrow> find_join m' b = Some r"
proof -
  let ?new = "\<lparr>j_pieces = pieces, j_addr = a, j_size = join_size pieces ls\<rparr>"
  have guards: "\<not> (pieces = [] \<or> length pieces = 1 \<and> ls = 0 \<or> ls \<noteq> 0 \<and> length pieces \<noteq> 1)" "join_size pieces ls \<noteq> 0"
    using f unfolding find_add_join_def join_size_def [symmetric] Let_def by (auto split: if_splits)
  have again: "find_add_join m' pieces ls = Some (a, m')" if "joins_ok m'" "?new \<in> set (sm_joins m')"
    using guards find_pieces [OF that] unfolding find_add_join_def join_size_def [symmetric] Let_def by simp
  have "joins_ok m' \<and> ?new \<in> set (sm_joins m') \<and> set (sm_joins m) \<subseteq> set (sm_joins m')"
  proof (cases "find (\<lambda>r. j_pieces r = pieces \<and> j_size r = join_size pieces ls) (sm_joins m)")
    case (Some r)
    then have "m' = m" "a = j_addr r" using f guards unfolding find_add_join_def join_size_def [symmetric] Let_def by auto
    moreover have "r \<in> set (sm_joins m)" "j_pieces r = pieces" "j_size r = join_size pieces ls"
      using Some by (auto simp: find_Some_iff)
    ultimately show ?thesis using ok by (cases r) auto
  next
    case None
    note n = find_add_join_new [OF f None]
    have "unat (sm_join_allocate m) + join_size pieces ls \<le> unat (sm_join_allocate m')"
      unfolding n(2) by (rule round16 [OF room])
    moreover have "(j_pieces r, j_size r) \<noteq> (pieces, join_size pieces ls)" if "r \<in> set (sm_joins m)" for r
      using None that by (auto simp: find_None_iff)
    moreover have "sm_by_name m' ''join'' = Some (addr_space (j_addr r)) \<and> 0 < j_size r
        \<and> rec_end r \<le> unat (sm_join_allocate m)" if "r \<in> set (sm_joins m)" for r
      using ok that n(4) n(6) unfolding joins_ok_def by metis
    ultimately have "joins_ok m'"
      using ok n(3,4,5) unfolding joins_ok_def n(1) by (fastforce simp: sorted_wrt_append rec_end_def)
    then show ?thesis using n(1) by auto
  qed
  then have j: "joins_ok m'" "?new \<in> set (sm_joins m')" "set (sm_joins m) \<subseteq> set (sm_joins m')" by auto
  show "joins_ok m'" by (rule j(1))
  show "find_join m' a = Some ?new" using find_join_unique [OF j(1,2)] by simp
  show "find_add_join m' pieces ls = Some (a, m')" by (rule again [OF j(1,2)])
  show "find_join m' b = Some r" if "find_join m b = Some r" for b r
    using find_join_in [OF that] find_join_unique [OF j(1)] j(3) by auto
qed

subsection \<open>Properties\<close>

definition demo_ranges :: range_list where
  "demo_ranges = [\<lparr>rspc = 1, rfirst = 0, rlast = 15\<rparr>, \<lparr>rspc = 1, rfirst = 32, rlast = 47\<rparr>]"

lemma demo_ranges_ok: "rl_ok demo_ranges"
  by (simp add: demo_ranges_def rl_ok_def rl_before_def)

text \<open>
  (C12) Adding and removing a range keep the list sorted and disjoint and add, or take away, exactly the
  addresses of the range; neither panics on a proper range.
\<close>

theorem range_list_updates:
  assumes "rl_ok t" "first \<le> lst"
  shows "\<exists>u v. insert_range t spc first lst = Some u \<and> rl_ok u \<and> rl_addrs u = rl_addrs t \<union> span spc first lst
    \<and> remove_range t spc first lst = Some v \<and> rl_ok v \<and> rl_addrs v = rl_addrs t - span spc first lst"
  using insert_range_ok [OF assms, of spc] remove_range_ok [OF assms, of spc] by blast

theorem range_list_updates_witness:
  "\<exists>v. remove_range demo_ranges 1 8 39 = Some v \<and> rl_addrs v = rl_addrs demo_ranges - span 1 8 39"
  using range_list_updates [OF demo_ranges_ok, of 8 39 1] by auto



text \<open>
  In a byte-addressed space an offset is folded by keeping the low bytes of the address size, and
  folding twice changes nothing.
\<close>

theorem wrap_offset_reduces:
  assumes "sp_wordsize s \<le> 1"
  shows "wrap_offset s off = off AND highest s \<and> wrap_offset s (wrap_offset s off) = wrap_offset s off"
  by (simp add: wrap_offset_and [OF assms] and.assoc)

theorem wrap_offset_reduces_witness: "wrap_offset (sm_spaces sm_standard ! 2) (- 16) = 0xfffffff0"
proof -
  have s: "sp_wordsize (sm_spaces sm_standard ! 2) \<le> 1" "highest (sm_spaces sm_standard ! 2) = 0xffffffff" by code_simp+
  show ?thesis using wrap_offset_reduces [OF s(1), of "- 16"] s(2) by simp
qed

text \<open>
  (C20) Interning a join keeps the records disjoint and distinct, the address returned names a record with
  exactly the pieces asked for, asking again returns the same address and changes nothing, and every record
  known before is still found under its address.
\<close>

theorem joins_interned:
  assumes "joins_ok m" and "find_add_join m pieces ls = Some (a, m')"
    and "unat (sm_join_allocate m) + join_size pieces ls + 15 < 2 ^ 64"
  shows "joins_ok m' \<and> find_join m' a = Some \<lparr>j_pieces = pieces, j_addr = a, j_size = join_size pieces ls\<rparr>
    \<and> find_add_join m' pieces ls = Some (a, m') \<and> (\<forall>b r. find_join m b = Some r \<longrightarrow> find_join m' b = Some r)"
  using find_add_join_interns [OF assms] by blast

definition demo_pieces :: "(address \<times> nat) list" where
  "demo_pieces = [(\<lparr>addr_space = 2, addr_offset = 0\<rparr>, 4), (\<lparr>addr_space = 2, addr_offset = 8\<rparr>, 4)]"

theorem joins_interned_witness:
  "\<exists>a m'. find_add_join sm_standard demo_pieces 0 = Some (a, m') \<and> find_add_join m' demo_pieces 0 = Some (a, m')"
proof -
  have j: "sm_joins sm_standard = []" "sm_join_allocate sm_standard = 0" by code_simp+
  have s: "join_size demo_pieces 0 = 8" by (simp add: join_size_def demo_pieces_def)
  have ok: "joins_ok sm_standard" by (simp add: joins_ok_def j)
  have a: "unat (sm_join_allocate sm_standard) + join_size demo_pieces 0 + 15 < 2 ^ 64" by (simp add: j s)
  have "find_add_join sm_standard demo_pieces 0 \<noteq> None"
    unfolding find_add_join_def join_size_def [symmetric] Let_def j s by (simp add: demo_pieces_def split: prod.splits)
  then obtain a m' where f: "find_add_join sm_standard demo_pieces 0 = Some (a, m')" by auto
  show ?thesis using joins_interned [OF ok f a] f by blast
qed

end
