(* ===== verification/Fd_Graph.thy ===== *)
theory Fd_Graph
  imports Fd_Space Pcode_Op
begin

text \<open>
  The data-flow graph of a function: \<^verbatim>\<open>decompile/varnode.rs\<close>, \<^verbatim>\<open>decompile/op.rs\<close>, \<^verbatim>\<open>decompile/block.rs\<close> and the
  operations of \<^verbatim>\<open>decompile/funcdata.rs\<close> that create and rewire it.  Varnodes, operations and blocks live in
  arenas; a handle is an index (\<open>nat\<close>) that the arena itself hands out, and arenas only grow.  Operations
  that can panic on their other arguments (a slot out of range) return an option.  The tracing of
  modified operations, inactive by default, is left out.
\<close>

subsection \<open>Data\<close>

datatype data_type =
    TVoid | TSpacebase space_id | TUnknown nat | TChar | TInt nat | TUint nat | TBool | TFloat nat | TCode
  | TPointer nat data_type | TArray data_type u64 | TStruct nat "(u64 \<times> data_type) list"

record fd_varnode =
  vn_deleted :: bool
  vn_loc :: address
  vn_size :: nat
  vn_flags :: u32
  vn_addlflags :: u32
  vn_create_index :: nat
  vn_def :: "nat option"
  vn_descend :: "nat list"
  vn_ty :: "data_type option"
  vn_nzm :: u64
  vn_consume :: u64

record seq_num =
  sq_pc :: address
  sq_uniq :: nat

record fd_op =
  po_code :: opcode
  po_flags :: u32
  po_seq :: seq_num
  po_parent :: "nat option"
  po_output :: "nat option"
  po_inrefs :: "nat list"
  po_guarded :: "nat option"

record fd_block =
  bk_ops :: "nat list"
  bk_in :: "nat list"
  bk_out :: "nat list"

record effect_record =
  ef_space :: space_id
  ef_offset :: u64
  ef_size :: nat
  ef_effect :: nat

record funcdata =
  fd_addr :: address
  fd_spaces :: space_manager
  fd_effects :: "effect_record list"
  fd_varnodes :: "fd_varnode list"
  fd_ops :: "fd_op list"
  fd_blocks :: "fd_block list"
  fd_create_index :: nat
  fd_unique_offset :: u64
  fd_structured :: bool

subsection \<open>Flags\<close>

definition has :: "u32 \<Rightarrow> u32 \<Rightarrow> bool" where
  "has flags f \<longleftrightarrow> flags AND f \<noteq> 0"

definition CONSTANT :: u32 where "CONSTANT = 0x02"
definition ANNOTATION :: u32 where "ANNOTATION = 0x04"
definition INPUT :: u32 where "INPUT = 0x08"
definition WRITTEN :: u32 where "WRITTEN = 0x10"
definition INSERT :: u32 where "INSERT = 0x20"
definition IMPLIED :: u32 where "IMPLIED = 0x40"
definition TYPELOCK :: u32 where "TYPELOCK = 0x100"
definition NOLOCALALIAS :: u32 where "NOLOCALALIAS = 0x400"
definition VOLATILE :: u32 where "VOLATILE = 0x800"
definition EXTERNREF :: u32 where "EXTERNREF = 0x1000"
definition READONLY :: u32 where "READONLY = 0x2000"
definition PERSIST :: u32 where "PERSIST = 0x4000"
definition ADDRTIED :: u32 where "ADDRTIED = 0x8000"
definition UNAFFECTED :: u32 where "UNAFFECTED = 0x10000"
definition SPACEBASE :: u32 where "SPACEBASE = 0x20000"
definition DIRECTWRITE :: u32 where "DIRECTWRITE = 0x80000"
definition ADDRFORCE :: u32 where "ADDRFORCE = 0x100000"
definition MAPPED :: u32 where "MAPPED = 0x200000"
definition INDIRECT_CREATION :: u32 where "INDIRECT_CREATION = 0x400000"
definition RETURN_ADDRESS :: u32 where "RETURN_ADDRESS = 0x800000"
definition PRECISLO :: u32 where "PRECISLO = 0x2000000"
definition PRECISHI :: u32 where "PRECISHI = 0x4000000"
definition INCIDENTAL_COPY :: u32 where "INCIDENTAL_COPY = 0x20000000"
definition AUTOLIVE_HOLD :: u32 where "AUTOLIVE_HOLD = 0x40000000"

definition WRITEMASK :: u32 where "WRITEMASK = 0x02"
definition LOCKED_INPUT :: u32 where "LOCKED_INPUT = 0x200"

definition OP_DEAD :: u32 where "OP_DEAD = 0x10"
definition OP_BOOLEAN_FLIP :: u32 where "OP_BOOLEAN_FLIP = 0x80"
definition OP_FALLTHRU_TRUE :: u32 where "OP_FALLTHRU_TRUE = 0x100"
definition OP_INDIRECT_SOURCE :: u32 where "OP_INDIRECT_SOURCE = 0x400"
definition OP_CALCULATED_BOOL :: u32 where "OP_CALCULATED_BOOL = 0x8000"

lemmas flag_defs = CONSTANT_def ANNOTATION_def INPUT_def WRITTEN_def INSERT_def IMPLIED_def TYPELOCK_def
  NOLOCALALIAS_def VOLATILE_def EXTERNREF_def READONLY_def PERSIST_def ADDRTIED_def UNAFFECTED_def SPACEBASE_def
  DIRECTWRITE_def ADDRFORCE_def MAPPED_def INDIRECT_CREATION_def RETURN_ADDRESS_def PRECISLO_def PRECISHI_def
  INCIDENTAL_COPY_def AUTOLIVE_HOLD_def

definition is_constant :: "fd_varnode \<Rightarrow> bool" where "is_constant v \<longleftrightarrow> has (vn_flags v) CONSTANT"
definition is_annotation :: "fd_varnode \<Rightarrow> bool" where "is_annotation v \<longleftrightarrow> has (vn_flags v) ANNOTATION"
definition is_input :: "fd_varnode \<Rightarrow> bool" where "is_input v \<longleftrightarrow> has (vn_flags v) INPUT"
definition is_written :: "fd_varnode \<Rightarrow> bool" where "is_written v \<longleftrightarrow> has (vn_flags v) WRITTEN"
definition is_free :: "fd_varnode \<Rightarrow> bool" where "is_free v \<longleftrightarrow> vn_flags v AND (WRITTEN OR INPUT) = 0"
definition is_spacebase :: "fd_varnode \<Rightarrow> bool" where "is_spacebase v \<longleftrightarrow> has (vn_flags v) SPACEBASE"
definition is_auto_live :: "fd_varnode \<Rightarrow> bool" where "is_auto_live v \<longleftrightarrow> has (vn_flags v) (ADDRFORCE OR AUTOLIVE_HOLD)"
definition is_locked_input :: "fd_varnode \<Rightarrow> bool" where "is_locked_input v \<longleftrightarrow> has (vn_addlflags v) LOCKED_INPUT"

definition constant_value :: "fd_varnode \<Rightarrow> u64" where "constant_value v = addr_offset (vn_loc v)"

definition is_dead :: "fd_op \<Rightarrow> bool" where "is_dead p \<longleftrightarrow> has (po_flags p) OP_DEAD"
definition is_marker :: "fd_op \<Rightarrow> bool" where "is_marker p \<longleftrightarrow> po_code p \<in> {Multiequal, Indirect}"
definition is_call :: "fd_op \<Rightarrow> bool" where "is_call p \<longleftrightarrow> po_code p \<in> {Call, Callind, Callother}"
definition is_indirect_source :: "fd_op \<Rightarrow> bool" where "is_indirect_source p \<longleftrightarrow> has (po_flags p) OP_INDIRECT_SOURCE"

definition is_bool_output :: "fd_op \<Rightarrow> bool" where
  "is_bool_output p \<longleftrightarrow> po_code p \<in> {IntEqual, IntNotequal, IntSless, IntSlessequal, IntLess, IntLessequal, IntCarry,
     IntScarry, IntSborrow, BoolNegate, BoolXor, BoolAnd, BoolOr, FloatEqual, FloatNotequal, FloatLess, FloatLessequal,
     FloatNan}"

definition is_calculated_bool :: "fd_op \<Rightarrow> bool" where
  "is_calculated_bool p \<longleftrightarrow> has (po_flags p) OP_CALCULATED_BOOL \<or> is_bool_output p"

subsection \<open>Access\<close>

definition vn :: "funcdata \<Rightarrow> nat \<Rightarrow> fd_varnode" where "vn f v = fd_varnodes f ! v"
definition pop :: "funcdata \<Rightarrow> nat \<Rightarrow> fd_op" where "pop f p = fd_ops f ! p"
definition blk :: "funcdata \<Rightarrow> nat \<Rightarrow> fd_block" where "blk f b = fd_blocks f ! b"

definition num_varnodes :: "funcdata \<Rightarrow> nat" where "num_varnodes f = length (fd_varnodes f)"
definition num_ops :: "funcdata \<Rightarrow> nat" where "num_ops f = length (fd_ops f)"
definition num_blocks :: "funcdata \<Rightarrow> nat" where "num_blocks f = length (fd_blocks f)"

definition vn_mut :: "nat \<Rightarrow> (fd_varnode \<Rightarrow> fd_varnode) \<Rightarrow> funcdata \<Rightarrow> funcdata" where
  "vn_mut v g f = f\<lparr>fd_varnodes := (fd_varnodes f)[v := g (fd_varnodes f ! v)]\<rparr>"
definition op_mut :: "nat \<Rightarrow> (fd_op \<Rightarrow> fd_op) \<Rightarrow> funcdata \<Rightarrow> funcdata" where
  "op_mut p g f = f\<lparr>fd_ops := (fd_ops f)[p := g (fd_ops f ! p)]\<rparr>"
definition block_mut :: "nat \<Rightarrow> (fd_block \<Rightarrow> fd_block) \<Rightarrow> funcdata \<Rightarrow> funcdata" where
  "block_mut b g f = f\<lparr>fd_blocks := (fd_blocks f)[b := g (fd_blocks f ! b)]\<rparr>"

definition position :: "'a \<Rightarrow> 'a list \<Rightarrow> nat option" where
  "position x xs = (if x \<in> set xs then Some (length (takeWhile (\<lambda>y. y \<noteq> x) xs)) else None)"

definition insert_at :: "nat \<Rightarrow> 'a \<Rightarrow> 'a list \<Rightarrow> 'a list" where
  "insert_at i x xs = take i xs @ x # drop i xs"

definition remove_at :: "nat \<Rightarrow> 'a list \<Rightarrow> 'a list" where
  "remove_at i xs = take i xs @ drop (Suc i) xs"

subsection \<open>Creating varnodes\<close>

definition alloc_varnode :: "nat \<Rightarrow> address \<Rightarrow> u32 \<Rightarrow> funcdata \<Rightarrow> nat \<times> funcdata" where
  "alloc_varnode sz loc vflags f =
     (let nzm = (if has vflags CONSTANT then addr_offset loc AND calc_mask sz else calc_mask sz);
          sp = sm_get (fd_spaces f) (addr_space loc);
          scope_flags = (case sp_kind sp of
              KSpacebase \<Rightarrow> MAPPED OR ADDRTIED
            | KProcessor \<Rightarrow> if sp_delay sp > 0 then MAPPED OR ADDRTIED OR PERSIST else 0
            | _ \<Rightarrow> 0)
      in (num_varnodes f,
          f\<lparr>fd_create_index := fd_create_index f + 1,
            fd_varnodes := fd_varnodes f @ [\<lparr>vn_deleted = False, vn_loc = loc, vn_size = sz,
              vn_flags = vflags OR scope_flags, vn_addlflags = 0, vn_create_index = fd_create_index f, vn_def = None,
              vn_descend = [], vn_ty = None, vn_nzm = nzm, vn_consume = - 1\<rparr>]\<rparr>))"

definition new_varnode :: "nat \<Rightarrow> address \<Rightarrow> funcdata \<Rightarrow> nat \<times> funcdata" where
  "new_varnode sz loc f = alloc_varnode sz loc 0 f"

definition new_const :: "nat \<Rightarrow> u64 \<Rightarrow> funcdata \<Rightarrow> nat \<times> funcdata" where
  "new_const sz value f =
     alloc_varnode sz \<lparr>addr_space = the (by_name (fd_spaces f) ''const''), addr_offset = value\<rparr> CONSTANT f"

text \<open>The next free offset of the \<^verbatim>\<open>unique\<close> space, advanced past a value of the size.\<close>

definition take_unique :: "nat \<Rightarrow> funcdata \<Rightarrow> address \<times> funcdata" where
  "take_unique sz f =
     (\<lparr>addr_space = the (by_name (fd_spaces f) ''unique''), addr_offset = fd_unique_offset f\<rparr>,
      f\<lparr>fd_unique_offset := fd_unique_offset f + of_nat (max sz 1)\<rparr>)"

definition new_unique :: "nat \<Rightarrow> funcdata \<Rightarrow> nat \<times> funcdata" where
  "new_unique sz f = (let (loc, f) = take_unique sz f in alloc_varnode sz loc 0 f)"

definition new_code_ref :: "address \<Rightarrow> funcdata \<Rightarrow> nat \<times> funcdata" where
  "new_code_ref m f = (let (v, f) = alloc_varnode 1 m ANNOTATION f in (v, vn_mut v (\<lambda>x. x\<lparr>vn_ty := Some TCode\<rparr>) f))"

text \<open>\<^verbatim>\<open>fspec.rs\<close>, \<open>lookup_effect\<close>: the last record at or before the address, when it contains the range.\<close>

definition lookup_effect :: "effect_record list \<Rightarrow> address \<Rightarrow> nat \<Rightarrow> nat" where
  "lookup_effect efflist a sz =
     (let upto = takeWhile (\<lambda>e. ef_space e < addr_space a \<or> ef_space e = addr_space a \<and> ef_offset e \<le> addr_offset a) efflist
      in if upto = [] then 4
         else let e = last upto
              in if ef_space e \<noteq> addr_space a then 4
                 else let fin = (case checked_add64 (addr_offset a) (of_nat sz) of Some x \<Rightarrow> x | None \<Rightarrow> - 1)
                      in if addr_offset a \<ge> ef_offset e \<and> fin \<le> ef_offset e + of_nat (ef_size e) then ef_effect e else 4)"

definition apply_input_effect :: "nat \<Rightarrow> funcdata \<Rightarrow> funcdata" where
  "apply_input_effect v f =
     (let e = lookup_effect (fd_effects f) (vn_loc (vn f v)) (vn_size (vn f v));
          f = (if e = 1 then vn_mut v (\<lambda>x. x\<lparr>vn_flags := vn_flags x OR UNAFFECTED\<rparr>) f else f)
      in if e = 3 then vn_mut v (\<lambda>x. x\<lparr>vn_flags := vn_flags x OR (UNAFFECTED OR RETURN_ADDRESS)\<rparr>) f else f)"

definition find_input :: "(nat \<Rightarrow> bool) \<Rightarrow> address \<Rightarrow> nat \<Rightarrow> funcdata \<Rightarrow> nat option" where
  "find_input P loc sz f =
     find (\<lambda>i. P i \<and> is_input (vn f i) \<and> vn_loc (vn f i) = loc \<and> vn_size (vn f i) = sz) [0..<num_varnodes f]"

definition new_input :: "nat \<Rightarrow> address \<Rightarrow> funcdata \<Rightarrow> nat \<times> funcdata" where
  "new_input sz loc f =
     (case find_input (\<lambda>_. True) loc sz f of
        Some i \<Rightarrow> (i, f)
      | None \<Rightarrow> let (v, f) = alloc_varnode sz loc (INPUT OR INSERT) f in (v, apply_input_effect v f))"

definition set_input_varnode :: "nat \<Rightarrow> funcdata \<Rightarrow> nat \<times> funcdata" where
  "set_input_varnode v f =
     (if is_input (vn f v) then (v, f)
      else case find_input (\<lambda>i. i \<noteq> v) (vn_loc (vn f v)) (vn_size (vn f v)) f of
             Some i \<Rightarrow> (i, f)
           | None \<Rightarrow>
               (v, apply_input_effect v
                     (vn_mut v (\<lambda>x. x\<lparr>vn_def := None, vn_flags := (vn_flags x AND NOT WRITTEN) OR (INPUT OR INSERT)\<rparr>) f)))"

subsection \<open>Wiring inputs\<close>

definition add_reader :: "nat \<Rightarrow> nat \<Rightarrow> funcdata \<Rightarrow> funcdata" where
  "add_reader p v f = vn_mut v (\<lambda>x. x\<lparr>vn_descend := vn_descend x @ [p]\<rparr>) f"

definition drop_reader :: "nat \<Rightarrow> nat \<Rightarrow> funcdata \<Rightarrow> funcdata" where
  "drop_reader p v f = vn_mut v (\<lambda>x. x\<lparr>vn_descend := remove1 p (vn_descend x)\<rparr>) f"

definition unique_constant_for :: "nat \<Rightarrow> funcdata \<Rightarrow> nat \<times> funcdata" where
  "unique_constant_for v f =
     (let x = vn f v
      in if \<not> is_constant x \<or> vn_descend x = [] \<or> is_spacebase x then (v, f)
         else let (c, f) = new_const (vn_size x) (addr_offset (vn_loc x)) f
              in (c, vn_mut c (\<lambda>y. y\<lparr>vn_ty := vn_ty x\<rparr>) f))"

fun unique_constants :: "nat list \<Rightarrow> funcdata \<Rightarrow> nat list \<times> funcdata" where
  "unique_constants [] f = ([], f)"
| "unique_constants (v # vs) f =
     (let (w, f) = unique_constant_for v f; (ws, f) = unique_constants vs f in (w # ws, f))"

definition new_op :: "opcode \<Rightarrow> seq_num \<Rightarrow> nat list \<Rightarrow> funcdata \<Rightarrow> nat \<times> funcdata" where
  "new_op opc sq inputs f =
     (let p = num_ops f;
          (ins, f) = unique_constants inputs f;
          f = fold (add_reader p) ins f
      in (p, f\<lparr>fd_ops := fd_ops f @ [\<lparr>po_code = opc, po_flags = 0, po_seq = sq, po_parent = None, po_output = None,
                 po_inrefs = ins, po_guarded = None\<rparr>]\<rparr>))"

definition op_set_input :: "nat \<Rightarrow> nat \<Rightarrow> nat \<Rightarrow> funcdata \<Rightarrow> funcdata option" where
  "op_set_input p slot v f =
     (if length (po_inrefs (pop f p)) \<le> slot then None
      else let old = po_inrefs (pop f p) ! slot
           in if old = v then Some f
              else let (v, f) = unique_constant_for v f;
                       f = drop_reader p old f;
                       f = op_mut p (\<lambda>x. x\<lparr>po_inrefs := (po_inrefs x)[slot := v]\<rparr>) f
                   in Some (add_reader p v f))"

definition op_insert_input :: "nat \<Rightarrow> nat \<Rightarrow> nat \<Rightarrow> funcdata \<Rightarrow> funcdata option" where
  "op_insert_input p slot v f =
     (let (v, f) = unique_constant_for v f
      in if length (po_inrefs (pop f p)) < slot then None
         else Some (add_reader p v (op_mut p (\<lambda>x. x\<lparr>po_inrefs := insert_at slot v (po_inrefs x)\<rparr>) f)))"

definition op_append_input :: "nat \<Rightarrow> nat \<Rightarrow> funcdata \<Rightarrow> funcdata" where
  "op_append_input p v f =
     (let (v, f) = unique_constant_for v f
      in add_reader p v (op_mut p (\<lambda>x. x\<lparr>po_inrefs := po_inrefs x @ [v]\<rparr>) f))"

definition op_remove_input :: "nat \<Rightarrow> nat \<Rightarrow> funcdata \<Rightarrow> funcdata option" where
  "op_remove_input p slot f =
     (if length (po_inrefs (pop f p)) \<le> slot then None
      else let v = po_inrefs (pop f p) ! slot
           in Some (drop_reader p v (op_mut p (\<lambda>x. x\<lparr>po_inrefs := remove_at slot (po_inrefs x)\<rparr>) f)))"

text \<open>Take every input away from an operation, leaving the readers' lists consistent.\<close>

definition drop_inputs :: "nat \<Rightarrow> funcdata \<Rightarrow> funcdata" where
  "drop_inputs p f =
     fold (drop_reader p) (po_inrefs (pop f p)) (op_mut p (\<lambda>x. x\<lparr>po_inrefs := []\<rparr>) f)"

definition op_set_all_input :: "nat \<Rightarrow> nat list \<Rightarrow> funcdata \<Rightarrow> funcdata" where
  "op_set_all_input p inputs f = fold (op_append_input p) inputs (drop_inputs p f)"

definition op_swap_input :: "nat \<Rightarrow> nat \<Rightarrow> nat \<Rightarrow> funcdata \<Rightarrow> funcdata option" where
  "op_swap_input p i j f =
     (let ins = po_inrefs (pop f p)
      in if length ins \<le> i \<or> length ins \<le> j then None
         else Some (op_mut p (\<lambda>x. x\<lparr>po_inrefs := (po_inrefs x)[i := ins ! j, j := ins ! i]\<rparr>) f))"

definition replace_in_op :: "nat \<Rightarrow> nat \<Rightarrow> nat \<Rightarrow> funcdata \<Rightarrow> funcdata" where
  "replace_in_op old new p f =
     (let n = count_list (po_inrefs (pop f p)) old;
          f = op_mut p (\<lambda>x. x\<lparr>po_inrefs := map (\<lambda>v. if v = old then new else v) (po_inrefs x)\<rparr>) f
      in vn_mut new (\<lambda>x. x\<lparr>vn_descend := vn_descend x @ replicate n p\<rparr>) f)"

definition total_replace :: "nat \<Rightarrow> nat \<Rightarrow> funcdata \<Rightarrow> funcdata" where
  "total_replace old new f =
     fold (replace_in_op old new) (vn_descend (vn f old)) (vn_mut old (\<lambda>x. x\<lparr>vn_descend := []\<rparr>) f)"

subsection \<open>Wiring outputs\<close>

definition make_free :: "nat \<Rightarrow> funcdata \<Rightarrow> funcdata" where
  "make_free v f = vn_mut v (\<lambda>x. x\<lparr>vn_def := None,
     vn_flags := vn_flags x AND NOT (WRITTEN OR INPUT OR INSERT OR INDIRECT_CREATION)\<rparr>) f"

definition free_output :: "nat \<Rightarrow> funcdata \<Rightarrow> funcdata" where
  "free_output p f =
     (case po_output (pop f p) of
        None \<Rightarrow> f
      | Some old \<Rightarrow> make_free old (op_mut p (\<lambda>x. x\<lparr>po_output := None\<rparr>) f))"

definition new_output :: "nat \<Rightarrow> nat \<Rightarrow> address \<Rightarrow> funcdata \<Rightarrow> nat \<times> funcdata" where
  "new_output p sz loc f =
     (let f = free_output p f;
          (v, f) = alloc_varnode sz loc (WRITTEN OR INSERT) f;
          f = vn_mut v (\<lambda>x. x\<lparr>vn_def := Some p\<rparr>) f
      in (v, op_mut p (\<lambda>x. x\<lparr>po_output := Some v\<rparr>) f))"

definition new_output_unique :: "nat \<Rightarrow> nat \<Rightarrow> funcdata \<Rightarrow> nat \<times> funcdata" where
  "new_output_unique p sz f = (let (loc, f) = take_unique sz f in new_output p sz loc f)"

definition op_set_output :: "nat \<Rightarrow> nat \<Rightarrow> funcdata \<Rightarrow> funcdata" where
  "op_set_output p v f =
     (if po_output (pop f p) = Some v then f
      else let f = free_output p f;
               f = (case vn_def (vn f v) of
                      None \<Rightarrow> f
                    | Some olddef \<Rightarrow> op_mut olddef (\<lambda>x. x\<lparr>po_output := None\<rparr>) (vn_mut v (\<lambda>x. x\<lparr>vn_def := None\<rparr>) f));
               f = vn_mut v (\<lambda>x. x\<lparr>vn_def := Some p, vn_flags := vn_flags x OR (WRITTEN OR INSERT)\<rparr>) f
           in op_mut p (\<lambda>x. x\<lparr>po_output := Some v\<rparr>) f)"

definition delete_varnode :: "nat \<Rightarrow> funcdata \<Rightarrow> funcdata" where
  "delete_varnode v f = vn_mut v (\<lambda>x. x\<lparr>vn_deleted := True, vn_def := None,
     vn_flags := vn_flags x AND NOT (INPUT OR INSERT OR WRITTEN OR UNAFFECTED)\<rparr>) f"

definition clear_dead_varnodes :: "funcdata \<Rightarrow> funcdata" where
  "clear_dead_varnodes f =
     (let dead = filter (\<lambda>v. \<not> vn_deleted (vn f v) \<and> vn_descend (vn f v) = []
              \<and> (is_free (vn f v) \<or> is_input (vn f v) \<and> \<not> is_locked_input (vn f v))) [0..<num_varnodes f]
      in fold delete_varnode dead f)"

subsection \<open>Destroying operations\<close>

definition mark_dead :: "nat \<Rightarrow> funcdata \<Rightarrow> funcdata" where
  "mark_dead p f = op_mut p (\<lambda>x. x\<lparr>po_flags := po_flags x OR OP_DEAD\<rparr>) f"

definition op_destroy :: "nat \<Rightarrow> funcdata \<Rightarrow> funcdata" where
  "op_destroy p f =
     (let f = drop_inputs p f;
          f = (case po_output (pop f p) of
                 None \<Rightarrow> f
               | Some out \<Rightarrow> delete_varnode out (op_mut p (\<lambda>x. x\<lparr>po_output := None\<rparr>) f))
      in mark_dead p f)"

definition lone_descend :: "funcdata \<Rightarrow> nat \<Rightarrow> nat option" where
  "lone_descend f v = (case vn_descend (vn f v) of [p] \<Rightarrow> Some p | _ \<Rightarrow> None)"

text \<open>The definitions an operation drags along: \<open>None\<close> when a written varnode has no definition.\<close>

definition dragged :: "funcdata \<Rightarrow> nat \<Rightarrow> nat list option" where
  "dragged f p =
     fold (\<lambda>v acc. case acc of None \<Rightarrow> None | Some ds \<Rightarrow>
         if \<not> is_written (vn f v) \<or> is_auto_live (vn f v) \<or> lone_descend f v = None then Some ds
         else case vn_def (vn f v) of
                None \<Rightarrow> None
              | Some d \<Rightarrow> if is_call (pop f d) \<or> is_indirect_source (pop f d) then Some ds else Some (ds @ [d]))
       (po_inrefs (pop f p)) (Some [])"

fun destroy_loop :: "nat \<Rightarrow> nat list \<Rightarrow> funcdata \<Rightarrow> funcdata option" where
  "destroy_loop n [] f = Some f"
| "destroy_loop 0 (p # wl) f = None"
| "destroy_loop (Suc n) (p # wl) f =
     (case dragged f p of None \<Rightarrow> None | Some ds \<Rightarrow> destroy_loop n (wl @ ds) (op_destroy p f))"

text \<open>The worklist is bounded by the number of inputs in the graph, since each round takes those it pushes for.\<close>

definition total_inputs :: "funcdata \<Rightarrow> nat" where
  "total_inputs f = sum_list (map (\<lambda>p. length (po_inrefs p)) (fd_ops f))"

definition op_destroy_recursive :: "nat \<Rightarrow> funcdata \<Rightarrow> funcdata option" where
  "op_destroy_recursive p f = destroy_loop (total_inputs f + 1) [p] f"

subsection \<open>Flag words\<close>

lemma has_or: "has (x OR y) f \<longleftrightarrow> has x f \<or> has y f"
  unfolding has_def by (simp add: bit.conj_disj_distrib2 or_eq_0_iff)

lemma has_and: "has (x AND y) f \<longleftrightarrow> has x (y AND f)"
  by (simp add: has_def and.assoc)

lemma has_zero [simp]: "has 0 f \<longleftrightarrow> False" "has x 0 \<longleftrightarrow> False"
  by (simp_all add: has_def)

lemma flag_eval [simp]:
  "(NOT WRITTEN AND NOT INPUT AND NOT INSERT AND NOT INDIRECT_CREATION) AND WRITTEN = 0"
  "(NOT WRITTEN AND NOT INPUT AND NOT INSERT AND NOT INDIRECT_CREATION) AND INPUT = 0"
  "(NOT WRITTEN AND NOT INPUT AND NOT INSERT AND NOT INDIRECT_CREATION) AND INSERT = 0"
  "(NOT INPUT AND NOT INSERT AND NOT WRITTEN AND NOT UNAFFECTED) AND WRITTEN = 0"
  "(NOT INPUT AND NOT INSERT AND NOT WRITTEN AND NOT UNAFFECTED) AND INPUT = 0"
  "(NOT INPUT AND NOT INSERT AND NOT WRITTEN AND NOT UNAFFECTED) AND INSERT = 0"
  "NOT WRITTEN AND WRITTEN = 0" "NOT WRITTEN AND INPUT = INPUT" "NOT WRITTEN AND INSERT = INSERT"
  by code_simp+

lemma flag_has [simp]:
  "has WRITTEN WRITTEN" "has INSERT INSERT" "has INPUT INPUT" "\<not> has WRITTEN INSERT" "\<not> has WRITTEN INPUT"
  "\<not> has INSERT WRITTEN" "\<not> has INSERT INPUT" "\<not> has INPUT WRITTEN" "\<not> has INPUT INSERT"
  "\<not> has CONSTANT WRITTEN" "\<not> has CONSTANT INSERT" "\<not> has CONSTANT INPUT"
  "\<not> has ANNOTATION WRITTEN" "\<not> has ANNOTATION INSERT" "\<not> has ANNOTATION INPUT"
  "\<not> has MAPPED WRITTEN" "\<not> has MAPPED INSERT" "\<not> has MAPPED INPUT"
  "\<not> has ADDRTIED WRITTEN" "\<not> has ADDRTIED INSERT" "\<not> has ADDRTIED INPUT"
  "\<not> has PERSIST WRITTEN" "\<not> has PERSIST INSERT" "\<not> has PERSIST INPUT"
  "\<not> has UNAFFECTED WRITTEN" "\<not> has UNAFFECTED INSERT" "\<not> has UNAFFECTED INPUT"
  "\<not> has RETURN_ADDRESS WRITTEN" "\<not> has RETURN_ADDRESS INSERT" "\<not> has RETURN_ADDRESS INPUT"
  "\<not> has IMPLIED WRITTEN" "\<not> has IMPLIED INSERT" "\<not> has IMPLIED INPUT"
  "\<not> has INDIRECT_CREATION WRITTEN" "\<not> has INDIRECT_CREATION INSERT" "\<not> has INDIRECT_CREATION INPUT"
  "\<not> has SPACEBASE WRITTEN" "\<not> has SPACEBASE INSERT" "\<not> has SPACEBASE INPUT"
  "\<not> has TYPELOCK WRITTEN" "\<not> has TYPELOCK INSERT" "\<not> has TYPELOCK INPUT"
  by code_simp+

lemma is_free_iff: "is_free x \<longleftrightarrow> \<not> is_written x \<and> \<not> is_input x"
proof -
  have "vn_flags x AND (WRITTEN OR INPUT) = (vn_flags x AND WRITTEN) OR (vn_flags x AND INPUT)"
    by (rule bit.conj_disj_distrib)
  then show ?thesis by (simp add: is_free_def is_written_def is_input_def has_def or_eq_0_iff)
qed

subsection \<open>Reading after an update\<close>

named_theorems fd_simps \<open>projections of the function's arenas after an update\<close>

lemma nth_upd_any: "xs[i := x] ! j = (if j = i \<and> i < length xs then x else xs ! j)"
  by (cases "i < length xs") (simp_all add: nth_list_update list_update_beyond not_less)

lemma vn_mut_simps [fd_simps]:
  "vn (vn_mut v g f) w = (if w = v \<and> v < num_varnodes f then g (vn f v) else vn f w)"
  "pop (vn_mut v g f) = pop f" "blk (vn_mut v g f) = blk f"
  "num_varnodes (vn_mut v g f) = num_varnodes f" "num_ops (vn_mut v g f) = num_ops f" "num_blocks (vn_mut v g f) = num_blocks f"
  by (auto simp: vn_mut_def vn_def pop_def blk_def num_varnodes_def num_ops_def num_blocks_def nth_upd_any fun_eq_iff)

lemma op_mut_simps [fd_simps]:
  "vn (op_mut p g f) = vn f"
  "pop (op_mut p g f) q = (if q = p \<and> p < num_ops f then g (pop f p) else pop f q)" "blk (op_mut p g f) = blk f"
  "num_varnodes (op_mut p g f) = num_varnodes f" "num_ops (op_mut p g f) = num_ops f" "num_blocks (op_mut p g f) = num_blocks f"
  by (auto simp: op_mut_def vn_def pop_def blk_def num_varnodes_def num_ops_def num_blocks_def nth_upd_any fun_eq_iff)

lemma block_mut_simps [fd_simps]:
  "vn (block_mut b g f) = vn f" "pop (block_mut b g f) = pop f"
  "blk (block_mut b g f) c = (if c = b \<and> b < num_blocks f then g (blk f b) else blk f c)"
  "num_varnodes (block_mut b g f) = num_varnodes f" "num_ops (block_mut b g f) = num_ops f" "num_blocks (block_mut b g f) = num_blocks f"
  by (auto simp: block_mut_def vn_def pop_def blk_def num_varnodes_def num_ops_def num_blocks_def nth_upd_any fun_eq_iff)

lemma take_unique_simps [fd_simps]:
  "vn (snd (take_unique sz f)) = vn f" "pop (snd (take_unique sz f)) = pop f" "blk (snd (take_unique sz f)) = blk f"
  "num_varnodes (snd (take_unique sz f)) = num_varnodes f" "num_ops (snd (take_unique sz f)) = num_ops f"
  "num_blocks (snd (take_unique sz f)) = num_blocks f"
  by (auto simp: take_unique_def vn_def pop_def blk_def num_varnodes_def num_ops_def num_blocks_def fun_eq_iff)

text \<open>What a fresh varnode holds: nobody defines or reads it, and its flags are those asked for, bar the scope's.\<close>

lemma alloc_varnode_simps [fd_simps]:
  "fst (alloc_varnode sz loc fl f) = num_varnodes f"
  "v < num_varnodes f \<Longrightarrow> vn (snd (alloc_varnode sz loc fl f)) v = vn f v"
  "pop (snd (alloc_varnode sz loc fl f)) = pop f" "blk (snd (alloc_varnode sz loc fl f)) = blk f"
  "num_varnodes (snd (alloc_varnode sz loc fl f)) = Suc (num_varnodes f)"
  "num_ops (snd (alloc_varnode sz loc fl f)) = num_ops f" "num_blocks (snd (alloc_varnode sz loc fl f)) = num_blocks f"
  by (auto simp: alloc_varnode_def Let_def vn_def pop_def blk_def num_varnodes_def num_ops_def num_blocks_def nth_append fun_eq_iff)

lemma alloc_varnode_new [fd_simps]:
  "vn_def (vn (snd (alloc_varnode sz loc fl f)) (num_varnodes f)) = None"
  "vn_descend (vn (snd (alloc_varnode sz loc fl f)) (num_varnodes f)) = []"
  "vn_loc (vn (snd (alloc_varnode sz loc fl f)) (num_varnodes f)) = loc"
  "vn_size (vn (snd (alloc_varnode sz loc fl f)) (num_varnodes f)) = sz"
  "is_written (vn (snd (alloc_varnode sz loc fl f)) (num_varnodes f)) = has fl WRITTEN"
  "is_input (vn (snd (alloc_varnode sz loc fl f)) (num_varnodes f)) = has fl INPUT"
  "has (vn_flags (vn (snd (alloc_varnode sz loc fl f)) (num_varnodes f))) INSERT = has fl INSERT"
  by (simp_all add: alloc_varnode_def Let_def vn_def num_varnodes_def nth_append is_written_def is_input_def has_or split: space_kind.splits)

subsection \<open>The invariant of the graph\<close>

text \<open>Every read is in the reader's input list and in the varnode's list of readers, equally often.\<close>

definition uses_ok :: "funcdata \<Rightarrow> bool" where
  "uses_ok f \<longleftrightarrow>
     (\<forall>v < num_varnodes f. \<forall>p \<in> set (vn_descend (vn f v)). p < num_ops f)
     \<and> (\<forall>p < num_ops f. \<forall>v \<in> set (po_inrefs (pop f p)). v < num_varnodes f)
     \<and> (\<forall>v < num_varnodes f. \<forall>p < num_ops f. count_list (vn_descend (vn f v)) p = count_list (po_inrefs (pop f p)) v)"

text \<open>A varnode's definition and an operation's output name each other.\<close>

definition defs_ok :: "funcdata \<Rightarrow> bool" where
  "defs_ok f \<longleftrightarrow>
     (\<forall>v < num_varnodes f. \<forall>p. vn_def (vn f v) = Some p \<longrightarrow> p < num_ops f \<and> po_output (pop f p) = Some v)
     \<and> (\<forall>p < num_ops f. \<forall>v. po_output (pop f p) = Some v \<longrightarrow> v < num_varnodes f \<and> vn_def (vn f v) = Some p)"

text \<open>The flags agree: written exactly when defined, in the tree exactly when written or an input, and never both.\<close>

definition vn_marks :: "fd_varnode \<Rightarrow> bool" where
  "vn_marks x \<longleftrightarrow> (is_written x \<longleftrightarrow> vn_def x \<noteq> None) \<and> (has (vn_flags x) INSERT \<longleftrightarrow> is_written x \<or> is_input x)
     \<and> \<not> (is_written x \<and> is_input x)"

definition marks_ok :: "funcdata \<Rightarrow> bool" where
  "marks_ok f \<longleftrightarrow> (\<forall>v < num_varnodes f. vn_marks (vn f v))"

definition graph_ok :: "funcdata \<Rightarrow> bool" where
  "graph_ok f \<longleftrightarrow> uses_ok f \<and> defs_ok f \<and> marks_ok f"

text \<open>Updates that touch none of this.\<close>

definition vn_same :: "fd_varnode \<Rightarrow> fd_varnode \<Rightarrow> bool" where
  "vn_same x y \<longleftrightarrow> vn_descend y = vn_descend x \<and> vn_def y = vn_def x \<and> (is_written y \<longleftrightarrow> is_written x)
     \<and> (is_input y \<longleftrightarrow> is_input x) \<and> (has (vn_flags y) INSERT \<longleftrightarrow> has (vn_flags x) INSERT)"

definition op_same :: "fd_op \<Rightarrow> fd_op \<Rightarrow> bool" where
  "op_same x y \<longleftrightarrow> po_inrefs y = po_inrefs x \<and> po_output y = po_output x"

definition graph_same :: "funcdata \<Rightarrow> funcdata \<Rightarrow> bool" where
  "graph_same f g \<longleftrightarrow> num_varnodes g = num_varnodes f \<and> num_ops g = num_ops f
     \<and> (\<forall>v < num_varnodes f. vn_same (vn f v) (vn g v)) \<and> (\<forall>p < num_ops f. op_same (pop f p) (pop g p))"

lemma graph_same_refl: "graph_same f f"
  by (simp add: graph_same_def vn_same_def op_same_def)

lemma graph_same_trans: "graph_same f g \<Longrightarrow> graph_same g h \<Longrightarrow> graph_same f h"
  by (simp add: graph_same_def vn_same_def op_same_def)

lemma graph_same_ok: "graph_same f g \<Longrightarrow> graph_ok g \<longleftrightarrow> graph_ok f"
  unfolding graph_same_def graph_ok_def
proof (elim conjE, intro conj_cong)
  assume n: "num_varnodes g = num_varnodes f" "num_ops g = num_ops f"
    and v: "\<forall>v < num_varnodes f. vn_same (vn f v) (vn g v)" and p: "\<forall>p < num_ops f. op_same (pop f p) (pop g p)"
  show "uses_ok g \<longleftrightarrow> uses_ok f" using v p unfolding uses_ok_def n by (simp add: vn_same_def op_same_def cong: conj_cong)
  have "po_output (pop g q) = po_output (pop f q)" if "q < num_ops f" for q using p that by (simp add: op_same_def)
  moreover have "vn_def (vn g w) = vn_def (vn f w)" if "w < num_varnodes f" for w using v that by (simp add: vn_same_def)
  ultimately show "defs_ok g \<longleftrightarrow> defs_ok f" unfolding defs_ok_def n by (simp cong: conj_cong)
  show "marks_ok g \<longleftrightarrow> marks_ok f" using v unfolding marks_ok_def n vn_marks_def vn_same_def by (simp add: all_conj_distrib)
qed

lemma vn_same_refl [simp]: "vn_same x x"
  by (simp add: vn_same_def)

lemma op_same_refl [simp]: "op_same x x"
  by (simp add: op_same_def)

lemma vn_mut_same: "(\<And>x. vn_same x (g x)) \<Longrightarrow> graph_same f (vn_mut v g f)"
  by (simp add: graph_same_def fd_simps)

lemma op_mut_same: "(\<And>x. op_same x (g x)) \<Longrightarrow> graph_same f (op_mut p g f)"
  by (simp add: graph_same_def fd_simps)

lemma block_mut_same: "graph_same f (block_mut b g f)"
  by (simp add: graph_same_def fd_simps vn_same_def op_same_def)

lemma take_unique_same: "graph_same f (snd (take_unique sz f))"
  by (simp add: graph_same_def fd_simps vn_same_def op_same_def)

subsection \<open>Reads\<close>

lemma count_remove1: "count_list (remove1 x xs) y = (if x = y \<and> x \<in> set xs then count_list xs y - 1 else count_list xs y)"
  by (induction xs) (auto simp: count_list_0_iff)

lemma count_pos: "0 < count_list xs x \<longleftrightarrow> x \<in> set xs"
  by (metis count_list_0_iff not_gr_zero)

lemma count_insert_at: "count_list (insert_at i x xs) y = count_list xs y + (if y = x then 1 else 0)"
proof -
  have "count_list xs y = count_list (take i xs) y + count_list (drop i xs) y"
    by (metis append_take_drop_id count_list_append)
  then show ?thesis by (simp add: insert_at_def)
qed

lemma set_insert_at: "set (insert_at i x xs) = insert x (set xs)"
  by (simp add: insert_at_def) (metis Un_iff append_take_drop_id set_append sup_commute)

lemma split_at: "i < length xs \<Longrightarrow> xs = take i xs @ xs ! i # drop (Suc i) xs"
  by (rule id_take_nth_drop)

lemma count_at:
  assumes "i < length xs"
  shows "count_list xs y = count_list (take i xs) y + (if y = xs ! i then 1 else 0) + count_list (drop (Suc i) xs) y"
proof -
  have "count_list xs y = count_list (take i xs @ xs ! i # drop (Suc i) xs) y" using split_at [OF assms] by (rule arg_cong)
  then show ?thesis by simp
qed

lemma count_remove_at: "i < length xs \<Longrightarrow> count_list (remove_at i xs) y = count_list xs y - (if y = xs ! i then 1 else 0)"
  by (simp add: remove_at_def count_at)

lemma set_remove_at: "set (remove_at i xs) \<subseteq> set xs"
  by (auto simp: remove_at_def dest: in_set_takeD in_set_dropD)

lemma count_update: "i < length xs \<Longrightarrow> count_list (xs[i := x]) y + (if y = xs ! i then 1 else 0) = count_list xs y + (if y = x then 1 else 0)"
  by (simp add: upd_conv_take_nth_drop count_at)

lemma uses_okD:
  assumes "uses_ok f"
  shows "\<lbrakk>v < num_varnodes f; p \<in> set (vn_descend (vn f v))\<rbrakk> \<Longrightarrow> p < num_ops f"
    and "\<lbrakk>p < num_ops f; v \<in> set (po_inrefs (pop f p))\<rbrakk> \<Longrightarrow> v < num_varnodes f"
    and "\<lbrakk>v < num_varnodes f; p < num_ops f\<rbrakk> \<Longrightarrow> count_list (vn_descend (vn f v)) p = count_list (po_inrefs (pop f p)) v"
  using assms unfolding uses_ok_def by blast+

lemma reader_iff:
  assumes "uses_ok f" "v < num_varnodes f" "p < num_ops f"
  shows "p \<in> set (vn_descend (vn f v)) \<longleftrightarrow> v \<in> set (po_inrefs (pop f p))"
  using uses_okD(3) [OF assms] by (metis count_pos)

text \<open>
  While an operation is rewired its input list and the readers' lists may disagree.  \<open>uses_but p ins f\<close>:
  the graph is consistent except that the readers' lists count \<open>ins\<close> as the inputs of \<open>p\<close>.
\<close>

definition uses_but :: "nat \<Rightarrow> nat list \<Rightarrow> funcdata \<Rightarrow> bool" where
  "uses_but p ins f \<longleftrightarrow> uses_ok (op_mut p (\<lambda>x. x\<lparr>po_inrefs := ins\<rparr>) f)"

lemma op_mut_cong: "g (pop f p) = g' (pop f p) \<Longrightarrow> op_mut p g f = op_mut p g' f"
  by (simp add: op_mut_def pop_def)

lemma op_mut_id: "op_mut p (\<lambda>x. x) f = f"
  by (simp add: op_mut_def)

lemma op_mut_op_mut: "op_mut p g (op_mut p h f) = op_mut p (\<lambda>x. g (h x)) f"
  by (cases "p < length (fd_ops f)") (simp_all add: op_mut_def list_update_beyond)

lemma op_vn_mut: "op_mut p g (vn_mut v h f) = vn_mut v h (op_mut p g f)"
  by (simp add: op_mut_def vn_mut_def)

lemma uses_but_self: "uses_but p (po_inrefs (pop f p)) f \<longleftrightarrow> uses_ok f"
proof -
  have "op_mut p (\<lambda>x. x\<lparr>po_inrefs := po_inrefs (pop f p)\<rparr>) f = op_mut p (\<lambda>x. x) f" by (rule op_mut_cong) simp
  then show ?thesis by (simp add: uses_but_def op_mut_id)
qed

lemma uses_but_settle:
  "uses_ok (op_mut p (\<lambda>x. x\<lparr>po_inrefs := ins\<rparr>) f) \<longleftrightarrow> uses_but p ins f"
  by (simp add: uses_but_def)

lemma uses_but_op_mut: "uses_but p ins (op_mut p (\<lambda>x. x\<lparr>po_inrefs := ins'\<rparr>) f) \<longleftrightarrow> uses_but p ins f"
  by (simp add: uses_but_def op_mut_op_mut)

text \<open>Adding and dropping one reader, in terms of the input list the readers' lists account for.\<close>

lemma uses_but_count:
  assumes "uses_but p ins f" "p < num_ops f" "v < num_varnodes f"
  shows "count_list (vn_descend (vn f v)) p = count_list ins v"
  using assms uses_okD(3) [of "op_mut p (\<lambda>x. x\<lparr>po_inrefs := ins\<rparr>) f" v p] by (simp add: uses_but_def fd_simps)

lemma uses_but_iff:
  assumes "p < num_ops f"
  shows "uses_but p ins f \<longleftrightarrow>
     (\<forall>v < num_varnodes f. \<forall>q \<in> set (vn_descend (vn f v)). q < num_ops f)
     \<and> (\<forall>q < num_ops f. q \<noteq> p \<longrightarrow> (\<forall>v \<in> set (po_inrefs (pop f q)). v < num_varnodes f)) \<and> (\<forall>v \<in> set ins. v < num_varnodes f)
     \<and> (\<forall>v < num_varnodes f. \<forall>q < num_ops f. q \<noteq> p \<longrightarrow> count_list (vn_descend (vn f v)) q = count_list (po_inrefs (pop f q)) v)
     \<and> (\<forall>v < num_varnodes f. count_list (vn_descend (vn f v)) p = count_list ins v)"
  using assms unfolding uses_but_def uses_ok_def by (auto simp: fd_simps)

lemma add_reader_but:
  assumes "uses_but p ins f" "p < num_ops f" "v < num_varnodes f"
    and "\<And>w. count_list ins' w = count_list ins w + (if w = v then 1 else 0)" "set ins' \<subseteq> insert v (set ins)"
  shows "uses_but p ins' (add_reader p v f)"
  using assms(1) unfolding uses_but_iff [OF assms(2)]
  by (subst uses_but_iff) (use assms in \<open>auto simp: add_reader_def fd_simps\<close>)

lemma drop_reader_but:
  assumes "uses_but p ins f" "p < num_ops f" "v < num_varnodes f" "v \<in> set ins"
    and "\<And>w. count_list ins' w = count_list ins w - (if w = v then 1 else 0)" "set ins' \<subseteq> set ins"
  shows "uses_but p ins' (drop_reader p v f)"
proof -
  have c: "count_list (vn_descend (vn f v)) p = count_list ins v" by (rule uses_but_count [OF assms(1-3)])
  then have "p \<in> set (vn_descend (vn f v))" using assms(4) by (metis count_pos)
  moreover have "q < num_ops f" if "q \<in> set (remove1 p (vn_descend (vn f v)))" for q
    using assms(1,3) that set_remove1_subset [of p "vn_descend (vn f v)"] unfolding uses_but_iff [OF assms(2)] by blast
  ultimately show ?thesis
    using assms(1) unfolding uses_but_iff [OF assms(2)]
    by (subst uses_but_iff) (use assms in \<open>auto simp: drop_reader_def fd_simps count_remove1 dest: subsetD [OF set_remove1_subset]\<close>)
qed

lemma reader_simps [fd_simps]:
  "num_ops (add_reader p v f) = num_ops f" "num_varnodes (add_reader p v f) = num_varnodes f" "pop (add_reader p v f) = pop f"
  "num_ops (drop_reader p v f) = num_ops f" "num_varnodes (drop_reader p v f) = num_varnodes f" "pop (drop_reader p v f) = pop f"
  "blk (add_reader p v f) = blk f" "blk (drop_reader p v f) = blk f"
  "num_blocks (add_reader p v f) = num_blocks f" "num_blocks (drop_reader p v f) = num_blocks f"
  by (simp_all add: add_reader_def drop_reader_def fd_simps)

lemma fold_drop_reader_but:
  assumes "uses_but p vs f" "p < num_ops f"
  shows "uses_but p [] (fold (drop_reader p) vs f)"
  using assms
proof (induction vs arbitrary: f)
  case (Cons v vs)
  have "v < num_varnodes f" using Cons.prems unfolding uses_but_iff [OF Cons.prems(2)] by auto
  then have "uses_but p vs (drop_reader p v f)" by (intro drop_reader_but [OF Cons.prems]) auto
  then show ?case using Cons.IH Cons.prems(2) by (simp add: fd_simps)
qed simp

subsection \<open>Definitions and marks\<close>

definition io_same :: "funcdata \<Rightarrow> funcdata \<Rightarrow> bool" where
  "io_same f g \<longleftrightarrow> num_varnodes g = num_varnodes f \<and> num_ops g = num_ops f
     \<and> (\<forall>v < num_varnodes f. vn_def (vn g v) = vn_def (vn f v) \<and> vn_flags (vn g v) = vn_flags (vn f v))
     \<and> (\<forall>p < num_ops f. po_output (pop g p) = po_output (pop f p))"

lemma io_same_refl: "io_same f f"
  by (simp add: io_same_def)

lemma io_same_trans: "io_same f g \<Longrightarrow> io_same g h \<Longrightarrow> io_same f h"
  by (simp add: io_same_def)

lemma defs_okD:
  assumes "defs_ok f"
  shows "\<lbrakk>v < num_varnodes f; vn_def (vn f v) = Some p\<rbrakk> \<Longrightarrow> p < num_ops f"
    "\<lbrakk>v < num_varnodes f; vn_def (vn f v) = Some p\<rbrakk> \<Longrightarrow> po_output (pop f p) = Some v"
    "\<lbrakk>p < num_ops f; po_output (pop f p) = Some v\<rbrakk> \<Longrightarrow> v < num_varnodes f"
    "\<lbrakk>p < num_ops f; po_output (pop f p) = Some v\<rbrakk> \<Longrightarrow> vn_def (vn f v) = Some p"
  using assms unfolding defs_ok_def by blast+

lemma defs_okI:
  assumes "\<And>v p. v < num_varnodes f \<Longrightarrow> vn_def (vn f v) = Some p \<Longrightarrow> p < num_ops f \<and> po_output (pop f p) = Some v"
    "\<And>v p. p < num_ops f \<Longrightarrow> po_output (pop f p) = Some v \<Longrightarrow> v < num_varnodes f \<and> vn_def (vn f v) = Some p"
  shows "defs_ok f"
  using assms unfolding defs_ok_def by blast

lemma io_same_ok: "io_same f g \<Longrightarrow> defs_ok f \<and> marks_ok f \<Longrightarrow> defs_ok g \<and> marks_ok g"
proof -
  assume s: "io_same f g" and ok: "defs_ok f \<and> marks_ok f"
  have n: "num_varnodes g = num_varnodes f" "num_ops g = num_ops f" using s by (simp_all add: io_same_def)
  have o: "po_output (pop g q) = po_output (pop f q)" if "q < num_ops f" for q using s that by (simp add: io_same_def)
  have d: "vn_def (vn g w) = vn_def (vn f w)" "vn_flags (vn g w) = vn_flags (vn f w)" if "w < num_varnodes f" for w
    using s that by (simp_all add: io_same_def)
  have "defs_ok g"
  proof (rule defs_okI, unfold n)
    fix v p assume v: "v < num_varnodes f" "vn_def (vn g v) = Some p"
    then have "vn_def (vn f v) = Some p" using d(1) by simp
    then show "p < num_ops f \<and> po_output (pop g p) = Some v" using defs_okD(1,2) [of f v p] ok v(1) o by simp
  next
    fix v p assume p: "p < num_ops f" "po_output (pop g p) = Some v"
    then have "po_output (pop f p) = Some v" using o by simp
    then show "v < num_varnodes f \<and> vn_def (vn g v) = Some p" using defs_okD(3,4) [of f p v] ok p(1) d(1) by simp
  qed
  moreover have "marks_ok g" unfolding marks_ok_def n
  proof (intro allI impI)
    fix w assume w: "w < num_varnodes f"
    then have "vn_marks (vn f w)" using ok by (simp add: marks_ok_def)
    then show "vn_marks (vn g w)" using d [OF w] by (auto simp: vn_marks_def is_written_def is_input_def)
  qed
  ultimately show ?thesis ..
qed

lemma io_same_reader: "io_same f (add_reader p v f)" "io_same f (drop_reader p v f)"
  by (simp_all add: io_same_def add_reader_def drop_reader_def fd_simps)

lemma io_same_inrefs: "io_same f (op_mut p (\<lambda>x. x\<lparr>po_inrefs := i x\<rparr>) f)"
  by (simp add: io_same_def fd_simps)

lemma io_same_fold: "(\<And>x g. io_same g (h x g)) \<Longrightarrow> io_same f (fold h xs f)"
  by (induction xs arbitrary: f) (auto intro: io_same_trans simp: io_same_refl)

lemma graph_okI: "uses_ok g \<Longrightarrow> io_same f g \<Longrightarrow> graph_ok f \<Longrightarrow> graph_ok g"
  using io_same_ok by (auto simp: graph_ok_def)

lemma graph_okD: "graph_ok f \<Longrightarrow> uses_ok f" "graph_ok f \<Longrightarrow> defs_ok f" "graph_ok f \<Longrightarrow> marks_ok f"
  by (simp_all add: graph_ok_def)

subsection \<open>Fresh varnodes\<close>

lemma all_Suc_nv: "(\<forall>v < Suc n. P v) \<longleftrightarrow> (\<forall>v < n. P v) \<and> P n"
  by (auto simp: less_Suc_eq)

lemma alloc_uses: "uses_ok f \<Longrightarrow> uses_ok (snd (alloc_varnode sz loc fl f))"
proof -
  assume ok: "uses_ok f"
  have "num_varnodes f \<notin> set (po_inrefs (pop f p))" if "p < num_ops f" for p using uses_okD(2) [OF ok that] by blast
  then show ?thesis using ok unfolding uses_ok_def
    by (auto simp: fd_simps all_Suc_nv count_list_0_iff less_Suc_eq) 
qed

lemma alloc_defs: "defs_ok f \<Longrightarrow> defs_ok (snd (alloc_varnode sz loc fl f))"
proof -
  assume ok: "defs_ok f"
  let ?g = "snd (alloc_varnode sz loc fl f)"
  have d: "vn_def (vn ?g v) = (if v = num_varnodes f then None else vn_def (vn f v))" if "v < Suc (num_varnodes f)" for v
    using that by (cases "v = num_varnodes f") (simp_all add: alloc_varnode_simps alloc_varnode_new)
  show ?thesis
  proof (rule defs_okI, unfold alloc_varnode_simps(3,5,6))
    fix v p assume v: "v < Suc (num_varnodes f)" "vn_def (vn ?g v) = Some p"
    then have "v < num_varnodes f" "vn_def (vn f v) = Some p" using d [OF v(1)] by (auto split: if_splits)
    then show "p < num_ops f \<and> po_output (pop f p) = Some v" using defs_okD(1,2) [OF ok] by blast
  next
    fix v p assume "p < num_ops f" "po_output (pop f p) = Some v"
    then have "v < num_varnodes f" "vn_def (vn f v) = Some p" using defs_okD(3,4) [OF ok] by blast+
    then show "v < Suc (num_varnodes f) \<and> vn_def (vn ?g v) = Some p" using d [of v] by simp
  qed
qed

lemma alloc_marks:
  "marks_ok f \<Longrightarrow> \<not> has fl WRITTEN \<Longrightarrow> has fl INSERT = has fl INPUT \<Longrightarrow> marks_ok (snd (alloc_varnode sz loc fl f))"
  unfolding marks_ok_def by (auto simp: fd_simps all_Suc_nv vn_marks_def)

lemma alloc_ok:
  "graph_ok f \<Longrightarrow> \<not> has fl WRITTEN \<Longrightarrow> has fl INSERT = has fl INPUT \<Longrightarrow> graph_ok (snd (alloc_varnode sz loc fl f))"
  by (simp add: graph_ok_def alloc_uses alloc_defs alloc_marks)

text \<open>An extension: old varnodes are as they were, and operations have not changed.\<close>

definition extends :: "funcdata \<Rightarrow> funcdata \<Rightarrow> bool" where
  "extends f g \<longleftrightarrow> num_varnodes f \<le> num_varnodes g \<and> num_ops g = num_ops f \<and> pop g = pop f \<and> blk g = blk f
     \<and> num_blocks g = num_blocks f \<and> (\<forall>v < num_varnodes f. vn g v = vn f v)"

lemma extends_refl: "extends f f"
  by (simp add: extends_def)

lemma extends_trans: "extends f g \<Longrightarrow> extends g h \<Longrightarrow> extends f h"
  by (auto simp: extends_def)

lemma alloc_extends: "extends f (snd (alloc_varnode sz loc fl f))"
  by (simp add: extends_def fd_simps)

lemma extends_mut_new: "extends f g \<Longrightarrow> num_varnodes f \<le> v \<Longrightarrow> extends f (vn_mut v h g)"
  by (auto simp: extends_def fd_simps)

lemma new_const_simps [fd_simps]:
  "fst (new_const sz c f) = num_varnodes f" "num_varnodes (snd (new_const sz c f)) = Suc (num_varnodes f)"
  "extends f (snd (new_const sz c f))"
  "vn_descend (vn (snd (new_const sz c f)) (num_varnodes f)) = []"
  by (simp_all add: new_const_def alloc_varnode_simps alloc_varnode_new alloc_extends)

lemma new_const_ok: "graph_ok f \<Longrightarrow> graph_ok (snd (new_const sz c f))"
  unfolding new_const_def by (rule alloc_ok) auto

lemma unique_constant_for_ok:
  assumes "graph_ok f" "v < num_varnodes f" "unique_constant_for v f = (w, g)"
  shows "graph_ok g" "extends f g" "w < num_varnodes g" "w = v \<or> w = num_varnodes f \<and> vn_descend (vn g w) = []"
proof -
  have "graph_ok g \<and> extends f g \<and> w < num_varnodes g \<and> (w = v \<or> w = num_varnodes f \<and> vn_descend (vn g w) = [])"
  proof (cases "\<not> is_constant (vn f v) \<or> vn_descend (vn f v) = [] \<or> is_spacebase (vn f v)")
    case True
    then show ?thesis using assms by (simp add: unique_constant_for_def extends_refl)
  next
    case False
    let ?h = "snd (new_const (vn_size (vn f v)) (addr_offset (vn_loc (vn f v))) f)"
    have "unique_constant_for v f = (fst (new_const (vn_size (vn f v)) (addr_offset (vn_loc (vn f v))) f),
        vn_mut (fst (new_const (vn_size (vn f v)) (addr_offset (vn_loc (vn f v))) f)) (\<lambda>y. y\<lparr>vn_ty := vn_ty (vn f v)\<rparr>) ?h)"
      using False by (simp add: unique_constant_for_def Let_def split_beta)
    then have g: "w = num_varnodes f" "g = vn_mut (num_varnodes f) (\<lambda>y. y\<lparr>vn_ty := vn_ty (vn f v)\<rparr>) ?h"
      using assms(3) by (simp_all add: new_const_simps)
    have s: "graph_same ?h g" unfolding g by (rule vn_mut_same) (simp add: vn_same_def is_written_def is_input_def)
    have "extends f g" unfolding g by (rule extends_mut_new [OF new_const_simps(3)]) simp
    moreover have "graph_ok g" using graph_same_ok [OF s] new_const_ok [OF assms(1)] by simp
    ultimately show ?thesis unfolding g by (simp add: vn_mut_simps new_const_simps)
  qed
  then show "graph_ok g" "extends f g" "w < num_varnodes g" "w = v \<or> w = num_varnodes f \<and> vn_descend (vn g w) = []" by blast+
qed

lemma extendsD:
  assumes "extends f g"
  shows "num_ops g = num_ops f" "pop g = pop f" "v < num_varnodes f \<Longrightarrow> vn g v = vn f v" "v < num_varnodes f \<Longrightarrow> v < num_varnodes g"
    "blk g = blk f" "num_blocks g = num_blocks f"
  using assms by (auto simp: extends_def)

end
