(* ===== verification/Fd_Rewire.thy ===== *)
theory Fd_Rewire
  imports Fd_Graph
begin

text \<open>
  The wiring operations of \<^verbatim>\<open>decompile/funcdata.rs\<close> keep the graph consistent: inputs (\<open>op_set_input\<close> and
  its siblings), new operations, outputs, function inputs, and the deletion of dead varnodes.  Each lemma
  reduces to two moves: a reader is added to or dropped from a varnode while one operation is being rewired
  (\<open>link_ok\<close>, \<open>unlink_ok\<close>), and an output is cut from or joined to an operation (\<open>cut_output_ok\<close>, \<open>join_output_ok\<close>).
\<close>

subsection \<open>Rewiring inputs keeps the invariant\<close>

lemma link_ok:
  assumes ok: "graph_ok f" and b: "p < num_ops f" "v < num_varnodes f"
    and c: "\<And>w. count_list ins w = count_list (po_inrefs (pop f p)) w + (if w = v then 1 else 0)"
      "set ins \<subseteq> insert v (set (po_inrefs (pop f p)))"
  shows "graph_ok (add_reader p v (op_mut p (\<lambda>x. x\<lparr>po_inrefs := ins\<rparr>) f))"
proof -
  have "uses_but p (po_inrefs (pop f p)) f" using ok by (simp add: uses_but_self graph_ok_def)
  then have "uses_but p ins (add_reader p v f)" by (rule add_reader_but [OF _ b c])
  then have "uses_ok (add_reader p v (op_mut p (\<lambda>x. x\<lparr>po_inrefs := ins\<rparr>) f))"
    by (simp add: uses_but_def add_reader_def op_vn_mut)
  moreover have "io_same f (add_reader p v (op_mut p (\<lambda>x. x\<lparr>po_inrefs := ins\<rparr>) f))"
    by (rule io_same_trans [OF io_same_inrefs io_same_reader(1)])
  ultimately show ?thesis using ok by (rule graph_okI)
qed

lemma unlink_ok:
  assumes ok: "graph_ok f" and b: "p < num_ops f" "v \<in> set (po_inrefs (pop f p))"
    and c: "\<And>w. count_list ins w = count_list (po_inrefs (pop f p)) w - (if w = v then 1 else 0)"
      "set ins \<subseteq> set (po_inrefs (pop f p))"
  shows "graph_ok (drop_reader p v (op_mut p (\<lambda>x. x\<lparr>po_inrefs := ins\<rparr>) f))"
proof -
  have u: "uses_ok f" using ok by (simp add: graph_ok_def)
  have v: "v < num_varnodes f" using uses_okD(2) [OF u b] .
  have "uses_but p (po_inrefs (pop f p)) f" using u by (simp add: uses_but_self)
  then have "uses_but p ins (drop_reader p v f)" by (rule drop_reader_but [OF _ b(1) v b(2) c])
  then have "uses_ok (drop_reader p v (op_mut p (\<lambda>x. x\<lparr>po_inrefs := ins\<rparr>) f))"
    by (simp add: uses_but_def drop_reader_def op_vn_mut)
  moreover have "io_same f (drop_reader p v (op_mut p (\<lambda>x. x\<lparr>po_inrefs := ins\<rparr>) f))"
    by (rule io_same_trans [OF io_same_inrefs io_same_reader(2)])
  ultimately show ?thesis using ok by (rule graph_okI)
qed

lemma op_append_input_ok:
  assumes ok: "graph_ok f" and b: "p < num_ops f" "v < num_varnodes f"
  shows "graph_ok (op_append_input p v f)" "num_ops (op_append_input p v f) = num_ops f"
    "num_varnodes f \<le> num_varnodes (op_append_input p v f)"
proof -
  obtain w g where u: "unique_constant_for v f = (w, g)" by fastforce
  note g = unique_constant_for_ok [OF ok b(2) u] and e = extendsD [OF unique_constant_for_ok(2) [OF ok b(2) u]]
  have "op_mut p (\<lambda>x. x\<lparr>po_inrefs := po_inrefs x @ [w]\<rparr>) g = op_mut p (\<lambda>x. x\<lparr>po_inrefs := po_inrefs (pop g p) @ [w]\<rparr>) g"
    by (rule op_mut_cong) simp
  then have i: "op_append_input p v f = add_reader p w (op_mut p (\<lambda>x. x\<lparr>po_inrefs := po_inrefs (pop g p) @ [w]\<rparr>) g)"
    unfolding op_append_input_def u by simp
  show "graph_ok (op_append_input p v f)" unfolding i using b e(1) by (intro link_ok [OF g(1) _ g(3)]) auto
  show "num_ops (op_append_input p v f) = num_ops f" "num_varnodes f \<le> num_varnodes (op_append_input p v f)"
    unfolding i using g(2) by (simp_all add: fd_simps extends_def)
qed

lemma op_insert_input_ok:
  assumes ok: "graph_ok f" and b: "p < num_ops f" "v < num_varnodes f" and r: "op_insert_input p slot v f = Some h"
  shows "graph_ok h"
proof -
  obtain w g where u: "unique_constant_for v f = (w, g)" by fastforce
  note g = unique_constant_for_ok [OF ok b(2) u] and e = extendsD [OF unique_constant_for_ok(2) [OF ok b(2) u]]
  have "h = add_reader p w (op_mut p (\<lambda>x. x\<lparr>po_inrefs := insert_at slot w (po_inrefs x)\<rparr>) g)"
    using r unfolding op_insert_input_def u by (simp split: if_splits)
  also have "op_mut p (\<lambda>x. x\<lparr>po_inrefs := insert_at slot w (po_inrefs x)\<rparr>) g
      = op_mut p (\<lambda>x. x\<lparr>po_inrefs := insert_at slot w (po_inrefs (pop g p))\<rparr>) g" by (rule op_mut_cong) simp
  finally show ?thesis using b e(1) by (simp add: link_ok [OF g(1) _ g(3)] count_insert_at set_insert_at)
qed

lemma op_remove_input_ok:
  assumes ok: "graph_ok f" and b: "p < num_ops f" and r: "op_remove_input p slot f = Some h"
  shows "graph_ok h"
proof -
  have s: "slot < length (po_inrefs (pop f p))"
    and h: "h = drop_reader p (po_inrefs (pop f p) ! slot) (op_mut p (\<lambda>x. x\<lparr>po_inrefs := remove_at slot (po_inrefs x)\<rparr>) f)"
    using r by (auto simp: op_remove_input_def Let_def split: if_splits)
  have "op_mut p (\<lambda>x. x\<lparr>po_inrefs := remove_at slot (po_inrefs x)\<rparr>) f
      = op_mut p (\<lambda>x. x\<lparr>po_inrefs := remove_at slot (po_inrefs (pop f p))\<rparr>) f" by (rule op_mut_cong) simp
  then show ?thesis unfolding h using s b ok
    by (simp add: unlink_ok count_remove_at set_remove_at)
qed

lemma op_set_input_ok:
  assumes ok: "graph_ok f" and b: "p < num_ops f" "v < num_varnodes f" and r: "op_set_input p slot v f = Some h"
  shows "graph_ok h"
proof (cases "po_inrefs (pop f p) ! slot = v")
  case True
  then show ?thesis using r ok by (auto simp: op_set_input_def split: if_splits)
next
  case False
  let ?ins = "po_inrefs (pop f p)"
  obtain w g where u: "unique_constant_for v f = (w, g)" by fastforce
  note g = unique_constant_for_ok [OF ok b(2) u] and e = extendsD [OF unique_constant_for_ok(2) [OF ok b(2) u]]
  have s: "slot < length ?ins" using r by (auto simp: op_set_input_def not_le split: if_splits)
  have h: "h = add_reader p w (op_mut p (\<lambda>x. x\<lparr>po_inrefs := (po_inrefs x)[slot := w]\<rparr>) (drop_reader p (?ins ! slot) g))"
    using r False s unfolding op_set_input_def Let_def u by simp
  have gu: "uses_but p ?ins g" using uses_but_self [of p g] graph_okD(1) [OF g(1)] by (simp only: e(2))
  have pg: "p < num_ops g" using b e(1) by simp
  have ov: "?ins ! slot < num_varnodes g" using nth_mem [OF s] gu unfolding uses_but_iff [OF pg] by blast
  have d: "uses_but p (remove_at slot ?ins) (drop_reader p (?ins ! slot) g)"
    by (rule drop_reader_but [OF gu pg ov nth_mem [OF s] count_remove_at [OF s] set_remove_at])
  have "uses_but p (?ins[slot := w]) (add_reader p w (drop_reader p (?ins ! slot) g))"
  proof (rule add_reader_but [OF d])
    fix y show "count_list (?ins[slot := w]) y = count_list (remove_at slot ?ins) y + (if y = w then 1 else 0)"
      using count_update [OF s, of w y] count_remove_at [OF s, of y] count_at [OF s, of y] by (simp split: if_splits)
    show "set (?ins[slot := w]) \<subseteq> insert w (set (remove_at slot ?ins))"
      unfolding upd_conv_take_nth_drop [OF s] remove_at_def by auto
  qed (use pg g(3) in \<open>simp_all add: fd_simps\<close>)
  moreover have hh: "h = op_mut p (\<lambda>x. x\<lparr>po_inrefs := ?ins[slot := w]\<rparr>) (add_reader p w (drop_reader p (?ins ! slot) g))"
  proof -
    have "op_mut p (\<lambda>x. x\<lparr>po_inrefs := (po_inrefs x)[slot := w]\<rparr>) (drop_reader p (?ins ! slot) g)
      = op_mut p (\<lambda>x. x\<lparr>po_inrefs := ?ins[slot := w]\<rparr>) (drop_reader p (?ins ! slot) g)"
      by (rule op_mut_cong) (simp add: fd_simps e(2))
    then show ?thesis unfolding h by (simp add: add_reader_def op_vn_mut)
  qed
  ultimately have "uses_ok h" by (simp add: uses_but_def)
  moreover have "io_same g h" unfolding hh
    by (rule io_same_trans [OF io_same_trans [OF io_same_reader(2) io_same_reader(1)] io_same_inrefs])
  ultimately show ?thesis using g(1) by (rule graph_okI)
qed

lemma drop_inputs_ok:
  assumes ok: "graph_ok f" and b: "p < num_ops f"
  shows "graph_ok (drop_inputs p f)" "io_same f (drop_inputs p f)"
proof -
  let ?ins = "po_inrefs (pop f p)" and ?g = "op_mut p (\<lambda>x. x\<lparr>po_inrefs := []\<rparr>) f"
  have "uses_but p ?ins ?g" using ok by (simp add: uses_but_op_mut uses_but_self graph_ok_def)
  then have "uses_but p [] (fold (drop_reader p) ?ins ?g)" by (rule fold_drop_reader_but) (simp add: fd_simps b)
  moreover have "po_inrefs (pop (fold (drop_reader p) ?ins ?g) p) = []"
  proof -
    have "pop (fold (drop_reader p) vs g) = pop g" for vs g by (induction vs arbitrary: g) (simp_all add: fd_simps)
    then show ?thesis by (simp add: fd_simps b)
  qed
  ultimately have "uses_ok (drop_inputs p f)" unfolding drop_inputs_def by (metis uses_but_self)
  moreover show io: "io_same f (drop_inputs p f)"
    unfolding drop_inputs_def by (rule io_same_trans [OF io_same_inrefs]) (rule io_same_fold, rule io_same_reader(2))
  ultimately show "graph_ok (drop_inputs p f)" using ok by (metis graph_okI)
qed

lemma op_set_all_input_ok:
  assumes ok: "graph_ok f" and b: "p < num_ops f" "\<forall>v \<in> set vs. v < num_varnodes f"
  shows "graph_ok (op_set_all_input p vs f)"
proof -
  have "graph_ok (fold (op_append_input p) vs g)" if "graph_ok g" "p < num_ops g" "\<forall>v \<in> set vs. v < num_varnodes g" for g
    using that
  proof (induction vs arbitrary: g)
    case (Cons v vs)
    note a = op_append_input_ok [OF Cons.prems(1,2), of v]
    show ?case using Cons.prems a by (auto intro!: Cons.IH)
  qed simp
  moreover have "io_same f (drop_inputs p f)" by (rule drop_inputs_ok(2) [OF ok b(1)])
  ultimately show ?thesis
    unfolding op_set_all_input_def using drop_inputs_ok(1) [OF ok b(1)] b by (simp add: io_same_def)
qed

lemma op_swap_input_ok:
  assumes ok: "graph_ok f" and b: "p < num_ops f" and r: "op_swap_input p i j f = Some h"
  shows "graph_ok h"
proof -
  let ?ins = "po_inrefs (pop f p)"
  have l: "i < length ?ins" "j < length ?ins"
    and h: "h = op_mut p (\<lambda>x. x\<lparr>po_inrefs := (po_inrefs x)[i := ?ins ! j, j := ?ins ! i]\<rparr>) f"
    using r by (auto simp: op_swap_input_def Let_def split: if_splits)
  have c: "count_list (?ins[i := ?ins ! j, j := ?ins ! i]) w = count_list ?ins w" for w
  proof -
    let ?y = "?ins[i := ?ins ! j]"
    have "?y ! j = ?ins ! j" "j < length ?y" using l by (simp_all add: nth_list_update)
    then show ?thesis using count_update [of j ?y "?ins ! i" w] count_update [OF l(1), of "?ins ! j" w] by simp
  qed
  have h': "h = op_mut p (\<lambda>x. x\<lparr>po_inrefs := ?ins[i := ?ins ! j, j := ?ins ! i]\<rparr>) f"
    unfolding h by (rule op_mut_cong) simp
  have s: "set (?ins[i := ?ins ! j, j := ?ins ! i]) = set ?ins"
    by (rule set_eqI) (simp only: count_pos [symmetric] c)
  have "uses_but p ?ins f" using ok by (simp add: uses_but_self graph_ok_def)
  then have "uses_but p (?ins[i := ?ins ! j, j := ?ins ! i]) f" unfolding uses_but_iff [OF b] c s .
  then have "uses_ok h" unfolding h' by (simp add: uses_but_def)
  then show ?thesis using ok unfolding h' by (rule graph_okI [OF _ io_same_inrefs])
qed

subsection \<open>New operations\<close>

lemma unique_constants_ok:
  assumes "graph_ok f" "\<forall>v \<in> set vs. v < num_varnodes f" "unique_constants vs f = (ws, g)"
  shows "graph_ok g \<and> extends f g \<and> (\<forall>w \<in> set ws. w < num_varnodes g) \<and> length ws = length vs"
  using assms
proof (induction vs arbitrary: f ws)
  case (Cons v vs)
  obtain w f1 where u: "unique_constant_for v f = (w, f1)" by fastforce
  obtain ws' where r: "unique_constants vs f1 = (ws', g)" "ws = w # ws'"
    using Cons.prems(3) u by (auto split: prod.splits)
  note a = unique_constant_for_ok [OF Cons.prems(1) _ u]
  have "\<forall>v \<in> set vs. v < num_varnodes f1" using Cons.prems(2) a(2) by (auto simp: extends_def)
  then have ih: "graph_ok g \<and> extends f1 g \<and> (\<forall>w \<in> set ws'. w < num_varnodes g) \<and> length ws' = length vs"
    using Cons.IH [OF a(1) _ r(1)] Cons.prems(2) by simp
  then have "w < num_varnodes g" using a(3) Cons.prems(2) by (auto simp: extends_def)
  then show ?case using ih a(2) Cons.prems(2) r(2) extends_trans by auto
qed (simp add: extends_refl)

definition push_op :: "fd_op \<Rightarrow> funcdata \<Rightarrow> funcdata" where
  "push_op x f = f\<lparr>fd_ops := fd_ops f @ [x]\<rparr>"

lemma push_op_simps [fd_simps]:
  "vn (push_op x f) = vn f" "blk (push_op x f) = blk f" "num_varnodes (push_op x f) = num_varnodes f"
  "num_ops (push_op x f) = Suc (num_ops f)" "num_blocks (push_op x f) = num_blocks f"
  "pop (push_op x f) (num_ops f) = x" "p < num_ops f \<Longrightarrow> pop (push_op x f) p = pop f p"
  by (auto simp: push_op_def vn_def pop_def blk_def num_varnodes_def num_ops_def num_blocks_def nth_append fun_eq_iff)

lemma push_op_ok:
  assumes ok: "graph_ok f" and x: "po_inrefs x = []" "po_output x = None"
  shows "graph_ok (push_op x f)"
proof -
  have u: "uses_ok f" "defs_ok f" "marks_ok f" using ok by (simp_all add: graph_ok_def)
  have d: "num_ops f \<notin> set (vn_descend (vn f v))" if "v < num_varnodes f" for v using uses_okD(1) [OF u(1) that] by blast
  have "uses_ok (push_op x f)"
    unfolding uses_ok_def push_op_simps(1,3,4)
  proof (intro conjI allI impI ballI)
    fix v p assume "v < num_varnodes f" "p \<in> set (vn_descend (vn f v))"
    then show "p < Suc (num_ops f)" using uses_okD(1) [OF u(1)] less_Suc_eq by blast
  next
    fix p v assume "p < Suc (num_ops f)" "v \<in> set (po_inrefs (pop (push_op x f) p))"
    then show "v < num_varnodes f" using uses_okD(2) [OF u(1)] x by (cases "p = num_ops f") (auto simp: push_op_simps(6,7) less_Suc_eq)
  next
    fix v p assume v: "v < num_varnodes f" and p: "p < Suc (num_ops f)"
    show "count_list (vn_descend (vn f v)) p = count_list (po_inrefs (pop (push_op x f) p)) v"
      using uses_okD(3) [OF u(1) v] p x d [OF v] by (cases "p = num_ops f") (auto simp: push_op_simps(6,7) less_Suc_eq count_list_0_iff)
  qed
  moreover have "defs_ok (push_op x f)"
  proof (rule defs_okI, unfold push_op_simps(1,3,4))
    fix v p assume "v < num_varnodes f" "vn_def (vn f v) = Some p"
    then show "p < Suc (num_ops f) \<and> po_output (pop (push_op x f) p) = Some v"
      using defs_okD(1,2) [OF u(2), of v p] by (simp add: push_op_simps(7))
  next
    fix v p assume "p < Suc (num_ops f)" "po_output (pop (push_op x f) p) = Some v"
    then show "v < num_varnodes f \<and> vn_def (vn f v) = Some p"
      using defs_okD(3,4) [OF u(2), of p v] x by (cases "p = num_ops f") (auto simp: push_op_simps(6,7) less_Suc_eq)
  qed
  moreover have "marks_ok (push_op x f)" using u(3) by (simp add: marks_ok_def push_op_simps)
  ultimately show ?thesis by (simp add: graph_ok_def)
qed

lemma fold_add_reader_push: "fold (add_reader p) vs (push_op x f) = push_op x (fold (add_reader p) vs f)"
proof (induction vs arbitrary: f)
  case (Cons v vs)
  have "add_reader p v (push_op x f) = push_op x (add_reader p v f)" by (simp add: push_op_def add_reader_def vn_mut_def)
  then show ?case using Cons by simp
qed simp

lemma fold_add_reader_but:
  assumes "uses_but p ins f" "p < num_ops f" "\<forall>v \<in> set vs. v < num_varnodes f"
  shows "uses_but p (ins @ vs) (fold (add_reader p) vs f)"
  using assms
proof (induction vs arbitrary: f ins)
  case (Cons v vs)
  have "uses_but p (ins @ [v]) (add_reader p v f)" using Cons.prems by (intro add_reader_but [of p ins]) auto
  then show ?case using Cons.IH [of "ins @ [v]" "add_reader p v f"] Cons.prems by (simp add: fd_simps)
qed simp

lemma new_op_ok:
  assumes ok: "graph_ok f" and b: "\<forall>v \<in> set vs. v < num_varnodes f" and r: "new_op opc sq vs f = (p, h)"
  shows "graph_ok h" "p = num_ops f" "num_ops h = Suc (num_ops f)" "num_varnodes f \<le> num_varnodes h"
    "po_output (pop h p) = None" "po_parent (pop h p) = None" "length (po_inrefs (pop h p)) = length vs"
    "\<forall>q < num_ops f. pop h q = pop f q" "blk h = blk f" "num_blocks h = num_blocks f"
proof -
  obtain ws g where u: "unique_constants vs f = (ws, g)" by fastforce
  have a: "graph_ok g" "extends f g" "\<forall>w \<in> set ws. w < num_varnodes g" "length ws = length vs"
    using unique_constants_ok [OF ok b u] by auto
  define x where "x = \<lparr>po_code = opc, po_flags = 0, po_seq = sq, po_parent = None, po_output = None, po_inrefs = ws, po_guarded = None\<rparr>"
  have h: "p = num_ops f" "h = push_op x (fold (add_reader (num_ops f)) ws g)"
    using r u by (auto simp: new_op_def Let_def push_op_def x_def)
  let ?e = "x\<lparr>po_inrefs := []\<rparr>" and ?p = "num_ops f"
  have gp: "graph_ok (push_op ?e g)" by (rule push_op_ok [OF a(1)]) (simp_all add: x_def)
  have np: "num_ops g = ?p" using a(2) by (simp add: extends_def)
  have "uses_but ?p [] (push_op ?e g)"
    using gp uses_but_self [of ?p "push_op ?e g"] push_op_simps(6) [of ?e g] np by (simp add: graph_ok_def)
  then have "uses_but ?p ws (fold (add_reader ?p) ws (push_op ?e g))"
    using fold_add_reader_but [of ?p "[]" "push_op ?e g" ws] a(3) np by (simp add: push_op_simps)
  then have "uses_ok (op_mut ?p (\<lambda>y. y\<lparr>po_inrefs := ws\<rparr>) (push_op ?e (fold (add_reader ?p) ws g)))"
    by (simp add: uses_but_def fold_add_reader_push)
  moreover have fs: "num_ops (fold (add_reader ?p) vs g) = num_ops g" "pop (fold (add_reader ?p) vs g) = pop g"
    "num_varnodes (fold (add_reader ?p) vs g) = num_varnodes g" "blk (fold (add_reader ?p) vs g) = blk g"
    "num_blocks (fold (add_reader ?p) vs g) = num_blocks g" for vs g
    by (induction vs arbitrary: g) (simp_all add: fd_simps)
  moreover have hh: "op_mut ?p (\<lambda>y. y\<lparr>po_inrefs := ws\<rparr>) (push_op ?e (fold (add_reader ?p) ws g)) = h"
  proof -
    have "length (fd_ops (fold (add_reader ?p) ws g)) = ?p" using fs(1) [of ws g] np by (simp add: num_ops_def)
    then show ?thesis unfolding h(2) op_mut_def push_op_def by (simp add: x_def list_update_append nth_append)
  qed
  ultimately have "uses_ok h" by simp
  moreover have "io_same (push_op ?e g) h"
  proof -
    have "io_same (push_op ?e g) (fold (add_reader ?p) ws (push_op ?e g))" by (rule io_same_fold, rule io_same_reader(1))
    then show ?thesis unfolding fold_add_reader_push hh [symmetric] by (rule io_same_trans [OF _ io_same_inrefs])
  qed
  ultimately show "graph_ok h" using gp by (rule graph_okI)
  show "p = num_ops f" by (rule h(1))
  have n: "num_ops (fold (add_reader ?p) ws g) = ?p" using fs(1) [of ws g] np by simp
  show "num_ops h = Suc (num_ops f)" unfolding h(2) by (simp add: push_op_simps n)
  show "num_varnodes f \<le> num_varnodes h" unfolding h(2) using a(2) by (simp add: push_op_simps fs(3) extends_def)
  have hp: "pop h p = x" using push_op_simps(6) [of x "fold (add_reader ?p) ws g"] unfolding h n by simp
  show "po_output (pop h p) = None" "po_parent (pop h p) = None" "length (po_inrefs (pop h p)) = length vs"
    using a(4) by (simp_all add: hp x_def)
  show "\<forall>q < num_ops f. pop h q = pop f q"
    using push_op_simps(7) [of _ "fold (add_reader ?p) ws g" x] a(2) unfolding h(2) n by (simp add: fs(2) extends_def)
  show "blk h = blk f" "num_blocks h = num_blocks f"
    unfolding h(2) using a(2) by (simp_all add: push_op_simps fs(4,5) extends_def)
qed

subsection \<open>Outputs\<close>

lemma marks_okD: "marks_ok f \<Longrightarrow> v < num_varnodes f \<Longrightarrow> vn_marks (vn f v)"
  by (simp add: marks_ok_def)

text \<open>Changing who defines what, without touching the reads.\<close>

lemma uses_same:
  assumes "uses_ok f" "num_varnodes g = num_varnodes f" "num_ops g = num_ops f"
    "\<And>v. v < num_varnodes f \<Longrightarrow> vn_descend (vn g v) = vn_descend (vn f v)" "\<And>p. p < num_ops f \<Longrightarrow> po_inrefs (pop g p) = po_inrefs (pop f p)"
  shows "uses_ok g"
  using assms unfolding uses_ok_def by simp

text \<open>Cutting an operation from its output; the varnode's flags must then say that nothing defines it.\<close>

lemma cut_output_ok:
  assumes ok: "graph_ok f" and b: "p < num_ops f" and out: "po_output (pop f p) = Some v"
    and k: "\<And>x. vn_descend (k x) = vn_descend x" "\<And>x. vn_def (k x) = None" "\<And>x. \<not> is_written (k x)"
      "\<And>x. vn_marks x \<Longrightarrow> has (vn_flags (k x)) INSERT \<longleftrightarrow> is_input (k x)"
  shows "graph_ok (vn_mut v k (op_mut p (\<lambda>x. x\<lparr>po_output := None\<rparr>) f))"
proof -
  let ?g = "vn_mut v k (op_mut p (\<lambda>x. x\<lparr>po_output := None\<rparr>) f)"
  note d = graph_okD(2) [OF ok]
  have v: "v < num_varnodes f" "vn_def (vn f v) = Some p" using defs_okD(3,4) [OF d b out] .
  have vg: "vn ?g w = (if w = v then k (vn f v) else vn f w)" for w by (simp add: fd_simps v)
  have pg: "pop ?g q = (if q = p then (pop f p)\<lparr>po_output := None\<rparr> else pop f q)" for q by (simp add: fd_simps b)
  have n: "num_varnodes ?g = num_varnodes f" "num_ops ?g = num_ops f" by (simp_all add: fd_simps)
  have "uses_ok ?g" by (rule uses_same [OF graph_okD(1) [OF ok] n]) (simp_all add: vg pg k(1))
  moreover have "defs_ok ?g"
  proof (rule defs_okI, unfold n)
    fix w q assume w: "w < num_varnodes f" "vn_def (vn ?g w) = Some q"
    then have "w \<noteq> v" "vn_def (vn f w) = Some q" by (auto simp: vg k(2) split: if_splits)
    moreover from this have "q \<noteq> p" using defs_okD(2) [OF d w(1)] out by auto
    ultimately show "q < num_ops f \<and> po_output (pop ?g q) = Some w" using defs_okD(1,2) [OF d w(1)] by (simp add: pg)
  next
    fix w q assume q: "q < num_ops f" "po_output (pop ?g q) = Some w"
    then have "q \<noteq> p" "po_output (pop f q) = Some w" by (auto simp: pg split: if_splits)
    moreover from this have "w \<noteq> v" using defs_okD(4) [OF d q(1)] v by auto
    ultimately show "w < num_varnodes f \<and> vn_def (vn ?g w) = Some q" using defs_okD(3,4) [OF d q(1)] by (simp add: vg)
  qed
  moreover have "marks_ok ?g"
    unfolding marks_ok_def n
  proof (intro allI impI)
    fix w assume "w < num_varnodes f"
    then show "vn_marks (vn ?g w)"
      using marks_okD [OF graph_okD(3) [OF ok]] k(2,3,4) v by (simp add: vg vn_marks_def)
  qed
  ultimately show ?thesis by (simp add: graph_ok_def)
qed

text \<open>Joining an operation without output and a varnode nothing defines.\<close>

lemma join_output_ok:
  assumes u: "uses_ok f" "defs_ok f" and b: "p < num_ops f" "v < num_varnodes f" "po_output (pop f p) = None" "vn_def (vn f v) = None"
    and m: "\<And>w. w < num_varnodes f \<Longrightarrow> w \<noteq> v \<Longrightarrow> vn_marks (vn f w)"
    and k: "\<And>x. vn_descend (k x) = vn_descend x" "\<And>x. vn_def (k x) = Some p" "is_written (k (vn f v))" "has (vn_flags (k (vn f v))) INSERT" "\<not> is_input (k (vn f v))"
  shows "graph_ok (op_mut p (\<lambda>x. x\<lparr>po_output := Some v\<rparr>) (vn_mut v k f))"
proof -
  let ?g = "op_mut p (\<lambda>x. x\<lparr>po_output := Some v\<rparr>) (vn_mut v k f)"
  have vg: "vn ?g w = (if w = v then k (vn f v) else vn f w)" for w by (simp add: fd_simps b)
  have pg: "pop ?g q = (if q = p then (pop f p)\<lparr>po_output := Some v\<rparr> else pop f q)" for q by (simp add: fd_simps b)
  have n: "num_varnodes ?g = num_varnodes f" "num_ops ?g = num_ops f" by (simp_all add: fd_simps)
  have "uses_ok ?g" by (rule uses_same [OF u(1) n]) (simp_all add: vg pg k(1))
  moreover have "defs_ok ?g"
  proof (rule defs_okI, unfold n)
    fix w q assume w: "w < num_varnodes f" "vn_def (vn ?g w) = Some q"
    show "q < num_ops f \<and> po_output (pop ?g q) = Some w"
    proof (cases "w = v")
      case True
      then have "q = p" using w(2) vg [of w] k(2) by simp
      then show ?thesis using b(1) pg [of p] True by simp
    next
      case False
      then have "vn_def (vn f w) = Some q" using w by (simp add: vg)
      then show ?thesis using defs_okD(1,2) [OF u(2) w(1)] b(3) by (auto simp: pg)
    qed
  next
    fix w q assume q: "q < num_ops f" "po_output (pop ?g q) = Some w"
    show "w < num_varnodes f \<and> vn_def (vn ?g w) = Some q"
    proof (cases "q = p")
      case True
      then have "w = v" using q(2) pg [of q] by simp
      then show ?thesis using b(2) vg [of v] k(2) True by simp
    next
      case False
      then have "po_output (pop f q) = Some w" using q by (simp add: pg)
      then show ?thesis using defs_okD(3,4) [OF u(2) q(1)] b(4) by (auto simp: vg)
    qed
  qed
  moreover have "marks_ok ?g" using m k(2,3,4,5) by (simp add: marks_ok_def n vg vn_marks_def)
  ultimately show ?thesis by (simp add: graph_ok_def)
qed

lemma make_free_eq: "make_free v f = vn_mut v (\<lambda>x. x\<lparr>vn_def := None,
     vn_flags := vn_flags x AND NOT (WRITTEN OR INPUT OR INSERT OR INDIRECT_CREATION)\<rparr>) f"
  by (simp add: make_free_def)

lemma free_output_ok:
  assumes ok: "graph_ok f" and b: "p < num_ops f"
  shows "graph_ok (free_output p f)" "po_output (pop (free_output p f) p) = None"
    "num_ops (free_output p f) = num_ops f" "num_varnodes (free_output p f) = num_varnodes f"
    "\<And>q. po_inrefs (pop (free_output p f) q) = po_inrefs (pop f q)"
proof -
  show "graph_ok (free_output p f)"
  proof (cases "po_output (pop f p)")
    case (Some v)
    then have "free_output p f = vn_mut v (\<lambda>x. x\<lparr>vn_def := None,
        vn_flags := vn_flags x AND NOT (WRITTEN OR INPUT OR INSERT OR INDIRECT_CREATION)\<rparr>) (op_mut p (\<lambda>x. x\<lparr>po_output := None\<rparr>) f)"
      by (simp add: free_output_def make_free_def)
    then show ?thesis by (simp only:) (rule cut_output_ok [OF ok b Some]; simp add: is_written_def is_input_def has_and)
  qed (simp add: free_output_def ok)
  show "po_output (pop (free_output p f) p) = None" "num_ops (free_output p f) = num_ops f" "num_varnodes (free_output p f) = num_varnodes f"
    "\<And>q. po_inrefs (pop (free_output p f) q) = po_inrefs (pop f q)"
    using b by (auto simp: free_output_def make_free_def fd_simps split: option.splits)
qed

lemma new_output_ok:
  assumes ok: "graph_ok f" and b: "p < num_ops f" and r: "new_output p sz loc f = (v, h)"
  shows "graph_ok h" "v = num_varnodes f" "num_varnodes h = Suc (num_varnodes f)" "num_ops h = num_ops f"
    "po_output (pop h p) = Some v" "\<And>q. po_inrefs (pop h q) = po_inrefs (pop f q)"
proof -
  let ?f1 = "free_output p f"
  note o = free_output_ok [OF ok b]
  let ?f2 = "snd (alloc_varnode sz loc (WRITTEN OR INSERT) ?f1)"
  have h: "v = num_varnodes f" "h = op_mut p (\<lambda>x. x\<lparr>po_output := Some v\<rparr>) (vn_mut v (\<lambda>x. x\<lparr>vn_def := Some p\<rparr>) ?f2)"
    using r o(4) by (auto simp: new_output_def Let_def split_beta alloc_varnode_simps)
  have n: "num_varnodes ?f2 = Suc (num_varnodes f)" "num_ops ?f2 = num_ops f" "pop ?f2 = pop ?f1"
    by (simp_all add: alloc_varnode_simps o(3,4))
  have nv: "num_varnodes ?f1 = v" using o(4) h(1) by simp
  have new: "vn_def (vn ?f2 v) = None" "is_written (vn ?f2 v)" "has (vn_flags (vn ?f2 v)) INSERT" "\<not> is_input (vn ?f2 v)"
    using alloc_varnode_new [of sz loc "WRITTEN OR INSERT" ?f1] unfolding nv by (simp_all add: has_or)
  show "graph_ok h" unfolding h(2)
  proof (rule join_output_ok)
    show "uses_ok ?f2" "defs_ok ?f2" using o(1) by (simp_all add: alloc_uses alloc_defs graph_ok_def)
    show "vn_marks (vn ?f2 w)" if "w < num_varnodes ?f2" "w \<noteq> v" for w
    proof -
      have "w < num_varnodes ?f1" using that n(1) nv h(1) by simp
      then show ?thesis using marks_okD [OF graph_okD(3) [OF o(1)]] by (simp add: alloc_varnode_simps(2))
    qed
    show "p < num_ops ?f2" "v < num_varnodes ?f2" unfolding n h(1) using b by simp_all
  qed (use o(2) new n(3) in \<open>simp_all add: is_written_def is_input_def\<close>)
  show "v = num_varnodes f" by (rule h(1))
  show "num_varnodes h = Suc (num_varnodes f)" "num_ops h = num_ops f" unfolding h(2) by (simp_all add: fd_simps o(3,4))
  show "po_output (pop h p) = Some v" unfolding h(2) by (simp add: fd_simps o(3) b)
  show "po_inrefs (pop h q) = po_inrefs (pop f q)" for q unfolding h(2) by (simp add: fd_simps n o(5))
qed

lemma new_output_unique_ok:
  assumes ok: "graph_ok f" and b: "p < num_ops f" and r: "new_output_unique p sz f = (v, h)"
  shows "graph_ok h" "v = num_varnodes f" "num_varnodes h = Suc (num_varnodes f)" "num_ops h = num_ops f"
    "po_output (pop h p) = Some v" "\<And>q. po_inrefs (pop h q) = po_inrefs (pop f q)"
proof -
  let ?g = "snd (take_unique sz f)"
  have "graph_ok ?g" using ok graph_same_ok [OF take_unique_same] by blast
  moreover have "p < num_ops ?g" using b by (simp add: fd_simps)
  moreover have "new_output p sz (fst (take_unique sz f)) ?g = (v, h)" using r by (simp add: new_output_unique_def split_beta)
  ultimately show "graph_ok h" "v = num_varnodes f" "num_varnodes h = Suc (num_varnodes f)" "num_ops h = num_ops f"
    "po_output (pop h p) = Some v" "\<And>q. po_inrefs (pop h q) = po_inrefs (pop f q)"
    using new_output_ok [of ?g p sz "fst (take_unique sz f)" v h] by (simp_all add: take_unique_simps)
qed

lemma op_set_output_ok:
  assumes ok: "graph_ok f" and b: "p < num_ops f" "v < num_varnodes f" "\<not> is_input (vn f v)"
  shows "graph_ok (op_set_output p v f)" "po_output (pop (op_set_output p v f) p) = Some v"
proof -
  have "graph_ok (op_set_output p v f) \<and> po_output (pop (op_set_output p v f) p) = Some v"
  proof (cases "po_output (pop f p) = Some v")
    case True then show ?thesis using ok by (simp add: op_set_output_def)
  next
    case False
    let ?f1 = "free_output p f"
    note o = free_output_ok [OF ok b(1)]
    define f2 where "f2 = (case vn_def (vn ?f1 v) of None \<Rightarrow> ?f1
        | Some q \<Rightarrow> op_mut q (\<lambda>x. x\<lparr>po_output := None\<rparr>) (vn_mut v (\<lambda>x. x\<lparr>vn_def := None\<rparr>) ?f1))"
    have e: "op_set_output p v f = op_mut p (\<lambda>x. x\<lparr>po_output := Some v\<rparr>)
        (vn_mut v (\<lambda>x. x\<lparr>vn_def := Some p, vn_flags := vn_flags x OR (WRITTEN OR INSERT)\<rparr>) f2)"
      using False by (simp add: op_set_output_def Let_def f2_def)
    have f2: "uses_ok f2" "defs_ok f2" "num_ops f2 = num_ops f" "num_varnodes f2 = num_varnodes f"
      "po_output (pop f2 p) = None" "vn_def (vn f2 v) = None"
      "\<And>w. w < num_varnodes f \<Longrightarrow> w \<noteq> v \<Longrightarrow> vn f2 w = vn ?f1 w"
    proof -
      have "uses_ok f2 \<and> defs_ok f2 \<and> num_ops f2 = num_ops f \<and> num_varnodes f2 = num_varnodes f
        \<and> po_output (pop f2 p) = None \<and> vn_def (vn f2 v) = None \<and> (\<forall>w. w < num_varnodes f \<longrightarrow> w \<noteq> v \<longrightarrow> vn f2 w = vn ?f1 w)"
      proof (cases "vn_def (vn ?f1 v)")
        case None then show ?thesis using o by (simp add: f2_def graph_ok_def)
      next
        case (Some q)
        have v1: "v < num_varnodes ?f1" using b(2) o(4) by simp
        have q: "q < num_ops ?f1" "po_output (pop ?f1 q) = Some v"
          using defs_okD(1,2) [OF graph_okD(2) [OF o(1)] v1 Some] .
        let ?k = "\<lambda>x. x\<lparr>vn_def := None, vn_flags := vn_flags x AND NOT (WRITTEN OR INPUT OR INSERT OR INDIRECT_CREATION)\<rparr>"
        have cut: "graph_ok (vn_mut v ?k (op_mut q (\<lambda>x. x\<lparr>po_output := None\<rparr>) ?f1))"
          by (rule cut_output_ok [OF o(1) q]; simp add: is_written_def is_input_def has_and)
        have f2: "f2 = vn_mut v (\<lambda>x. x\<lparr>vn_def := None\<rparr>) (op_mut q (\<lambda>x. x\<lparr>po_output := None\<rparr>) ?f1)"
          using Some by (simp add: f2_def op_vn_mut)
        let ?c = "vn_mut v ?k (op_mut q (\<lambda>x. x\<lparr>po_output := None\<rparr>) ?f1)"
        have n: "num_varnodes f2 = num_varnodes ?c" "num_ops f2 = num_ops ?c" by (simp_all add: f2 fd_simps)
        have same: "vn_descend (vn f2 w) = vn_descend (vn ?c w)" "vn_def (vn f2 w) = vn_def (vn ?c w)" "pop f2 = pop ?c" for w
          by (simp_all add: f2 fd_simps)
        have "uses_ok f2" by (rule uses_same [OF graph_okD(1) [OF cut] n]) (simp_all add: same)
        moreover have "defs_ok f2" using graph_okD(2) [OF cut] unfolding defs_ok_def n same .
        moreover have "num_ops f2 = num_ops f" "num_varnodes f2 = num_varnodes f" using o by (simp_all add: f2 fd_simps)
        moreover have "po_output (pop f2 p) = None" using o(2) by (simp add: f2 fd_simps)
        moreover have "vn_def (vn f2 v) = None" using v1 by (simp add: f2 fd_simps)
        ultimately show ?thesis by (simp add: f2 fd_simps)
      qed
      then show "uses_ok f2" "defs_ok f2" "num_ops f2 = num_ops f" "num_varnodes f2 = num_varnodes f"
        "po_output (pop f2 p) = None" "vn_def (vn f2 v) = None"
        "\<And>w. w < num_varnodes f \<Longrightarrow> w \<noteq> v \<Longrightarrow> vn f2 w = vn ?f1 w" by blast+
    qed
    have fl: "\<not> is_input (vn f2 v)"
    proof -
      have "\<not> is_input (vn ?f1 v)"
        using b by (auto simp: free_output_def make_free_def fd_simps is_input_def has_and split: option.splits)
      then show ?thesis by (auto simp: f2_def fd_simps is_input_def split: option.splits)
    qed
    have "graph_ok (op_set_output p v f)" unfolding e
    proof (rule join_output_ok [OF f2(1,2)])
      show "vn_marks (vn f2 w)" if "w < num_varnodes f2" "w \<noteq> v" for w
        using that marks_okD [OF graph_okD(3) [OF o(1)], of w] f2(4,7) o(4) by simp
    qed (use b f2 fl in \<open>simp_all add: is_written_def is_input_def has_or\<close>)
    moreover have "po_output (pop (op_set_output p v f) p) = Some v" unfolding e by (simp add: fd_simps b f2(3))
    ultimately show ?thesis ..
  qed
  then show "graph_ok (op_set_output p v f)" "po_output (pop (op_set_output p v f) p) = Some v" by blast+
qed

subsection \<open>Inputs and deletion\<close>

text \<open>Marks of a varnode nothing defines.\<close>

lemma remark_ok:
  assumes ok: "graph_ok f" and v: "vn_def (vn f v) = None"
    and k: "\<And>x. vn_descend (k x) = vn_descend x" "\<And>x. vn_def (k x) = None" "\<And>x. \<not> is_written (k x)"
      "\<And>x. has (vn_flags (k x)) INSERT \<longleftrightarrow> is_input (k x)"
  shows "graph_ok (vn_mut v k f)"
proof -
  let ?g = "vn_mut v k f"
  have n: "num_varnodes ?g = num_varnodes f" "num_ops ?g = num_ops f" "pop ?g = pop f" by (simp_all add: fd_simps)
  have d: "vn_descend (vn ?g w) = vn_descend (vn f w)" "vn_def (vn ?g w) = vn_def (vn f w)" for w
    using v k by (simp_all add: fd_simps)
  have "uses_ok ?g" by (rule uses_same [OF graph_okD(1) [OF ok] n(1,2)]) (simp_all add: d n)
  moreover have "defs_ok ?g" using graph_okD(2) [OF ok] unfolding defs_ok_def n d .
  moreover have "marks_ok ?g"
    using graph_okD(3) [OF ok] k(2,3,4) by (simp add: marks_ok_def fd_simps vn_marks_def)
  ultimately show ?thesis by (simp add: graph_ok_def)
qed

lemma delete_varnode_ok: "graph_ok f \<Longrightarrow> vn_def (vn f v) = None \<Longrightarrow> graph_ok (delete_varnode v f)"
  unfolding delete_varnode_def by (rule remark_ok) (simp_all add: is_written_def is_input_def has_and)

lemma apply_input_effect_same: "graph_same f (apply_input_effect v f)"
proof -
  have s: "graph_same g (vn_mut v (\<lambda>x. x\<lparr>vn_flags := vn_flags x OR UNAFFECTED\<rparr>) g)"
    "graph_same g (vn_mut v (\<lambda>x. x\<lparr>vn_flags := vn_flags x OR (UNAFFECTED OR RETURN_ADDRESS)\<rparr>) g)" for g
    by (rule vn_mut_same; simp add: vn_same_def is_written_def is_input_def has_or)+
  then show ?thesis unfolding apply_input_effect_def Let_def by (auto intro: graph_same_refl graph_same_trans)
qed

lemma set_input_varnode_ok:
  assumes ok: "graph_ok f" and v: "vn_def (vn f v) = None" "v < num_varnodes f" and r: "set_input_varnode v f = (w, h)"
  shows "graph_ok h" "w < num_varnodes h" "num_varnodes h = num_varnodes f"
proof -
  let ?g = "vn_mut v (\<lambda>x. x\<lparr>vn_def := None, vn_flags := (vn_flags x AND NOT WRITTEN) OR (INPUT OR INSERT)\<rparr>) f"
  have g: "graph_ok ?g" by (rule remark_ok [OF ok v(1)]) (simp_all add: is_written_def is_input_def has_and has_or)
  have i: "i < num_varnodes f" if "find_input P loc sz f = Some i" for P loc sz i
    using that by (auto simp: find_input_def find_Some_iff)
  have "graph_ok (apply_input_effect v ?g)" using g graph_same_ok [OF apply_input_effect_same] by blast
  moreover have "num_varnodes (apply_input_effect v ?g) = num_varnodes f"
    using apply_input_effect_same [of ?g v] by (simp add: graph_same_def fd_simps)
  ultimately show "graph_ok h" "w < num_varnodes h" "num_varnodes h = num_varnodes f"
    using r ok v i by (auto simp: set_input_varnode_def split: if_splits option.splits)
qed

lemma new_input_ok: "graph_ok f \<Longrightarrow> new_input sz loc f = (v, h) \<Longrightarrow> graph_ok h"
proof -
  assume ok: "graph_ok f" and r: "new_input sz loc f = (v, h)"
  have "graph_ok (snd (alloc_varnode sz loc (INPUT OR INSERT) f))" by (rule alloc_ok [OF ok]) (simp_all add: has_or)
  then have "graph_ok (apply_input_effect w (snd (alloc_varnode sz loc (INPUT OR INSERT) f)))" for w
    using graph_same_ok [OF apply_input_effect_same] by blast
  then show ?thesis using r ok by (auto simp: new_input_def split_beta split: option.splits)
qed

lemma undefined_marks: "marks_ok f \<Longrightarrow> v < num_varnodes f \<Longrightarrow> is_free (vn f v) \<or> is_input (vn f v) \<Longrightarrow> vn_def (vn f v) = None"
  using marks_okD [of f v] by (auto simp: vn_marks_def is_free_iff)

lemma clear_dead_varnodes_ok: "graph_ok f \<Longrightarrow> graph_ok (clear_dead_varnodes f)"
proof -
  assume ok: "graph_ok f"
  have "graph_ok (fold delete_varnode vs g)" if "graph_ok g" "\<forall>v \<in> set vs. vn_def (vn g v) = None" for vs g
    using that
  proof (induction vs arbitrary: g)
    case (Cons v vs)
    have "\<forall>w \<in> set vs. vn_def (vn (delete_varnode v g) w) = None" using Cons.prems(2) by (simp add: delete_varnode_def fd_simps)
    then show ?case using Cons.IH [OF delete_varnode_ok] Cons.prems by simp
  qed simp
  note del = this
  show ?thesis unfolding clear_dead_varnodes_def Let_def
    by (rule del [OF ok]) (auto intro!: undefined_marks [OF graph_okD(3) [OF ok]])
qed

end
