(* ===== verification/Fd_Destroy.thy ===== *)
theory Fd_Destroy
  imports Fd_Rewire
begin

text \<open>
  Replacing a varnode by another everywhere, and destroying operations: \<open>total_replace\<close>, \<open>op_destroy\<close> and
  \<open>op_destroy_recursive\<close> of \<^verbatim>\<open>decompile/funcdata.rs\<close>.  The worklist of the last ends because each round
  removes from the graph the inputs it pushed definitions for.
\<close>

subsection \<open>Replacing a varnode everywhere\<close>

definition subst_vn :: "nat \<Rightarrow> nat \<Rightarrow> nat list \<Rightarrow> nat list" where
  "subst_vn old new ins = map (\<lambda>v. if v = old then new else v) ins"

lemma subst_vn_idem: "old \<noteq> new \<Longrightarrow> subst_vn old new (subst_vn old new ins) = subst_vn old new ins"
  by (auto simp: subst_vn_def)

lemma count_subst_vn:
  "old \<noteq> new \<Longrightarrow> count_list (subst_vn old new ins) w =
     (if w = old then 0 else if w = new then count_list ins new + count_list ins old else count_list ins w)"
  by (induction ins) (auto simp: subst_vn_def)

lemma set_subst_vn: "set (subst_vn old new ins) \<subseteq> insert new (set ins)"
  by (auto simp: subst_vn_def)

lemma count_replicate: "count_list (replicate n x) y = (if x = y then n else 0)"
  by (induction n) auto

lemma replace_in_op_simps [fd_simps]:
  "num_varnodes (replace_in_op old new p f) = num_varnodes f" "num_ops (replace_in_op old new p f) = num_ops f"
  "w \<noteq> new \<Longrightarrow> vn (replace_in_op old new p f) w = vn f w"
  "pop (replace_in_op old new p f) q =
     (if q = p \<and> p < num_ops f then (pop f p)\<lparr>po_inrefs := subst_vn old new (po_inrefs (pop f p))\<rparr> else pop f q)"
  "new < num_varnodes f \<Longrightarrow> vn_descend (vn (replace_in_op old new p f) new) =
     vn_descend (vn f new) @ replicate (count_list (po_inrefs (pop f p)) old) p"
  by (simp_all add: replace_in_op_def Let_def fd_simps subst_vn_def)

lemma io_same_replace: "io_same f (replace_in_op old new p f)"
  by (simp add: io_same_def replace_in_op_def Let_def fd_simps)

lemma replace_fold:
  assumes "old \<noteq> new" "new < num_varnodes g" "set ds \<subseteq> {..<num_ops g}"
  shows "num_varnodes (fold (replace_in_op old new) ds g) = num_varnodes g"
    "num_ops (fold (replace_in_op old new) ds g) = num_ops g"
    "w \<noteq> new \<Longrightarrow> vn (fold (replace_in_op old new) ds g) w = vn g w"
    "po_inrefs (pop (fold (replace_in_op old new) ds g) q) =
       (if q \<in> set ds then subst_vn old new (po_inrefs (pop g q)) else po_inrefs (pop g q))"
    "count_list (vn_descend (vn (fold (replace_in_op old new) ds g) new)) q =
       count_list (vn_descend (vn g new)) q + (if q \<in> set ds then count_list (po_inrefs (pop g q)) old else 0)"
  using assms(2,3)
proof (induction ds arbitrary: g)
  case (Cons p ds)
  have pre: "p < num_ops g" "new < num_varnodes g" "new < num_varnodes (replace_in_op old new p g)"
    "set ds \<subseteq> {..<num_ops (replace_in_op old new p g)}"
    if "new < num_varnodes g" "set (p # ds) \<subseteq> {..<num_ops g}" for g using that by (simp_all add: fd_simps)
  { case (1 g) show ?case using Cons.IH(1) [OF pre(3,4) [OF 1]] by (simp add: fd_simps)
  next
    case (2 g) show ?case using Cons.IH(2) [OF pre(3,4) [OF 2]] by (simp add: fd_simps)
  next
    case (3 g) show ?case using Cons.IH(3) [OF 3(1) pre(3,4) [OF 3(2,3)]] 3(1) by (simp add: fd_simps)
  next
    case (4 g) show ?case using Cons.IH(4) [OF pre(3,4) [OF 4]] pre(1) [OF 4] assms(1) by (simp add: fd_simps subst_vn_idem)
  next
    case (5 g) show ?case using Cons.IH(5) [OF pre(3,4) [OF 5]] pre(1,2) [OF 5] assms(1)
      by (simp add: fd_simps count_subst_vn count_replicate) }
qed simp_all

lemma total_replace_ok:
  assumes ok: "graph_ok f" and b: "old \<noteq> new" "old < num_varnodes f" "new < num_varnodes f"
  shows "graph_ok (total_replace old new f)"
    "num_varnodes (total_replace old new f) = num_varnodes f" "num_ops (total_replace old new f) = num_ops f"
    "vn_descend (vn (total_replace old new f) old) = []"
    "\<And>w. w \<noteq> old \<Longrightarrow> w \<noteq> new \<Longrightarrow> vn (total_replace old new f) w = vn f w"
    "\<And>p. p < num_ops f \<Longrightarrow> po_inrefs (pop (total_replace old new f) p) = subst_vn old new (po_inrefs (pop f p))"
proof -
  let ?ds = "vn_descend (vn f old)" and ?g = "vn_mut old (\<lambda>x. x\<lparr>vn_descend := []\<rparr>) f" and ?h = "total_replace old new f"
  note u = uses_okD [OF graph_okD(1) [OF ok]]
  have pre: "old \<noteq> new" "new < num_varnodes ?g" "set ?ds \<subseteq> {..<num_ops ?g}"
    using b u(1) by (auto simp: fd_simps)
  have h: "?h = fold (replace_in_op old new) ?ds ?g" by (simp add: total_replace_def)
  show n: "num_varnodes ?h = num_varnodes f" "num_ops ?h = num_ops f"
    unfolding h by (simp_all add: replace_fold(1,2) [OF pre] fd_simps)
  show e: "vn_descend (vn ?h old) = []" unfolding h by (simp add: replace_fold(3) [OF pre] b fd_simps)
  show same: "\<And>w. w \<noteq> old \<Longrightarrow> w \<noteq> new \<Longrightarrow> vn ?h w = vn f w"
    unfolding h by (simp add: replace_fold(3) [OF pre] fd_simps)
  show ins: "po_inrefs (pop ?h p) = subst_vn old new (po_inrefs (pop f p))" if p: "p < num_ops f" for p
  proof (cases "p \<in> set ?ds")
    case False
    then have "old \<notin> set (po_inrefs (pop f p))" using reader_iff [OF graph_okD(1) [OF ok] b(2) p] by simp
    then have "subst_vn old new (po_inrefs (pop f p)) = po_inrefs (pop f p)" by (auto simp: subst_vn_def intro!: map_idI)
    then show ?thesis using False unfolding h by (simp add: replace_fold(4) [OF pre] fd_simps)
  qed (simp add: h replace_fold(4) [OF pre] fd_simps)
  have d: "count_list (vn_descend (vn ?h new)) p = count_list (vn_descend (vn f new)) p + count_list (vn_descend (vn f old)) p" for p
  proof (cases "p \<in> set ?ds")
    case True
    then have "p < num_ops f" using u(1) [OF b(2)] by blast
    then show ?thesis using True b unfolding h by (simp add: replace_fold(5) [OF pre] fd_simps u(3))
  next
    case False
    then show ?thesis using b unfolding h by (simp add: replace_fold(5) [OF pre] fd_simps count_list_0_iff)
  qed
  have "uses_ok ?h" unfolding uses_ok_def n
  proof (intro conjI allI impI ballI)
    fix v p assume v: "v < num_varnodes f" and p: "p \<in> set (vn_descend (vn ?h v))"
    consider "v = old" | "v = new" | "v \<noteq> old" "v \<noteq> new" by blast
    then show "p < num_ops f"
    proof cases
      case 1 then show ?thesis using p e by simp
    next
      case 2
      then have "0 < count_list (vn_descend (vn ?h new)) p" using p by (metis count_pos)
      then have "p \<in> set (vn_descend (vn f new)) \<or> p \<in> set (vn_descend (vn f old))" unfolding d by (metis add_is_0 count_pos not_gr_zero)
      then show ?thesis using u(1) b by blast
    next
      case 3 then show ?thesis using p same u(1) [OF v] by simp
    qed
  next
    fix p v assume p: "p < num_ops f" and v: "v \<in> set (po_inrefs (pop ?h p))"
    then have "v = new \<or> v \<in> set (po_inrefs (pop f p))" using set_subst_vn unfolding ins [OF p] by blast
    then show "v < num_varnodes f" using u(2) [OF p] b by blast
  next
    fix v p assume v: "v < num_varnodes f" and p: "p < num_ops f"
    show "count_list (vn_descend (vn ?h v)) p = count_list (po_inrefs (pop ?h p)) v"
      using b u(3) [OF v p] u(3) [OF b(2) p] u(3) [OF b(3) p] by (simp add: ins [OF p] count_subst_vn e same d)
  qed
  moreover have "io_same f ?h" unfolding total_replace_def
    by (rule io_same_trans [OF _ io_same_fold [OF io_same_replace]]) (simp add: io_same_def fd_simps)
  ultimately show "graph_ok ?h" using ok by (rule graph_okI)
qed

subsection \<open>Destroying operations\<close>

lemma fold_drop_reader_ops: "fd_ops (fold (drop_reader p) vs f) = fd_ops f"
  by (induction vs arbitrary: f) (simp_all add: drop_reader_def vn_mut_def)

lemma drop_inputs_ops: "fd_ops (drop_inputs p f) = (fd_ops f)[p := (pop f p)\<lparr>po_inrefs := []\<rparr>]"
  by (simp add: drop_inputs_def fold_drop_reader_ops op_mut_def pop_def)

lemma clear_output_id: "po_output x = None \<Longrightarrow> x\<lparr>po_inrefs := [], po_output := None, po_flags := k\<rparr> = x\<lparr>po_inrefs := [], po_flags := k\<rparr>"
  by (cases x) simp

lemma op_destroy_ops:
  "fd_ops (op_destroy p f) = (fd_ops f)[p := (pop f p)\<lparr>po_inrefs := [], po_output := None, po_flags := po_flags (pop f p) OR OP_DEAD\<rparr>]"
  by (cases "p < length (fd_ops f)")
    (auto simp: clear_output_id op_destroy_def Let_def mark_dead_def delete_varnode_def vn_mut_def op_mut_def drop_inputs_ops pop_def
      list_update_beyond split: option.splits)

lemma op_destroy_pop:
  "p < num_ops f \<Longrightarrow> pop (op_destroy p f) q =
     (if q = p then (pop f p)\<lparr>po_inrefs := [], po_output := None, po_flags := po_flags (pop f p) OR OP_DEAD\<rparr> else pop f q)"
  "num_ops (op_destroy p f) = num_ops f"
  by (simp_all add: pop_def num_ops_def op_destroy_ops nth_upd_any)

lemma op_destroy_num: "num_varnodes (op_destroy p f) = num_varnodes f"
proof -
  have "num_varnodes (fold (drop_reader p) vs g) = num_varnodes g" for vs g
    by (induction vs arbitrary: g) (simp_all add: fd_simps)
  then show ?thesis by (simp add: op_destroy_def Let_def mark_dead_def delete_varnode_def drop_inputs_def fd_simps split: option.splits)
qed

lemma op_destroy_ok:
  assumes ok: "graph_ok f" and b: "p < num_ops f"
  shows "graph_ok (op_destroy p f)"
proof -
  note d = drop_inputs_ok [OF ok b]
  have n: "p < num_ops (drop_inputs p f)" using b by (simp add: num_ops_def drop_inputs_ops)
  have dead: "graph_ok (mark_dead p g) \<longleftrightarrow> graph_ok g" for g
    unfolding mark_dead_def by (rule graph_same_ok [OF op_mut_same]) (simp add: op_same_def)
  show ?thesis
  proof (cases "po_output (pop (drop_inputs p f) p)")
    case None then show ?thesis using d by (simp add: op_destroy_def dead)
  next
    case (Some v)
    have "graph_ok (delete_varnode v (op_mut p (\<lambda>x. x\<lparr>po_output := None\<rparr>) (drop_inputs p f)))"
      unfolding delete_varnode_def by (rule cut_output_ok [OF d(1) n Some]; simp add: is_written_def is_input_def has_and)
    then show ?thesis using Some by (simp add: op_destroy_def dead)
  qed
qed

lemma op_destroy_inputs:
  assumes "p < num_ops f"
  shows "total_inputs (op_destroy p f) + length (po_inrefs (pop f p)) = total_inputs f"
proof -
  let ?l = "\<lambda>p. length (po_inrefs p)"
  have "?l (fd_ops f ! p) \<le> sum_list (map ?l (fd_ops f))"
    using assms member_le_sum_list [of "?l (fd_ops f ! p)" "map ?l (fd_ops f)"] by (auto simp: num_ops_def)
  then show ?thesis using assms by (simp add: total_inputs_def op_destroy_ops map_update sum_list_update num_ops_def pop_def)
qed

definition drag :: "funcdata \<Rightarrow> nat \<Rightarrow> nat list" where
  "drag f v = (if \<not> is_written (vn f v) \<or> is_auto_live (vn f v) \<or> lone_descend f v = None then []
     else case vn_def (vn f v) of None \<Rightarrow> []
       | Some d \<Rightarrow> if is_call (pop f d) \<or> is_indirect_source (pop f d) then [] else [d])"

text \<open>In a consistent graph every written varnode has its definition, so the walk never panics.\<close>

lemma dragged_eq:
  assumes ok: "graph_ok f" and b: "p < num_ops f"
  shows "dragged f p = Some (concat (map (drag f) (po_inrefs (pop f p))))"
proof -
  have d: "is_written (vn f v) \<Longrightarrow> vn_def (vn f v) \<noteq> None" if "v \<in> set (po_inrefs (pop f p))" for v
    using marks_okD [OF graph_okD(3) [OF ok], of v] uses_okD(2) [OF graph_okD(1) [OF ok] b that] by (simp add: vn_marks_def)
  have "fold (\<lambda>v acc. case acc of None \<Rightarrow> None | Some ds \<Rightarrow>
         if \<not> is_written (vn f v) \<or> is_auto_live (vn f v) \<or> lone_descend f v = None then Some ds
         else case vn_def (vn f v) of
                None \<Rightarrow> None
              | Some d \<Rightarrow> if is_call (pop f d) \<or> is_indirect_source (pop f d) then Some ds else Some (ds @ [d])) vs (Some ds)
      = Some (ds @ concat (map (drag f) vs))" if "set vs \<subseteq> set (po_inrefs (pop f p))" for vs ds
    using that
  proof (induction vs arbitrary: ds)
    case (Cons v vs)
    have "v \<in> set (po_inrefs (pop f p))" using Cons.prems by simp
    then show ?case using d [of v] Cons.IH Cons.prems by (auto simp: drag_def split: option.splits)
  qed simp
  then show ?thesis by (simp add: dragged_def)
qed

lemma dragged_bounds:
  assumes ok: "graph_ok f" and b: "p < num_ops f"
  shows "length (concat (map (drag f) (po_inrefs (pop f p)))) \<le> length (po_inrefs (pop f p))"
    "\<And>d. d \<in> set (concat (map (drag f) (po_inrefs (pop f p)))) \<Longrightarrow> d < num_ops f \<and> \<not> is_call (pop f d)"
proof -
  have "length (concat (map (drag f) vs)) \<le> length vs" for vs
    by (induction vs) (auto simp: drag_def split: option.splits)
  then show "length (concat (map (drag f) (po_inrefs (pop f p)))) \<le> length (po_inrefs (pop f p))" .
  fix d assume "d \<in> set (concat (map (drag f) (po_inrefs (pop f p))))"
  then obtain v where v: "v \<in> set (po_inrefs (pop f p))" "vn_def (vn f v) = Some d" "\<not> is_call (pop f d)"
    by (auto simp: drag_def split: if_splits option.splits)
  then show "d < num_ops f \<and> \<not> is_call (pop f d)"
    using defs_okD(1) [OF graph_okD(2) [OF ok] uses_okD(2) [OF graph_okD(1) [OF ok] b v(1)] v(2)] by blast
qed

text \<open>A destroyed operation: marked dead, reading nothing, writing nothing.\<close>

definition op_gone :: "funcdata \<Rightarrow> nat \<Rightarrow> bool" where
  "op_gone f p \<longleftrightarrow> is_dead (pop f p) \<and> po_inrefs (pop f p) = [] \<and> po_output (pop f p) = None"

lemma op_destroy_gone:
  assumes "p < num_ops f"
  shows "op_gone (op_destroy p f) p" "op_gone f q \<Longrightarrow> op_gone (op_destroy p f) q"
  by (auto simp: op_gone_def op_destroy_pop(1) [OF assms] is_dead_def has_or) (simp_all add: has_def OP_DEAD_def)

lemma destroy_loop_ok:
  assumes "graph_ok f" "\<forall>q \<in> set wl. q < num_ops f \<and> (q = p \<or> \<not> is_call (pop f q))" "total_inputs f + length wl \<le> n"
  shows "\<exists>g. destroy_loop n wl f = Some g \<and> graph_ok g \<and> num_ops g = num_ops f
     \<and> (\<forall>q. q \<in> set wl \<or> op_gone f q \<longrightarrow> op_gone g q) \<and> (\<forall>q. q \<noteq> p \<longrightarrow> is_call (pop f q) \<longrightarrow> pop g q = pop f q)"
  using assms
proof (induction n wl f rule: destroy_loop.induct)
  case (3 n q wl f)
  let ?ds = "concat (map (drag f) (po_inrefs (pop f q)))" and ?f = "op_destroy q f"
  have q: "q < num_ops f" "q = p \<or> \<not> is_call (pop f q)" using 3(3) by simp_all
  note d = dragged_eq [OF 3(2) q(1)] and db = dragged_bounds [OF 3(2) q(1)] and pq = op_destroy_pop(1) [OF q(1)]
  have call: "is_call (pop ?f r) \<longleftrightarrow> is_call (pop f r)" for r by (simp add: pq is_call_def)
  have wl: "\<forall>r \<in> set (wl @ ?ds). r < num_ops ?f \<and> (r = p \<or> \<not> is_call (pop ?f r))"
    unfolding call op_destroy_pop(2) set_append using 3(3) db(2) by auto
  have n: "total_inputs ?f + length (wl @ ?ds) \<le> n" using 3(4) db(1) op_destroy_inputs [OF q(1)] by simp
  from 3(1) [OF d op_destroy_ok [OF 3(2) q(1)] wl n] obtain g where g: "destroy_loop n (wl @ ?ds) ?f = Some g" "graph_ok g"
    "num_ops g = num_ops ?f" "\<forall>r. r \<in> set (wl @ ?ds) \<or> op_gone ?f r \<longrightarrow> op_gone g r"
    "\<forall>r. r \<noteq> p \<longrightarrow> is_call (pop ?f r) \<longrightarrow> pop g r = pop ?f r" by blast
  have "op_gone g r" if "r \<in> set (q # wl) \<or> op_gone f r" for r
    using that g(4) op_destroy_gone [OF q(1)] by auto
  moreover have "pop g r = pop f r" if "r \<noteq> p" "is_call (pop f r)" for r
  proof -
    have "r \<noteq> q" using that q(2) by blast
    then show ?thesis using g(5) that call pq by simp
  qed
  ultimately show ?case using g(1,2,3) d by (auto simp: op_destroy_pop(2))
qed simp_all

lemma op_destroy_recursive_ok:
  assumes "graph_ok f" "p < num_ops f"
  shows "\<exists>g. op_destroy_recursive p f = Some g \<and> graph_ok g \<and> num_ops g = num_ops f \<and> op_gone g p
     \<and> (\<forall>q. q \<noteq> p \<longrightarrow> is_call (pop f q) \<longrightarrow> pop g q = pop f q)"
  using destroy_loop_ok [of f "[p]" p "total_inputs f + 1"] assms unfolding op_destroy_recursive_def by auto

end
