(* ===== verification/Fd_Blocks.thy ===== *)
theory Fd_Blocks
  imports Fd_Destroy
begin

text \<open>
  Operations inside basic blocks, and the operations of \<^verbatim>\<open>decompile/funcdata.rs\<close> built from the wiring ones:
  placing an operation in a block, building an operation before another, negating and flipping conditions,
  splitting the uses of a varnode, replacing a varnode by a constant, stack references, and the repair of
  function inputs.
\<close>

definition op_input :: "funcdata \<Rightarrow> nat \<Rightarrow> nat \<Rightarrow> nat option" where
  "op_input f p slot = (if slot < length (po_inrefs (pop f p)) then Some (po_inrefs (pop f p) ! slot) else None)"

definition next_seq :: "funcdata \<Rightarrow> address \<Rightarrow> seq_num" where
  "next_seq f pc = \<lparr>sq_pc = pc, sq_uniq = num_ops f\<rparr>"

subsection \<open>Placing operations\<close>

definition set_parent :: "nat \<Rightarrow> nat option \<Rightarrow> funcdata \<Rightarrow> funcdata" where
  "set_parent p b f = op_mut p (\<lambda>x. x\<lparr>po_parent := b\<rparr>) f"

definition block_insert :: "nat \<Rightarrow> nat \<Rightarrow> nat \<Rightarrow> funcdata \<Rightarrow> funcdata" where
  "block_insert b pos p f = block_mut b (\<lambda>x. x\<lparr>bk_ops := insert_at pos p (bk_ops x)\<rparr>) f"

definition op_insert_before :: "nat \<Rightarrow> nat \<Rightarrow> funcdata \<Rightarrow> funcdata" where
  "op_insert_before newop follow f =
     (let parent = po_parent (pop f follow);
          f = set_parent newop parent f
      in case parent of
           None \<Rightarrow> f
         | Some b \<Rightarrow>
             let ops = bk_ops (blk f b);
                 pos = (case position follow ops of Some i \<Rightarrow> i | None \<Rightarrow> length ops)
             in block_insert b pos newop f)"

fun skip_phis :: "funcdata \<Rightarrow> nat list \<Rightarrow> nat" where
  "skip_phis f [] = 0"
| "skip_phis f (p # ps) = (if po_code (pop f p) = Multiequal then Suc (skip_phis f ps) else 0)"

definition after_target :: "nat \<Rightarrow> funcdata \<Rightarrow> nat" where
  "after_target prev f =
     (if po_code (pop f prev) = Indirect
      then case po_guarded (pop f prev) of
             Some targ \<Rightarrow> if \<not> is_dead (pop f targ) then targ else prev
           | None \<Rightarrow> prev
      else prev)"

definition op_insert_after :: "nat \<Rightarrow> nat \<Rightarrow> funcdata \<Rightarrow> funcdata" where
  "op_insert_after newop prev f =
     (let prev = after_target prev f;
          parent = po_parent (pop f prev);
          f = set_parent newop parent f
      in case parent of
           None \<Rightarrow> f
         | Some b \<Rightarrow>
             let ops = bk_ops (blk f b);
                 pos = (case position prev ops of Some i \<Rightarrow> i + 1 | None \<Rightarrow> length ops);
                 pos = (if po_code (pop f newop) = Multiequal then pos else pos + skip_phis f (drop pos ops))
             in block_insert b pos newop f)"

definition op_uninsert :: "nat \<Rightarrow> funcdata \<Rightarrow> funcdata" where
  "op_uninsert p f =
     (case po_parent (pop f p) of
        None \<Rightarrow> f
      | Some b \<Rightarrow> block_mut b (\<lambda>x. x\<lparr>bk_ops := remove1 p (bk_ops x)\<rparr>) f)"

definition op_insert_begin :: "nat \<Rightarrow> nat \<Rightarrow> funcdata \<Rightarrow> funcdata" where
  "op_insert_begin p b f =
     (let f = set_parent p (Some b) f;
          pos = (if po_code (pop f p) = Multiequal then 0 else skip_phis f (bk_ops (blk f b)))
      in block_insert b pos p f)"

definition op_insert_end :: "nat \<Rightarrow> nat \<Rightarrow> funcdata \<Rightarrow> funcdata" where
  "op_insert_end p b f =
     (let f = set_parent p (Some b) f;
          ops = bk_ops (blk f b);
          pos = (if ops \<noteq> [] \<and> terminates_block (po_code (pop f (last ops))) then length ops - 1 else length ops)
      in block_insert b pos p f)"

definition set_block_ops :: "nat \<Rightarrow> nat list \<Rightarrow> funcdata \<Rightarrow> funcdata" where
  "set_block_ops b ops f = block_mut b (\<lambda>x. x\<lparr>bk_ops := ops\<rparr>) f"

subsection \<open>Building operations in place\<close>

definition op_set_opcode :: "nat \<Rightarrow> opcode \<Rightarrow> funcdata \<Rightarrow> funcdata" where
  "op_set_opcode p opc f = op_mut p (\<lambda>x. x\<lparr>po_code := opc\<rparr>) f"

definition new_op_before_sized :: "nat \<Rightarrow> opcode \<Rightarrow> nat list \<Rightarrow> nat \<Rightarrow> funcdata \<Rightarrow> nat \<times> funcdata" where
  "new_op_before_sized follow opc inputs out_size f =
     (let pc = sq_pc (po_seq (pop f follow));
          (p, f) = new_op opc (next_seq f pc) inputs f;
          (_, f) = new_output_unique p out_size f
      in (p, op_insert_before p follow f))"

definition new_op_before :: "nat \<Rightarrow> opcode \<Rightarrow> nat list \<Rightarrow> funcdata \<Rightarrow> (nat \<times> funcdata) option" where
  "new_op_before follow opc inputs f =
     (case inputs of
        [] \<Rightarrow> None
      | i # _ \<Rightarrow> Some (new_op_before_sized follow opc inputs (vn_size (vn f i)) f))"

definition op_bool_negate :: "nat \<Rightarrow> nat \<Rightarrow> bool \<Rightarrow> funcdata \<Rightarrow> nat \<times> funcdata" where
  "op_bool_negate v p insertafter f =
     (let pc = sq_pc (po_seq (pop f p));
          (neg, f) = new_op BoolNegate (next_seq f pc) [v] f;
          (out, f) = new_output_unique neg 1 f
      in (out, if insertafter then op_insert_after neg p f else op_insert_before neg p f))"

definition new_extended_constant :: "nat \<Rightarrow> 128 word \<Rightarrow> nat \<Rightarrow> funcdata \<Rightarrow> nat \<times> funcdata" where
  "new_extended_constant sz val p f =
     (if sz \<le> 8 then new_const sz (ucast val) f
      else let lo = ucast val :: u64;
               hi = ucast (drop_bit 64 val) :: u64;
               (newop, f) =
                 (if hi = 0
                  then let (clo, f) = new_const 8 lo f in new_op_before_sized p IntZext [clo] sz f
                  else let (chi, f) = new_const 8 hi f; (clo, f) = new_const 8 lo f
                       in new_op_before_sized p Piece [chi, clo] sz f)
           in (the (po_output (pop f newop)), f))"

definition new_indirect_op :: "nat \<Rightarrow> address \<Rightarrow> nat \<Rightarrow> funcdata \<Rightarrow> nat \<times> funcdata" where
  "new_indirect_op indeffect loc sz f =
     (let (before, f) = new_varnode sz loc f;
          pc = sq_pc (po_seq (pop f indeffect));
          (p, f) = new_op Indirect (next_seq f pc) [before] f;
          f = op_mut p (\<lambda>x. x\<lparr>po_guarded := Some indeffect\<rparr>) f;
          (_, f) = new_output p sz loc f
      in (p, op_insert_before p indeffect f))"

fun new_varnodes :: "nat \<Rightarrow> nat \<Rightarrow> address \<Rightarrow> funcdata \<Rightarrow> nat list \<times> funcdata" where
  "new_varnodes 0 sz loc f = ([], f)"
| "new_varnodes (Suc n) sz loc f =
     (let (v, f) = new_varnode sz loc f; (vs, f) = new_varnodes n sz loc f in (v # vs, f))"

definition new_multiequal :: "nat \<Rightarrow> space_id \<Rightarrow> u64 \<Rightarrow> nat \<Rightarrow> nat \<Rightarrow> funcdata \<Rightarrow> nat \<times> funcdata" where
  "new_multiequal b spc off sz npreds f =
     (let loc = \<lparr>addr_space = spc, addr_offset = off\<rparr>;
          pc = (case bk_ops (blk f b) of [] \<Rightarrow> fd_addr f | p # _ \<Rightarrow> sq_pc (po_seq (pop f p)));
          (inputs, f) = new_varnodes npreds sz loc f;
          (p, f) = new_op Multiequal \<lparr>sq_pc = pc, sq_uniq = 4294967295\<rparr> inputs f;
          (_, f) = new_output p sz loc f;
          f = set_parent p (Some b) f
      in (p, block_insert b 0 p f))"

definition new_spacebase_ptr :: "space_id \<Rightarrow> funcdata \<Rightarrow> (nat \<times> funcdata) option" where
  "new_spacebase_ptr spc f =
     (case sp_spacebase (sm_get (fd_spaces f) spc) of
        [] \<Rightarrow> None
      | (reg, sz) # _ \<Rightarrow> Some (new_varnode sz reg f))"

definition create_stack_ref ::
  "space_id \<Rightarrow> u64 \<Rightarrow> nat \<Rightarrow> nat option \<Rightarrow> bool \<Rightarrow> funcdata \<Rightarrow> (nat \<times> funcdata) option" where
  "create_stack_ref spc off p stackptr insertafter f =
     (case (case stackptr of Some v \<Rightarrow> Some (v, f) | None \<Rightarrow> new_spacebase_ptr spc f) of
        None \<Rightarrow> None
      | Some (sv, f) \<Rightarrow>
          let addrsize = vn_size (vn f sv);
              sq = po_seq (pop f p);
              ws = of_nat (sp_wordsize (sm_get (fd_spaces f) spc)) :: u64
          in if ws = 0 then None
             else let off = (if ws = 1 then off else off div ws);
                      (cst, f) = new_const addrsize off f;
                      (addop, f) = new_op IntAdd sq [sv, cst] f;
                      (addout, f) = new_output_unique addop addrsize f
                  in Some (addout, if insertafter then op_insert_after addop p f else op_insert_before addop p f))"

definition op_stack_load ::
  "space_id \<Rightarrow> u64 \<Rightarrow> nat \<Rightarrow> nat \<Rightarrow> nat option \<Rightarrow> bool \<Rightarrow> funcdata \<Rightarrow> (nat \<times> funcdata) option" where
  "op_stack_load spc off sz p stackref insertafter f =
     (case sp_contain (sm_get (fd_spaces f) spc) of
        None \<Rightarrow> None
      | Some container \<Rightarrow>
          (case create_stack_ref spc off p stackref insertafter f of
             None \<Rightarrow> None
           | Some (addout, f) \<Rightarrow>
               let sq = po_seq (pop f p);
                   (spacevn, f) = new_const 8 (ucast container) f;
                   (loadop, f) = new_op Load sq [spacevn, addout] f;
                   (res, f) = new_output_unique loadop sz f
               in case vn_def (vn f addout) of
                    None \<Rightarrow> None
                  | Some addop \<Rightarrow> Some (res, op_insert_after loadop addop f)))"

subsection \<open>Properties and conditions\<close>

definition transfer_varnode_properties :: "nat \<Rightarrow> nat \<Rightarrow> int \<Rightarrow> funcdata \<Rightarrow> funcdata" where
  "transfer_varnode_properties v new_vn lsb f =
     (let new_consume =
            (if 0 \<le> lsb \<and> lsb < 8
             then let fill = (if lsb \<noteq> 0 then push_bit (8 * (8 - nat lsb)) (- 1) else 0)
                  in (drop_bit (8 * nat lsb) (vn_consume (vn f v)) OR fill) AND calc_mask (vn_size (vn f new_vn))
             else - 1);
          fl = vn_flags (vn f v) AND (DIRECTWRITE OR ADDRFORCE)
      in vn_mut new_vn (\<lambda>x. x\<lparr>vn_flags := vn_flags x OR fl, vn_consume := new_consume\<rparr>) f)"

definition set_indirect_creation :: "nat \<Rightarrow> funcdata \<Rightarrow> funcdata" where
  "set_indirect_creation v f = vn_mut v (\<lambda>x. x\<lparr>vn_flags := vn_flags x OR INDIRECT_CREATION\<rparr>) f"

definition mark_indirect_creation :: "nat \<Rightarrow> bool \<Rightarrow> funcdata \<Rightarrow> funcdata" where
  "mark_indirect_creation indop possible_output f =
     (let out = po_output (pop f indop);
          in0 = op_input f indop 0;
          f = (case out of None \<Rightarrow> f | Some v \<Rightarrow> set_indirect_creation v f)
      in if possible_output then f
         else case in0 of
                None \<Rightarrow> f
              | Some v \<Rightarrow> if is_constant (vn f v) then set_indirect_creation v f else f)"

definition op_flip_condition :: "nat \<Rightarrow> funcdata \<Rightarrow> funcdata" where
  "op_flip_condition p f = op_mut p (\<lambda>x. x\<lparr>po_flags := po_flags x XOR OP_BOOLEAN_FLIP\<rparr>) f"

definition block_negate_condition :: "nat \<Rightarrow> funcdata \<Rightarrow> funcdata" where
  "block_negate_condition b f =
     (if bk_ops (blk f b) = [] then f
      else op_mut (last (bk_ops (blk f b))) (\<lambda>x. x\<lparr>po_flags := po_flags x OR (OP_BOOLEAN_FLIP OR OP_FALLTHRU_TRUE)\<rparr>) f)"

definition flip_in_place_execute :: "nat \<Rightarrow> funcdata \<Rightarrow> funcdata" where
  "flip_in_place_execute b f =
     (if bk_ops (blk f b) = [] then f
      else op_mut (last (bk_ops (blk f b))) (\<lambda>x. x\<lparr>po_flags := po_flags x XOR OP_FALLTHRU_TRUE\<rparr>) f)"

subsection \<open>Splitting and replacing uses\<close>

definition split_use :: "nat \<Rightarrow> nat \<Rightarrow> opcode \<Rightarrow> address \<Rightarrow> nat list \<Rightarrow> fd_varnode \<Rightarrow> nat \<Rightarrow> funcdata \<Rightarrow> funcdata" where
  "split_use v p opc a inputs x useop f =
     (case position v (po_inrefs (pop f useop)) of
        None \<Rightarrow> f
      | Some slot \<Rightarrow>
          let (newop, f) = new_op opc (next_seq f a) inputs f;
              (newvn, f) = new_output newop (vn_size x) (vn_loc x) f;
              f = vn_mut newvn (\<lambda>y. y\<lparr>vn_ty := vn_ty x\<rparr>) f;
              f = the (op_set_input useop slot newvn f)
          in op_insert_before newop p f)"

definition split_uses :: "nat \<Rightarrow> funcdata \<Rightarrow> funcdata" where
  "split_uses v f =
     (case vn_def (vn f v) of
        None \<Rightarrow> f
      | Some p \<Rightarrow>
          if length (vn_descend (vn f v)) \<le> 1 then f
          else fold (split_use v p (po_code (pop f p)) (sq_pc (po_seq (pop f p))) (po_inrefs (pop f p)) (vn f v))
                 (vn_descend (vn f v)) f)"

definition spacebase_mark :: "space_id \<Rightarrow> nat \<Rightarrow> nat \<Rightarrow> funcdata \<Rightarrow> funcdata" where
  "spacebase_mark spc sz v f =
     (if is_free (vn f v) then f
      else if is_spacebase (vn f v)
           then case vn_def (vn f v) of
                  Some p \<Rightarrow> if po_code (pop f p) = IntAdd then split_uses v f else f
                | None \<Rightarrow> f
      else let f = vn_mut v (\<lambda>x. x\<lparr>vn_flags := vn_flags x OR SPACEBASE\<rparr>) f
           in if is_input (vn f v)
              then vn_mut v (\<lambda>x. x\<lparr>vn_ty := Some (TPointer sz (TSpacebase spc)), vn_flags := vn_flags x OR TYPELOCK\<rparr>) f
              else f)"

definition spacebase :: "funcdata \<Rightarrow> funcdata" where
  "spacebase f =
     (let regs = concat (map (\<lambda>s. map (\<lambda>(loc, sz). (of_nat s :: space_id, loc, sz)) (sp_spacebase (sm_spaces (fd_spaces f) ! s)))
            [0..<length (sm_spaces (fd_spaces f))])
      in fold (\<lambda>(spc, loc, sz) f.
             fold (spacebase_mark spc sz)
               (filter (\<lambda>v. vn_loc (vn f v) = loc \<and> vn_size (vn f v) = sz) [0..<num_varnodes f]) f) regs f)"

text \<open>The constant's copy for markers is made once: after the definition, or at the start of the entry block.\<close>

definition constant_copy :: "nat \<Rightarrow> u64 \<Rightarrow> funcdata \<Rightarrow> nat \<times> funcdata" where
  "constant_copy v val f =
     (let sz = vn_size (vn f v);
          (k, f) = new_const sz val f
      in case vn_def (vn f v) of
           Some d \<Rightarrow>
             let (cop, f) = new_op Copy (next_seq f (sq_pc (po_seq (pop f d)))) [k] f;
                 (out, f) = new_output_unique cop sz f
             in (out, op_insert_after cop d f)
         | None \<Rightarrow>
             let (cop, f) = new_op Copy (next_seq f (fd_addr f)) [k] f;
                 (out, f) = new_output_unique cop sz f
             in (out, op_insert_begin cop 0 f))"

definition replace_constant_in :: "nat \<Rightarrow> u64 \<Rightarrow> nat \<Rightarrow> nat option \<times> funcdata \<Rightarrow> nat option \<times> funcdata" where
  "replace_constant_in v val p = (\<lambda>(copyout, f).
     case position v (po_inrefs (pop f p)) of
       None \<Rightarrow> (copyout, f)
     | Some slot \<Rightarrow>
         if is_marker (pop f p)
         then let (c, f) = (case copyout of Some c \<Rightarrow> (c, f) | None \<Rightarrow> constant_copy v val f)
              in (Some c, the (op_set_input p slot c f))
         else let (c, f) = new_const (vn_size (vn f v)) val f in (copyout, the (op_set_input p slot c f)))"

definition total_replace_constant :: "nat \<Rightarrow> u64 \<Rightarrow> funcdata \<Rightarrow> funcdata" where
  "total_replace_constant v val f = snd (fold (replace_constant_in v val) (vn_descend (vn f v)) (None, f))"

subsection \<open>Placement\<close>

text \<open>Placing an operation in a block touches nothing of the data flow.\<close>

lemma set_parent_simps [fd_simps]:
  "vn (set_parent p b f) = vn f" "num_varnodes (set_parent p b f) = num_varnodes f" "num_ops (set_parent p b f) = num_ops f"
  "num_blocks (set_parent p b f) = num_blocks f" "blk (set_parent p b f) = blk f"
  "pop (set_parent p b f) q = (if q = p \<and> p < num_ops f then (pop f p)\<lparr>po_parent := b\<rparr> else pop f q)"
  by (simp_all add: set_parent_def fd_simps)

lemma block_insert_simps [fd_simps]:
  "vn (block_insert b i p f) = vn f" "pop (block_insert b i p f) = pop f" "num_varnodes (block_insert b i p f) = num_varnodes f"
  "num_ops (block_insert b i p f) = num_ops f" "num_blocks (block_insert b i p f) = num_blocks f"
  "blk (block_insert b i p f) c = (if c = b \<and> b < num_blocks f then (blk f b)\<lparr>bk_ops := insert_at i p (bk_ops (blk f b))\<rparr> else blk f c)"
  by (simp_all add: block_insert_def fd_simps)

definition placed :: "funcdata \<Rightarrow> funcdata \<Rightarrow> bool" where
  "placed f g \<longleftrightarrow> num_varnodes g = num_varnodes f \<and> num_ops g = num_ops f \<and> vn g = vn f \<and> num_blocks g = num_blocks f
     \<and> (\<forall>q. po_code (pop g q) = po_code (pop f q) \<and> po_flags (pop g q) = po_flags (pop f q) \<and> po_seq (pop g q) = po_seq (pop f q)
          \<and> po_output (pop g q) = po_output (pop f q) \<and> po_inrefs (pop g q) = po_inrefs (pop f q))"

lemma set_parent_placed: "placed f (set_parent p b f)"
  by (simp add: placed_def fd_simps)

lemma placed_insert: "placed f g \<Longrightarrow> placed f (block_insert b i q g)"
  by (simp add: placed_def fd_simps)

lemma insert_placed:
  "placed f (op_insert_before p q f)" "placed f (op_insert_after p q f)" "placed f (op_insert_begin p b f)"
  "placed f (op_insert_end p b f)"
  by (simp_all add: op_insert_before_def op_insert_after_def op_insert_begin_def op_insert_end_def Let_def
      set_parent_placed placed_insert split: option.splits)

lemma placed_ok: "placed f g \<Longrightarrow> graph_ok g \<longleftrightarrow> graph_ok f"
  by (rule graph_same_ok) (simp add: placed_def graph_same_def op_same_def)

end
