(* ===== verification/Fd_Sem.thy ===== *)
theory Fd_Sem
  imports Fd_Blocks Emu_Step
begin

text \<open>
  What the data-flow graph means, and how a rewrite keeps it.  An assignment of values to varnodes is allowed
  by a function when every operation with a value of its own computes, with the emulator's arithmetic, the
  value of its output.  \<open>refines f g\<close> says that every assignment \<open>f\<close> allows extends to one \<open>g\<close> allows.  The
  lemmas named \<open>rw_\<close> are a calculus for the edits a simplification rule makes to one operation: each edit
  of \<^verbatim>\<open>funcdata.rs\<close> turns a known opcode and known inputs into known ones.
\<close>

subsection \<open>The value of an operation of the graph\<close>

text \<open>
  The operations with a value of their own, and when one is well sized: the arity and the size relations
  p-code asks for, on values of one to eight bytes.
\<close>

definition arith1 :: "opcode \<Rightarrow> bool" where
  "arith1 c \<longleftrightarrow> c \<in> {Copy, IntNegate, Int2comp}"
definition arith2 :: "opcode \<Rightarrow> bool" where
  "arith2 c \<longleftrightarrow> c \<in> {IntAdd, IntSub, IntMult, IntAnd, IntOr, IntXor}"
definition shift_op :: "opcode \<Rightarrow> bool" where
  "shift_op c \<longleftrightarrow> c \<in> {IntLeft, IntRight, IntSright}"
definition compare_op :: "opcode \<Rightarrow> bool" where
  "compare_op c \<longleftrightarrow> c \<in> {IntEqual, IntNotequal, IntLess, IntLessequal, IntSless, IntSlessequal, IntCarry, IntScarry, IntSborrow}"
definition extend_op :: "opcode \<Rightarrow> bool" where
  "extend_op c \<longleftrightarrow> c \<in> {IntZext, IntSext}"
definition count_op :: "opcode \<Rightarrow> bool" where
  "count_op c \<longleftrightarrow> c \<in> {Popcount, Lzcount}"
definition bool2 :: "opcode \<Rightarrow> bool" where
  "bool2 c \<longleftrightarrow> c \<in> {BoolAnd, BoolOr, BoolXor}"
definition bool_op :: "opcode \<Rightarrow> bool" where
  "bool_op c \<longleftrightarrow> c = BoolNegate \<or> bool2 c"
definition pure_op :: "opcode \<Rightarrow> bool" where
  "pure_op c \<longleftrightarrow> arith1 c \<or> arith2 c \<or> shift_op c \<or> compare_op c \<or> extend_op c \<or> count_op c \<or> bool_op c"

lemmas op_classes = arith1_def arith2_def shift_op_def compare_op_def extend_op_def count_op_def bool2_def bool_op_def pure_op_def

definition narrow_size :: "nat \<Rightarrow> bool" where
  "narrow_size s \<longleftrightarrow> 1 \<le> s \<and> s \<le> 8"

definition sized :: "opcode \<Rightarrow> nat list \<Rightarrow> nat \<Rightarrow> bool" where
  "sized c ss os \<longleftrightarrow> list_all narrow_size ss \<and> narrow_size os \<and>
     (if arith1 c then ss = [os]
      else if arith2 c then ss = [os, os]
      else if shift_op c then \<exists>s. ss = [os, s]
      else if compare_op c then os = 1 \<and> (\<exists>s. ss = [s, s])
      else if extend_op c then \<exists>s. ss = [s] \<and> s \<le> os
      else if count_op c then \<exists>s. ss = [s]
      else if c = BoolNegate then ss = [1] \<and> os = 1
      else bool2 c \<and> ss = [1, 1] \<and> os = 1)"

text \<open>The emulator's value, from the sizes and the values of the inputs.\<close>

definition pval :: "opcode \<Rightarrow> (nat \<times> u64) list \<Rightarrow> nat \<Rightarrow> u64" where
  "pval c L os =
     (let a = hd L; b = hd (tl L @ [(1, 0)])
      in emu_mask (the (alu c (fst a) (snd a) (snd b) (sext (snd a) (fst a)) (sext (snd b) (fst b)))) os)"

text \<open>What an execution guarantees of the operands: booleans are 0 or 1, and shift counts are below 64.\<close>

definition operands_ok :: "opcode \<Rightarrow> (nat \<times> u64) list \<Rightarrow> bool" where
  "operands_ok c L \<longleftrightarrow> (bool_op c \<longrightarrow> (\<forall>(s, v) \<in> set L. v \<le> 1)) \<and> (shift_op c \<longrightarrow> snd (hd (tl L)) < 64)"

definition ins_view :: "funcdata \<Rightarrow> (nat \<Rightarrow> u64) \<Rightarrow> nat \<Rightarrow> (nat \<times> u64) list" where
  "ins_view f env p = map (\<lambda>v. (vn_size (vn f v), env v)) (po_inrefs (pop f p))"

definition well_sized :: "funcdata \<Rightarrow> nat \<Rightarrow> bool" where
  "well_sized f p \<longleftrightarrow> (\<exists>out. po_output (pop f p) = Some out
     \<and> sized (po_code (pop f p)) (map (\<lambda>v. vn_size (vn f v)) (po_inrefs (pop f p))) (vn_size (vn f out)))"

text \<open>The operations that count: those not marked dead, and those that still define a varnode.\<close>

definition live :: "funcdata \<Rightarrow> nat \<Rightarrow> bool" where
  "live f p \<longleftrightarrow> p < num_ops f \<and> (is_dead (pop f p) \<longrightarrow> po_output (pop f p) \<noteq> None)"

definition ops_sized :: "funcdata \<Rightarrow> bool" where
  "ops_sized f \<longleftrightarrow> (\<forall>p. live f p \<and> pure_op (po_code (pop f p)) \<longrightarrow> well_sized f p)"

definition consts_fit :: "funcdata \<Rightarrow> bool" where
  "consts_fit f \<longleftrightarrow> (\<forall>v < num_varnodes f. is_constant (vn f v) \<longrightarrow>
     emu_mask (constant_value (vn f v)) (vn_size (vn f v)) = constant_value (vn f v))"

definition typed :: "funcdata \<Rightarrow> bool" where
  "typed f \<longleftrightarrow> ops_sized f \<and> consts_fit f"

text \<open>One operation under an assignment of values to varnodes, and the assignments a function allows.\<close>

definition op_ok :: "(nat \<Rightarrow> u64) \<Rightarrow> funcdata \<Rightarrow> nat \<Rightarrow> bool" where
  "op_ok env f p \<longleftrightarrow>
     (case po_output (pop f p) of
        None \<Rightarrow> True
      | Some out \<Rightarrow>
          (is_bool_output (pop f p) \<longrightarrow> env out \<le> 1)
          \<and> (pure_op (po_code (pop f p)) \<longrightarrow>
               operands_ok (po_code (pop f p)) (ins_view f env p)
               \<and> env out = pval (po_code (pop f p)) (ins_view f env p) (vn_size (vn f out))))"

definition vn_fits :: "(nat \<Rightarrow> u64) \<Rightarrow> funcdata \<Rightarrow> nat \<Rightarrow> bool" where
  "vn_fits env f v \<longleftrightarrow> emu_mask (env v) (vn_size (vn f v)) = env v
     \<and> (is_constant (vn f v) \<longrightarrow> env v = constant_value (vn f v))"

definition env_ok :: "funcdata \<Rightarrow> (nat \<Rightarrow> u64) \<Rightarrow> bool" where
  "env_ok f env \<longleftrightarrow> (\<forall>v < num_varnodes f. vn_fits env f v) \<and> (\<forall>p. live f p \<longrightarrow> op_ok env f p)"

text \<open>
  \<open>refines f g\<close>: every assignment \<open>f\<close> allows extends to one \<open>g\<close> allows, with the same value on each of the
  varnodes of \<open>f\<close>; no operation of \<open>f\<close> loses its output or dies.
\<close>

definition refines :: "funcdata \<Rightarrow> funcdata \<Rightarrow> bool" where
  "refines f g \<longleftrightarrow> graph_ok g \<and> typed g \<and> num_varnodes f \<le> num_varnodes g \<and> num_ops f \<le> num_ops g
     \<and> (\<forall>p < num_ops f. po_output (pop g p) = po_output (pop f p) \<and> (is_dead (pop g p) \<longleftrightarrow> is_dead (pop f p)))
     \<and> (\<forall>env. env_ok f env \<longrightarrow> (\<exists>env'. env_ok g env' \<and> (\<forall>v < num_varnodes f. env' v = env v)))"

lemma refines_refl: "graph_ok f \<Longrightarrow> typed f \<Longrightarrow> refines f f"
  by (auto simp: refines_def)

lemma refines_trans: "refines f g \<Longrightarrow> refines g h \<Longrightarrow> refines f h"
  unfolding refines_def
proof (elim conjE, intro conjI)
  assume n: "num_varnodes f \<le> num_varnodes g" and e: "\<forall>env. env_ok f env \<longrightarrow> (\<exists>env'. env_ok g env' \<and> (\<forall>v<num_varnodes f. env' v = env v))"
    "\<forall>env. env_ok g env \<longrightarrow> (\<exists>env'. env_ok h env' \<and> (\<forall>v<num_varnodes g. env' v = env v))"
  show "\<forall>env. env_ok f env \<longrightarrow> (\<exists>env'. env_ok h env' \<and> (\<forall>v<num_varnodes f. env' v = env v))"
  proof (intro allI impI)
    fix env assume "env_ok f env"
    then obtain e1 where e1: "env_ok g e1" "\<forall>v<num_varnodes f. e1 v = env v" using e(1) by blast
    obtain e2 where e2: "env_ok h e2" "\<forall>v<num_varnodes g. e2 v = e1 v" using e(2) e1(1) by blast
    have "\<forall>v<num_varnodes f. e2 v = env v" using e1(2) e2(2) n by simp
    then show "\<exists>env'. env_ok h env' \<and> (\<forall>v<num_varnodes f. env' v = env v)" using e2(1) by blast
  qed
qed auto

subsection \<open>Rewriting one operation\<close>

text \<open>
  The structure a rewrite of the operation \<open>p\<close> keeps: old varnodes keep their storage and size, the other
  operations keep their opcode and inputs, all keep their output, and new operations are well sized.
\<close>

definition sframe :: "nat \<Rightarrow> funcdata \<Rightarrow> funcdata \<Rightarrow> bool" where
  "sframe p f g \<longleftrightarrow> graph_ok g \<and> consts_fit g \<and> num_varnodes f \<le> num_varnodes g \<and> num_ops f \<le> num_ops g
     \<and> (\<forall>v < num_varnodes f. vn_size (vn g v) = vn_size (vn f v) \<and> is_constant (vn g v) = is_constant (vn f v)
          \<and> vn_loc (vn g v) = vn_loc (vn f v))
     \<and> (\<forall>q < num_ops f. po_output (pop g q) = po_output (pop f q) \<and> is_dead (pop g q) = is_dead (pop f q)
          \<and> (q \<noteq> p \<longrightarrow> po_code (pop g q) = po_code (pop f q) \<and> po_inrefs (pop g q) = po_inrefs (pop f q)))
     \<and> (\<forall>q. num_ops f \<le> q \<and> live g q \<and> pure_op (po_code (pop g q)) \<longrightarrow> well_sized g q)"

lemma sframeD:
  assumes "sframe p f g"
  shows "graph_ok g" "consts_fit g" "num_varnodes f \<le> num_varnodes g" "num_ops f \<le> num_ops g"
    "v < num_varnodes f \<Longrightarrow> vn_size (vn g v) = vn_size (vn f v)" "v < num_varnodes f \<Longrightarrow> is_constant (vn g v) = is_constant (vn f v)"
    "v < num_varnodes f \<Longrightarrow> vn_loc (vn g v) = vn_loc (vn f v)"
    "q < num_ops f \<Longrightarrow> po_output (pop g q) = po_output (pop f q)" "q < num_ops f \<Longrightarrow> is_dead (pop g q) = is_dead (pop f q)"
    "q < num_ops f \<Longrightarrow> q \<noteq> p \<Longrightarrow> po_code (pop g q) = po_code (pop f q)"
    "q < num_ops f \<Longrightarrow> q \<noteq> p \<Longrightarrow> po_inrefs (pop g q) = po_inrefs (pop f q)"
    "num_ops f \<le> q \<Longrightarrow> live g q \<Longrightarrow> pure_op (po_code (pop g q)) \<Longrightarrow> well_sized g q"
    "q < num_ops f \<Longrightarrow> live g q \<longleftrightarrow> live f q"
  using assms unfolding sframe_def live_def by auto

text \<open>The varnodes an operation touches are in the arena.\<close>

lemma op_range:
  assumes "graph_ok f" "q < num_ops f"
  shows "v \<in> set (po_inrefs (pop f q)) \<Longrightarrow> v < num_varnodes f" "po_output (pop f q) = Some v \<Longrightarrow> v < num_varnodes f"
  using uses_okD(2) [OF graph_okD(1) [OF assms(1)] assms(2)] defs_okD(3) [OF graph_okD(2) [OF assms(1)] assms(2)] by auto

text \<open>What an operation needs depends only on its own record and on the varnodes it touches.\<close>

lemma def_live:
  assumes ok: "graph_ok f" and v: "v < num_varnodes f" "vn_def (vn f v) = Some d"
  shows "d < num_ops f" "po_output (pop f d) = Some v" "live f d"
  using defs_okD(1,2) [OF graph_okD(2) [OF ok] v] by (simp_all add: live_def)

lemma op_cong:
  assumes ok: "graph_ok f" and q: "q < num_ops f"
    and o: "po_output (pop g q) = po_output (pop f q)" "po_code (pop g q) = po_code (pop f q)" "po_inrefs (pop g q) = po_inrefs (pop f q)"
    and v: "\<And>v. v < num_varnodes f \<Longrightarrow> vn_size (vn g v) = vn_size (vn f v)"
  shows "well_sized g q \<longleftrightarrow> well_sized f q" "(\<And>v. v < num_varnodes f \<Longrightarrow> e' v = e v) \<Longrightarrow> op_ok e' g q \<longleftrightarrow> op_ok e f q"
proof -
  note r = op_range [OF ok q]
  have s: "map (\<lambda>v. vn_size (vn g v)) (po_inrefs (pop g q)) = map (\<lambda>v. vn_size (vn f v)) (po_inrefs (pop f q))"
    unfolding o by (rule map_cong) (simp_all add: r v)
  have os: "vn_size (vn g out) = vn_size (vn f out)" if "po_output (pop f q) = Some out" for out using r(2) [OF that] v by simp
  show "well_sized g q \<longleftrightarrow> well_sized f q" unfolding well_sized_def s o(1,2) using os by auto
  assume e: "\<And>v. v < num_varnodes f \<Longrightarrow> e' v = e v"
  have i: "ins_view g e' q = ins_view f e q" unfolding ins_view_def o by (rule map_cong) (simp_all add: r v e)
  have b: "is_bool_output (pop g q) = is_bool_output (pop f q)" by (simp add: is_bool_output_def o)
  show "op_ok e' g q \<longleftrightarrow> op_ok e f q"
    unfolding op_ok_def o(1,2) i b using os e r(2) by (auto split: option.splits)
qed

lemma sframe_refl: "graph_ok f \<Longrightarrow> typed f \<Longrightarrow> sframe p f f"
  by (auto simp: sframe_def typed_def live_def)

lemma sframe_trans:
  assumes a: "sframe p f g" and b: "sframe p g h" and p: "p < num_ops f"
  shows "sframe p f h"
proof -
  note A = sframeD [OF a] and B = sframeD [OF b]
  have n: "well_sized h q" if q: "num_ops f \<le> q" "live h q" "pure_op (po_code (pop h q))" for q
  proof (cases "q < num_ops g")
    case True
    have k: "q \<noteq> p" "live g q" using q p True B(13) by auto
    have "well_sized g q" by (rule A(12)) (use q k True B(10) in simp_all)
    then show ?thesis using op_cong(1) [OF A(1) True, of h] B(5) B(8) [OF True] B(10,11) [OF True k(1)] by simp
  next
    case False then show ?thesis using B(12) q by simp
  qed
  show ?thesis unfolding sframe_def
  proof (intro conjI allI impI)
    fix v assume v: "v < num_varnodes f"
    then have "v < num_varnodes g" using A(3) by simp
    then show "vn_size (vn h v) = vn_size (vn f v)" "is_constant (vn h v) = is_constant (vn f v)" "vn_loc (vn h v) = vn_loc (vn f v)"
      using A(5,6,7) [OF v] B(5,6,7) by simp_all
  next
    fix q assume q: "q < num_ops f"
    then have g: "q < num_ops g" using A(4) by simp
    show "po_output (pop h q) = po_output (pop f q)" "is_dead (pop h q) = is_dead (pop f q)" using A(8,9) [OF q] B(8,9) [OF g] by simp_all
    assume "q \<noteq> p"
    then show "po_code (pop h q) = po_code (pop f q)" "po_inrefs (pop h q) = po_inrefs (pop f q)"
      using A(10,11) [OF q] B(10,11) [OF g] by simp_all
  next
    fix q assume "num_ops f \<le> q \<and> live h q \<and> pure_op (po_code (pop h q))"
    then show "well_sized h q" using n by blast
  qed (use A(1-4) B(1-4) in simp_all)
qed

text \<open>An assignment for the rewritten function that extends one for the original.\<close>

definition eframe :: "funcdata \<Rightarrow> (nat \<Rightarrow> u64) \<Rightarrow> funcdata \<Rightarrow> (nat \<Rightarrow> u64) \<Rightarrow> bool" where
  "eframe f env g env' \<longleftrightarrow> (\<forall>v < num_varnodes f. env' v = env v) \<and> (\<forall>v < num_varnodes g. vn_fits env' g v)
     \<and> (\<forall>q. num_ops f \<le> q \<and> live g q \<longrightarrow> op_ok env' g q)"

lemma eframe_mono:
  assumes a: "sframe p f g" and b: "sframe p g h" and p: "p < num_ops f" and e: "eframe f env h e"
  shows "eframe f env g e"
proof -
  note A = sframeD [OF a] and B = sframeD [OF b]
  have "vn_fits e g v" if "v < num_varnodes g" for v
  proof -
    have "vn_fits e h v" using e that B(3) by (simp add: eframe_def)
    then show ?thesis using B(5,6,7) that by (simp add: vn_fits_def constant_value_def)
  qed
  moreover have "op_ok e g q" if q: "num_ops f \<le> q" "live g q" for q
  proof -
    have r: "q < num_ops g" "q \<noteq> p" using q p by (auto simp: live_def)
    have "op_ok e h q" using e q r B(13) by (simp add: eframe_def)
    then show ?thesis using op_cong(2) [OF A(1) r(1), of h e e] B(5,8,10,11) r by simp
  qed
  ultimately show ?thesis using e by (simp add: eframe_def)
qed

text \<open>What a varnode of the rewritten function denotes, in terms of an assignment for the original.\<close>

definition den :: "funcdata \<Rightarrow> funcdata \<Rightarrow> nat \<Rightarrow> nat \<times> ((nat \<Rightarrow> u64) \<Rightarrow> u64) \<Rightarrow> bool" where
  "den f g v d \<longleftrightarrow> v < num_varnodes g \<and> vn_size (vn g v) = fst d
     \<and> (\<forall>env e. env_ok f env \<and> eframe f env g e \<longrightarrow> e v = snd d env)"

lemma den_mono:
  assumes a: "sframe p f g" and b: "sframe p g h" and p: "p < num_ops f" and d: "den f g v d"
  shows "den f h v d"
  using d eframe_mono [OF a b p] sframeD(3,5) [OF b] by (auto simp: den_def)

lemma den_old: "sframe p f g \<Longrightarrow> v < num_varnodes f \<Longrightarrow> den f g v (vn_size (vn f v), \<lambda>env. env v)"
  using sframeD(3) [of p f g] sframeD(5) [of p f g v] by (simp add: den_def eframe_def)

text \<open>The state of a rewrite: \<open>p\<close> has opcode \<open>c\<close>, and its inputs denote \<open>D\<close>.\<close>

definition views :: "(nat \<times> ((nat \<Rightarrow> u64) \<Rightarrow> u64)) list \<Rightarrow> (nat \<Rightarrow> u64) \<Rightarrow> (nat \<times> u64) list" where
  "views D env = map (\<lambda>d. (fst d, snd d env)) D"

definition rw :: "nat \<Rightarrow> funcdata \<Rightarrow> funcdata \<Rightarrow> opcode \<Rightarrow> (nat \<times> ((nat \<Rightarrow> u64) \<Rightarrow> u64)) list \<Rightarrow> bool" where
  "rw p f g c D \<longleftrightarrow> p < num_ops f \<and> sframe p f g \<and> (\<forall>env. env_ok f env \<longrightarrow> (\<exists>e. eframe f env g e))
     \<and> po_code (pop g p) = c \<and> list_all2 (den f g) (po_inrefs (pop g p)) D"

lemma rw_views: "rw p f g c D \<Longrightarrow> env_ok f env \<Longrightarrow> eframe f env g e \<Longrightarrow> ins_view g e p = views D env"
  unfolding rw_def ins_view_def views_def
  by (auto simp: list_all2_conv_all_nth den_def intro!: nth_equalityI split: prod.splits)

lemma rw_sizes: "rw p f g c D \<Longrightarrow> map (\<lambda>v. vn_size (vn g v)) (po_inrefs (pop g p)) = map fst D"
  unfolding rw_def by (auto simp: list_all2_conv_all_nth den_def intro!: nth_equalityI)

definition start_views :: "funcdata \<Rightarrow> nat \<Rightarrow> (nat \<times> ((nat \<Rightarrow> u64) \<Rightarrow> u64)) list" where
  "start_views f p = map (\<lambda>v. (vn_size (vn f v), \<lambda>env. env v)) (po_inrefs (pop f p))"

lemma rw_start:
  assumes ok: "graph_ok f" "typed f" and p: "p < num_ops f"
  shows "rw p f f (po_code (pop f p)) (start_views f p)"
proof -
  have s: "sframe p f f" by (rule sframe_refl [OF ok])
  have "eframe f env f env" if "env_ok f env" for env
    using that by (auto simp: eframe_def env_ok_def live_def)
  moreover have "list_all2 (den f f) (po_inrefs (pop f p)) (start_views f p)"
    unfolding start_views_def list_all2_map2 by (auto intro!: list_all2_same [THEN iffD2] den_old [OF s] op_range(1) [OF ok(1) p])
  ultimately show ?thesis using p s by (auto simp: rw_def)
qed

text \<open>The end of a rewrite: it refines when what is left of the operation is well sized and allowed.\<close>

lemma rw_close:
  assumes r: "rw p f g c D" and ok: "graph_ok f" "typed f" and ws: "pure_op c \<Longrightarrow> well_sized g p"
    and v: "\<And>env e. env_ok f env \<Longrightarrow> eframe f env g e \<Longrightarrow> live f p \<Longrightarrow> op_ok e g p"
  shows "refines f g"
proof -
  have p: "p < num_ops f" and s: "sframe p f g" and code: "po_code (pop g p) = c" using r by (simp_all add: rw_def)
  note S = sframeD [OF s]
  have "well_sized g q" if q: "live g q" "pure_op (po_code (pop g q))" for q
  proof -
    consider "q = p" | "q < num_ops f" "q \<noteq> p" | "num_ops f \<le> q" by force
    then show "well_sized g q"
    proof cases
      case 1 then show ?thesis using ws q code by simp
    next
      case 2
      have "well_sized f q" using ok(2) q 2 S(10,13) by (simp add: typed_def ops_sized_def)
      then show ?thesis using op_cong(1) [OF ok(1) 2(1), of g] S(5) S(8) [OF 2(1)] S(10,11) [OF 2] by simp
    next
      case 3 then show ?thesis using S(12) q by blast
    qed
  qed
  then have t: "typed g" using S(2) by (simp add: typed_def ops_sized_def)
  have "\<exists>e. env_ok g e \<and> (\<forall>v < num_varnodes f. e v = env v)" if env: "env_ok f env" for env
  proof -
    obtain e where e: "eframe f env g e" using r env by (auto simp: rw_def)
    have old: "\<And>v. v < num_varnodes f \<Longrightarrow> e v = env v" using e by (simp add: eframe_def)
    have "op_ok e g q" if q: "live g q" for q
    proof -
      consider "q = p" | "q < num_ops f" "q \<noteq> p" | "num_ops f \<le> q" by force
      then show ?thesis
      proof cases
        case 1 then show ?thesis using v [OF env e] q S(13) p by simp
      next
        case 2
        have "op_ok env f q" using env q 2 S(13) by (simp add: env_ok_def)
        then show ?thesis using op_cong(2) [OF ok(1) 2(1), of g e env] S(5) S(8) [OF 2(1)] S(10,11) [OF 2] old by simp
      next
        case 3 then show ?thesis using e q by (simp add: eframe_def)
      qed
    qed
    then have "env_ok g e" using e by (simp add: env_ok_def eframe_def)
    then show ?thesis using old by blast
  qed
  then show ?thesis unfolding refines_def using S(1,3,4) S(8,9) t by simp
qed

lemma rw_finish:
  assumes r: "rw p f g c D" and ok: "graph_ok f" "typed f" and out: "po_output (pop f p) = Some out"
    and c: "pure_op c" "sized c (map fst D) (vn_size (vn f out))"
    and v: "\<And>env. env_ok f env \<Longrightarrow> operands_ok c (views D env) \<and> env out = pval c (views D env) (vn_size (vn f out))"
    and b: "\<And>env. env_ok f env \<Longrightarrow> is_bool_output (pop g p) \<Longrightarrow> env out \<le> 1"
  shows "refines f g"
proof -
  have p: "p < num_ops f" and s: "sframe p f g" and code: "po_code (pop g p) = c" using r by (simp_all add: rw_def)
  note S = sframeD [OF s]
  have o: "po_output (pop g p) = Some out" "out < num_varnodes f" using S(8) [OF p] out op_range(2) [OF ok(1) p out] by simp_all
  have "well_sized g p" unfolding well_sized_def rw_sizes [OF r] code o(1) using c(2) S(5) [OF o(2)] by simp
  moreover have "op_ok e g p" if env: "env_ok f env" and e: "eframe f env g e" for env e
  proof -
    have "e out = env out" using e o(2) by (simp add: eframe_def)
    then show ?thesis unfolding op_ok_def o(1) code rw_views [OF r env e] option.case S(5) [OF o(2)] using v [OF env] b [OF env] by simp
  qed
  ultimately show ?thesis using rw_close [OF r ok] by blast
qed

text \<open>An operation without a value of its own may have its inputs rearranged.\<close>

lemma rw_finish_other:
  assumes r: "rw p f g c D" and ok: "graph_ok f" "typed f" and c: "c = po_code (pop f p)" "\<not> pure_op c"
  shows "refines f g"
proof (rule rw_close [OF r ok])
  have p: "p < num_ops f" and s: "sframe p f g" and code: "po_code (pop g p) = c" using r by (simp_all add: rw_def)
  fix env e assume env: "env_ok f env" and e: "eframe f env g e" and l: "live f p"
  have o: "op_ok env f p" using env l by (simp add: env_ok_def)
  have b: "is_bool_output (pop g p) = is_bool_output (pop f p)" using code c by (simp add: is_bool_output_def)
  show "op_ok e g p" unfolding op_ok_def code b sframeD(8) [OF s p]
    using o c e op_range(2) [OF ok(1) p] by (auto simp: op_ok_def eframe_def split: option.splits)
qed (use c in simp)

text \<open>A step of the rewrite: the structure is kept, and assignments extend.\<close>

definition rstep :: "nat \<Rightarrow> funcdata \<Rightarrow> funcdata \<Rightarrow> funcdata \<Rightarrow> bool" where
  "rstep p f g h \<longleftrightarrow> sframe p g h \<and> (\<forall>env e. env_ok f env \<and> eframe f env g e \<longrightarrow> (\<exists>e'. eframe f env h e'))"

lemma rw_step:
  assumes r: "rw p f g c D" and s: "rstep p f g h"
    and c: "po_code (pop h p) = c'" "list_all2 (den f h) (po_inrefs (pop h p)) D'"
  shows "rw p f h c' D'"
proof -
  have p: "p < num_ops f" and g: "sframe p f g" and gh: "sframe p g h" using r s by (auto simp: rw_def rstep_def)
  have "sframe p f h" by (rule sframe_trans [OF g gh p])
  moreover have "\<exists>e. eframe f env h e" if "env_ok f env" for env using r s that unfolding rw_def rstep_def by blast
  ultimately show ?thesis using p c by (simp add: rw_def)
qed

lemma rw_den:
  assumes r: "rw p f g c D" and s: "rstep p f g h"
  shows "den f g v d \<Longrightarrow> den f h v d" "list_all2 (den f g) vs E \<Longrightarrow> list_all2 (den f h) vs E"
proof -
  have m: "den f g v d \<Longrightarrow> den f h v d" for v d using den_mono [of p f g h] r s by (auto simp: rw_def rstep_def)
  then show "den f g v d \<Longrightarrow> den f h v d" .
  show "list_all2 (den f g) vs E \<Longrightarrow> list_all2 (den f h) vs E" using m by (auto elim: list_all2_mono)
qed

lemma rw_inrefs: "rw p f g c D \<Longrightarrow> list_all2 (den f g) (po_inrefs (pop g p)) D"
  "rw p f g c D \<Longrightarrow> length (po_inrefs (pop g p)) = length D" "rw p f g c D \<Longrightarrow> p < num_ops g"
  "rw p f g c D \<Longrightarrow> graph_ok g" "rw p f g c D \<Longrightarrow> po_code (pop g p) = c"
  by (auto simp: rw_def sframe_def dest: list_all2_lengthD)

text \<open>Updates that add no operation and only constants that fit.\<close>

definition cenv :: "funcdata \<Rightarrow> funcdata \<Rightarrow> (nat \<Rightarrow> u64) \<Rightarrow> nat \<Rightarrow> u64" where
  "cenv g h e v = (if v < num_varnodes g then e v else constant_value (vn h v))"

lemma rstep_consts:
  assumes r: "rw p f g c D" and ok: "graph_ok h" and n: "num_varnodes g \<le> num_varnodes h" "num_ops h = num_ops g"
    and old: "\<And>v. v < num_varnodes g \<Longrightarrow> vn_size (vn h v) = vn_size (vn g v) \<and> is_constant (vn h v) = is_constant (vn g v)
        \<and> vn_loc (vn h v) = vn_loc (vn g v)"
    and new: "\<And>v. num_varnodes g \<le> v \<Longrightarrow> v < num_varnodes h \<Longrightarrow> is_constant (vn h v)
        \<and> emu_mask (constant_value (vn h v)) (vn_size (vn h v)) = constant_value (vn h v)"
    and ops: "\<And>q. q < num_ops g \<Longrightarrow> po_output (pop h q) = po_output (pop g q) \<and> is_dead (pop h q) = is_dead (pop g q)"
      "\<And>q. q < num_ops g \<Longrightarrow> q \<noteq> p \<Longrightarrow> po_code (pop h q) = po_code (pop g q) \<and> po_inrefs (pop h q) = po_inrefs (pop g q)"
  shows "rstep p f g h"
proof -
  have p: "p < num_ops f" and g: "sframe p f g" using r by (auto simp: rw_def)
  note G = sframeD [OF g]
  have "consts_fit h" unfolding consts_fit_def
  proof (intro allI impI)
    fix v assume v: "v < num_varnodes h" "is_constant (vn h v)"
    show "emu_mask (constant_value (vn h v)) (vn_size (vn h v)) = constant_value (vn h v)"
    proof (cases "v < num_varnodes g")
      case True then show ?thesis using G(2) old [OF True] v by (simp add: consts_fit_def constant_value_def)
    next
      case False then show ?thesis using new v by simp
    qed
  qed
  then have s: "sframe p g h" unfolding sframe_def using ok n old ops by (auto simp: live_def)
  have "eframe f env h (cenv g h e)" if e: "eframe f env g e" for env e
    unfolding eframe_def
  proof (intro conjI allI impI)
    fix v assume v: "v < num_varnodes f"
    then have "v < num_varnodes g" using G(3) by simp
    then show "cenv g h e v = env v" using e v by (simp add: cenv_def eframe_def)
  next
    fix v assume v: "v < num_varnodes h"
    show "vn_fits (cenv g h e) h v"
    proof (cases "v < num_varnodes g")
      case True
      then have "vn_fits e g v" using e by (simp add: eframe_def)
      then show ?thesis using old [OF True] True by (simp add: vn_fits_def cenv_def constant_value_def)
    next
      case False then show ?thesis using new v by (simp add: vn_fits_def cenv_def)
    qed
  next
    fix q assume q: "num_ops f \<le> q \<and> live h q"
    then have l: "live g q" "q < num_ops g" "q \<noteq> p" using n ops(1) p by (auto simp: live_def)
    then have "op_ok e g q" using e q by (simp add: eframe_def)
    then show "op_ok (cenv g h e) h q"
      using op_cong(2) [OF G(1) l(2), of h "cenv g h e" e] ops(1) [OF l(2)] ops(2) [OF l(2,3)] old by (simp add: cenv_def)
  qed
  then show ?thesis using s by (auto simp: rstep_def)
qed

text \<open>Changing the opcode.\<close>

lemma rw_opcode: "rw p f g c D \<Longrightarrow> rw p f (op_set_opcode p c' g) c' D \<and> rstep p f g (op_set_opcode p c' g)"
proof -
  assume r: "rw p f g c D"
  let ?h = "op_set_opcode p c' g"
  have ok: "graph_ok ?h" unfolding op_set_opcode_def
    using rw_inrefs(4) [OF r] graph_same_ok [OF op_mut_same] by (simp add: op_same_def)
  have s: "rstep p f g ?h"
    by (rule rstep_consts [OF r ok]) (simp_all add: op_set_opcode_def fd_simps is_dead_def)
  have "list_all2 (den f ?h) (po_inrefs (pop g p)) D" by (rule rw_den(2) [OF r s rw_inrefs(1) [OF r]])
  then have "rw p f ?h c' D"
    by (intro rw_step [OF r s]) (simp_all add: op_set_opcode_def fd_simps rw_inrefs(3) [OF r])
  then show ?thesis using s by blast
qed

text \<open>A new constant.\<close>

lemma const_flag: "is_constant (vn (snd (alloc_varnode sz loc fl f)) (num_varnodes f)) = has fl CONSTANT"
proof -
  have "\<not> has MAPPED CONSTANT" "\<not> has ADDRTIED CONSTANT" "\<not> has PERSIST CONSTANT" by code_simp+
  then show ?thesis
    by (simp add: alloc_varnode_def Let_def vn_def num_varnodes_def nth_append is_constant_def has_or split: space_kind.splits)
qed

lemma new_const_new:
  "is_constant (vn (snd (new_const sz k f)) (num_varnodes f))" "constant_value (vn (snd (new_const sz k f)) (num_varnodes f)) = k"
  "vn_size (vn (snd (new_const sz k f)) (num_varnodes f)) = sz"
proof -
  have "has CONSTANT CONSTANT" by code_simp
  then show "is_constant (vn (snd (new_const sz k f)) (num_varnodes f))" by (simp add: new_const_def const_flag)
qed (simp_all add: new_const_def constant_value_def fd_simps)

lemma rw_const:
  assumes r: "rw p f g c D" and k: "emu_mask k sz = k" and h: "new_const sz k g = (v, h)"
  shows "rw p f h c D \<and> rstep p f g h \<and> den f h v (sz, \<lambda>env. k)"
proof -
  have h': "v = num_varnodes g" "h = snd (new_const sz k g)" using h by (auto simp: new_const_def alloc_varnode_def Let_def)
  have n: "num_varnodes h = Suc (num_varnodes g)" "num_ops h = num_ops g" "pop h = pop g"
    unfolding h' by (simp_all add: new_const_def fd_simps)
  have new: "is_constant (vn h v)" "constant_value (vn h v) = k" "vn_size (vn h v) = sz" unfolding h' by (rule new_const_new)+
  have ok: "graph_ok h" unfolding h' by (rule new_const_ok [OF rw_inrefs(4) [OF r]])
  have s: "rstep p f g h"
  proof (rule rstep_consts [OF r ok])
    fix w assume "num_varnodes g \<le> w" "w < num_varnodes h"
    then have "w = v" using n h'(1) by simp
    then show "is_constant (vn h w) \<and> emu_mask (constant_value (vn h w)) (vn_size (vn h w)) = constant_value (vn h w)"
      using new k by simp
  next
    fix w assume w: "w < num_varnodes g"
    then show "vn_size (vn h w) = vn_size (vn g w) \<and> is_constant (vn h w) = is_constant (vn g w) \<and> vn_loc (vn h w) = vn_loc (vn g w)"
      unfolding h' by (simp add: new_const_def fd_simps)
  qed (simp_all add: n)
  have "den f h v (sz, \<lambda>env. k)"
    using n(1) new h'(1) by (auto simp: den_def eframe_def vn_fits_def)
  moreover have "rw p f h c D"
    using rw_step [OF r s] rw_den(2) [OF r s rw_inrefs(1) [OF r]] rw_inrefs(5) [OF r] n(3) by simp
  ultimately show ?thesis using s by blast
qed

text \<open>Rewiring the inputs of the operation itself.\<close>

lemma rw_wire:
  assumes r: "rw p f g c D" and ok: "graph_ok h" and n: "num_varnodes h = num_varnodes g" "num_ops h = num_ops g"
    and v: "\<And>v. vn_size (vn h v) = vn_size (vn g v) \<and> vn_flags (vn h v) = vn_flags (vn g v) \<and> vn_loc (vn h v) = vn_loc (vn g v)"
    and q: "\<And>q. pop h q = (if q = p then (pop g p)\<lparr>po_inrefs := ins\<rparr> else pop g q)"
    and D: "list_all2 (den f g) ins D'"
  shows "rw p f h c D' \<and> rstep p f g h"
proof -
  have s: "rstep p f g h"
    by (rule rstep_consts [OF r ok]) (use n v q in \<open>auto simp: is_dead_def is_constant_def\<close>)
  have "rw p f h c D'"
    by (rule rw_step [OF r s]) (use q rw_inrefs(5) [OF r] rw_den(2) [OF r s D] in simp_all)
  then show ?thesis using s by blast
qed

lemma reader_keeps:
  "vn_size (vn (add_reader p v f) w) = vn_size (vn f w)" "vn_flags (vn (add_reader p v f) w) = vn_flags (vn f w)"
  "vn_loc (vn (add_reader p v f) w) = vn_loc (vn f w)"
  "vn_size (vn (drop_reader p v f) w) = vn_size (vn f w)" "vn_flags (vn (drop_reader p v f) w) = vn_flags (vn f w)"
  "vn_loc (vn (drop_reader p v f) w) = vn_loc (vn f w)"
  by (simp_all add: add_reader_def drop_reader_def fd_simps)

lemma rw_trans:
  assumes "rw p f g c D" "rstep p f g h" "rstep p f h k"
  shows "rstep p f g k"
proof -
  have "p < num_ops f" "num_ops f \<le> num_ops g" using assms(1) by (auto simp: rw_def sframe_def)
  then have "sframe p g k" using sframe_trans [of p g h k] assms(2,3) by (auto simp: rstep_def)
  then show ?thesis using assms(2,3) unfolding rstep_def by blast
qed

text \<open>A constant that is already read is cloned; the clone denotes the same.\<close>

lemma rw_unique:
  assumes r: "rw p f g c D" and v: "den f g v d" and u: "unique_constant_for v g = (w, h)"
  shows "rw p f h c D \<and> rstep p f g h \<and> den f h w d \<and> pop h = pop g"
proof (cases "\<not> is_constant (vn g v) \<or> vn_descend (vn g v) = [] \<or> is_spacebase (vn g v)")
  case True
  then have "w = v" "h = g" using u by (simp_all add: unique_constant_for_def)
  moreover have "rstep p f g g"
    by (rule rstep_consts [OF r rw_inrefs(4) [OF r]]) simp_all
  ultimately show ?thesis using r v by simp
next
  case False
  define h1 where "h1 = snd (new_const (vn_size (vn g v)) (addr_offset (vn_loc (vn g v))) g)"
  have nc: "new_const (vn_size (vn g v)) (addr_offset (vn_loc (vn g v))) g = (num_varnodes g, h1)"
    by (simp add: h1_def new_const_def alloc_varnode_def Let_def)
  have w: "w = num_varnodes g" and h: "h = vn_mut w (\<lambda>y. y\<lparr>vn_ty := vn_ty (vn g v)\<rparr>) h1"
    using u False nc by (auto simp: unique_constant_for_def Let_def)
  have cv: "v < num_varnodes g" "is_constant (vn g v)" using v False by (auto simp: den_def)
  have "consts_fit g" using r by (simp add: rw_def sframe_def)
  then have fit: "emu_mask (addr_offset (vn_loc (vn g v))) (vn_size (vn g v)) = addr_offset (vn_loc (vn g v))"
    using cv by (simp add: consts_fit_def constant_value_def)
  note c = rw_const [OF r fit nc]
  have ok: "graph_ok h" unfolding h
    using rw_inrefs(4) [OF conjunct1 [OF c]] graph_same_ok [OF vn_mut_same] by (simp add: vn_same_def is_written_def is_input_def)
  have s: "rw p f h c D \<and> rstep p f h1 h"
    by (rule rw_wire [OF conjunct1 [OF c] ok, where ins = "po_inrefs (pop h1 p)"])
      (use rw_inrefs(1) [OF conjunct1 [OF c]] in \<open>simp_all add: h fd_simps\<close>)
  have d1: "den f h w (vn_size (vn g v), \<lambda>env. addr_offset (vn_loc (vn g v)))"
    using rw_den(1) [of p f h1 c D h] c s w by blast
  have X: "snd d env = addr_offset (vn_loc (vn g v))" if "env_ok f env" "eframe f env g e" for env e
  proof -
    have "e v = snd d env" using v that by (auto simp: den_def)
    moreover have "e v = constant_value (vn g v)" using that cv by (simp add: eframe_def vn_fits_def)
    ultimately show ?thesis by (simp add: constant_value_def)
  qed
  have s2: "rstep p f g h" using rw_trans [OF r] c s by blast
  have "den f h w d" unfolding den_def
  proof (intro conjI allI impI)
    show "w < num_varnodes h" "vn_size (vn h w) = fst d" using d1 v by (auto simp: den_def)
    fix env e assume e: "env_ok f env \<and> eframe f env h e"
    have "eframe f env g e" using eframe_mono [of p f g h env e] r s2 e by (auto simp: rw_def rstep_def)
    then show "e w = snd d env" using d1 e X by (auto simp: den_def)
  qed
  moreover have "pop h = pop g" by (simp add: h h1_def new_const_def fd_simps)
  ultimately show ?thesis using s s2 by blast
qed

lemma rw_set:
  assumes r: "rw p f g c D" and v: "den f g v d" and i: "i < length D"
  shows "\<exists>h. op_set_input p i v g = Some h \<and> rw p f h c (D[i := d]) \<and> rstep p f g h"
proof -
  let ?ins = "po_inrefs (pop g p)"
  have l: "i < length ?ins" "p < num_ops g" using rw_inrefs(2,3) [OF r] i by simp_all
  show ?thesis
  proof (cases "?ins ! i = v")
    case True
    have "list_all2 (den f g) (?ins[i := v]) (D[i := d])" using rw_inrefs(1) [OF r] v by (rule list_all2_update_cong)
    then have D: "list_all2 (den f g) ?ins (D[i := d])" unfolding True [symmetric] by simp
    have "rw p f g c (D[i := d]) \<and> rstep p f g g"
      by (rule rw_wire [OF r rw_inrefs(4) [OF r] refl refl _ _ D]) simp_all
    then show ?thesis using True l by (auto simp: op_set_input_def)
  next
    case False
    obtain w g1 where u: "unique_constant_for v g = (w, g1)" by fastforce
    note U = rw_unique [OF r v u]
    then have r1: "rw p f g1 c D" and same: "pop g1 = pop g" by simp_all
    define h where "h = add_reader p w (op_mut p (\<lambda>x. x\<lparr>po_inrefs := (po_inrefs x)[i := w]\<rparr>) (drop_reader p (?ins ! i) g1))"
    have h: "op_set_input p i v g = Some h" using False l u by (auto simp: op_set_input_def h_def)
    have vr: "v < num_varnodes g" using v by (simp add: den_def)
    have "rw p f h c (D[i := d]) \<and> rstep p f g1 h"
    proof (rule rw_wire [OF r1])
      show "graph_ok h" by (rule op_set_input_ok [OF rw_inrefs(4) [OF r] l(2) vr h])
      show "list_all2 (den f g1) (?ins[i := w]) (D[i := d])"
        using rw_inrefs(1) [OF r1] U unfolding same by (auto intro: list_all2_update_cong)
      show "pop h q = (if q = p then (pop g1 p)\<lparr>po_inrefs := ?ins[i := w]\<rparr> else pop g1 q)" for q
        using rw_inrefs(3) [OF r1] by (simp add: h_def fd_simps same)
    qed (simp_all add: h_def fd_simps reader_keeps)
    then show ?thesis using h rw_trans [OF r] U by blast
  qed
qed

lemma rw_insert:
  assumes r: "rw p f g c D" and v: "den f g v d" and i: "i \<le> length D"
  shows "\<exists>h. op_insert_input p i v g = Some h \<and> rw p f h c (insert_at i d D) \<and> rstep p f g h"
proof -
  let ?ins = "po_inrefs (pop g p)"
  obtain w g1 where u: "unique_constant_for v g = (w, g1)" by fastforce
  note U = rw_unique [OF r v u]
  then have r1: "rw p f g1 c D" and same: "pop g1 = pop g" by simp_all
  define h where "h = add_reader p w (op_mut p (\<lambda>x. x\<lparr>po_inrefs := insert_at i w (po_inrefs x)\<rparr>) g1)"
  have h: "op_insert_input p i v g = Some h" using i rw_inrefs(2) [OF r] u same by (simp add: op_insert_input_def h_def)
  have vr: "v < num_varnodes g" using v by (simp add: den_def)
  have "rw p f h c (insert_at i d D) \<and> rstep p f g1 h"
  proof (rule rw_wire [OF r1])
    show "graph_ok h" by (rule op_insert_input_ok [OF rw_inrefs(4) [OF r] rw_inrefs(3) [OF r] vr h])
    show "list_all2 (den f g1) (insert_at i w ?ins) (insert_at i d D)"
      using rw_inrefs(1) [OF r1] U unfolding same insert_at_def
      by (auto intro!: list_all2_appendI list_all2_takeI list_all2_dropI)
    show "pop h q = (if q = p then (pop g1 p)\<lparr>po_inrefs := insert_at i w ?ins\<rparr> else pop g1 q)" for q
      using rw_inrefs(3) [OF r1] by (simp add: h_def fd_simps same)
  qed (simp_all add: h_def fd_simps reader_keeps)
  then show ?thesis using h rw_trans [OF r] U by blast
qed

lemma op_append_insert: "op_insert_input p (length (po_inrefs (pop f p))) v f = Some (op_append_input p v f)"
proof -
  obtain w g where u: "unique_constant_for v f = (w, g)" by fastforce
  have "pop g = pop f" using u
    by (auto simp: unique_constant_for_def Let_def new_const_def split_beta fd_simps split: if_splits)
  then have "po_inrefs (fd_ops g ! p) = po_inrefs (fd_ops f ! p)" by (metis pop_def)
  then show ?thesis using u
    by (simp add: op_insert_input_def op_append_input_def insert_at_def op_mut_def pop_def)
qed

lemma rw_append:
  assumes r: "rw p f g c D" and v: "den f g v d"
  shows "rw p f (op_append_input p v g) c (D @ [d]) \<and> rstep p f g (op_append_input p v g)"
  using rw_insert [OF r v, of "length D"] op_append_insert [of p g v] rw_inrefs(2) [OF r] by (simp add: insert_at_def)

lemma rw_remove:
  assumes r: "rw p f g c D" and i: "i < length D"
  shows "\<exists>h. op_remove_input p i g = Some h \<and> rw p f h c (remove_at i D) \<and> rstep p f g h"
proof -
  let ?ins = "po_inrefs (pop g p)"
  define h where "h = drop_reader p (?ins ! i) (op_mut p (\<lambda>x. x\<lparr>po_inrefs := remove_at i (po_inrefs x)\<rparr>) g)"
  have h: "op_remove_input p i g = Some h" using i rw_inrefs(2) [OF r] by (simp add: op_remove_input_def h_def)
  have "rw p f h c (remove_at i D) \<and> rstep p f g h"
  proof (rule rw_wire [OF r])
    show "graph_ok h" by (rule op_remove_input_ok [OF rw_inrefs(4) [OF r] rw_inrefs(3) [OF r] h])
    show "list_all2 (den f g) (remove_at i ?ins) (remove_at i D)"
      using rw_inrefs(1) [OF r] unfolding remove_at_def by (auto intro!: list_all2_appendI list_all2_takeI list_all2_dropI)
    show "pop h q = (if q = p then (pop g p)\<lparr>po_inrefs := remove_at i ?ins\<rparr> else pop g q)" for q
      using rw_inrefs(3) [OF r] by (simp add: h_def fd_simps)
  qed (simp_all add: h_def fd_simps reader_keeps)
  then show ?thesis using h by blast
qed

lemma rw_swap:
  assumes r: "rw p f g c D" and i: "i < length D" "j < length D"
  shows "\<exists>h. op_swap_input p i j g = Some h \<and> rw p f h c (D[i := D ! j, j := D ! i]) \<and> rstep p f g h"
proof -
  let ?ins = "po_inrefs (pop g p)"
  define h where "h = op_mut p (\<lambda>x. x\<lparr>po_inrefs := (po_inrefs x)[i := ?ins ! j, j := ?ins ! i]\<rparr>) g"
  have h: "op_swap_input p i j g = Some h" using i rw_inrefs(2) [OF r] by (simp add: op_swap_input_def h_def Let_def)
  have d: "den f g (?ins ! i) (D ! i)" "den f g (?ins ! j) (D ! j)"
    using rw_inrefs(1) [OF r] i by (auto simp: list_all2_conv_all_nth)
  have "rw p f h c (D[i := D ! j, j := D ! i]) \<and> rstep p f g h"
  proof (rule rw_wire [OF r])
    show "graph_ok h" by (rule op_swap_input_ok [OF rw_inrefs(4) [OF r] rw_inrefs(3) [OF r] h])
    show "list_all2 (den f g) (?ins[i := ?ins ! j, j := ?ins ! i]) (D[i := D ! j, j := D ! i])"
      using rw_inrefs(1) [OF r] d by (intro list_all2_update_cong)
    show "pop h q = (if q = p then (pop g p)\<lparr>po_inrefs := ?ins[i := ?ins ! j, j := ?ins ! i]\<rparr> else pop g q)" for q
      using rw_inrefs(3) [OF r] by (simp add: h_def fd_simps)
  qed (simp_all add: h_def fd_simps)
  then show ?thesis using h by blast
qed

text \<open>A new operation before another: what is new and what is kept.\<close>

lemma fold_reader_keeps:
  "vn_size (vn (fold (add_reader p) vs f) w) = vn_size (vn f w)" "vn_flags (vn (fold (add_reader p) vs f) w) = vn_flags (vn f w)"
  "vn_loc (vn (fold (add_reader p) vs f) w) = vn_loc (vn f w)"
  "num_varnodes (fold (add_reader p) vs f) = num_varnodes f" "num_ops (fold (add_reader p) vs f) = num_ops f"
  "pop (fold (add_reader p) vs f) = pop f"
  by (induction vs arbitrary: f) (simp_all add: fd_simps reader_keeps)

lemma new_op_before_shape:
  assumes ok: "graph_ok g" and b: "\<forall>v \<in> set vs. v < num_varnodes g" and u: "unique_constants vs g = (ws, g1)"
    and r: "new_op_before_sized p c vs sz g = (q, h)"
  shows "graph_ok h" "q = num_ops g" "num_ops h = Suc (num_ops g)" "num_varnodes h = Suc (num_varnodes g1)"
    "\<And>v. v < num_varnodes g1 \<Longrightarrow> vn_size (vn h v) = vn_size (vn g1 v) \<and> vn_flags (vn h v) = vn_flags (vn g1 v)
       \<and> vn_loc (vn h v) = vn_loc (vn g1 v)"
    "\<And>r. r < num_ops g \<Longrightarrow> po_code (pop h r) = po_code (pop g r) \<and> po_inrefs (pop h r) = po_inrefs (pop g r)
       \<and> po_output (pop h r) = po_output (pop g r) \<and> po_flags (pop h r) = po_flags (pop g r)"
    "po_code (pop h q) = c" "po_inrefs (pop h q) = ws" "po_flags (pop h q) = 0" "po_output (pop h q) = Some (num_varnodes g1)"
    "vn_size (vn h (num_varnodes g1)) = sz" "\<not> is_constant (vn h (num_varnodes g1))"
proof -
  obtain q1 h1 where n: "new_op c (next_seq g (sq_pc (po_seq (pop g p)))) vs g = (q1, h1)" by fastforce
  obtain v h2 where o: "new_output_unique q1 sz h1 = (v, h2)" by fastforce
  have h: "q = q1" "h = op_insert_before q p h2" using r n o by (auto simp: new_op_before_sized_def Let_def)
  note N = new_op_ok [OF ok b n]
  have q1: "q1 < num_ops h1" using N(2,3) by simp
  note O = new_output_unique_ok [OF N(1) q1 o]
  have pl: "placed h2 h" unfolding h by (rule insert_placed)
  note P = pl [unfolded placed_def]
  define x where "x = \<lparr>po_code = c, po_flags = 0, po_seq = next_seq g (sq_pc (po_seq (pop g p))), po_parent = None, po_output = None,
      po_inrefs = ws, po_guarded = None\<rparr>"
  have h1: "h1 = push_op x (fold (add_reader (num_ops g)) ws g1)"
    using n u by (auto simp: new_op_def Let_def push_op_def x_def)
  have e: "extends g g1" using unique_constants_ok [OF ok b u] by blast
  have n1: "num_ops g1 = num_ops g" "pop g1 = pop g" using e by (simp_all add: extends_def)
  have nv1: "num_varnodes h1 = num_varnodes g1" "num_ops h1 = Suc (num_ops g)"
    by (simp_all add: h1 push_op_simps fold_reader_keeps n1)
  have p1: "pop h1 q1 = x" "\<And>r. r < num_ops g \<Longrightarrow> pop h1 r = pop g r"
    using push_op_simps(6) [of x "fold (add_reader (num_ops g)) ws g1"] push_op_simps(7) [of _ "fold (add_reader (num_ops g)) ws g1" x]
    by (simp_all add: h1 N(2) fold_reader_keeps n1)
  have v1: "vn_size (vn h1 w) = vn_size (vn g1 w) \<and> vn_flags (vn h1 w) = vn_flags (vn g1 w) \<and> vn_loc (vn h1 w) = vn_loc (vn g1 w)" for w
    by (simp add: h1 push_op_simps fold_reader_keeps)
  have fo: "free_output q1 (snd (take_unique sz h1)) = snd (take_unique sz h1)"
    using N(5) by (simp add: free_output_def take_unique_simps)
  let ?h1 = "snd (take_unique sz h1)" and ?loc = "fst (take_unique sz h1)"
  have h2: "v = num_varnodes h1" "h2 = op_mut q1 (\<lambda>x. x\<lparr>po_output := Some v\<rparr>)
      (vn_mut v (\<lambda>x. x\<lparr>vn_def := Some q1\<rparr>) (snd (alloc_varnode sz ?loc (WRITTEN OR INSERT) ?h1)))"
    using o by (auto simp: new_output_unique_def new_output_def Let_def split_beta fo fd_simps)
  show "graph_ok h" using placed_ok [OF pl] O(1) by simp
  show "q = num_ops g" using h N(2) by simp
  show "num_ops h = Suc (num_ops g)" "num_varnodes h = Suc (num_varnodes g1)" using P O(3,4) nv1 by simp_all
  have v2: "vn_size (vn h2 w) = vn_size (vn h1 w) \<and> vn_flags (vn h2 w) = vn_flags (vn h1 w) \<and> vn_loc (vn h2 w) = vn_loc (vn h1 w)"
    if "w < num_varnodes h1" for w
    using that unfolding h2 by (simp add: fd_simps)
  show "vn_size (vn h w) = vn_size (vn g1 w) \<and> vn_flags (vn h w) = vn_flags (vn g1 w) \<and> vn_loc (vn h w) = vn_loc (vn g1 w)"
    if "w < num_varnodes g1" for w using P v1 v2 that nv1 by simp
  have p2: "pop h2 r = (if r = q1 then (pop h1 q1)\<lparr>po_output := Some v\<rparr> else pop h1 r)" for r
    unfolding h2 by (simp add: fd_simps q1)
  show "po_code (pop h r) = po_code (pop g r) \<and> po_inrefs (pop h r) = po_inrefs (pop g r)
      \<and> po_output (pop h r) = po_output (pop g r) \<and> po_flags (pop h r) = po_flags (pop g r)" if "r < num_ops g" for r
    using P that p1(2) N(2) by (simp add: p2)
  show "po_code (pop h q) = c" "po_inrefs (pop h q) = ws" "po_flags (pop h q) = 0" "po_output (pop h q) = Some (num_varnodes g1)"
    using P by (simp_all add: h(1) p2 p1 x_def h2(1) nv1)
  have cf: "\<not> has (WRITTEN OR INSERT) CONSTANT" by code_simp
  show "vn_size (vn h (num_varnodes g1)) = sz" "\<not> is_constant (vn h (num_varnodes g1))"
    using P cf const_flag [of sz ?loc "WRITTEN OR INSERT" ?h1] alloc_varnode_new(4) [of sz ?loc "WRITTEN OR INSERT" ?h1]
    by (simp_all add: h2 fd_simps nv1 is_constant_def)
qed

lemma rw_uniques:
  assumes "rw p f g c D" "list_all2 (den f g) vs E" "unique_constants vs g = (ws, h)"
  shows "rw p f h c D \<and> rstep p f g h \<and> list_all2 (den f h) ws E"
  using assms
proof (induction vs arbitrary: g ws E)
  case Nil
  have "rstep p f g g" by (rule rstep_consts [OF Nil(1) rw_inrefs(4) [OF Nil(1)]]) simp_all
  then show ?case using Nil by simp
next
  case (Cons v vs)
  obtain d E' where E: "E = d # E'" "den f g v d" "list_all2 (den f g) vs E'" using Cons.prems(2) by (auto simp: list_all2_Cons1)
  obtain w g1 where u: "unique_constant_for v g = (w, g1)" by fastforce
  obtain ws' h' where us: "unique_constants vs g1 = (ws', h')" by fastforce
  have ws: "ws = w # ws'" "h = h'" using Cons.prems(3) u us by auto
  note U = rw_unique [OF Cons.prems(1) E(2) u]
  have "rw p f h c D \<and> rstep p f g1 h \<and> list_all2 (den f h) ws' E'"
    using Cons.IH [of g1 E' ws'] U us rw_den(2) [OF Cons.prems(1)] E(3) ws by blast
  then show ?case using U rw_trans [OF Cons.prems(1)] rw_den(1) [of p f g1 c D h w d] by (auto simp: ws E(1))
qed

lemma emu_mask_idem [simp]: "emu_mask (emu_mask v sz) sz = emu_mask v sz"
  by (simp add: emu_mask_def and.assoc)

lemma pval_fits: "emu_mask (pval c L os) os = pval c L os"
  by (simp add: pval_def Let_def)

lemma emu_mask_le1: "v \<le> 1 \<Longrightarrow> emu_mask v sz \<le> 1"
proof -
  have "(v AND m) \<le> v" for m :: u64 by (simp add: word_and_le2)
  then show "v \<le> 1 \<Longrightarrow> emu_mask v sz \<le> 1" unfolding emu_mask_def using order_trans by auto
qed

lemma bool_ands: "(a AND 1) AND (b AND 1) \<le> (1::u64)" "(a AND 1) OR (b AND 1) \<le> (1::u64)" "(a AND 1) XOR (b AND 1) \<le> (1::u64)"
proof -
  have "x AND 1 = (if bit x 0 then 1 else 0)" for x :: u64 by (simp add: and_one_eq bit_0 odd_iff_mod_2_eq_one)
  then show "(a AND 1) AND (b AND 1) \<le> (1::u64)" "(a AND 1) OR (b AND 1) \<le> (1::u64)" "(a AND 1) XOR (b AND 1) \<le> (1::u64)"
    by auto
qed

lemma of_bool64_le: "of_bool64 b \<le> 1"
  by (simp add: of_bool64_def)

lemma pval_bool:
  assumes "compare_op c \<or> bool_op c"
  shows "pval c L os \<le> 1"
proof -
  have "the (alu c i a b sa sb) \<le> 1" for i a b sa sb
    using assms by (auto simp: op_classes alu_def Let_def of_bool64_le bool_ands)
  then show ?thesis unfolding pval_def Let_def by (rule emu_mask_le1)
qed

lemma bool_output_pure: "is_bool_output x \<Longrightarrow> pure_op (po_code x) \<Longrightarrow> compare_op (po_code x) \<or> bool_op (po_code x)"
  by (auto simp: is_bool_output_def op_classes)

text \<open>A new operation before the one rewritten: its output denotes its value.\<close>

lemma rw_new_op:
  assumes r: "rw p f g c D" and E: "list_all2 (den f g) vs E" and k: "pure_op k" "sized k (map fst E) sz"
    and ops: "\<And>env. env_ok f env \<Longrightarrow> operands_ok k (views E env)"
    and new: "new_op_before_sized p k vs sz g = (q, h)"
  shows "rw p f h c D \<and> rstep p f g h \<and> (\<exists>out. po_output (pop h q) = Some out \<and> den f h out (sz, \<lambda>env. pval k (views E env) sz))"
proof -
  obtain ws g1 where u: "unique_constants vs g = (ws, g1)" by fastforce
  have b: "\<forall>v \<in> set vs. v < num_varnodes g"
    using E by (auto simp: list_all2_conv_all_nth den_def in_set_conv_nth)
  note S = new_op_before_shape [OF rw_inrefs(4) [OF r] b u new]
  note U = rw_uniques [OF r E u]
  then have r1: "rw p f g1 c D" and E1: "list_all2 (den f g1) ws E" by blast+
  have e1: "num_ops g1 = num_ops g" "pop g1 = pop g"
    using unique_constants_ok [OF rw_inrefs(4) [OF r] b u] by (auto simp: extends_def)
  have p: "p < num_ops f" and s1: "sframe p f g1" using r1 by (simp_all add: rw_def)
  note G = sframeD [OF s1]
  let ?out = "num_varnodes g1"
  have wsr: "w < num_varnodes g1" if "w \<in> set ws" for w
    using E1 that by (auto simp: list_all2_conv_all_nth den_def in_set_conv_nth)
  have old: "vn_size (vn h v) = vn_size (vn g1 v)" "is_constant (vn h v) = is_constant (vn g1 v)" "vn_loc (vn h v) = vn_loc (vn g1 v)"
    if "v < num_varnodes g1" for v using S(5) [OF that] by (simp_all add: is_constant_def)
  have szs: "map (\<lambda>v. vn_size (vn h v)) ws = map fst E"
    using E1 old(1) by (auto simp: list_all2_conv_all_nth den_def intro!: nth_equalityI)
  have wsz: "well_sized h q" unfolding well_sized_def S(7,8,10) szs using k(2) S(11) by simp
  have opsame: "po_output (pop h r) = po_output (pop g1 r)" "is_dead (pop h r) = is_dead (pop g1 r)"
    "po_code (pop h r) = po_code (pop g1 r)" "po_inrefs (pop h r) = po_inrefs (pop g1 r)" if "r < num_ops g1" for r
    using S(6) [of r] that e1 by (simp_all add: is_dead_def)
  have sg: "sframe p g1 h" unfolding sframe_def
  proof (intro conjI allI impI)
    show "graph_ok h" "num_varnodes g1 \<le> num_varnodes h" "num_ops g1 \<le> num_ops h" using S e1 by simp_all
    show "consts_fit h" unfolding consts_fit_def
    proof (intro allI impI)
      fix v assume v: "v < num_varnodes h" "is_constant (vn h v)"
      then have "v < num_varnodes g1" using S(4,12) by (cases "v = ?out") simp_all
      then show "emu_mask (constant_value (vn h v)) (vn_size (vn h v)) = constant_value (vn h v)"
        using G(2) old v by (simp add: consts_fit_def constant_value_def)
    qed
    fix r assume "num_ops g1 \<le> r \<and> live h r \<and> pure_op (po_code (pop h r))"
    then have "r = q" using S(2,3) e1 by (simp add: live_def)
    then show "well_sized h r" using wsz by simp
  qed (use old opsame in auto)
  have view: "ins_view h e q = views E env" if "env_ok f env" "eframe f env g1 e0" "\<And>v. v < num_varnodes g1 \<Longrightarrow> e v = e0 v" for env e e0
  proof -
    have "ins_view h e q = map (\<lambda>v. (vn_size (vn g1 v), e0 v)) ws"
      unfolding ins_view_def S(8) by (rule map_cong) (simp_all add: wsr old that)
    also have "\<dots> = views E env"
      using E1 that(1,2) by (auto simp: list_all2_conv_all_nth den_def views_def intro!: nth_equalityI)
    finally show ?thesis .
  qed
  let ?val = "\<lambda>env. pval k (views E env) sz"
  have step: "rstep p f g1 h" unfolding rstep_def
  proof (intro conjI allI impI sg, elim conjE)
    fix env e assume env: "env_ok f env" and e: "eframe f env g1 e"
    let ?e = "e(?out := ?val env)"
    have v: "ins_view h ?e q = views E env" by (rule view [OF env e]) simp
    have "eframe f env h ?e" unfolding eframe_def
    proof (intro conjI allI impI)
      fix v assume "v < num_varnodes f"
      then show "?e v = env v" using e G(3) by (auto simp: eframe_def)
    next
      fix v assume v: "v < num_varnodes h"
      show "vn_fits ?e h v"
      proof (cases "v = ?out")
        case True then show ?thesis using S(11,12) by (simp add: vn_fits_def pval_fits)
      next
        case False
        then have l: "v < num_varnodes g1" using v S(4) by simp
        then have "vn_fits e g1 v" using e by (simp add: eframe_def)
        then show ?thesis using old [OF l] False by (simp add: vn_fits_def constant_value_def)
      qed
    next
      fix r assume r: "num_ops f \<le> r \<and> live h r"
      show "op_ok ?e h r"
      proof (cases "r = q")
        case True
        have "is_bool_output (pop h q) \<longrightarrow> ?val env \<le> 1"
          using bool_output_pure [of "pop h q"] pval_bool k(1) S(7) by simp
        then show ?thesis unfolding True op_ok_def S(7,10) v using ops [OF env] S(11) by simp
      next
        case False
        then have l: "r < num_ops g1" "r \<noteq> p" using r S(2,3) e1 p by (auto simp: live_def)
        then have "op_ok e g1 r" using e r opsame(1,2) [OF l(1)] by (simp add: eframe_def live_def)
        then show ?thesis using op_cong(2) [OF G(1) l(1), of h ?e e] opsame [OF l(1)] old by simp
      qed
    qed
    then show "\<exists>e'. eframe f env h e'" by blast
  qed
  have "den f h ?out (sz, ?val)" unfolding den_def
  proof (intro conjI allI impI)
    fix env e assume e: "env_ok f env \<and> eframe f env h e"
    then have e1: "eframe f env g1 e" using eframe_mono [OF s1 sg p] by blast
    have "live h q" using S(2,3,9) by (simp add: live_def is_dead_def)
    then have "op_ok e h q" using e S(2) G(4) e1 sframeD(4) [of p f g] r by (auto simp: eframe_def rw_def)
    then show "e ?out = snd (sz, ?val) env" unfolding op_ok_def S(7,10) view [OF conjunct1 [OF e] e1 refl] using k(1) S(11) by simp
  qed (use S in simp_all)
  moreover have "rw p f h c D"
  proof (rule rw_step [OF r1 step])
    have l: "p < num_ops g1" using rw_inrefs(3) [OF r1] .
    show "po_code (pop h p) = c" using opsame(3) [OF l] rw_inrefs(5) [OF r1] by simp
    show "list_all2 (den f h) (po_inrefs (pop h p)) D" using rw_den(2) [OF r1 step rw_inrefs(1) [OF r1]] opsame(4) [OF l] by simp
  qed
  ultimately show ?thesis using S(10) rw_trans [OF r] U step by blast
qed

end
