(* ===== verification/Fd_Rules.thy ===== *)
theory Fd_Rules
  imports Fd_Sem "HOL-Library.Monad_Syntax"
begin

text \<open>
  Simplification rules of \<^verbatim>\<open>decompile/rules.rs\<close>: each is the whole \<open>apply_op\<close> of the rule, from the guards to the
  count it reports.  \<open>None\<close> is a panic.  This theory and the two that
  continue it prove them sound: on a well-formed, well-sized function a rule does not panic, and the function it
  leaves refines the one it was given (the at-most rule only away from the ends of the width).
\<close>

definition rmask :: "u64 \<Rightarrow> nat \<Rightarrow> u64" where
  "rmask v sz = (if 8 \<le> sz then v else v AND (shl64 1 (8 * sz) - 1))"

definition term_order_oplist :: "opcode list" where
  "term_order_oplist = [IntEqual, IntNotequal, IntAdd, IntCarry, IntScarry, IntXor, IntAnd, IntOr, IntMult, BoolXor, BoolAnd,
     BoolOr, FloatEqual, FloatNotequal, FloatAdd, FloatMult]"

definition rule_term_order :: "nat \<Rightarrow> funcdata \<Rightarrow> (nat \<times> funcdata) option" where
  "rule_term_order p f =
     (case po_inrefs (pop f p) of
        [in0, in1] \<Rightarrow>
          if is_constant (vn f in0) \<and> \<not> is_constant (vn f in1)
          then do { f \<leftarrow> op_swap_input p 0 1 f; Some (1, f) }
          else Some (0, f)
      | _ \<Rightarrow> Some (0, f))"

definition identity_el_oplist :: "opcode list" where
  "identity_el_oplist = [IntAdd, IntXor, IntOr, BoolXor, BoolOr, IntMult]"

definition rule_identity_el :: "nat \<Rightarrow> funcdata \<Rightarrow> (nat \<times> funcdata) option" where
  "rule_identity_el p f =
     (case po_inrefs (pop f p) of
        [_, in1] \<Rightarrow>
          if \<not> is_constant (vn f in1) then Some (0, f)
          else let val = constant_value (vn f in1); code = po_code (pop f p)
               in if val = 0 \<and> code \<noteq> IntMult then do { let f = op_set_opcode p Copy f; f \<leftarrow> op_remove_input p 1 f; Some (1, f) }
                  else if code \<noteq> IntMult then Some (0, f)
                  else if val = 1 then do { let f = op_set_opcode p Copy f; f \<leftarrow> op_remove_input p 1 f; Some (1, f) }
                  else if val = 0 then do { let f = op_set_opcode p Copy f; f \<leftarrow> op_remove_input p 0 f; Some (1, f) }
                  else Some (0, f)
      | _ \<Rightarrow> Some (0, f))"

definition trivial_shift_oplist :: "opcode list" where
  "trivial_shift_oplist = [IntLeft, IntRight, IntSright]"

definition rule_trivial_shift :: "nat \<Rightarrow> funcdata \<Rightarrow> (nat \<times> funcdata) option" where
  "rule_trivial_shift p f =
     (case po_inrefs (pop f p) of
        [in0, in1] \<Rightarrow>
          if \<not> is_constant (vn f in1) then Some (0, f)
          else let val = constant_value (vn f in1); in0_size = vn_size (vn f in0)
               in if val \<noteq> 0 \<and> (val < of_nat (8 * in0_size) \<or> po_code (pop f p) = IntSright) then Some (0, f)
                  else do {
                    f \<leftarrow> (if val \<noteq> 0 then let (zero, f) = new_const in0_size 0 f in op_set_input p 0 zero f else Some f);
                    f \<leftarrow> op_remove_input p 1 f;
                    Some (1, op_set_opcode p Copy f)
                  }
      | _ \<Rightarrow> Some (0, f))"

definition trivial_bool_oplist :: "opcode list" where
  "trivial_bool_oplist = [BoolAnd, BoolOr, BoolXor]"

definition rule_trivial_bool :: "nat \<Rightarrow> funcdata \<Rightarrow> (nat \<times> funcdata) option" where
  "rule_trivial_bool p f =
     do {
       vnconst \<leftarrow> op_input f p 1;
       if \<not> is_constant (vn f vnconst) then Some (0, f)
       else let val = constant_value (vn f vnconst)
            in case po_code (pop f p) of
                 BoolXor \<Rightarrow> do { v \<leftarrow> op_input f p 0; f \<leftarrow> op_remove_input p 1 f;
                     let f = op_set_opcode p (if val = 1 then BoolNegate else Copy) f; f \<leftarrow> op_set_input p 0 v f; Some (1, f) }
               | BoolAnd \<Rightarrow> do { (v, f) \<leftarrow> (if val = 1 then map_option (\<lambda>v. (v, f)) (op_input f p 0) else Some (new_const 1 0 f));
                     f \<leftarrow> op_remove_input p 1 f; let f = op_set_opcode p Copy f; f \<leftarrow> op_set_input p 0 v f; Some (1, f) }
               | BoolOr \<Rightarrow> do { (v, f) \<leftarrow> (if val = 1 then Some (new_const 1 1 f) else map_option (\<lambda>v. (v, f)) (op_input f p 0));
                     f \<leftarrow> op_remove_input p 1 f; let f = op_set_opcode p Copy f; f \<leftarrow> op_set_input p 0 v f; Some (1, f) }
               | _ \<Rightarrow> Some (0, f)
     }"

definition rule_2comp2mult :: "nat \<Rightarrow> funcdata \<Rightarrow> (nat \<times> funcdata) option" where
  "rule_2comp2mult p f =
     do {
       let f = op_set_opcode p IntMult f;
       in0 \<leftarrow> op_input f p 0;
       let sz = vn_size (vn f in0);
       let (negone, f) = new_const sz (calc_mask sz) f;
       f \<leftarrow> op_insert_input p 1 negone f;
       Some (1, f)
     }"

definition rule_mult_neg_one :: "nat \<Rightarrow> funcdata \<Rightarrow> (nat \<times> funcdata) option" where
  "rule_mult_neg_one p f =
     (case op_input f p 1 of
        None \<Rightarrow> Some (0, f)
      | Some constvn \<Rightarrow>
          if \<not> is_constant (vn f constvn) \<or> constant_value (vn f constvn) \<noteq> rmask (- 1) (vn_size (vn f constvn)) then Some (0, f)
          else do { let f = op_set_opcode p Int2comp f; f \<leftarrow> op_remove_input p 1 f; Some (1, f) })"

definition less_one_oplist :: "opcode list" where
  "less_one_oplist = [IntLess, IntLessequal]"

definition rule_less_one :: "nat \<Rightarrow> funcdata \<Rightarrow> (nat \<times> funcdata) option" where
  "rule_less_one p f =
     (case op_input f p 1 of
        None \<Rightarrow> Some (0, f)
      | Some constvn \<Rightarrow>
          if \<not> is_constant (vn f constvn) then Some (0, f)
          else let val = constant_value (vn f constvn)
               in if po_code (pop f p) = IntLess \<and> val \<noteq> 1 then Some (0, f)
                  else if po_code (pop f p) = IntLessequal \<and> val \<noteq> 0 then Some (0, f)
                  else let f = op_set_opcode p IntEqual f
                       in if val \<noteq> 0
                          then let (zero, f) = new_const (vn_size (vn f constvn)) 0 f
                               in map_option (\<lambda>f. (1, f)) (op_set_input p 1 zero f)
                          else Some (1, f))"

definition copy_false :: "nat \<Rightarrow> funcdata \<Rightarrow> (nat \<times> funcdata) option" where
  "copy_false p f =
     do { let (z, f) = new_const 1 0 f; let f = op_set_opcode p Copy f; f \<leftarrow> op_remove_input p 1 f; f \<leftarrow> op_set_input p 0 z f; Some (1, f) }"

definition rule_less2zero :: "nat \<Rightarrow> funcdata \<Rightarrow> (nat \<times> funcdata) option" where
  "rule_less2zero p f =
     do {
       lvn \<leftarrow> op_input f p 0;
       rvn \<leftarrow> op_input f p 1;
       if is_constant (vn f lvn)
       then if constant_value (vn f lvn) = 0 then Some (1, op_set_opcode p IntNotequal f)
            else if constant_value (vn f lvn) = calc_mask (vn_size (vn f lvn)) then copy_false p f
            else Some (0, f)
       else if is_constant (vn f rvn)
            then if constant_value (vn f rvn) = 0 then copy_false p f
                 else if constant_value (vn f rvn) = calc_mask (vn_size (vn f rvn)) then Some (1, op_set_opcode p IntNotequal f)
                 else Some (0, f)
            else Some (0, f)
     }"

definition rule_or_mask :: "nat \<Rightarrow> funcdata \<Rightarrow> (nat \<times> funcdata) option" where
  "rule_or_mask p f =
     (case po_output (pop f p) of
        None \<Rightarrow> Some (0, f)
      | Some out \<Rightarrow>
          let sz = vn_size (vn f out)
          in if 8 < sz then Some (0, f)
             else case op_input f p 1 of
                    None \<Rightarrow> Some (0, f)
                  | Some c \<Rightarrow>
                      if \<not> is_constant (vn f c) \<or> rmask (constant_value (vn f c)) sz \<noteq> rmask (- 1) sz then Some (0, f)
                      else Some (1, op_set_all_input p [c] (op_set_opcode p Copy f)))"

definition rule_carry_elim :: "nat \<Rightarrow> funcdata \<Rightarrow> (nat \<times> funcdata) option" where
  "rule_carry_elim p f =
     do {
       vn2 \<leftarrow> op_input f p 1;
       if \<not> is_constant (vn f vn2) then Some (0, f)
       else do {
         vn1 \<leftarrow> op_input f p 0;
         if is_free (vn f vn1) then Some (0, f)
         else let off = constant_value (vn f vn2)
              in if off = 0
                 then do { f \<leftarrow> op_remove_input p 1 f; let (c, f) = new_const 1 0 f; f \<leftarrow> op_set_input p 0 c f;
                        Some (1, op_set_opcode p Copy f) }
                 else do {
                   let off = (- off) AND calc_mask (vn_size (vn f vn2));
                   let f = op_set_opcode p IntLessequal f;
                   f \<leftarrow> op_set_input p 1 vn1 f;
                   let (c, f) = new_const (vn_size (vn f vn1)) off f;
                   f \<leftarrow> op_set_input p 0 c f;
                   Some (1, f)
                 }
       }
     }"

definition rule_bxor2notequal :: "nat \<Rightarrow> funcdata \<Rightarrow> (nat \<times> funcdata) option" where
  "rule_bxor2notequal p f = Some (1, op_set_opcode p IntNotequal f)"

definition rule_negate_negate :: "nat \<Rightarrow> funcdata \<Rightarrow> (nat \<times> funcdata) option" where
  "rule_negate_negate p f =
     (case op_input f p 0 of
        None \<Rightarrow> Some (0, f)
      | Some vn1 \<Rightarrow>
          if \<not> is_written (vn f vn1) then Some (0, f)
          else do {
            neg2 \<leftarrow> vn_def (vn f vn1);
            if po_code (pop f neg2) \<noteq> IntNegate then Some (0, f)
            else case op_input f neg2 0 of
                   None \<Rightarrow> Some (0, f)
                 | Some vn2 \<Rightarrow>
                     if is_free (vn f vn2) then Some (0, f)
                     else do { f \<leftarrow> op_set_input p 0 vn2 f; Some (1, op_set_opcode p Copy f) }
          })"

subsection \<open>x op x\<close>

definition trivial_cval :: "opcode \<Rightarrow> nat \<Rightarrow> (nat \<times> u64) option option" where
  "trivial_cval c osz =
     (if c \<in> {IntNotequal, IntSless, IntLess, BoolXor} then Some (Some (1, 0))
      else if c \<in> {IntEqual, IntSlessequal, IntLessequal} then Some (Some (1, 1))
      else if c = IntXor then Some (Some (osz, 0))
      else if c \<in> {IntAnd, IntOr, BoolAnd, BoolOr} then Some None
      else None)"

definition trivial_arith_oplist :: "opcode list" where
  "trivial_arith_oplist = [IntNotequal, IntSless, IntLess, BoolXor, IntEqual, IntSlessequal, IntLessequal, IntXor, IntAnd, IntOr, BoolAnd, BoolOr]"

definition rule_trivial_arith :: "nat \<Rightarrow> funcdata \<Rightarrow> (nat \<times> funcdata) option" where
  "rule_trivial_arith p f =
     (if length (po_inrefs (pop f p)) \<noteq> 2 \<or> op_input f p 0 \<noteq> op_input f p 1 then Some (0, f)
      else let osz = (case po_output (pop f p) of None \<Rightarrow> 1 | Some v \<Rightarrow> vn_size (vn f v))
           in case trivial_cval (po_code (pop f p)) osz of
                None \<Rightarrow> Some (0, f)
              | Some cval \<Rightarrow>
                  do {
                    f \<leftarrow> op_remove_input p 1 f;
                    let f = op_set_opcode p Copy f;
                    f \<leftarrow> (case cval of
                            None \<Rightarrow> Some f
                          | Some (sz, v) \<Rightarrow> (let (c, f) = new_const sz v f in op_set_input p 0 c f));
                    Some (1, f)
                  })"

definition xor_swap_at :: "nat \<Rightarrow> nat \<Rightarrow> funcdata \<Rightarrow> nat option option" where
  "xor_swap_at p i f =
     (case op_input f p i of
        None \<Rightarrow> Some None
      | Some v \<Rightarrow>
          if \<not> is_written (vn f v) then Some None
          else do {
            op2 \<leftarrow> vn_def (vn f v);
            if po_code (pop f op2) \<noteq> IntXor then Some None
            else let othervn = op_input f p (1 - i)
                 in case (op_input f op2 0, op_input f op2 1) of
                      (Some vn0, Some vn1) \<Rightarrow>
                        Some (if othervn = Some vn0 \<and> \<not> is_free (vn f vn1) then Some vn1
                              else if othervn = Some vn1 \<and> \<not> is_free (vn f vn0) then Some vn0
                              else None)
                    | _ \<Rightarrow> Some None
          })"

definition xor_swap_keep :: "nat \<Rightarrow> nat \<Rightarrow> funcdata \<Rightarrow> (nat \<times> funcdata) option" where
  "xor_swap_keep p keep f =
     do { f \<leftarrow> op_remove_input p 1 f; let f = op_set_opcode p Copy f; f \<leftarrow> op_set_input p 0 keep f; Some (1, f) }"

definition rule_xor_swap :: "nat \<Rightarrow> funcdata \<Rightarrow> (nat \<times> funcdata) option" where
  "rule_xor_swap p f =
     do {
       k0 \<leftarrow> xor_swap_at p 0 f;
       case k0 of
         Some keep \<Rightarrow> xor_swap_keep p keep f
       | None \<Rightarrow> do {
           k1 \<leftarrow> xor_swap_at p 1 f;
           case k1 of Some keep \<Rightarrow> xor_swap_keep p keep f | None \<Rightarrow> Some (0, f)
         }
     }"

definition rule_sub2add :: "nat \<Rightarrow> funcdata \<Rightarrow> (nat \<times> funcdata) option" where
  "rule_sub2add p f =
     do {
       v \<leftarrow> op_input f p 1;
       let sz = vn_size (vn f v);
       let (negone, f) = new_const sz (rmask (- 1) sz) f;
       (newop, f) \<leftarrow> new_op_before p IntMult [v, negone] f;
       newvn \<leftarrow> po_output (pop f newop);
       f \<leftarrow> op_set_input p 1 newvn f;
       Some (1, op_set_opcode p IntAdd f)
     }"

definition rule_not_distribute :: "nat \<Rightarrow> funcdata \<Rightarrow> (nat \<times> funcdata) option" where
  "rule_not_distribute p f =
     (if po_code (pop f p) \<noteq> BoolNegate then Some (0, f)
      else do {
        inv \<leftarrow> op_input f p 0;
        case vn_def (vn f inv) of
          None \<Rightarrow> Some (0, f)
        | Some compop \<Rightarrow>
            if po_code (pop f compop) \<noteq> BoolAnd \<and> po_code (pop f compop) \<noteq> BoolOr then Some (0, f)
            else let opc = (if po_code (pop f compop) = BoolAnd then BoolOr else BoolAnd)
                 in do {
                   c0 \<leftarrow> op_input f compop 0;
                   c1 \<leftarrow> op_input f compop 1;
                   (neg1, f) \<leftarrow> new_op_before p BoolNegate [c0] f;
                   out1 \<leftarrow> po_output (pop f neg1);
                   (neg2, f) \<leftarrow> new_op_before p BoolNegate [c1] f;
                   out2 \<leftarrow> po_output (pop f neg2);
                   let f = op_set_opcode p opc f;
                   f \<leftarrow> op_set_input p 0 out1 f;
                   Some (1, op_append_input p out2 f)
                 }
      })"

definition copy_true :: "nat \<Rightarrow> funcdata \<Rightarrow> (nat \<times> funcdata) option" where
  "copy_true p f =
     do { let f = op_set_opcode p Copy f; f \<leftarrow> op_remove_input p 1 f; let (one, f) = new_const 1 1 f; f \<leftarrow> op_set_input p 0 one f; Some (1, f) }"

definition rule_lessequal2zero :: "nat \<Rightarrow> funcdata \<Rightarrow> (nat \<times> funcdata) option" where
  "rule_lessequal2zero p f =
     (if po_code (pop f p) \<noteq> IntLessequal then Some (0, f)
      else do {
        lvn \<leftarrow> op_input f p 0;
        rvn \<leftarrow> op_input f p 1;
        if is_constant (vn f lvn)
        then if constant_value (vn f lvn) = 0 then copy_true p f
             else if constant_value (vn f lvn) = calc_mask (vn_size (vn f lvn)) then Some (1, op_set_opcode p IntEqual f)
             else Some (0, f)
        else if is_constant (vn f rvn)
             then if constant_value (vn f rvn) = 0 then Some (1, op_set_opcode p IntEqual f)
                  else if constant_value (vn f rvn) = calc_mask (vn_size (vn f rvn)) then copy_true p f
                  else Some (0, f)
             else Some (0, f)
      })"

definition sign_extend_val :: "u64 \<Rightarrow> nat \<Rightarrow> nat \<Rightarrow> u64" where
  "sign_extend_val val sizein sizeout =
     (let b = sizein * 8;
          sval = (if b = 0 \<or> 64 \<le> b then val else sar64 (shl64 val (64 - b)) (64 - b))
      in sval AND calc_mask sizeout)"

definition lessequal_install :: "nat \<Rightarrow> nat \<Rightarrow> opcode \<Rightarrow> nat \<Rightarrow> u64 \<Rightarrow> funcdata \<Rightarrow> (bool \<times> funcdata) option" where
  "lessequal_install p i opc sz val f =
     do {
       let f = op_set_opcode p opc f;
       let (newvn, f) = new_const sz (val AND calc_mask sz) f;
       f \<leftarrow> op_set_input p i newvn f;
       Some (True, f)
     }"

definition replace_lessequal :: "nat \<Rightarrow> funcdata \<Rightarrow> (bool \<times> funcdata) option" where
  "replace_lessequal p f =
     do {
       in0 \<leftarrow> op_input f p 0;
       in1 \<leftarrow> op_input f p 1;
       if \<not> is_constant (vn f in0) \<and> \<not> is_constant (vn f in1) then Some (False, f)
       else let (v, diff, i) = (if is_constant (vn f in0) then (in0, - 1 :: u64, 0 :: nat) else (in1, 1, 1));
                sz = vn_size (vn f v);
                val = sign_extend_val (constant_value (vn f v)) sz 8;
                vpd = val + diff
            in if po_code (pop f p) = IntSlessequal
               then if sint val < 0 \<and> 0 < sint vpd \<or> 0 < sint val \<and> sint vpd < 0 then Some (False, f)
                    else lessequal_install p i IntSless sz vpd f
               else if diff = - 1 \<and> val = 0 \<or> diff = 1 \<and> val = - 1 then Some (False, f)
                    else lessequal_install p i IntLess sz vpd f
     }"

definition lessequal_oplist :: "opcode list" where
  "lessequal_oplist = [IntLessequal, IntSlessequal]"

definition rule_int_less_equal :: "nat \<Rightarrow> funcdata \<Rightarrow> (nat \<times> funcdata) option" where
  "rule_int_less_equal p f = map_option (\<lambda>(b, f). (if b then 1 else 0, f)) (replace_lessequal p f)"

subsection \<open>Proving a rule\<close>

lemma op_facts:
  assumes ok: "graph_ok f" "typed f" and l: "live f p" "pure_op (po_code (pop f p))"
  obtains out where "po_output (pop f p) = Some out" "out < num_varnodes f"
    "sized (po_code (pop f p)) (map fst (start_views f p)) (vn_size (vn f out))"
    "\<And>env. env_ok f env \<Longrightarrow> operands_ok (po_code (pop f p)) (views (start_views f p) env)"
    "\<And>env. env_ok f env \<Longrightarrow> env out = pval (po_code (pop f p)) (views (start_views f p) env) (vn_size (vn f out))"
proof -
  have "well_sized f p" using ok(2) l by (simp add: typed_def ops_sized_def)
  then obtain out where o: "po_output (pop f p) = Some out"
    "sized (po_code (pop f p)) (map (\<lambda>v. vn_size (vn f v)) (po_inrefs (pop f p))) (vn_size (vn f out))"
    by (auto simp: well_sized_def)
  have i: "ins_view f env p = views (start_views f p) env" for env
    by (simp add: ins_view_def views_def start_views_def)
  show thesis
  proof (rule that [OF o(1)])
    show "out < num_varnodes f" using op_range(2) [OF ok(1)] o(1) l(1) by (auto simp: live_def)
    show "sized (po_code (pop f p)) (map fst (start_views f p)) (vn_size (vn f out))" using o(2) by (simp add: start_views_def comp_def)
    fix env assume "env_ok f env"
    then have "op_ok env f p" using l(1) by (simp add: env_ok_def)
    then show "operands_ok (po_code (pop f p)) (views (start_views f p) env)"
      "env out = pval (po_code (pop f p)) (views (start_views f p) env) (vn_size (vn f out))"
      using o(1) l(2) by (simp_all add: op_ok_def i)
  qed
qed

lemma env_fits:
  assumes "env_ok f env" "v < num_varnodes f"
  shows "emu_mask (env v) (vn_size (vn f v)) = env v" "is_constant (vn f v) \<Longrightarrow> env v = constant_value (vn f v)"
  using assms by (simp_all add: env_ok_def vn_fits_def)

lemma rw_done:
  assumes r: "rw p f g c D" and ok: "graph_ok f" "typed f" and out: "po_output (pop f p) = Some out"
    and c: "pure_op c" "sized c (map fst D) (vn_size (vn f out))"
    and v: "\<And>env. env_ok f env \<Longrightarrow> operands_ok c (views D env)"
      "\<And>env. env_ok f env \<Longrightarrow> env out = pval c (views D env) (vn_size (vn f out))"
  shows "refines f g"
proof (rule rw_finish [OF r ok out c])
  fix env assume e: "env_ok f env" and b: "is_bool_output (pop g p)"
  have "compare_op c \<or> bool_op c" using bool_output_pure [OF b] c(1) rw_inrefs(5) [OF r] by simp
  then show "env out \<le> 1" unfolding v(2) [OF e] by (rule pval_bool)
qed (use v in blast)

lemma rw_const_set:
  assumes r: "rw p f g c D" and k: "emu_mask k sz = k" and i: "i < length D"
  shows "\<exists>h. op_set_input p i (fst (new_const sz k g)) (snd (new_const sz k g)) = Some h \<and> rw p f h c (D[i := (sz, \<lambda>env. k)])"
proof -
  obtain v g1 where n: "new_const sz k g = (v, g1)" by fastforce
  note C = rw_const [OF r k n]
  show ?thesis using rw_set [of p f g1 c D v "(sz, \<lambda>env. k)" i] C i n by auto
qed

lemma den_start:
  assumes r: "rw p f g c D" and v: "v < num_varnodes f"
  shows "den f g v (vn_size (vn f v), \<lambda>env. env v)"
  using den_old v r by (auto simp: rw_def)

text \<open>What a rule promises: no panic, and a refinement; when it reports no change it has made none.\<close>

definition sound_at :: "(nat \<Rightarrow> funcdata \<Rightarrow> (nat \<times> funcdata) option) \<Rightarrow> nat \<Rightarrow> funcdata \<Rightarrow> bool" where
  "sound_at app p f \<longleftrightarrow> (\<exists>n g. app p f = Some (n, g) \<and> refines f g \<and> (n = 0 \<longrightarrow> g = f))"

lemma sound_none: "graph_ok f \<Longrightarrow> typed f \<Longrightarrow> app p f = Some (0, f) \<Longrightarrow> sound_at app p f"
  by (auto simp: sound_at_def refines_refl)

lemma sound_some: "app p f = Some (Suc n, g) \<Longrightarrow> refines f g \<Longrightarrow> sound_at app p f"
  by (auto simp: sound_at_def)

lemma pval_le_one: "v \<le> 1 \<Longrightarrow> v = 0 \<or> v = (1::u64)"
  by (metis (no_types, lifting) order_antisym_conv word_coorder.extremum word_less_1 word_not_simps(1) order.not_eq_order_implies_strict)

lemma bool_and_one: "v \<le> (1::u64) \<Longrightarrow> v AND 1 = v"
  using pval_le_one [of v] by auto

lemma trivial_arith_value:
  assumes "trivial_cval c s = Some cval" "sized c [t, t] s"
  shows "sized Copy [case cval of None \<Rightarrow> t | Some (sz, v) \<Rightarrow> sz] s"
    "operands_ok c [(t, x), (t, x)] \<Longrightarrow> emu_mask x t = x \<Longrightarrow>
     pval c [(t, x), (t, x)] s = pval Copy [case cval of None \<Rightarrow> (t, x) | Some (sz, v) \<Rightarrow> (sz, v)] s"
  using assms
  by (auto simp: trivial_cval_def pval_def alu_def Let_def of_bool64_def sized_def op_classes operands_ok_def bool_and_one split: if_splits)

lemma sized_length:
  assumes "sized c ss os"
  shows "arith2 c \<or> shift_op c \<or> compare_op c \<or> bool2 c \<Longrightarrow> length ss = 2"
    "arith1 c \<or> extend_op c \<or> count_op c \<or> c = BoolNegate \<Longrightarrow> length ss = 1"
  using assms by (auto simp: sized_def op_classes split: if_splits)

lemma length_two: "length xs = 2 \<Longrightarrow> \<exists>x y. xs = [x, y]"
  by (metis (no_types, opaque_lifting) One_nat_def Suc_1 Suc_length_conv length_0_conv)

lemma length_one: "length xs = 1 \<Longrightarrow> \<exists>x. xs = [x]"
  by (metis One_nat_def Suc_length_conv length_0_conv)

text \<open>A two-input and a one-input operation with a value, in a function that is typed.\<close>

definition bin_at :: "funcdata \<Rightarrow> nat \<Rightarrow> nat \<Rightarrow> nat \<Rightarrow> nat \<Rightarrow> bool" where
  "bin_at f p out x y \<longleftrightarrow> po_output (pop f p) = Some out \<and> po_inrefs (pop f p) = [x, y] \<and> out < num_varnodes f
     \<and> x < num_varnodes f \<and> y < num_varnodes f
     \<and> sized (po_code (pop f p)) [vn_size (vn f x), vn_size (vn f y)] (vn_size (vn f out))
     \<and> (\<forall>env. env_ok f env \<longrightarrow> operands_ok (po_code (pop f p)) [(vn_size (vn f x), env x), (vn_size (vn f y), env y)]
          \<and> env out = pval (po_code (pop f p)) [(vn_size (vn f x), env x), (vn_size (vn f y), env y)] (vn_size (vn f out)))"

definition un_at :: "funcdata \<Rightarrow> nat \<Rightarrow> nat \<Rightarrow> nat \<Rightarrow> bool" where
  "un_at f p out x \<longleftrightarrow> po_output (pop f p) = Some out \<and> po_inrefs (pop f p) = [x] \<and> out < num_varnodes f
     \<and> x < num_varnodes f
     \<and> sized (po_code (pop f p)) [vn_size (vn f x)] (vn_size (vn f out))
     \<and> (\<forall>env. env_ok f env \<longrightarrow> operands_ok (po_code (pop f p)) [(vn_size (vn f x), env x)]
          \<and> env out = pval (po_code (pop f p)) [(vn_size (vn f x), env x)] (vn_size (vn f out)))"

lemma bin_atD:
  assumes "bin_at f p out x y"
  shows "po_output (pop f p) = Some out" "po_inrefs (pop f p) = [x, y]" "out < num_varnodes f" "x < num_varnodes f" "y < num_varnodes f"
    "sized (po_code (pop f p)) [vn_size (vn f x), vn_size (vn f y)] (vn_size (vn f out))"
    "env_ok f env \<Longrightarrow> operands_ok (po_code (pop f p)) [(vn_size (vn f x), env x), (vn_size (vn f y), env y)]"
    "env_ok f env \<Longrightarrow> env out = pval (po_code (pop f p)) [(vn_size (vn f x), env x), (vn_size (vn f y), env y)] (vn_size (vn f out))"
    "start_views f p = [(vn_size (vn f x), \<lambda>env. env x), (vn_size (vn f y), \<lambda>env. env y)]"
  using assms by (auto simp: bin_at_def start_views_def)

lemma un_atD:
  assumes "un_at f p out x"
  shows "po_output (pop f p) = Some out" "po_inrefs (pop f p) = [x]" "out < num_varnodes f" "x < num_varnodes f"
    "sized (po_code (pop f p)) [vn_size (vn f x)] (vn_size (vn f out))"
    "env_ok f env \<Longrightarrow> operands_ok (po_code (pop f p)) [(vn_size (vn f x), env x)]"
    "env_ok f env \<Longrightarrow> env out = pval (po_code (pop f p)) [(vn_size (vn f x), env x)] (vn_size (vn f out))"
    "start_views f p = [(vn_size (vn f x), \<lambda>env. env x)]"
  using assms by (auto simp: un_at_def start_views_def)

lemma binary_op:
  assumes ok: "graph_ok f" "typed f" and l: "live f p" and c: "arith2 (po_code (pop f p)) \<or> shift_op (po_code (pop f p)) \<or>
      compare_op (po_code (pop f p)) \<or> bool2 (po_code (pop f p))"
  obtains out x y where "bin_at f p out x y"
proof -
  have "pure_op (po_code (pop f p))" using c by (auto simp: pure_op_def bool_op_def)
  from op_facts [OF ok l this] obtain out where o: "po_output (pop f p) = Some out" "out < num_varnodes f"
    "sized (po_code (pop f p)) (map fst (start_views f p)) (vn_size (vn f out))"
    "\<And>env. env_ok f env \<Longrightarrow> operands_ok (po_code (pop f p)) (views (start_views f p) env)"
    "\<And>env. env_ok f env \<Longrightarrow> env out = pval (po_code (pop f p)) (views (start_views f p) env) (vn_size (vn f out))" by blast
  have "length (po_inrefs (pop f p)) = 2" using sized_length(1) [OF o(3)] c by (simp add: start_views_def)
  then obtain x y where ins: "po_inrefs (pop f p) = [x, y]" using length_two by blast
  have r: "x < num_varnodes f" "y < num_varnodes f" using op_range(1) [OF ok(1)] l ins by (auto simp: live_def)
  have "bin_at f p out x y" unfolding bin_at_def using o ins r by (simp add: start_views_def views_def)
  then show thesis by (rule that)
qed

lemma unary_op:
  assumes ok: "graph_ok f" "typed f" and l: "live f p"
    and c: "arith1 (po_code (pop f p)) \<or> extend_op (po_code (pop f p)) \<or> count_op (po_code (pop f p)) \<or> po_code (pop f p) = BoolNegate"
  obtains out x where "un_at f p out x"
proof -
  have "pure_op (po_code (pop f p))" using c by (auto simp: pure_op_def bool_op_def)
  from op_facts [OF ok l this] obtain out where o: "po_output (pop f p) = Some out" "out < num_varnodes f"
    "sized (po_code (pop f p)) (map fst (start_views f p)) (vn_size (vn f out))"
    "\<And>env. env_ok f env \<Longrightarrow> operands_ok (po_code (pop f p)) (views (start_views f p) env)"
    "\<And>env. env_ok f env \<Longrightarrow> env out = pval (po_code (pop f p)) (views (start_views f p) env) (vn_size (vn f out))" by blast
  have "length (po_inrefs (pop f p)) = 1" using sized_length(2) [OF o(3)] c by (simp add: start_views_def)
  then obtain x where ins: "po_inrefs (pop f p) = [x]" using length_one by blast
  have r: "x < num_varnodes f" using op_range(1) [OF ok(1)] l ins by (auto simp: live_def)
  have "un_at f p out x" unfolding un_at_def using o ins r by (simp add: start_views_def views_def)
  then show thesis by (rule that)
qed

lemma copy_operands [simp]: "operands_ok Copy L"
  by (simp add: operands_ok_def op_classes)

lemma remove_at_simps [simp]: "remove_at 0 (x # xs) = xs" "remove_at (Suc i) (x # xs) = x # remove_at i xs"
  by (simp_all add: remove_at_def)

lemma views_simps [simp]: "views [] env = []" "views (d # D) env = (fst d, snd d env) # views D env"
  by (simp_all add: views_def)

lemma pure_copy [simp]: "pure_op Copy"
  by (simp add: op_classes)

lemma rule_trivial_arith_sound:
  assumes ok: "graph_ok f" "typed f" and l: "live f p" and c: "po_code (pop f p) \<in> set trivial_arith_oplist"
  shows "sound_at rule_trivial_arith p f"
proof -
  have cls: "arith2 (po_code (pop f p)) \<or> shift_op (po_code (pop f p)) \<or> compare_op (po_code (pop f p)) \<or> bool2 (po_code (pop f p))"
    using c by (auto simp: trivial_arith_oplist_def op_classes)
  obtain out x y where bin: "bin_at f p out x y" using binary_op [OF ok l cls] .
  note B = bin_atD [OF bin]
  show ?thesis
  proof (cases "x = y")
    case False
    then have "rule_trivial_arith p f = Some (0, f)" by (simp add: rule_trivial_arith_def op_input_def B)
    then show ?thesis by (rule sound_none [OF ok])
  next
    case xy: True
    obtain cval where cv: "trivial_cval (po_code (pop f p)) (vn_size (vn f out)) = Some cval"
      using c by (auto simp: trivial_arith_oplist_def trivial_cval_def)
    have r0: "rw p f f (po_code (pop f p)) (start_views f p)" using rw_start [OF ok] l by (simp add: live_def)
    obtain g1 where g1: "op_remove_input p 1 f = Some g1" "rw p f g1 (po_code (pop f p)) [(vn_size (vn f x), \<lambda>env. env x)]"
      using rw_remove [OF r0, of 1] B(9) by auto
    have r2: "rw p f (op_set_opcode p Copy g1) Copy [(vn_size (vn f x), \<lambda>env. env x)]" using rw_opcode [OF g1(2)] by blast
    let ?D = "[case cval of None \<Rightarrow> (vn_size (vn f x), \<lambda>env. env x) | Some (sz, v) \<Rightarrow> (sz, \<lambda>env. v)]"
    have "\<exists>g. rule_trivial_arith p f = Some (1, g) \<and> rw p f g Copy ?D"
    proof (cases cval)
      case None then show ?thesis using r2 g1 B cv xy by (simp add: rule_trivial_arith_def op_input_def)
    next
      case (Some a)
      obtain sz v where a: "a = (sz, v)" by fastforce
      have fit: "emu_mask v sz = v"
        using cv Some a by (auto simp: trivial_cval_def emu_mask_def shl64_def split: if_splits)
      show ?thesis using rw_const_set [OF r2 fit, of 0] g1 B cv xy Some a
        by (auto simp: rule_trivial_arith_def op_input_def split_beta)
    qed
    then obtain g where g: "rule_trivial_arith p f = Some (1, g)" "rw p f g Copy ?D" by blast
    have "refines f g"
    proof (rule rw_done [OF g(2) ok B(1)])
      show "sized Copy (map fst ?D) (vn_size (vn f out))"
        using trivial_arith_value(1) [OF cv B(6) [folded xy]] by (auto split: option.splits)
      show "env out = pval Copy (views ?D env) (vn_size (vn f out))" if e: "env_ok f env" for env
        using B(8) [OF e] trivial_arith_value(2) [OF cv B(6) [folded xy] B(7) [OF e, folded xy]] env_fits(1) [OF e B(4)] xy
        by (auto split: option.splits)
    qed simp_all
    then show ?thesis using g(1) by (auto intro: sound_some)
  qed
qed

lemma bin_inputs: "bin_at f p out x y \<Longrightarrow> op_input f p 0 = Some x" "bin_at f p out x y \<Longrightarrow> op_input f p 1 = Some y"
  "bin_at f p out x y \<Longrightarrow> op_input f p (Suc 0) = Some y"
  by (simp_all add: op_input_def bin_at_def)

lemma un_inputs: "un_at f p out x \<Longrightarrow> op_input f p 0 = Some x"
  by (simp_all add: op_input_def un_at_def)

lemma rw_begin:
  "graph_ok f \<Longrightarrow> typed f \<Longrightarrow> live f p \<Longrightarrow> bin_at f p out x y \<Longrightarrow>
     rw p f f (po_code (pop f p)) [(vn_size (vn f x), \<lambda>env. env x), (vn_size (vn f y), \<lambda>env. env y)]"
  "graph_ok f \<Longrightarrow> typed f \<Longrightarrow> live f p \<Longrightarrow> un_at f p out x \<Longrightarrow> rw p f f (po_code (pop f p)) [(vn_size (vn f x), \<lambda>env. env x)]"
  using rw_start [of f p] bin_atD(9) [of f p out x y] un_atD(8) [of f p out x] by (simp_all add: live_def)

text \<open>Values.\<close>

lemma pval_one: "pval c [(s, a)] os = emu_mask (the (alu c s a 0 (sext a s) (sext 0 1))) os"
  by (simp add: pval_def)

lemma pval_two: "pval c [(s, a), (t, b)] os = emu_mask (the (alu c s a b (sext a s) (sext b t))) os"
  by (simp add: pval_def)

lemmas pvals = pval_one pval_two

lemma sized_cases:
  "sized c [s] os \<Longrightarrow> 1 \<le> s \<and> s \<le> 8 \<and> 1 \<le> os \<and> os \<le> 8"
  "sized c [s, t] os \<Longrightarrow> 1 \<le> s \<and> s \<le> 8 \<and> 1 \<le> t \<and> t \<le> 8 \<and> 1 \<le> os \<and> os \<le> 8"
  by (auto simp: sized_def narrow_size_def)

lemma sized_eq:
  "arith1 c \<Longrightarrow> sized c ss os \<longleftrightarrow> narrow_size os \<and> ss = [os]"
  "arith2 c \<Longrightarrow> sized c ss os \<longleftrightarrow> narrow_size os \<and> ss = [os, os]"
  "shift_op c \<Longrightarrow> sized c ss os \<longleftrightarrow> narrow_size os \<and> (\<exists>s. narrow_size s \<and> ss = [os, s])"
  "compare_op c \<Longrightarrow> sized c ss os \<longleftrightarrow> os = 1 \<and> (\<exists>s. narrow_size s \<and> ss = [s, s])"
  "bool2 c \<Longrightarrow> sized c ss os \<longleftrightarrow> os = 1 \<and> ss = [1, 1]"
  "sized BoolNegate ss os \<longleftrightarrow> os = 1 \<and> ss = [1]"
  by (auto simp: sized_def op_classes narrow_size_def)

lemma take_bit_of_emu: "1 \<le> s \<Longrightarrow> s \<le> 8 \<Longrightarrow> emu_mask v s = take_bit (8 * s) v"
  by (simp add: emu_mask_eq take_bit_eq_mask)

subsection \<open>Commuting operands\<close>

lemma pval_commute:
  assumes "c \<in> {IntEqual, IntNotequal, IntAdd, IntCarry, IntScarry, IntXor, IntAnd, IntOr, IntMult, BoolXor, BoolAnd, BoolOr}"
  shows "pval c [(s, a), (s, b)] os = pval c [(s, b), (s, a)] os"
proof -
  have k: "checked_add64 x y = checked_add64 y x" for x y by (simp add: checked_add64_def add.commute)
  have "alu c s a b (sext a s) (sext b s) = alu c s b a (sext b s) (sext a s)"
    using assms
  proof (elim insertE emptyE)
    assume c: "c = IntCarry"
    show ?thesis unfolding c alu_def opcode.case Let_def by (subst k, subst add.commute) (rule refl)
  next
    assume c: "c = IntScarry"
    show ?thesis unfolding c alu_def opcode.case Let_def by (subst add.commute) (auto simp: of_bool64_def)
  qed (simp_all add: alu_def add.commute mult.commute and.commute or.commute xor.commute of_bool64_def)
  then show ?thesis by (simp add: pvals)
qed

lemma operands_commute: "bool_op c \<or> \<not> shift_op c \<Longrightarrow> operands_ok c [d, d'] \<Longrightarrow> operands_ok c [d', d]"
  by (auto simp: operands_ok_def op_classes)

lemma rule_term_order_sound:
  assumes ok: "graph_ok f" "typed f" and l: "live f p" and c: "po_code (pop f p) \<in> set term_order_oplist"
  shows "sound_at rule_term_order p f"
proof (cases "\<exists>x y. po_inrefs (pop f p) = [x, y] \<and> is_constant (vn f x) \<and> \<not> is_constant (vn f y)")
  case False
  then have "rule_term_order p f = Some (0, f)" by (auto simp: rule_term_order_def split: list.splits)
  then show ?thesis by (rule sound_none [OF ok])
next
  case True
  then obtain x y where ins: "po_inrefs (pop f p) = [x, y]" "is_constant (vn f x)" "\<not> is_constant (vn f y)" by blast
  let ?X = "(vn_size (vn f x), \<lambda>env. env x)" and ?Y = "(vn_size (vn f y), \<lambda>env. env y)"
  have r0: "rw p f f (po_code (pop f p)) [?X, ?Y]" using rw_start [OF ok, of p] l ins by (simp add: start_views_def live_def)
  obtain g where g: "op_swap_input p 0 1 f = Some g" "rw p f g (po_code (pop f p)) [?Y, ?X]"
    using rw_swap [OF r0, of 0 1] by auto
  have a: "rule_term_order p f = Some (Suc 0, g)" using ins g(1) by (simp add: rule_term_order_def)
  show ?thesis
  proof (cases "pure_op (po_code (pop f p))")
    case False
    then show ?thesis using rw_finish_other [OF g(2) ok] sound_some [of rule_term_order, OF a] by blast
  next
    case pure: True
    have cc: "po_code (pop f p) \<in> {IntEqual, IntNotequal, IntAdd, IntCarry, IntScarry, IntXor, IntAnd, IntOr, IntMult, BoolXor, BoolAnd, BoolOr}"
      using c pure by (auto simp: term_order_oplist_def op_classes)
    have cls: "arith2 (po_code (pop f p)) \<or> shift_op (po_code (pop f p)) \<or> compare_op (po_code (pop f p)) \<or> bool2 (po_code (pop f p))"
      using cc by (auto simp: op_classes)
    obtain out x' y' where bin: "bin_at f p out x' y'" using binary_op [OF ok l cls] .
    note B = bin_atD [OF bin]
    have xy: "x' = x" "y' = y" using B(2) ins(1) by simp_all
    have s: "vn_size (vn f x) = vn_size (vn f y)" using B(6) xy cc by (auto simp: sized_def op_classes split: if_splits)
    have "refines f g"
    proof (rule rw_done [OF g(2) ok B(1) pure])
      show "sized (po_code (pop f p)) (map fst [?Y, ?X]) (vn_size (vn f out))" using B(6) xy s by simp
      fix env assume e: "env_ok f env"
      show "operands_ok (po_code (pop f p)) (views [?Y, ?X] env)"
        using operands_commute [OF _ B(7) [OF e]] cc xy by (auto simp: op_classes)
      show "env out = pval (po_code (pop f p)) (views [?Y, ?X] env) (vn_size (vn f out))"
        using B(8) [OF e] pval_commute [OF cc] xy s by simp
    qed
    then show ?thesis by (rule sound_some [of rule_term_order, OF a])
  qed
qed

subsection \<open>Identity elements\<close>

lemma bool_or_zero: "v \<le> (1::u64) \<Longrightarrow> v AND 1 OR 0 AND 1 = v" "v \<le> (1::u64) \<Longrightarrow> v AND 1 XOR 0 AND 1 = v"
  by (simp_all add: bool_and_one)

lemma identity_value:
  assumes "c \<in> {IntAdd, IntXor, IntOr, BoolXor, BoolOr}" "operands_ok c [(s, a), (t, 0)]"
  shows "pval c [(s, a), (t, 0)] os = pval Copy [(s, a)] os"
  using assms by (auto simp: pvals alu_def operands_ok_def op_classes bool_and_one)

lemma mult_value:
  "pval IntMult [(s, a), (t, 1)] os = pval Copy [(s, a)] os" "pval IntMult [(s, a), (t, 0)] os = pval Copy [(t, 0)] os"
  by (simp_all add: pvals alu_def)

lemma rule_identity_el_sound:
  assumes ok: "graph_ok f" "typed f" and l: "live f p" and c: "po_code (pop f p) \<in> set identity_el_oplist"
  shows "sound_at rule_identity_el p f"
proof -
  let ?c = "po_code (pop f p)"
  have cls: "arith2 ?c \<or> shift_op ?c \<or> compare_op ?c \<or> bool2 ?c" using c by (auto simp: identity_el_oplist_def op_classes)
  obtain out x y where bin: "bin_at f p out x y" using binary_op [OF ok l cls] .
  note B = bin_atD [OF bin]
  let ?X = "(vn_size (vn f x), \<lambda>env. env x)" and ?Y = "(vn_size (vn f y), \<lambda>env. env y)"
  have r0: "rw p f (op_set_opcode p Copy f) Copy [?X, ?Y]" using rw_opcode [OF rw_begin(1) [OF ok l bin]] by blast
  obtain g0 g1 where g0: "op_remove_input p 0 (op_set_opcode p Copy f) = Some g0" "rw p f g0 Copy [?Y]"
    and g1: "op_remove_input p 1 (op_set_opcode p Copy f) = Some g1" "rw p f g1 Copy [?X]"
    using rw_remove [OF r0, of 0] rw_remove [OF r0, of 1] by auto
  have s: "sized Copy [vn_size (vn f x)] (vn_size (vn f out))" "sized Copy [vn_size (vn f y)] (vn_size (vn f out))"
    using B(6) c by (auto simp: identity_el_oplist_def sized_def op_classes)
  have val: "env y = constant_value (vn f y)" if "env_ok f env" "is_constant (vn f y)" for env
    using env_fits(2) [OF that(1) B(5) that(2)] .
  consider (id) "is_constant (vn f y)" "constant_value (vn f y) = 0 \<and> ?c \<noteq> IntMult \<or> constant_value (vn f y) = 1 \<and> ?c = IntMult"
    | (zero) "is_constant (vn f y)" "constant_value (vn f y) = 0" "?c = IntMult"
    | (no) "\<not> (is_constant (vn f y) \<and> (constant_value (vn f y) = 0 \<or> constant_value (vn f y) = 1 \<and> ?c = IntMult))"
    by blast
  then show ?thesis
  proof cases
    case id
    have "refines f g1"
    proof (rule rw_done [OF g1(2) ok B(1)])
      fix env assume e: "env_ok f env"
      have "pval ?c [(vn_size (vn f x), env x), (vn_size (vn f y), env y)] (vn_size (vn f out)) = pval Copy [(vn_size (vn f x), env x)] (vn_size (vn f out))"
        using id(2) c B(7) [OF e] identity_value [of ?c] mult_value(1) unfolding val [OF e id(1)] by (auto simp: identity_el_oplist_def)
      then show "env out = pval Copy (views [?X] env) (vn_size (vn f out))" using B(8) [OF e] by simp
    qed (simp_all add: s)
    then show ?thesis using g1(1) id by (intro sound_some [of _ _ _ 0 g1]) (auto simp: rule_identity_el_def B(2) Let_def)
  next
    case zero
    have "refines f g0"
    proof (rule rw_done [OF g0(2) ok B(1)])
      fix env assume e: "env_ok f env"
      show "env out = pval Copy (views [?Y] env) (vn_size (vn f out))"
        using B(8) [OF e] zero val [OF e zero(1)] mult_value(2) by simp
    qed (simp_all add: s)
    then show ?thesis using g0(1) zero by (intro sound_some [of _ _ _ 0 g0]) (auto simp: rule_identity_el_def B(2) Let_def)
  next
    case no
    then have "rule_identity_el p f = Some (0, f)" by (auto simp: rule_identity_el_def B(2) Let_def)
    then show ?thesis by (rule sound_none [OF ok])
  qed
qed

end
