(* ===== verification/Fd_Rules_Arith.thy ===== *)
theory Fd_Rules_Arith
  imports Fd_Rules
begin

text \<open>
  Soundness of the rules on shifts, booleans, products, carries and comparisons with a constant: each rewrite
  is followed from the first input to the last by the calculus of the semantics, and closed by the value of
  the emulator's operation on the two sides.
\<close>

subsection \<open>Shifts by nothing or by everything\<close>

lemma count_of_word: "(val :: u64) < 64 \<Longrightarrow> unat (ucast val :: u32) = unat val"
proof -
  assume "val < 64"
  then have "unat val < 2 ^ 32" by (simp add: word_less_nat_alt)
  then show ?thesis by (simp add: unsigned_ucast_eq take_bit_eq_mod)
qed

lemma shift_out:
  assumes s: "1 \<le> s" "s \<le> 8" and v: "(val :: u64) < 64" "\<not> val < of_nat (8 * s)" and a: "emu_mask a s = a"
  shows "emu_mask (shl64 a (unat (ucast val :: u32))) s = 0" "shr64 a (unat (ucast val :: u32)) = 0"
proof -
  have "unat (of_nat (8 * s) :: u64) = 8 * s" by (rule unat_of_nat64) (use s in simp)
  then have n: "8 * s \<le> unat val" "unat val < 64" using v by (simp_all add: word_less_nat_alt)
  show "emu_mask (shl64 a (unat (ucast val :: u32))) s = 0"
    using n s by (simp add: take_bit_of_emu shl64_def count_of_word [OF v(1)] take_bit_push_bit)
  have t: "take_bit (8 * s) a = a" using a s by (simp add: take_bit_of_emu)
  have "drop_bit (unat val) (take_bit (8 * s) a) = 0" using n by (simp add: drop_bit_take_bit)
  then show "shr64 a (unat (ucast val :: u32)) = 0" using n unfolding t by (simp add: shr64_def count_of_word [OF v(1)])
qed

lemma emu_mask_sext: "1 \<le> s \<Longrightarrow> s \<le> 8 \<Longrightarrow> emu_mask (sext a s) s = emu_mask a s"
proof -
  assume s: "1 \<le> s" "s \<le> 8"
  have "take_bit (8 * s) (signed_take_bit (8 * s - 1) (uint a)) = take_bit (8 * s) (uint a)"
    using s by (intro take_bit_signed_take_bit) simp
  then have "take_bit (8 * s) (word_of_int (signed_take_bit (8 * s - 1) (uint a)) :: u64) = take_bit (8 * s) a"
    by (metis of_int_uint take_bit_of_int word_of_int_uint)
  then show ?thesis using s by (simp add: take_bit_of_emu sext_eq)
qed

lemma shift_zero: "c \<in> {IntLeft, IntRight, IntSright} \<Longrightarrow> 1 \<le> s \<Longrightarrow> s \<le> 8 \<Longrightarrow> pval c [(s, a), (t, 0)] s = pval Copy [(s, a)] s"
  by (auto simp: pvals alu_def shl64_def shr64_def sar64_def emu_mask_sext)

lemma rule_trivial_shift_sound:
  assumes ok: "graph_ok f" "typed f" and l: "live f p" and c: "po_code (pop f p) \<in> set trivial_shift_oplist"
  shows "sound_at rule_trivial_shift p f"
proof -
  let ?c = "po_code (pop f p)"
  have sh: "shift_op ?c" using c by (auto simp: trivial_shift_oplist_def op_classes)
  obtain out x y where bin: "bin_at f p out x y" using binary_op [OF ok l] sh by blast
  note B = bin_atD [OF bin]
  let ?X = "(vn_size (vn f x), \<lambda>env. env x)" and ?Y = "(vn_size (vn f y), \<lambda>env. env y)"
  let ?val = "constant_value (vn f y)" and ?s = "vn_size (vn f x)"
  have r0: "rw p f f ?c [?X, ?Y]" by (rule rw_begin(1) [OF ok l bin])
  have s: "vn_size (vn f out) = ?s" "1 \<le> ?s" "?s \<le> 8" using B(6) sh by (auto simp: sized_eq(3) narrow_size_def)
  have cs: "sized Copy [?s] ?s" using s by (simp add: sized_eq(1) op_classes narrow_size_def)
  show ?thesis
  proof (cases "is_constant (vn f y) \<and> \<not> (?val \<noteq> 0 \<and> (?val < of_nat (8 * ?s) \<or> ?c = IntSright))")
    case False
    then have "rule_trivial_shift p f = Some (0, f)" by (auto simp: rule_trivial_shift_def B(2) Let_def)
    then show ?thesis by (rule sound_none [OF ok])
  next
    case t: True
    have val: "env y = ?val" if "env_ok f env" for env using env_fits(2) [OF that B(5)] t by blast
    let ?D = "[if ?val = 0 then ?X else (?s, \<lambda>env. 0)]"
    have "\<exists>g. rule_trivial_shift p f = Some (1, g) \<and> rw p f g Copy ?D"
    proof (cases "?val = 0")
      case True
      obtain g1 where g1: "op_remove_input p 1 f = Some g1" "rw p f g1 ?c [?X]" using rw_remove [OF r0, of 1] by auto
      then show ?thesis using rw_opcode [OF g1(2), of Copy] t True by (auto simp: rule_trivial_shift_def B(2) Let_def)
    next
      case False
      obtain g1 where g1: "op_set_input p 0 (fst (new_const ?s 0 f)) (snd (new_const ?s 0 f)) = Some g1" "rw p f g1 ?c [(?s, \<lambda>env. 0), ?Y]"
        using rw_const_set [OF r0 emu_mask_zero, of 0 ?s] by auto
      obtain g2 where g2: "op_remove_input p 1 g1 = Some g2" "rw p f g2 ?c [(?s, \<lambda>env. 0)]" using rw_remove [OF g1(2), of 1] by auto
      then show ?thesis using rw_opcode [OF g2(2), of Copy] t False g1(1)
        by (auto simp: rule_trivial_shift_def B(2) Let_def split_beta)
    qed
    then obtain g where g: "rule_trivial_shift p f = Some (1, g)" "rw p f g Copy ?D" by blast
    have "refines f g"
    proof (rule rw_done [OF g(2) ok B(1)])
      fix env assume e: "env_ok f env"
      have op: "?val < 64" using B(7) [OF e] sh val [OF e] by (simp add: operands_ok_def)
      note fit = env_fits(1) [OF e B(4)]
      have "pval ?c [(?s, env x), (vn_size (vn f y), ?val)] ?s = (if ?val = 0 then pval Copy [(?s, env x)] ?s else 0)"
      proof (cases "?val = 0")
        case True then show ?thesis using shift_zero [of ?c ?s] s c by (simp add: trivial_shift_oplist_def)
      next
        case False
        then have "?c = IntLeft \<or> ?c = IntRight" "\<not> ?val < of_nat (8 * ?s)" using t c by (auto simp: trivial_shift_oplist_def)
        then show ?thesis using shift_out [OF s(2,3) op _ fit] False by (auto simp: pvals alu_def emu_mask_zero)
      qed
      then show "env out = pval Copy (views ?D env) (vn_size (vn f out))"
        using B(8) [OF e] val [OF e] s(1) by (simp add: pvals alu_def emu_mask_def)
    qed (use cs s(1) in auto)
    then show ?thesis by (intro sound_some [of _ _ _ 0 g]) (use g(1) in simp_all)
  qed
qed

subsection \<open>Boolean constants\<close>

lemma rule_trivial_bool_sound:
  assumes ok: "graph_ok f" "typed f" and l: "live f p" and c: "po_code (pop f p) \<in> set trivial_bool_oplist"
  shows "sound_at rule_trivial_bool p f"
proof -
  let ?c = "po_code (pop f p)"
  have b2: "bool2 ?c" using c by (auto simp: trivial_bool_oplist_def op_classes)
  obtain out x y where bin: "bin_at f p out x y" using binary_op [OF ok l] b2 by blast
  note B = bin_atD [OF bin] and I = bin_inputs [OF bin]
  let ?X = "(vn_size (vn f x), \<lambda>env. env x)" and ?Y = "(vn_size (vn f y), \<lambda>env. env y)"
  let ?val = "constant_value (vn f y)"
  have r0: "rw p f f ?c [?X, ?Y]" by (rule rw_begin(1) [OF ok l bin])
  have s: "vn_size (vn f x) = 1" "vn_size (vn f out) = 1" using B(6) b2 by (simp_all add: sized_eq(5))
  show ?thesis
  proof (cases "is_constant (vn f y)")
    case False
    then have "rule_trivial_bool p f = Some (0, f)" by (simp add: rule_trivial_bool_def I)
    then show ?thesis by (rule sound_none [OF ok])
  next
    case t: True
    have val: "env y = ?val" if "env_ok f env" for env using env_fits(2) [OF that B(5) t] .
    let ?c' = "if ?c = BoolXor \<and> ?val = 1 then BoolNegate else Copy"
    let ?d = "if ?c = BoolAnd \<and> ?val \<noteq> 1 then (1, \<lambda>env. 0) else if ?c = BoolOr \<and> ?val = 1 then (1, \<lambda>env. 1) else ?X"
    have "\<exists>g. rule_trivial_bool p f = Some (1, g) \<and> rw p f g ?c' [?d]"
    proof (cases "?c = BoolAnd \<and> ?val \<noteq> 1 \<or> ?c = BoolOr \<and> ?val = 1")
      case True
      let ?k = "if ?c = BoolOr then 1 else 0 :: u64"
      obtain k g0 where n: "new_const 1 ?k f = (k, g0)" by fastforce
      have R: "rw p f g0 ?c [?X, ?Y]" "den f g0 k (1, \<lambda>env. ?k)"
        using rw_const [OF r0 _ n] by (auto simp: emu_mask_def shl64_def)
      obtain g1 where g1: "op_remove_input p 1 g0 = Some g1" "rw p f g1 ?c [?X]" "rstep p f g0 g1" using rw_remove [OF R(1), of 1] by auto
      have R2: "rw p f (op_set_opcode p Copy g1) Copy [?X]" "rstep p f g1 (op_set_opcode p Copy g1)" using rw_opcode [OF g1(2)] by blast+
      have d: "den f (op_set_opcode p Copy g1) k (1, \<lambda>env. ?k)" using rw_den(1) [OF R(1) g1(3) R(2)] rw_den(1) [OF g1(2) R2(2)] by blast
      obtain g2 where "op_set_input p 0 k (op_set_opcode p Copy g1) = Some g2" "rw p f g2 Copy [(1, \<lambda>env. ?k)]"
        using rw_set [OF R2(1) d, of 0] by auto
      then show ?thesis using True n g1(1) t by (auto simp: rule_trivial_bool_def I split: if_splits)
    next
      case False
      obtain g1 where g1: "op_remove_input p 1 f = Some g1" "rw p f g1 ?c [?X]" using rw_remove [OF r0, of 1] by auto
      have R2: "rw p f (op_set_opcode p ?c' g1) ?c' [?X]" using rw_opcode [OF g1(2)] by blast
      obtain g2 where g2: "op_set_input p 0 x (op_set_opcode p ?c' g1) = Some g2" "rw p f g2 ?c' [?X]"
        using rw_set [OF R2 den_start [OF R2 B(4)], of 0] by auto
      have dX: "?d = ?X" using False by auto
      have "rule_trivial_bool p f = Some (1, g2)"
        using False g2(1) g1(1) t c by (auto simp: rule_trivial_bool_def I trivial_bool_oplist_def split: if_splits)
      then show ?thesis unfolding dX using g2(2) by blast
    qed
    then obtain g where g: "rule_trivial_bool p f = Some (1, g)" "rw p f g ?c' [?d]" by blast
    have "refines f g"
    proof (rule rw_done [OF g(2) ok B(1)])
      show "pure_op ?c'" by (simp add: op_classes)
      show "sized ?c' (map fst [?d]) (vn_size (vn f out))" using s by (auto simp: sized_eq op_classes narrow_size_def)
      fix env assume e: "env_ok f env"
      have o: "env x \<le> 1" "?val \<le> 1" using B(7) [OF e] b2 val [OF e] by (auto simp: operands_ok_def bool_op_def)
      show "operands_ok ?c' (views [?d] env)" using o by (auto simp: operands_ok_def op_classes)
      have "pval ?c [(1, env x), (vn_size (vn f y), ?val)] 1 = pval ?c' (views [?d] env) 1"
        using pval_le_one [OF o(1)] pval_le_one [OF o(2)] c by (auto simp: trivial_bool_oplist_def pvals alu_def of_bool64_def)
      then show "env out = pval ?c' (views [?d] env) (vn_size (vn f out))" using B(8) [OF e] val [OF e] s by simp
    qed
    then show ?thesis by (intro sound_some [of _ _ _ 0 g]) (use g(1) in simp_all)
  qed
qed

subsection \<open>Values modulo a size\<close>

lemma emu_of_int: "1 \<le> s \<Longrightarrow> s \<le> 8 \<Longrightarrow> emu_mask (word_of_int k) s = word_of_int (take_bit (8 * s) k)"
  by (simp add: take_bit_of_emu take_bit_of_int)

lemma calc_mask_int: "1 \<le> s \<Longrightarrow> s \<le> 8 \<Longrightarrow> calc_mask s = word_of_int (2 ^ (8 * s) - 1)"
  by (simp add: calc_mask_eq min_def mask_eq_exp_minus_1)

lemma calc_mask_fits: "1 \<le> s \<Longrightarrow> s \<le> 8 \<Longrightarrow> emu_mask (calc_mask s) s = calc_mask s"
  by (simp add: calc_mask_eq min_def emu_mask_eq)

lemma fits_le: "1 \<le> s \<Longrightarrow> s \<le> 8 \<Longrightarrow> emu_mask v s = v \<Longrightarrow> v \<le> calc_mask s"
  by (metis calc_mask_eq emu_mask_eq min.absorb1 word_and_le1)

lemma rmask_emu: "1 \<le> s \<Longrightarrow> rmask v s = emu_mask v s"
  by (simp add: rmask_def emu_mask_def mult.commute)

lemma emu_all_ones: "1 \<le> s \<Longrightarrow> s \<le> 8 \<Longrightarrow> emu_mask (- 1) s = calc_mask s"
  by (simp add: calc_mask_eq min_def emu_mask_eq)

lemma times_minus_one:
  assumes s: "1 \<le> s" "s \<le> 8"
  shows "emu_mask (a * calc_mask s) s = emu_mask (- a) s"
proof -
  let ?n = "8 * s"
  have a: "a * calc_mask s = word_of_int (uint a * (2 ^ ?n - 1))" "- a = word_of_int (- uint a)"
    using calc_mask_int [OF s] by simp_all
  have "uint a * (2 ^ ?n - 1) = - uint a + uint a * 2 ^ ?n" by (simp add: algebra_simps)
  then have "take_bit ?n (uint a * (2 ^ ?n - 1)) = take_bit ?n (- uint a)" unfolding take_bit_eq_mod by (simp only: mod_mult_self1)
  then show ?thesis unfolding a emu_of_int [OF s] by simp
qed

subsection \<open>Negation as a product, and back\<close>

lemma rule_2comp2mult_sound:
  assumes ok: "graph_ok f" "typed f" and l: "live f p" and c: "po_code (pop f p) = Int2comp"
  shows "sound_at rule_2comp2mult p f"
proof -
  have "arith1 (po_code (pop f p))" by (simp add: c op_classes)
  then obtain out x where un: "un_at f p out x" using unary_op [OF ok l] by blast
  note U = un_atD [OF un]
  let ?s = "vn_size (vn f x)" and ?f = "op_set_opcode p IntMult f"
  have s: "vn_size (vn f out) = ?s" "1 \<le> ?s" "?s \<le> 8" using U(5) by (auto simp: c sized_eq(1) op_classes narrow_size_def)
  have r1: "rw p f ?f IntMult [(?s, \<lambda>env. env x)]" using rw_opcode [OF rw_begin(2) [OF ok l un]] by blast
  obtain k g0 where n: "new_const ?s (calc_mask ?s) ?f = (k, g0)" by fastforce
  have r2: "rw p f g0 IntMult [(?s, \<lambda>env. env x)]" "den f g0 k (?s, \<lambda>env. calc_mask ?s)"
    using rw_const [OF r1 calc_mask_fits [OF s(2,3)] n] by blast+
  obtain g where g: "op_insert_input p 1 k g0 = Some g" "rw p f g IntMult [(?s, \<lambda>env. env x), (?s, \<lambda>env. calc_mask ?s)]"
    using rw_insert [OF r2, of 1] by (auto simp: insert_at_def)
  have in0: "op_input ?f p 0 = Some x" "vn_size (vn ?f x) = ?s"
    using U(2) by (simp_all add: op_input_def op_set_opcode_def fd_simps)
  have a: "rule_2comp2mult p f = Some (Suc 0, g)" unfolding rule_2comp2mult_def Let_def using g(1) by (simp add: in0 n)
  have "refines f g"
  proof (rule rw_done [OF g(2) ok U(1)])
    show "sized IntMult (map fst [(?s, \<lambda>env. env x), (?s, \<lambda>env. calc_mask ?s)]) (vn_size (vn f out))"
      using s by (simp add: sized_eq(2) op_classes narrow_size_def)
    fix env assume e: "env_ok f env"
    show "env out = pval IntMult (views [(?s, \<lambda>env. env x), (?s, \<lambda>env. calc_mask ?s)] env) (vn_size (vn f out))"
      using U(7) [OF e] times_minus_one [OF s(2,3)] by (simp add: c pvals alu_def s(1))
  qed (simp_all add: op_classes operands_ok_def)
  then show ?thesis by (intro sound_some [of _ _ _ 0 g]) (use a in simp_all)
qed

lemma rule_mult_neg_one_sound:
  assumes ok: "graph_ok f" "typed f" and l: "live f p" and c: "po_code (pop f p) = IntMult"
  shows "sound_at rule_mult_neg_one p f"
proof -
  have "arith2 (po_code (pop f p))" by (simp add: c op_classes)
  then obtain out x y where bin: "bin_at f p out x y" using binary_op [OF ok l] by blast
  note B = bin_atD [OF bin] and I = bin_inputs [OF bin]
  let ?s = "vn_size (vn f x)"
  have s: "vn_size (vn f y) = ?s" "vn_size (vn f out) = ?s" "1 \<le> ?s" "?s \<le> 8"
    using B(6) by (auto simp: c sized_eq(2) op_classes narrow_size_def)
  show ?thesis
  proof (cases "is_constant (vn f y) \<and> constant_value (vn f y) = rmask (- 1) (vn_size (vn f y))")
    case False
    then have "rule_mult_neg_one p f = Some (0, f)" by (auto simp: rule_mult_neg_one_def I)
    then show ?thesis by (rule sound_none [OF ok])
  next
    case True
    then have v: "env y = calc_mask ?s" if "env_ok f env" for env
      using env_fits(2) [OF that B(5)] s by (simp add: rmask_emu emu_all_ones)
    have r1: "rw p f (op_set_opcode p Int2comp f) Int2comp [(?s, \<lambda>env. env x), (vn_size (vn f y), \<lambda>env. env y)]"
      using rw_opcode [OF rw_begin(1) [OF ok l bin]] by blast
    obtain g where g: "op_remove_input p 1 (op_set_opcode p Int2comp f) = Some g" "rw p f g Int2comp [(?s, \<lambda>env. env x)]"
      using rw_remove [OF r1, of 1] by auto
    have "refines f g"
    proof (rule rw_done [OF g(2) ok B(1)])
      show "sized Int2comp (map fst [(?s, \<lambda>env. env x)]) (vn_size (vn f out))" using s by (simp add: sized_eq(1) op_classes narrow_size_def)
      fix env assume e: "env_ok f env"
      show "env out = pval Int2comp (views [(?s, \<lambda>env. env x)] env) (vn_size (vn f out))"
        using B(8) [OF e] times_minus_one [OF s(3,4)] v [OF e] by (simp add: c pvals alu_def s(2))
    qed (simp_all add: op_classes operands_ok_def)
    then show ?thesis by (intro sound_some [of _ _ _ 0 g]) (use True g(1) in \<open>simp_all add: rule_mult_neg_one_def I Let_def\<close>)
  qed
qed

subsection \<open>Comparisons with the ends of the range\<close>

lemma rule_less_one_sound:
  assumes ok: "graph_ok f" "typed f" and l: "live f p" and c: "po_code (pop f p) \<in> set less_one_oplist"
  shows "sound_at rule_less_one p f"
proof -
  let ?c = "po_code (pop f p)"
  have cmp: "compare_op ?c" using c by (auto simp: less_one_oplist_def op_classes)
  obtain out x y where bin: "bin_at f p out x y" using binary_op [OF ok l] cmp by blast
  note B = bin_atD [OF bin] and I = bin_inputs [OF bin]
  let ?s = "vn_size (vn f x)" and ?val = "constant_value (vn f y)"
  let ?X = "(?s, \<lambda>env. env x)" and ?Y = "(?s, \<lambda>env. env y)"
  have s: "vn_size (vn f y) = ?s" "vn_size (vn f out) = 1" "narrow_size ?s" using B(6) cmp by (auto simp: sized_eq(4))
  show ?thesis
  proof (cases "is_constant (vn f y) \<and> (?c = IntLess \<longrightarrow> ?val = 1) \<and> (?c = IntLessequal \<longrightarrow> ?val = 0)")
    case False
    then have "rule_less_one p f = Some (0, f)" by (auto simp: rule_less_one_def I Let_def)
    then show ?thesis by (rule sound_none [OF ok])
  next
    case t: True
    have val: "env y = ?val" if "env_ok f env" for env using env_fits(2) [OF that B(5)] t by blast
    have r1: "rw p f (op_set_opcode p IntEqual f) IntEqual [?X, ?Y]"
      using rw_opcode [OF rw_begin(1) [OF ok l bin]] s by auto
    have vs: "vn (op_set_opcode p IntEqual f) = vn f" by (simp add: op_set_opcode_def fd_simps)
    obtain g where g: "rule_less_one p f = Some (1, g)" "rw p f g IntEqual [?X, (?s, \<lambda>env. if ?val \<noteq> 0 then 0 else env y)]"
    proof (cases "?val = 0")
      case True
      then show thesis using that [of "op_set_opcode p IntEqual f"] r1 t c by (auto simp: rule_less_one_def I Let_def less_one_oplist_def)
    next
      case False
      show thesis
        using rw_const_set [OF r1 emu_mask_zero, of 1 ?s] that t c False s
        by (auto simp: rule_less_one_def I Let_def less_one_oplist_def split_beta vs)
    qed
    have "refines f g"
    proof (rule rw_done [OF g(2) ok B(1)])
      show "sized IntEqual (map fst [?X, (?s, \<lambda>env. if ?val \<noteq> 0 then 0 else env y)]) (vn_size (vn f out))"
        using s by (simp add: sized_eq(4) op_classes)
      fix env assume e: "env_ok f env"
      have "(env x < 1) = (env x = 0)" "(env x \<le> 0) = (env x = 0)" by (simp_all add: word_less_1 word_le_0_iff)
      then show "env out = pval IntEqual (views [?X, (?s, \<lambda>env. if ?val \<noteq> 0 then 0 else env y)] env) (vn_size (vn f out))"
        using B(8) [OF e] val [OF e] t c by (auto simp: less_one_oplist_def pvals alu_def)
    qed (simp_all add: op_classes operands_ok_def)
    then show ?thesis by (intro sound_some [of _ _ _ 0 g]) (use g(1) in simp_all)
  qed
qed

lemma copy_false_rw:
  assumes r: "rw p f f c [d, d']"
  shows "\<exists>g. copy_false p f = Some (1, g) \<and> rw p f g Copy [(1, \<lambda>env. 0)]"
proof -
  obtain k g0 where n: "new_const 1 0 f = (k, g0)" by fastforce
  have R: "rw p f g0 c [d, d']" "den f g0 k (1, \<lambda>env. 0)" using rw_const [OF r emu_mask_zero n] by blast+
  have R2: "rw p f (op_set_opcode p Copy g0) Copy [d, d']" "rstep p f g0 (op_set_opcode p Copy g0)" using rw_opcode [OF R(1)] by blast+
  obtain g1 where g1: "op_remove_input p 1 (op_set_opcode p Copy g0) = Some g1" "rw p f g1 Copy [d]" "rstep p f (op_set_opcode p Copy g0) g1"
    using rw_remove [OF R2(1), of 1] by auto
  have dk: "den f g1 k (1, \<lambda>env. 0)" using rw_den(1) [OF R(1) R2(2) R(2)] rw_den(1) [OF R2(1) g1(3)] by blast
  obtain g where "op_set_input p 0 k g1 = Some g" "rw p f g Copy [(1, \<lambda>env. 0)]" using rw_set [OF g1(2) dk, of 0] by auto
  then show ?thesis using n g1(1) by (simp add: copy_false_def Let_def)
qed

lemma zero_value: "pval Copy [(s, 0)] os = 0"
  by (simp add: pvals alu_def emu_mask_zero)

lemma sized_bool_copy: "sized Copy [1] (Suc 0)" "sized Copy [Suc 0] (Suc 0)"
  by (simp_all add: sized_eq(1) op_classes narrow_size_def)

lemma rule_less2zero_sound:
  assumes ok: "graph_ok f" "typed f" and l: "live f p" and c: "po_code (pop f p) = IntLess"
  shows "sound_at rule_less2zero p f"
proof -
  have cmp: "compare_op (po_code (pop f p))" by (simp add: c op_classes)
  obtain out x y where bin: "bin_at f p out x y" using binary_op [OF ok l] cmp by blast
  note B = bin_atD [OF bin] and I = bin_inputs [OF bin]
  let ?s = "vn_size (vn f x)" and ?cx = "constant_value (vn f x)" and ?cy = "constant_value (vn f y)"
  let ?X = "(?s, \<lambda>env. env x)" and ?Y = "(vn_size (vn f y), \<lambda>env. env y)"
  have s: "vn_size (vn f y) = ?s" "vn_size (vn f out) = 1" "1 \<le> ?s" "?s \<le> 8"
    using B(6) cmp by (auto simp: sized_eq(4) narrow_size_def)
  have r0: "rw p f f IntLess [?X, ?Y]" using rw_begin(1) [OF ok l bin] c by simp
  have kx: "env x = ?cx" if "env_ok f env" "is_constant (vn f x)" for env using env_fits(2) [OF that(1) B(4) that(2)] .
  have ky: "env y = ?cy" if "env_ok f env" "is_constant (vn f y)" for env using env_fits(2) [OF that(1) B(5) that(2)] .
  have top: "env x \<le> calc_mask ?s" "env y \<le> calc_mask ?s" if "env_ok f env" for env
    using env_fits(1) [OF that B(4)] env_fits(1) [OF that B(5)] fits_le [OF s(3,4)] s(1) by simp_all
  have less: "env out = of_bool64 (env x < env y)" if "env_ok f env" for env
    using B(8) [OF that] by (simp add: c pvals alu_def flag_byte s(2))
  have ne: "sound_at rule_less2zero p f"
    if a: "rule_less2zero p f = Some (1, op_set_opcode p IntNotequal f)" and v: "\<And>env. env_ok f env \<Longrightarrow> (env x < env y) = (env x \<noteq> env y)"
  proof -
    have "refines f (op_set_opcode p IntNotequal f)"
    proof (rule rw_done [OF conjunct1 [OF rw_opcode [OF r0]] ok B(1)])
      show "sized IntNotequal (map fst [?X, ?Y]) (vn_size (vn f out))" using s by (simp add: sized_eq(4) op_classes narrow_size_def)
      show "env out = pval IntNotequal (views [?X, ?Y] env) (vn_size (vn f out))" if "env_ok f env" for env
        using less [OF that] v [OF that] by (simp add: pvals alu_def flag_byte s(2))
    qed (simp_all add: op_classes operands_ok_def)
    then show ?thesis by (intro sound_some [of _ _ _ 0 "op_set_opcode p IntNotequal f"]) (use a in simp_all)
  qed
  have no: "sound_at rule_less2zero p f"
    if a: "rule_less2zero p f = copy_false p f" and v: "\<And>env. env_ok f env \<Longrightarrow> \<not> env x < env y"
  proof -
    obtain g where g: "copy_false p f = Some (1, g)" "rw p f g Copy [(1, \<lambda>env. 0)]" using copy_false_rw [OF r0] by blast
    have "refines f g"
      by (rule rw_done [OF g(2) ok B(1)]) (use less v in \<open>simp_all add: s(2) zero_value of_bool64_def sized_bool_copy\<close>)
    then show ?thesis by (intro sound_some [of _ _ _ 0 g]) (use a g(1) in simp_all)
  qed
  consider "is_constant (vn f x)" "?cx = 0" | "is_constant (vn f x)" "?cx \<noteq> 0" "?cx = calc_mask ?s"
    | "\<not> is_constant (vn f x)" "is_constant (vn f y)" "?cy = 0"
    | "\<not> is_constant (vn f x)" "is_constant (vn f y)" "?cy \<noteq> 0" "?cy = calc_mask ?s"
    | "\<not> (is_constant (vn f x) \<and> (?cx = 0 \<or> ?cx = calc_mask ?s))" "\<not> (\<not> is_constant (vn f x) \<and> is_constant (vn f y) \<and> (?cy = 0 \<or> ?cy = calc_mask ?s))"
    by blast
  then show ?thesis
  proof cases
    case 1 then show ?thesis by (intro ne) (auto simp: rule_less2zero_def I kx word_neq_0_conv)
  next
    case 2 then show ?thesis by (intro no) (use top in \<open>auto simp: rule_less2zero_def I kx not_less\<close>)
  next
    case 3 then show ?thesis by (intro no) (auto simp: rule_less2zero_def I ky)
  next
    case 4
    have "(env x < env y) = (env x \<noteq> env y)" if "env_ok f env" for env
      using top(1) [OF that] ky [OF that 4(2)] 4(4) by (auto simp: order.strict_iff_order)
    then show ?thesis using 4 s(1) by (intro ne) (auto simp: rule_less2zero_def I)
  next
    case 5
    then have "rule_less2zero p f = Some (0, f)" by (auto simp: rule_less2zero_def I s(1))
    then show ?thesis by (rule sound_none [OF ok])
  qed
qed

subsection \<open>Masks, carries and double negation\<close>

lemma drop_inputs_shape:
  "num_varnodes (drop_inputs p g) = num_varnodes g" "num_ops (drop_inputs p g) = num_ops g"
  "vn_size (vn (drop_inputs p g) v) = vn_size (vn g v)" "vn_flags (vn (drop_inputs p g) v) = vn_flags (vn g v)"
  "vn_loc (vn (drop_inputs p g) v) = vn_loc (vn g v)"
  "p < num_ops g \<Longrightarrow> pop (drop_inputs p g) q = (if q = p then (pop g p)\<lparr>po_inrefs := []\<rparr> else pop g q)"
proof -
  have *: "num_varnodes (fold (drop_reader p) vs h) = num_varnodes h" "vn_size (vn (fold (drop_reader p) vs h) v) = vn_size (vn h v)"
    "vn_flags (vn (fold (drop_reader p) vs h) v) = vn_flags (vn h v)" "vn_loc (vn (fold (drop_reader p) vs h) v) = vn_loc (vn h v)" for vs h
    by (induction vs arbitrary: h) (simp_all add: fd_simps reader_keeps)
  show "num_varnodes (drop_inputs p g) = num_varnodes g" "vn_size (vn (drop_inputs p g) v) = vn_size (vn g v)"
    "vn_flags (vn (drop_inputs p g) v) = vn_flags (vn g v)" "vn_loc (vn (drop_inputs p g) v) = vn_loc (vn g v)"
    by (simp_all add: drop_inputs_def * fd_simps)
qed (simp_all add: pop_def num_ops_def drop_inputs_ops nth_upd_any)

lemma rw_drop: "rw p f g c D \<Longrightarrow> rw p f (drop_inputs p g) c [] \<and> rstep p f g (drop_inputs p g)"
proof -
  assume r: "rw p f g c D"
  show ?thesis
  proof (rule rw_wire [OF r])
    show "graph_ok (drop_inputs p g)" by (rule drop_inputs_ok(1) [OF rw_inrefs(4) [OF r] rw_inrefs(3) [OF r]])
    show "pop (drop_inputs p g) q = (if q = p then (pop g p)\<lparr>po_inrefs := []\<rparr> else pop g q)" for q
      by (rule drop_inputs_shape(6) [OF rw_inrefs(3) [OF r]])
  qed (simp_all add: drop_inputs_shape)
qed

lemma rw_set_all:
  assumes r: "rw p f g c D" and E: "list_all2 (den f g) vs E"
  shows "rw p f (op_set_all_input p vs g) c E \<and> rstep p f g (op_set_all_input p vs g)"
proof -
  have *: "rw p f (fold (op_append_input p) vs h) c (D' @ E) \<and> rstep p f h (fold (op_append_input p) vs h)"
    if "rw p f h c D'" "list_all2 (den f h) vs E" for h D' vs E
    using that
  proof (induction vs arbitrary: h D' E)
    case Nil
    have "rstep p f h h" by (rule rstep_consts [OF Nil(1) rw_inrefs(4) [OF Nil(1)]]) simp_all
    then show ?case using Nil by simp
  next
    case (Cons v vs)
    obtain d E' where E: "E = d # E'" "den f h v d" "list_all2 (den f h) vs E'" using Cons.prems(2) by (auto simp: list_all2_Cons1)
    note A = rw_append [OF Cons.prems(1) E(2)]
    have "rw p f (fold (op_append_input p) vs (op_append_input p v h)) c ((D' @ [d]) @ E')
        \<and> rstep p f (op_append_input p v h) (fold (op_append_input p) vs (op_append_input p v h))"
      by (rule Cons.IH) (use A rw_den(2) [OF Cons.prems(1)] E(3) in blast)+
    then show ?case using A rw_trans [OF Cons.prems(1)] unfolding E(1) by simp blast
  qed
  have d: "rw p f (drop_inputs p g) c []" "rstep p f g (drop_inputs p g)" using rw_drop [OF r] by blast+
  show ?thesis using * [OF d(1) rw_den(2) [OF r d(2) E]] rw_trans [OF r d(2)] by (simp add: op_set_all_input_def)
qed

lemma or_ones:
  assumes s: "1 \<le> s" "s \<le> 8"
  shows "emu_mask c s = calc_mask s \<Longrightarrow> emu_mask (a OR c) s = calc_mask s"
proof -
  assume c: "emu_mask c s = calc_mask s"
  have "emu_mask (a OR c) s = emu_mask a s OR emu_mask c s" using s by (simp add: take_bit_of_emu take_bit_or)
  also have "\<dots> = calc_mask s" unfolding c using s by (simp add: calc_mask_eq min_def emu_mask_eq bit_eq_iff bit_or_iff bit_and_iff bit_mask_iff)
  finally show ?thesis .
qed

lemma rule_or_mask_sound:
  assumes ok: "graph_ok f" "typed f" and l: "live f p" and c: "po_code (pop f p) = IntOr"
  shows "sound_at rule_or_mask p f"
proof -
  have "arith2 (po_code (pop f p))" by (simp add: c op_classes)
  then obtain out x y where bin: "bin_at f p out x y" using binary_op [OF ok l] by blast
  note B = bin_atD [OF bin] and I = bin_inputs [OF bin]
  let ?s = "vn_size (vn f y)"
  have s: "vn_size (vn f x) = ?s" "vn_size (vn f out) = ?s" "1 \<le> ?s" "?s \<le> 8"
    using B(6) by (auto simp: c sized_eq(2) op_classes narrow_size_def)
  show ?thesis
  proof (cases "is_constant (vn f y) \<and> rmask (constant_value (vn f y)) ?s = rmask (- 1) ?s")
    case False
    then have "rule_or_mask p f = Some (0, f)" using s by (auto simp: rule_or_mask_def B(1) I Let_def)
    then show ?thesis by (rule sound_none [OF ok])
  next
    case True
    let ?g = "op_set_all_input p [y] (op_set_opcode p Copy f)"
    have r1: "rw p f (op_set_opcode p Copy f) Copy [(vn_size (vn f x), \<lambda>env. env x), (?s, \<lambda>env. env y)]"
      using rw_opcode [OF rw_begin(1) [OF ok l bin]] by blast
    have g: "rw p f ?g Copy [(?s, \<lambda>env. env y)]" using rw_set_all [OF r1, of "[y]"] den_start [OF r1 B(5)] by simp
    have "refines f ?g"
    proof (rule rw_done [OF g ok B(1)])
      show "sized Copy (map fst [(?s, \<lambda>env. env y)]) (vn_size (vn f out))" using s by (simp add: sized_eq(1) op_classes narrow_size_def)
      fix env assume e: "env_ok f env"
      have y: "emu_mask (env y) ?s = calc_mask ?s" using env_fits(2) [OF e B(5)] True s by (simp add: rmask_emu emu_all_ones)
      show "env out = pval Copy (views [(?s, \<lambda>env. env y)] env) (vn_size (vn f out))"
        using B(8) [OF e] or_ones [OF s(3,4) y] y by (simp add: c pvals alu_def s(2))
    qed (simp_all add: op_classes)
    then show ?thesis by (intro sound_some [of _ _ _ 0 ?g]) (use True s in \<open>simp_all add: rule_or_mask_def B(1) I Let_def\<close>)
  qed
qed

lemma unat_fits: "1 \<le> s \<Longrightarrow> s \<le> 8 \<Longrightarrow> emu_mask v s = v \<Longrightarrow> unat v < 2 ^ (8 * s)"
  by (metis emu_mask_eq mod_less_divisor unat_and_mask zero_less_numeral zero_less_power)

lemma unat_calc_mask: "1 \<le> s \<Longrightarrow> s \<le> 8 \<Longrightarrow> unat (calc_mask s) = 2 ^ (8 * s) - 1"
  by (simp add: calc_mask_eq min_def unat_mask64)

lemma pow_le64: "s \<le> 8 \<Longrightarrow> (2::nat) ^ (8 * s) \<le> 2 ^ 64"
  by (intro power_increasing) simp_all

lemma carry_iff:
  assumes s: "1 \<le> s" "s \<le> 8" and a: "emu_mask a s = a" "emu_mask b s = b"
  shows "(a + b > emu_mask (- 1) s \<or> checked_add64 a b = None) \<longleftrightarrow> 2 ^ (8 * s) \<le> unat a + unat b"
proof (cases "unat a + unat b < 2 ^ 64")
  case True
  then have "unat (a + b) = unat a + unat b" by (simp add: unat_word_ariths)
  moreover have "(0 :: nat) < 2 ^ (8 * s)" by simp
  then have "2 ^ (8 * s) - 1 < n \<longleftrightarrow> 2 ^ (8 * s) \<le> n" for n :: nat by arith
  ultimately show ?thesis using True unat_calc_mask [OF s] by (simp add: emu_all_ones [OF s] word_less_nat_alt checked_add64_def)
next
  case False
  then show ?thesis using pow_le64 [OF s(2)] by (simp add: checked_add64_def)
qed

lemma unat_negated:
  assumes s: "1 \<le> s" "s \<le> 8" and c: "emu_mask c s = c" "c \<noteq> 0"
  shows "unat ((- c) AND calc_mask s) = 2 ^ (8 * s) - unat c"
proof -
  let ?n = "2 ^ (8 * s) :: nat"
  have c': "0 < unat c" "unat c < ?n" using unat_fits [OF s c(1)] c(2) by (simp_all add: unat_gt_0)
  have d: "?n dvd 2 ^ 64" using s by (intro le_imp_power_dvd) simp
  have "unat (- c) = 2 ^ 64 - unat c" using unat_sub_if' [of 0 c] c(2) by (simp add: unat_eq_0)
  moreover have "(2 ^ 64 - unat c) mod ?n = ?n - unat c"
  proof -
    obtain k where k: "2 ^ 64 = ?n * k" using d by blast
    have "2 ^ 64 - unat c = (?n - unat c) + ?n * (k - 1)"
      using c' k by (cases k) (simp_all add: algebra_simps)
    then have "(2 ^ 64 - unat c) mod ?n = (?n - unat c) mod ?n" by (simp only: mod_mult_self2)
    also have "\<dots> = ?n - unat c" using c' by (intro mod_less) linarith
    finally show ?thesis .
  qed
  ultimately show ?thesis using s by (simp add: calc_mask_eq min_def unat_and_mask)
qed

lemma carry_elim_value:
  assumes s: "1 \<le> s" "s \<le> 8" and a: "emu_mask a s = a" and c: "emu_mask c s = c" "c \<noteq> 0"
  shows "pval IntCarry [(s, a), (s, c)] 1 = pval IntLessequal [(s, (- c) AND calc_mask s), (s, a)] 1"
proof -
  have "unat c < 2 ^ (8 * s)" by (rule unat_fits [OF s c(1)])
  then have "(2 ^ (8 * s) \<le> unat a + unat c) = ((- c) AND calc_mask s \<le> a)"
    using unat_negated [OF s c] by (simp add: word_le_nat_alt) linarith
  then show ?thesis using carry_iff [OF s a c(1)] by (simp add: pvals alu_def Let_def a c(1))
qed

lemma carry_zero:
  assumes s: "1 \<le> s" "s \<le> 8" and a: "emu_mask a s = a"
  shows "pval IntCarry [(s, a), (s, 0)] 1 = 0"
  using carry_iff [OF s a, of 0] unat_fits [OF s a] by (auto simp: pvals alu_def Let_def a emu_mask_zero of_bool64_def)

lemma negated_fits: "1 \<le> s \<Longrightarrow> s \<le> 8 \<Longrightarrow> emu_mask (x AND calc_mask s) s = x AND calc_mask s"
  by (simp add: calc_mask_eq min_def emu_mask_eq and.assoc)

lemma rule_carry_elim_sound:
  assumes ok: "graph_ok f" "typed f" and l: "live f p" and c: "po_code (pop f p) = IntCarry"
  shows "sound_at rule_carry_elim p f"
proof -
  have cmp: "compare_op (po_code (pop f p))" by (simp add: c op_classes)
  obtain out x y where bin: "bin_at f p out x y" using binary_op [OF ok l] cmp by blast
  note B = bin_atD [OF bin] and I = bin_inputs [OF bin]
  let ?s = "vn_size (vn f x)" and ?k = "constant_value (vn f y)"
  let ?X = "(?s, \<lambda>env. env x)" and ?Y = "(vn_size (vn f y), \<lambda>env. env y)"
  have s: "vn_size (vn f y) = ?s" "vn_size (vn f out) = 1" "1 \<le> ?s" "?s \<le> 8"
    using B(6) cmp by (auto simp: sized_eq(4) narrow_size_def)
  have r0: "rw p f f IntCarry [?X, ?Y]" using rw_begin(1) [OF ok l bin] c by simp
  show ?thesis
  proof (cases "is_constant (vn f y) \<and> \<not> is_free (vn f x)")
    case False
    then have "rule_carry_elim p f = Some (0, f)" by (auto simp: rule_carry_elim_def I)
    then show ?thesis by (rule sound_none [OF ok])
  next
    case t: True
    have ky: "env y = ?k" if "env_ok f env" for env using env_fits(2) [OF that B(5)] t by blast
    have kf: "emu_mask ?k ?s = ?k" if "env_ok f env" for env using env_fits(1) [OF that B(5)] ky [OF that] s by simp
    note xf = env_fits(1) [OF _ B(4)]
    show ?thesis
    proof (cases "?k = 0")
      case True
      obtain g1 where g1: "op_remove_input p 1 f = Some g1" "rw p f g1 IntCarry [?X]" using rw_remove [OF r0, of 1] by auto
      obtain g2 where g2: "op_set_input p 0 (fst (new_const 1 0 g1)) (snd (new_const 1 0 g1)) = Some g2" "rw p f g2 IntCarry [(1, \<lambda>env. 0)]"
        using rw_const_set [OF g1(2) emu_mask_zero, of 0 1] by auto
      let ?g = "op_set_opcode p Copy g2"
      have "refines f ?g"
      proof (rule rw_done [OF conjunct1 [OF rw_opcode [OF g2(2)]] ok B(1)])
        fix env assume e: "env_ok f env"
        show "env out = pval Copy (views [(1, \<lambda>env. 0)] env) (vn_size (vn f out))"
          using B(8) [OF e] carry_zero [OF s(3,4) xf [OF e]] ky [OF e] True by (simp add: c s zero_value)
      qed (simp_all add: s(2) sized_bool_copy)
      then show ?thesis by (intro sound_some [of _ _ _ 0 ?g]) (use t True g1 g2 in \<open>simp_all add: rule_carry_elim_def I split_beta Let_def\<close>)
    next
      case nz: False
      let ?off = "(- ?k) AND calc_mask ?s"
      have r1: "rw p f (op_set_opcode p IntLessequal f) IntLessequal [?X, ?Y]" using rw_opcode [OF r0] by blast
      obtain g1 where g1: "op_set_input p 1 x (op_set_opcode p IntLessequal f) = Some g1" "rw p f g1 IntLessequal [?X, ?X]"
        using rw_set [OF r1 den_start [OF r1 B(4)], of 1] by auto
      obtain g where g: "op_set_input p 0 (fst (new_const ?s ?off g1)) (snd (new_const ?s ?off g1)) = Some g"
        "rw p f g IntLessequal [(?s, \<lambda>env. ?off), ?X]"
        using rw_const_set [OF g1(2) negated_fits [OF s(3,4)], of 0 "- ?k"] by auto
      have vs: "vn_size (vn g1 x) = ?s" using g1(2) sframeD(5) [of p f g1 x] B(4) by (simp add: rw_def)
      have "refines f g"
      proof (rule rw_done [OF g(2) ok B(1)])
        show "sized IntLessequal (map fst [(?s, \<lambda>env. ?off), ?X]) (vn_size (vn f out))" using s by (simp add: sized_eq(4) op_classes narrow_size_def)
        fix env assume e: "env_ok f env"
        show "env out = pval IntLessequal (views [(?s, \<lambda>env. ?off), ?X] env) (vn_size (vn f out))"
          using B(8) [OF e] carry_elim_value [OF s(3,4) xf [OF e] kf [OF e] nz] ky [OF e] by (simp add: c s)
      qed (simp_all add: op_classes operands_ok_def)
      moreover have "rule_carry_elim p f = Some (1, g)" using t nz g1(1) g(1) vs by (simp add: rule_carry_elim_def I split_beta Let_def s(1))
      ultimately show ?thesis by (intro sound_some [of _ _ _ 0 g]) simp_all
    qed
  qed
qed

lemma rule_bxor2notequal_sound:
  assumes ok: "graph_ok f" "typed f" and l: "live f p" and c: "po_code (pop f p) = BoolXor"
  shows "sound_at rule_bxor2notequal p f"
proof -
  have b2: "bool2 (po_code (pop f p))" by (simp add: c op_classes)
  obtain out x y where bin: "bin_at f p out x y" using binary_op [OF ok l] b2 by blast
  note B = bin_atD [OF bin]
  have s: "vn_size (vn f x) = 1" "vn_size (vn f y) = 1" "vn_size (vn f out) = 1" using B(6) b2 by (simp_all add: sized_eq(5))
  let ?D = "[(1::nat, \<lambda>env. env x), (1, \<lambda>env. env y)]" and ?g = "op_set_opcode p IntNotequal f"
  have g: "rw p f ?g IntNotequal ?D" using rw_opcode [OF rw_begin(1) [OF ok l bin]] s by auto
  have "refines f ?g"
  proof (rule rw_done [OF g ok B(1)])
    show "sized IntNotequal (map fst ?D) (vn_size (vn f out))" using s by (simp add: sized_eq(4) op_classes narrow_size_def)
    fix env assume e: "env_ok f env"
    have "env x \<le> 1" "env y \<le> 1" using B(7) [OF e] b2 by (auto simp: operands_ok_def bool_op_def)
    then have "pval BoolXor (views ?D env) 1 = pval IntNotequal (views ?D env) 1"
      using pval_le_one [of "env x"] pval_le_one [of "env y"] by (auto simp: pvals alu_def of_bool64_def)
    then show "env out = pval IntNotequal (views ?D env) (vn_size (vn f out))" using B(8) [OF e] by (simp add: c s)
  qed (simp_all add: op_classes operands_ok_def)
  then show ?thesis by (intro sound_some [of _ _ _ 0 ?g]) (simp_all add: rule_bxor2notequal_def)
qed

lemma written_def: "graph_ok f \<Longrightarrow> v < num_varnodes f \<Longrightarrow> is_written (vn f v) \<Longrightarrow> \<exists>d. vn_def (vn f v) = Some d"
  using marks_okD [OF graph_okD(3)] by (auto simp: vn_marks_def)

lemma rule_negate_negate_sound:
  assumes ok: "graph_ok f" "typed f" and l: "live f p" and c: "po_code (pop f p) = IntNegate"
  shows "sound_at rule_negate_negate p f"
proof -
  have "arith1 (po_code (pop f p))" by (simp add: c op_classes)
  then obtain out x where un: "un_at f p out x" using unary_op [OF ok l] by blast
  note U = un_atD [OF un] and I = un_inputs [OF un]
  show ?thesis
  proof (cases "is_written (vn f x)")
    case False
    then have "rule_negate_negate p f = Some (0, f)" by (simp add: rule_negate_negate_def I)
    then show ?thesis by (rule sound_none [OF ok])
  next
    case w: True
    obtain d where d: "vn_def (vn f x) = Some d" using written_def [OF ok(1) U(4) w] by blast
    note D = def_live [OF ok(1) U(4) d]
    show ?thesis
    proof (cases "po_code (pop f d) = IntNegate \<and> (\<exists>z. op_input f d 0 = Some z \<and> \<not> is_free (vn f z))")
      case False
      then have "rule_negate_negate p f = Some (0, f)" using w d by (auto simp: rule_negate_negate_def I split: option.splits)
      then show ?thesis by (rule sound_none [OF ok])
    next
      case True
      then have cd: "po_code (pop f d) = IntNegate" by blast
      have "arith1 (po_code (pop f d))" by (simp add: cd op_classes)
      then obtain out' z where un': "un_at f d out' z" using unary_op [OF ok D(3)] by blast
      note V = un_atD [OF un'] and J = un_inputs [OF un']
      have o: "out' = x" using V(1) D(2) by simp
      let ?s = "vn_size (vn f x)"
      have s: "vn_size (vn f out) = ?s" "vn_size (vn f z) = ?s" "1 \<le> ?s" "?s \<le> 8"
        using U(5) V(5) o by (auto simp: c cd sized_eq(1) op_classes narrow_size_def)
      have r0: "rw p f f IntNegate [(?s, \<lambda>env. env x)]" using rw_begin(2) [OF ok l un] c by simp
      obtain g1 where g1: "op_set_input p 0 z f = Some g1" "rw p f g1 IntNegate [(?s, \<lambda>env. env z)]"
        using rw_set [OF r0 den_start [OF r0 V(4)], of 0] s(2) by auto
      let ?g = "op_set_opcode p Copy g1"
      have "refines f ?g"
      proof (rule rw_done [OF conjunct1 [OF rw_opcode [OF g1(2)]] ok U(1)])
        show "sized Copy (map fst [(?s, \<lambda>env. env z)]) (vn_size (vn f out))" using s by (simp add: sized_eq(1) op_classes narrow_size_def)
        fix env assume e: "env_ok f env"
        have "env x = emu_mask (NOT (env z)) ?s" using V(7) [OF e] o by (simp add: cd pvals alu_def)
        then have "emu_mask (NOT (env x)) ?s = emu_mask (env z) ?s"
          using s by (simp add: take_bit_of_emu take_bit_not_take_bit)
        then show "env out = pval Copy (views [(?s, \<lambda>env. env z)] env) (vn_size (vn f out))"
          using U(7) [OF e] by (simp add: c pvals alu_def s(1))
      qed simp_all
      then show ?thesis by (intro sound_some [of _ _ _ 0 ?g]) (use True w d J g1(1) in \<open>auto simp: rule_negate_negate_def I\<close>)
    qed
  qed
qed

end
