(* ===== verification/Fd_Rules_Compare.thy ===== *)
theory Fd_Rules_Compare
  imports Fd_Rules_Arith
begin

text \<open>
  Soundness of the rules that look at the operation behind an input or add operations of their own (exclusive
  or of an exclusive or, subtraction as addition, negation of a conjunction), and of those that turn an
  \<open>at most\<close> into a strict comparison.
\<close>

subsection \<open>x xor (x xor y)\<close>

lemma xor_keep_value:
  assumes s: "1 \<le> s" "s \<le> 8"
  shows "emu_mask (emu_mask (a XOR b) s XOR a) s = emu_mask b s" "emu_mask (emu_mask (a XOR b) s XOR b) s = emu_mask a s"
    "emu_mask (a XOR emu_mask (a XOR b) s) s = emu_mask b s" "emu_mask (b XOR emu_mask (a XOR b) s) s = emu_mask a s"
  using s by (auto simp: take_bit_of_emu bit_eq_iff bit_take_bit_iff bit_xor_iff)

lemma xor_swap_keep_sound:
  assumes ok: "graph_ok f" "typed f" and l: "live f p" and c: "po_code (pop f p) = IntXor" and bin: "bin_at f p out x y"
    and k: "keep < num_varnodes f" "vn_size (vn f keep) = vn_size (vn f out)" "\<And>env. env_ok f env \<Longrightarrow> env out = emu_mask (env keep) (vn_size (vn f out))"
  shows "\<exists>g. xor_swap_keep p keep f = Some (1, g) \<and> refines f g"
proof -
  note B = bin_atD [OF bin]
  let ?s = "vn_size (vn f out)"
  have r0: "rw p f f IntXor [(vn_size (vn f x), \<lambda>env. env x), (vn_size (vn f y), \<lambda>env. env y)]" using rw_begin(1) [OF ok l bin] c by simp
  obtain g1 where g1: "op_remove_input p 1 f = Some g1" "rw p f g1 IntXor [(vn_size (vn f x), \<lambda>env. env x)]" using rw_remove [OF r0, of 1] by auto
  have r2: "rw p f (op_set_opcode p Copy g1) Copy [(vn_size (vn f x), \<lambda>env. env x)]" using rw_opcode [OF g1(2)] by blast
  obtain g where g: "op_set_input p 0 keep (op_set_opcode p Copy g1) = Some g" "rw p f g Copy [(?s, \<lambda>env. env keep)]"
    using rw_set [OF r2 den_start [OF r2 k(1)], of 0] k(2) by auto
  have "refines f g"
    by (rule rw_done [OF g(2) ok B(1)])
      (use k(3) B(6) in \<open>simp_all add: pvals alu_def c sized_eq(1,2) op_classes\<close>)
  then show ?thesis using g1(1) g(1) by (simp add: xor_swap_keep_def Let_def)
qed

lemma xor_swap_at_sound:
  assumes ok: "graph_ok f" "typed f" and l: "live f p" and c: "po_code (pop f p) = IntXor" and bin: "bin_at f p out x y" and i: "i = 0 \<or> i = 1"
  shows "\<exists>k. xor_swap_at p i f = Some k \<and> (\<forall>keep. k = Some keep \<longrightarrow> keep < num_varnodes f \<and> vn_size (vn f keep) = vn_size (vn f out)
     \<and> (\<forall>env. env_ok f env \<longrightarrow> env out = emu_mask (env keep) (vn_size (vn f out))))"
proof -
  note B = bin_atD [OF bin] and I = bin_inputs [OF bin]
  let ?s = "vn_size (vn f out)"
  have sx: "vn_size (vn f x) = ?s" "vn_size (vn f y) = ?s" "1 \<le> ?s" "?s \<le> 8"
    using B(6) by (auto simp: c sized_eq(2) op_classes narrow_size_def)
  define v w where "v = (if i = 0 then x else y)" and "w = (if i = 0 then y else x)"
  have vw: "op_input f p i = Some v" "op_input f p (1 - i) = Some w" "v < num_varnodes f"
    using i I B(4,5) by (auto simp: v_def w_def)
  show ?thesis
  proof (cases "is_written (vn f v)")
    case False then show ?thesis using vw by (auto simp: xor_swap_at_def)
  next
    case wr: True
    obtain d where d: "vn_def (vn f v) = Some d" using written_def [OF ok(1) vw(3) wr] by blast
    note D = def_live [OF ok(1) vw(3) d]
    show ?thesis
    proof (cases "po_code (pop f d) = IntXor")
      case False then show ?thesis using vw wr d by (auto simp: xor_swap_at_def)
    next
      case cd: True
      have "arith2 (po_code (pop f d))" by (simp add: cd op_classes)
      then obtain out' a b where bin': "bin_at f d out' a b" using binary_op [OF ok D(3)] by blast
      note V = bin_atD [OF bin'] and J = bin_inputs [OF bin']
      have o: "out' = v" using V(1) D(2) by simp
      have s: "vn_size (vn f v) = ?s" "vn_size (vn f a) = ?s" "vn_size (vn f b) = ?s"
        using V(6) o sx by (auto simp: cd sized_eq(2) op_classes v_def)
      have "env out = emu_mask (env b) ?s" if "w = a" "env_ok f env" for env
        using B(8) [OF that(2)] V(8) [OF that(2)] xor_keep_value [OF sx(3,4)] that(1) i sx s o
        by (auto simp: c cd pvals alu_def v_def w_def)
      moreover have "env out = emu_mask (env a) ?s" if "w = b" "env_ok f env" for env
        using B(8) [OF that(2)] V(8) [OF that(2)] xor_keep_value [OF sx(3,4)] that(1) i sx s o
        by (auto simp: c cd pvals alu_def v_def w_def)
      ultimately show ?thesis using vw wr d cd J V(4,5) s by (auto simp: xor_swap_at_def)
    qed
  qed
qed

lemma rule_xor_swap_sound:
  assumes ok: "graph_ok f" "typed f" and l: "live f p" and c: "po_code (pop f p) = IntXor"
  shows "sound_at rule_xor_swap p f"
proof -
  have "arith2 (po_code (pop f p))" by (simp add: c op_classes)
  then obtain out x y where bin: "bin_at f p out x y" using binary_op [OF ok l] by blast
  obtain k0 where k0: "xor_swap_at p 0 f = Some k0" "\<forall>keep. k0 = Some keep \<longrightarrow> keep < num_varnodes f \<and> vn_size (vn f keep) = vn_size (vn f out)
     \<and> (\<forall>env. env_ok f env \<longrightarrow> env out = emu_mask (env keep) (vn_size (vn f out)))"
    using xor_swap_at_sound [OF ok l c bin, of 0] by blast
  obtain k1 where k1: "xor_swap_at p 1 f = Some k1" "\<forall>keep. k1 = Some keep \<longrightarrow> keep < num_varnodes f \<and> vn_size (vn f keep) = vn_size (vn f out)
     \<and> (\<forall>env. env_ok f env \<longrightarrow> env out = emu_mask (env keep) (vn_size (vn f out)))"
    using xor_swap_at_sound [OF ok l c bin, of 1] by blast
  have "rule_xor_swap p f = Some (0, f) \<or> (\<exists>g. rule_xor_swap p f = Some (1, g) \<and> refines f g)"
  proof (cases k0)
    case (Some keep)
    then obtain g where "xor_swap_keep p keep f = Some (1, g)" "refines f g" using xor_swap_keep_sound [OF ok l c bin, of keep] k0(2) by blast
    then show ?thesis using Some k0(1) by (simp add: rule_xor_swap_def)
  next
    case n0: None
    show ?thesis
    proof (cases k1)
      case (Some keep)
      then obtain g where "xor_swap_keep p keep f = Some (1, g)" "refines f g" using xor_swap_keep_sound [OF ok l c bin, of keep] k1(2) by blast
      then show ?thesis using n0 Some k0(1) k1(1) by (simp add: rule_xor_swap_def)
    qed (use n0 k0(1) k1(1) in \<open>simp add: rule_xor_swap_def\<close>)
  qed
  then show ?thesis using refines_refl [OF ok] by (auto simp: sound_at_def)
qed

subsection \<open>Subtraction as an addition\<close>

lemma emu_add_mask:
  assumes s: "1 \<le> s" "s \<le> 8"
  shows "emu_mask (a + emu_mask x s) s = emu_mask (a + x) s"
proof -
  have x: "emu_mask x s = word_of_int (take_bit (8 * s) (uint x))" using emu_of_int [OF s, of "uint x"] by simp
  have "a + emu_mask x s = word_of_int (uint a + take_bit (8 * s) (uint x))" "a + x = word_of_int (uint a + uint x)" unfolding x by simp_all
  moreover have "take_bit (8 * s) (uint a + take_bit (8 * s) (uint x)) = take_bit (8 * s) (uint a + uint x)"
    by (simp add: take_bit_eq_mod mod_simps)
  ultimately show ?thesis by (simp only: emu_of_int [OF s])
qed

lemma sub_value:
  assumes s: "1 \<le> s" "s \<le> 8"
  shows "emu_mask (a + emu_mask (b * calc_mask s) s) s = emu_mask (a - b) s"
  by (simp add: times_minus_one [OF s] emu_add_mask [OF s])

lemma rule_sub2add_sound:
  assumes ok: "graph_ok f" "typed f" and l: "live f p" and c: "po_code (pop f p) = IntSub"
  shows "sound_at rule_sub2add p f"
proof -
  have "arith2 (po_code (pop f p))" by (simp add: c op_classes)
  then obtain out x y where bin: "bin_at f p out x y" using binary_op [OF ok l] by blast
  note B = bin_atD [OF bin] and I = bin_inputs [OF bin]
  let ?s = "vn_size (vn f y)" and ?X = "(vn_size (vn f x), \<lambda>env. env x)" and ?Y = "(vn_size (vn f y), \<lambda>env. env y)"
  have s: "vn_size (vn f x) = ?s" "vn_size (vn f out) = ?s" "1 \<le> ?s" "?s \<le> 8"
    using B(6) by (auto simp: c sized_eq(2) op_classes narrow_size_def)
  let ?m = "rmask (- 1) ?s"
  have m: "?m = calc_mask ?s" using s by (simp add: rmask_emu emu_all_ones)
  have r0: "rw p f f IntSub [?X, ?Y]" using rw_begin(1) [OF ok l bin] c by simp
  obtain k g0 where n: "new_const ?s ?m f = (k, g0)" by fastforce
  have fit: "emu_mask ?m ?s = ?m" unfolding m by (rule calc_mask_fits [OF s(3,4)])
  have R: "rw p f g0 IntSub [?X, ?Y]" "den f g0 k (?s, \<lambda>env. ?m)" using rw_const [OF r0 fit n] by blast+
  have dy: "den f g0 y ?Y" by (rule den_start [OF R(1) B(5)])
  have vs: "vn_size (vn g0 y) = ?s" using R(1) sframeD(5) [of p f g0 y] B(5) by (simp add: rw_def)
  obtain q g1 where nb: "new_op_before_sized p IntMult [y, k] ?s g0 = (q, g1)" by fastforce
  let ?v = "\<lambda>env. pval IntMult (views [?Y, (?s, \<lambda>env. ?m)] env) ?s"
  obtain o1 where N: "rw p f g1 IntSub [?X, ?Y]" "po_output (pop g1 q) = Some o1" "den f g1 o1 (?s, ?v)"
    using rw_new_op [OF R(1), of "[y, k]" "[?Y, (?s, \<lambda>env. ?m)]" IntMult ?s q g1] dy R(2) nb s
    by (auto simp: sized_eq(2) op_classes narrow_size_def operands_ok_def)
  obtain g2 where g2: "op_set_input p 1 o1 g1 = Some g2" "rw p f g2 IntSub [?X, (?s, ?v)]" using rw_set [OF N(1,3), of 1] by auto
  let ?g = "op_set_opcode p IntAdd g2"
  have "refines f ?g"
  proof (rule rw_done [OF conjunct1 [OF rw_opcode [OF g2(2)]] ok B(1)])
    show "sized IntAdd (map fst [?X, (?s, ?v)]) (vn_size (vn f out))" using s by (simp add: sized_eq(2) op_classes narrow_size_def)
    fix env assume e: "env_ok f env"
    show "env out = pval IntAdd (views [?X, (?s, ?v)] env) (vn_size (vn f out))"
      using B(8) [OF e] sub_value [OF s(3,4)] by (simp add: c pvals alu_def s m)
  qed (simp_all add: op_classes operands_ok_def)
  moreover have "rule_sub2add p f = Some (1, ?g)"
    using n nb N(2) g2(1) vs by (simp add: rule_sub2add_def I new_op_before_def Let_def)
  ultimately show ?thesis by (intro sound_some [of _ _ _ 0 ?g]) simp_all
qed

subsection \<open>Pushing a boolean negation inwards\<close>

lemma rule_not_distribute_sound:
  assumes ok: "graph_ok f" "typed f" and l: "live f p" and c: "po_code (pop f p) = BoolNegate"
  shows "sound_at rule_not_distribute p f"
proof -
  obtain out x where un: "un_at f p out x" using unary_op [OF ok l] c by blast
  note U = un_atD [OF un] and I = un_inputs [OF un]
  have so: "vn_size (vn f out) = 1" "vn_size (vn f x) = 1" using U(5) by (simp_all add: c sized_eq(6))
  show ?thesis
  proof (cases "\<exists>d. vn_def (vn f x) = Some d \<and> (po_code (pop f d) = BoolAnd \<or> po_code (pop f d) = BoolOr)")
    case False
    then have "rule_not_distribute p f = Some (0, f)" by (auto simp: rule_not_distribute_def I c split: option.splits)
    then show ?thesis by (rule sound_none [OF ok])
  next
    case True
    then obtain d where d: "vn_def (vn f x) = Some d" and cd: "po_code (pop f d) = BoolAnd \<or> po_code (pop f d) = BoolOr" by blast
    note D = def_live [OF ok(1) U(4) d]
    have b2: "bool2 (po_code (pop f d))" using cd by (auto simp: op_classes)
    then obtain out' a b where bin: "bin_at f d out' a b" using binary_op [OF ok D(3)] by blast
    note V = bin_atD [OF bin] and J = bin_inputs [OF bin]
    have o: "out' = x" using V(1) D(2) by simp
    have s: "vn_size (vn f a) = 1" "vn_size (vn f b) = 1" using V(6) b2 by (simp_all add: sized_eq(5))
    have le: "env a \<le> 1" "env b \<le> 1" if "env_ok f env" for env
      using V(7) [OF that] b2 by (auto simp: operands_ok_def bool_op_def)
    have r0: "rw p f f BoolNegate [(1, \<lambda>env. env x)]" using rw_begin(2) [OF ok l un] c so by simp
    have dn: "den f g a (1, \<lambda>env. env a)" "den f g b (1, \<lambda>env. env b)" "vn_size (vn g a) = 1" "vn_size (vn g b) = 1"
      if "rw p f g c' E" for g c' E
      using den_start [OF that V(4)] den_start [OF that V(5)] s by (auto simp: den_def)
    let ?neg = "\<lambda>v env. pval BoolNegate [(1, env v)] 1"
    have new: "\<exists>q h z. new_op_before p BoolNegate [v] g = Some (q, h) \<and> rw p f h c' E \<and> rstep p f g h \<and> po_output (pop h q) = Some z
        \<and> den f h z (1, ?neg v)" if r: "rw p f g c' E" and v: "v = a \<or> v = b" for g c' E v
    proof -
      obtain q h where nb: "new_op_before_sized p BoolNegate [v] 1 g = (q, h)" by fastforce
      have "den f g v (1, \<lambda>env. env v)" "vn_size (vn g v) = 1" using dn [OF r] v by auto
      then show ?thesis
        using rw_new_op [OF r, of "[v]" "[(1, \<lambda>env. env v)]" BoolNegate 1 q h] nb v le
        by (auto simp: new_op_before_def op_classes sized_eq(6) operands_ok_def)
    qed
    obtain q1 g1 z1 where g1: "new_op_before p BoolNegate [a] f = Some (q1, g1)" "rw p f g1 BoolNegate [(1, \<lambda>env. env x)]"
      "po_output (pop g1 q1) = Some z1" "den f g1 z1 (1, ?neg a)" using new [OF r0, of a] by blast
    obtain q2 g2 z2 where g2: "new_op_before p BoolNegate [b] g1 = Some (q2, g2)" "rw p f g2 BoolNegate [(1, \<lambda>env. env x)]" "rstep p f g1 g2"
      "po_output (pop g2 q2) = Some z2" "den f g2 z2 (1, ?neg b)" using new [OF g1(2), of b] by blast
    let ?c = "if po_code (pop f d) = BoolAnd then BoolOr else BoolAnd" and ?g3 = "op_set_opcode p (if po_code (pop f d) = BoolAnd then BoolOr else BoolAnd) g2"
    have r3: "rw p f ?g3 ?c [(1, \<lambda>env. env x)]" "rstep p f g2 ?g3" using rw_opcode [OF g2(2)] by blast+
    have d1: "den f ?g3 z1 (1, ?neg a)" using rw_den(1) [OF g1(2) g2(3) g1(4)] rw_den(1) [OF g2(2) r3(2)] by blast
    have d2: "den f ?g3 z2 (1, ?neg b)" using rw_den(1) [OF g2(2) r3(2) g2(5)] .
    obtain g4 where g4: "op_set_input p 0 z1 ?g3 = Some g4" "rw p f g4 ?c [(1, ?neg a)]" "rstep p f ?g3 g4" using rw_set [OF r3(1) d1, of 0] by auto
    let ?g = "op_append_input p z2 g4" and ?D = "[(1, ?neg a), (1, ?neg b)]"
    have r5: "rw p f ?g ?c ?D" using rw_append [OF g4(2) rw_den(1) [OF r3(1) g4(3) d2]] by simp
    have "refines f ?g"
    proof (rule rw_done [OF r5 ok U(1)])
      show "pure_op ?c" "sized ?c (map fst ?D) (vn_size (vn f out))" using so by (simp_all add: op_classes sized_eq(5))
      fix env assume e: "env_ok f env"
      show "operands_ok ?c (views ?D env)" by (simp add: operands_ok_def op_classes pval_bool)
      have "pval BoolNegate [(1, pval (po_code (pop f d)) [(1, env a), (1, env b)] 1)] 1 = pval ?c (views ?D env) 1"
        using cd pval_le_one [OF le(1) [OF e]] pval_le_one [OF le(2) [OF e]] by (auto simp: pvals alu_def of_bool64_def flag_byte emu_mask_def shl64_def)
      then show "env out = pval ?c (views ?D env) (vn_size (vn f out))"
        using U(7) [OF e] V(8) [OF e] o s so by (simp add: c)
    qed
    moreover have "rule_not_distribute p f = Some (1, ?g)"
      using d cd g1 g2 g4(1) J by (auto simp: rule_not_distribute_def I c Let_def)
    ultimately show ?thesis by (intro sound_some [of _ _ _ 0 ?g]) simp_all
  qed
qed

lemma copy_true_rw:
  assumes r: "rw p f f c [d, d']"
  shows "\<exists>g. copy_true p f = Some (1, g) \<and> rw p f g Copy [(1, \<lambda>env. 1)]"
proof -
  have R2: "rw p f (op_set_opcode p Copy f) Copy [d, d']" using rw_opcode [OF r] by blast
  obtain g1 where g1: "op_remove_input p 1 (op_set_opcode p Copy f) = Some g1" "rw p f g1 Copy [d]" using rw_remove [OF R2, of 1] by auto
  have "emu_mask 1 1 = 1" by (simp add: emu_mask_def shl64_def)
  then show ?thesis using rw_const_set [OF g1(2), of 1 1 0] g1(1) by (auto simp: copy_true_def Let_def split_beta)
qed

lemma rule_lessequal2zero_sound:
  assumes ok: "graph_ok f" "typed f" and l: "live f p" and c: "po_code (pop f p) = IntLessequal"
  shows "sound_at rule_lessequal2zero p f"
proof -
  have cmp: "compare_op (po_code (pop f p))" by (simp add: c op_classes)
  obtain out x y where bin: "bin_at f p out x y" using binary_op [OF ok l] cmp by blast
  note B = bin_atD [OF bin] and I = bin_inputs [OF bin]
  let ?s = "vn_size (vn f x)" and ?cx = "constant_value (vn f x)" and ?cy = "constant_value (vn f y)"
  let ?X = "(?s, \<lambda>env. env x)" and ?Y = "(vn_size (vn f y), \<lambda>env. env y)"
  have s: "vn_size (vn f y) = ?s" "vn_size (vn f out) = 1" "1 \<le> ?s" "?s \<le> 8"
    using B(6) cmp by (auto simp: sized_eq(4) narrow_size_def)
  have r0: "rw p f f IntLessequal [?X, ?Y]" using rw_begin(1) [OF ok l bin] c by simp
  have kx: "env x = ?cx" if "env_ok f env" "is_constant (vn f x)" for env using env_fits(2) [OF that(1) B(4) that(2)] .
  have ky: "env y = ?cy" if "env_ok f env" "is_constant (vn f y)" for env using env_fits(2) [OF that(1) B(5) that(2)] .
  have top: "env x \<le> calc_mask ?s" "env y \<le> calc_mask ?s" if "env_ok f env" for env
    using env_fits(1) [OF that B(4)] env_fits(1) [OF that B(5)] fits_le [OF s(3,4)] s(1) by simp_all
  have le: "env out = of_bool64 (env x \<le> env y)" if "env_ok f env" for env
    using B(8) [OF that] by (simp add: c pvals alu_def flag_byte s(2))
  have eq: "sound_at rule_lessequal2zero p f"
    if a: "rule_lessequal2zero p f = Some (1, op_set_opcode p IntEqual f)" and v: "\<And>env. env_ok f env \<Longrightarrow> (env x \<le> env y) = (env x = env y)"
  proof -
    have "refines f (op_set_opcode p IntEqual f)"
    proof (rule rw_done [OF conjunct1 [OF rw_opcode [OF r0]] ok B(1)])
      show "sized IntEqual (map fst [?X, ?Y]) (vn_size (vn f out))" using s by (simp add: sized_eq(4) op_classes narrow_size_def)
      show "env out = pval IntEqual (views [?X, ?Y] env) (vn_size (vn f out))" if "env_ok f env" for env
        using le [OF that] v [OF that] by (simp add: pvals alu_def flag_byte s(2))
    qed (simp_all add: op_classes operands_ok_def)
    then show ?thesis by (intro sound_some [of _ _ _ 0 "op_set_opcode p IntEqual f"]) (use a in simp_all)
  qed
  have yes: "sound_at rule_lessequal2zero p f"
    if a: "rule_lessequal2zero p f = copy_true p f" and v: "\<And>env. env_ok f env \<Longrightarrow> env x \<le> env y"
  proof -
    obtain g where g: "copy_true p f = Some (1, g)" "rw p f g Copy [(1, \<lambda>env. 1)]" using copy_true_rw [OF r0] by blast
    have "refines f g"
      by (rule rw_done [OF g(2) ok B(1)]) (use le v in \<open>simp_all add: s(2) pvals alu_def emu_mask_def shl64_def of_bool64_def sized_bool_copy\<close>)
    then show ?thesis by (intro sound_some [of _ _ _ 0 g]) (use a g(1) in simp_all)
  qed
  consider "is_constant (vn f x)" "?cx = 0" | "is_constant (vn f x)" "?cx \<noteq> 0" "?cx = calc_mask ?s"
    | "\<not> is_constant (vn f x)" "is_constant (vn f y)" "?cy = 0"
    | "\<not> is_constant (vn f x)" "is_constant (vn f y)" "?cy \<noteq> 0" "?cy = calc_mask ?s"
    | "\<not> (is_constant (vn f x) \<and> (?cx = 0 \<or> ?cx = calc_mask ?s))" "\<not> (\<not> is_constant (vn f x) \<and> is_constant (vn f y) \<and> (?cy = 0 \<or> ?cy = calc_mask ?s))"
    by blast
  then show ?thesis
  proof cases
    case 1 then show ?thesis by (intro yes) (auto simp: rule_lessequal2zero_def I c kx)
  next
    case 2
    have "(env x \<le> env y) = (env x = env y)" if "env_ok f env" for env
      using top(2) [OF that] kx [OF that 2(1)] 2(3) by (auto intro: order_antisym)
    then show ?thesis using 2 by (intro eq) (auto simp: rule_lessequal2zero_def I c)
  next
    case 3 then show ?thesis by (intro eq) (auto simp: rule_lessequal2zero_def I c ky word_le_0_iff)
  next
    case 4 then show ?thesis by (intro yes) (use top s(1) in \<open>auto simp: rule_lessequal2zero_def I c ky\<close>)
  next
    case 5
    then have "rule_lessequal2zero p f = Some (0, f)" by (auto simp: rule_lessequal2zero_def I c s(1))
    then show ?thesis by (rule sound_none [OF ok])
  qed
qed

subsection \<open>At most, as less than\<close>

lemma sign_extend_val_sext:
  assumes s: "1 \<le> s" "s \<le> 8"
  shows "sign_extend_val v s 8 = sext v s"
proof -
  have "(mask 64 :: u64) = - 1" by (simp add: mask_eq_exp_minus_1)
  then have m: "w AND calc_mask 8 = w" for w :: u64 by (simp add: calc_mask_eq)
  show ?thesis
  proof (cases "s = 8")
    case True then show ?thesis by (simp add: sign_extend_val_def sext_def m)
  next
    case False
    let ?k = "64 - s * 8"
    have k: "?k < 64" "0 < ?k" using s False by auto
    have "signed_drop_bit ?k (push_bit ?k v) = word_of_int (signed_take_bit (8 * s - 1) (uint v))"
    proof (rule bit_word_eqI)
      fix n assume "n < LENGTH(64)"
      then have n: "n < 64" by simp
      have k': "64 - ?k = 8 * s" "63 - ?k = 8 * s - 1" using s False by auto
      have "bit (signed_drop_bit ?k (push_bit ?k v)) n \<longleftrightarrow> bit v (min (8 * s - 1) n)"
      proof (cases "8 * s \<le> n")
        case True
        then have "min (8 * s - 1) n = 8 * s - 1" "?k \<le> 63" using k by auto
        then show ?thesis using True n k' by (simp add: bit_signed_drop_bit_iff bit_push_bit_iff)
      next
        case F: False
        then have m: "min (8 * s - 1) n = n" "?k + n < 64" and le: "64 - s * 8 \<le> 64 + n - s * 8" using s False by auto
        then show ?thesis using F n k k' by (simp add: bit_signed_drop_bit_iff bit_push_bit_iff le)
      qed
      then show "bit (signed_drop_bit ?k (push_bit ?k v)) n = bit (word_of_int (signed_take_bit (8 * s - 1) (uint v)) :: u64) n"
        using n le_less_trans [OF min.cobounded2 n, of "8 * s - 1"] by (simp add: bit_word_of_int_iff bit_signed_take_bit_iff bit_uint_iff)
    qed
    then show ?thesis using False s k by (simp add: sign_extend_val_def Let_def m sext_eq sar64_def shl64_def)
  qed
qed

lemma adjusted_int:
  assumes s: "1 \<le> s" "s \<le> 8"
  shows "uint ((sext c s + word_of_int d) AND calc_mask s) = take_bit (8 * s) (uint c + d)"
proof -
  let ?n = "8 * s" and ?k = "signed_take_bit (8 * s - 1) (uint c)"
  have w: "sext c s + word_of_int d = word_of_int (?k + d)" by (simp add: sext_eq [OF s])
  have "uint (word_of_int (?k + d) AND calc_mask s :: u64) = take_bit ?n (?k + d)"
  proof -
    have "(word_of_int m AND calc_mask s :: u64) = word_of_int (take_bit ?n m)" for m
      using emu_of_int [OF s, of m] s by (simp add: emu_mask_eq calc_mask_eq min_def)
    moreover have "uint (word_of_int (take_bit ?n m) :: u64) = take_bit ?n m" for m
      using s by (simp add: uint_word_of_int_eq)
    ultimately show ?thesis by (simp only:)
  qed
  also have "\<dots> = take_bit ?n (uint c + d)"
  proof -
    have "take_bit ?n ?k = take_bit ?n (uint c)" using s by (intro take_bit_signed_take_bit) simp
    then show ?thesis by (metis take_bit_add)
  qed
  finally show ?thesis unfolding w .
qed

lemma signed_adjusted:
  assumes s: "1 \<le> s" "s \<le> 8" and r: "- (2 ^ (8 * s - 1)) \<le> sint (sext c s) + d" "sint (sext c s) + d < 2 ^ (8 * s - 1)"
  shows "sint (sext ((sext c s + word_of_int d) AND calc_mask s) s) = sint (sext c s) + d"
proof -
  let ?n = "8 * s" and ?k = "signed_take_bit (8 * s - 1) (uint c)"
  have k: "sint (sext c s) = ?k" by (rule sint_sext [OF s])
  have "sint (sext ((sext c s + word_of_int d) AND calc_mask s) s) = signed_take_bit (?n - 1) (take_bit ?n (uint c + d))"
    unfolding sint_sext [OF s] adjusted_int [OF s] ..
  also have "\<dots> = signed_take_bit (?n - 1) (uint c + d)" proof -
    have "\<not> ?n \<le> ?n - 1" using s by arith
    then show ?thesis by (simp only: signed_take_bit_take_bit if_False)
  qed
  also have "\<dots> = signed_take_bit (?n - 1) (?k + d)" by (metis signed_take_bit_add signed_take_bit_signed_take_bit min.idem)
  also have "\<dots> = ?k + d" using r unfolding k by (intro signed_take_bit_int_eq_self) simp_all
  finally show ?thesis unfolding k .
qed

lemma unsigned_adjusted:
  assumes s: "1 \<le> s" "s \<le> 8" and c: "emu_mask c s = c"
  shows "c \<noteq> calc_mask s \<Longrightarrow> (sext c s + 1) AND calc_mask s = c + 1 \<and> c < c + 1"
    "c \<noteq> 0 \<Longrightarrow> (sext c s + - 1) AND calc_mask s = c - 1 \<and> c - 1 < c"
proof -
  have "uint (emu_mask c s) < 2 ^ (8 * s)" using s by (simp add: take_bit_of_emu unsigned_take_bit_eq)
  then have r: "0 \<le> uint c" "uint c < 2 ^ (8 * s)" unfolding c by simp_all
  have p: "(2 :: int) ^ (8 * s) \<le> 2 ^ 64" using s by (intro power_increasing) simp_all
  have plus: "uint (c + 1) = uint c + 1" if "uint c + 1 < 2 ^ 64"
    using that r by (simp add: uint_word_ariths(1))
  have minus: "uint (c - 1) = uint c - 1" if "1 \<le> uint c"
    using that r p by (simp add: uint_word_ariths(2))
  { assume n: "c \<noteq> calc_mask s"
    have "uint c \<noteq> 2 ^ (8 * s) - 1"
    proof
      assume "uint c = 2 ^ (8 * s) - 1"
      then have "word_of_int (uint c) = (word_of_int (2 ^ (8 * s) - 1) :: u64)" by (rule arg_cong)
      then show False using n calc_mask_int [OF s] by (simp only: word_of_int_uint)
    qed
    then have u: "uint c + 1 < 2 ^ (8 * s)" using r by simp
    have "uint ((sext c s + 1) AND calc_mask s) = uint c + 1"
      using adjusted_int [OF s, of c 1] take_bit_int_eq_self [OF _ u] r by simp
    then have "uint ((sext c s + 1) AND calc_mask s) = uint (c + 1)" "uint c < uint (c + 1)" using plus u p by simp_all
    then show "(sext c s + 1) AND calc_mask s = c + 1 \<and> c < c + 1" unfolding word_less_def by (simp only: word_uint_eq_iff) }
  { assume "c \<noteq> 0"
    then have "uint c \<noteq> 0" by (simp add: uint_0_iff)
    then have u: "0 \<le> uint c - 1" "uint c - 1 < 2 ^ (8 * s)" using r by linarith+
    have "uint ((sext c s + - 1) AND calc_mask s) = uint c - 1"
      using adjusted_int [OF s, of c "- 1"] take_bit_int_eq_self [OF u] by simp
    then have "uint ((sext c s + - 1) AND calc_mask s) = uint (c - 1)" "uint (c - 1) < uint c" using minus u by simp_all
    then show "(sext c s + - 1) AND calc_mask s = c - 1 \<and> c - 1 < c" unfolding word_less_def by (simp only: word_uint_eq_iff) }
qed

text \<open>
  The signed form guards against overflow of the 64-bit value, not of the operand's own size: the rewrite is
  right unless a signed constant of less than eight bytes is the largest (on the right) or the smallest (on
  the left) of its size.
\<close>

definition lessequal_edge :: "funcdata \<Rightarrow> nat \<Rightarrow> bool" where
  "lessequal_edge f p \<longleftrightarrow> po_code (pop f p) = IntSlessequal \<and>
     (case po_inrefs (pop f p) of
        [in0, in1] \<Rightarrow>
          vn_size (vn f in0) < 8 \<and>
          (if is_constant (vn f in0) then sint (sext (constant_value (vn f in0)) (vn_size (vn f in0))) = - (2 ^ (8 * vn_size (vn f in0) - 1))
           else is_constant (vn f in1) \<and> sint (sext (constant_value (vn f in1)) (vn_size (vn f in1))) = 2 ^ (8 * vn_size (vn f in1) - 1) - 1)
      | _ \<Rightarrow> False)"

lemma signed_less:
  assumes s: "1 \<le> s" "s \<le> 8"
  shows "sint (sext c s) \<noteq> 2 ^ (8 * s - 1) - 1 \<Longrightarrow> sint (sext ((sext c s + 1) AND calc_mask s) s) = sint (sext c s) + 1"
    "sint (sext c s) \<noteq> - (2 ^ (8 * s - 1)) \<Longrightarrow> sint (sext ((sext c s + - 1) AND calc_mask s) s) = sint (sext c s) - 1"
proof -
  have r: "- (2 ^ (8 * s - 1)) \<le> sint (sext c s)" "sint (sext c s) < 2 ^ (8 * s - 1)"
    unfolding sint_sext [OF s] by (rule signed_take_bit_int_greater_eq_minus_exp signed_take_bit_int_less_exp)+
  show "sint (sext c s) \<noteq> 2 ^ (8 * s - 1) - 1 \<Longrightarrow> sint (sext ((sext c s + 1) AND calc_mask s) s) = sint (sext c s) + 1"
    using signed_adjusted [OF s, of c 1] r by simp
  show "sint (sext c s) \<noteq> - (2 ^ (8 * s - 1)) \<Longrightarrow> sint (sext ((sext c s + - 1) AND calc_mask s) s) = sint (sext c s) - 1"
    using signed_adjusted [OF s, of c "- 1"] r by simp
qed

text \<open>What the guards leave: the adjusted constant and the strict comparison decide as before.\<close>

lemma lessequal_value:
  assumes s: "1 \<le> s" "s \<le> 8" and c: "emu_mask k s = k" and opc: "opc = IntLessequal \<or> opc = IntSlessequal"
  shows "opc = IntLessequal \<Longrightarrow> sext k s \<noteq> - 1 \<Longrightarrow> pval opc [(s, x), (s, k)] 1 = pval IntLess [(s, x), (s, (sext k s + 1) AND calc_mask s)] 1"
    "opc = IntLessequal \<Longrightarrow> sext k s \<noteq> 0 \<Longrightarrow> pval opc [(s, k), (s, x)] 1 = pval IntLess [(s, (sext k s + - 1) AND calc_mask s), (s, x)] 1"
    "opc = IntSlessequal \<Longrightarrow> sint (sext k s) \<noteq> 2 ^ (8 * s - 1) - 1 \<Longrightarrow>
       pval opc [(s, x), (s, k)] 1 = pval IntSless [(s, x), (s, (sext k s + 1) AND calc_mask s)] 1"
    "opc = IntSlessequal \<Longrightarrow> sint (sext k s) \<noteq> - (2 ^ (8 * s - 1)) \<Longrightarrow>
       pval opc [(s, k), (s, x)] 1 = pval IntSless [(s, (sext k s + - 1) AND calc_mask s), (s, x)] 1"
proof -
  have m: "sext k s = - 1" if "k = calc_mask s"
  proof -
    have "uint k = mask (8 * s)" using that s by (simp add: calc_mask_eq min_def uint_mask_eq)
    moreover have "signed_take_bit (8 * s - 1) (mask (8 * s)) = (- 1 :: int)"
      by (rule bit_eqI) (use s in \<open>simp add: bit_signed_take_bit_iff bit_mask_iff\<close>)
    ultimately show ?thesis by (simp add: sext_eq [OF s])
  qed
  have z: "sext 0 s = 0" using s by (simp add: sext_eq)
  { assume o: "opc = IntLessequal" and k: "sext k s \<noteq> - 1"
    then have "k \<noteq> calc_mask s" using m by blast
    note u = unsigned_adjusted(1) [OF s c this]
    then have "unat (k + 1) = unat k + 1" using unat_succ_u64 by blast
    then have "(x \<le> k) = (x < k + 1)" by (simp add: word_le_nat_alt word_less_nat_alt less_Suc_eq_le)
    then show "pval opc [(s, x), (s, k)] 1 = pval IntLess [(s, x), (s, (sext k s + 1) AND calc_mask s)] 1" using u by (simp add: o pvals alu_def) }
  { assume o: "opc = IntLessequal" and k: "sext k s \<noteq> 0"
    then have "k \<noteq> 0" using z by blast
    note u = unsigned_adjusted(2) [OF s c this]
    then have "unat (k - 1) = unat k - 1" "unat (k - 1) < unat k" using unat_pred_u64 by (blast, simp add: word_less_nat_alt)
    then have "(k \<le> x) = (k - 1 < x)" by (simp add: word_le_nat_alt word_less_nat_alt) linarith
    then show "pval opc [(s, k), (s, x)] 1 = pval IntLess [(s, (sext k s + - 1) AND calc_mask s), (s, x)] 1" using u by (simp add: o pvals alu_def) }
  { assume o: "opc = IntSlessequal" and k: "sint (sext k s) \<noteq> 2 ^ (8 * s - 1) - 1"
    show "pval opc [(s, x), (s, k)] 1 = pval IntSless [(s, x), (s, (sext k s + 1) AND calc_mask s)] 1"
      using signed_less(1) [OF s k] by (simp add: o pvals alu_def zle_add1_eq_le less_add_one) }
  { assume o: "opc = IntSlessequal" and k: "sint (sext k s) \<noteq> - (2 ^ (8 * s - 1))"
    show "pval opc [(s, k), (s, x)] 1 = pval IntSless [(s, (sext k s + - 1) AND calc_mask s), (s, x)] 1"
    proof -
      have "(sint (sext k s) \<le> sint (sext x s)) = (sint (sext k s) - 1 < sint (sext x s))" by arith
      then show ?thesis using signed_less(2) [OF s k] by (simp add: o pvals alu_def)
    qed }
qed

lemma lessequal_install_rw:
  assumes r: "rw p f f c D" and i: "i < length D" and s: "1 \<le> sz" "sz \<le> 8"
  shows "\<exists>g. lessequal_install p i opc sz val f = Some (True, g) \<and> rw p f g opc (D[i := (sz, \<lambda>env. val AND calc_mask sz)])"
proof -
  have r1: "rw p f (op_set_opcode p opc f) opc D" using rw_opcode [OF r] by blast
  show ?thesis using rw_const_set [OF r1 negated_fits [OF s, of val] i] by (auto simp: lessequal_install_def Let_def split_beta)
qed

text \<open>The installed comparison, with the constant on the right and on the left.\<close>

lemma install_sound:
  assumes ok: "graph_ok f" "typed f" and l: "live f p" and c: "po_code (pop f p) \<in> set lessequal_oplist" and bin: "bin_at f p out x y"
    and opc: "opc = IntSless \<or> opc = IntLess" and D: "length D = 2" "map fst D = [vn_size (vn f x), vn_size (vn f x)]"
    and i: "i < 2" and r: "\<And>g. rw p f g opc ((start_views f p)[i := (vn_size (vn f x), \<lambda>env. val AND calc_mask (vn_size (vn f x)))]) \<Longrightarrow> rw p f g opc D"
    and v: "\<And>env. env_ok f env \<Longrightarrow> pval (po_code (pop f p)) [(vn_size (vn f x), env x), (vn_size (vn f x), env y)] 1 = pval opc (views D env) 1"
  shows "\<exists>g. lessequal_install p i opc (vn_size (vn f x)) val f = Some (True, g) \<and> refines f g"
proof -
  have cmp: "compare_op (po_code (pop f p))" using c by (auto simp: lessequal_oplist_def op_classes)
  note B = bin_atD [OF bin]
  let ?s = "vn_size (vn f x)"
  have s: "vn_size (vn f y) = ?s" "vn_size (vn f out) = 1" "1 \<le> ?s" "?s \<le> 8" using B(6) cmp by (auto simp: sized_eq(4) narrow_size_def)
  have r0: "rw p f f (po_code (pop f p)) (start_views f p)" using rw_begin(1) [OF ok l bin] B(9) by simp
  obtain g where g: "lessequal_install p i opc ?s val f = Some (True, g)"
    "rw p f g opc ((start_views f p)[i := (?s, \<lambda>env. val AND calc_mask ?s)])"
    using lessequal_install_rw [OF r0, of i ?s opc val] s i B(9) by auto
  have "refines f g"
  proof (rule rw_done [OF r [OF g(2)] ok B(1)])
    show "pure_op opc" using opc by (auto simp: op_classes)
    show "sized opc (map fst D) (vn_size (vn f out))" using opc D s by (auto simp: sized_eq(4) op_classes narrow_size_def)
    fix env assume e: "env_ok f env"
    show "operands_ok opc (views D env)" using opc by (auto simp: operands_ok_def op_classes)
    show "env out = pval opc (views D env) (vn_size (vn f out))" using B(8) [OF e] v [OF e] s by simp
  qed
  then show ?thesis using g(1) by blast
qed

lemma extreme_wraps:
  fixes w :: u64
  shows "sint w = 2 ^ 63 - 1 \<Longrightarrow> 0 < sint w \<and> sint (w + 1) < 0"
    "sint w = - (2 ^ 63) \<Longrightarrow> sint w < 0 \<and> 0 < sint (w + - 1)"
proof -
  have w: "w = word_of_int (sint w)" by simp
  { assume a: "sint w = 2 ^ 63 - 1"
    then have "w + 1 = word_of_int (2 ^ 63)" using w by (metis add_diff_cancel_left' diff_add_cancel of_int_add of_int_1)
    then show "0 < sint w \<and> sint (w + 1) < 0" using a by simp }
  { assume a: "sint w = - (2 ^ 63)"
    then have "w = word_of_int (- (2 ^ 63))" using w by metis
    then show "sint w < 0 \<and> 0 < sint (w + - 1)" using a by simp }
qed

lemma replace_lessequal_sound:
  assumes ok: "graph_ok f" "typed f" and l: "live f p" and c: "po_code (pop f p) \<in> set lessequal_oplist" and ne: "\<not> lessequal_edge f p"
  shows "\<exists>b g. replace_lessequal p f = Some (b, g) \<and> refines f g \<and> (\<not> b \<longrightarrow> g = f)"
proof -
  let ?c = "po_code (pop f p)"
  have cmp: "compare_op ?c" using c by (auto simp: lessequal_oplist_def op_classes)
  obtain out x y where bin: "bin_at f p out x y" using binary_op [OF ok l] cmp by blast
  note B = bin_atD [OF bin] and I = bin_inputs [OF bin]
  let ?s = "vn_size (vn f x)" and ?o = "if ?c = IntSlessequal then IntSless else IntLess"
  have s: "vn_size (vn f y) = ?s" "vn_size (vn f out) = 1" "1 \<le> ?s" "?s \<le> 8" using B(6) cmp by (auto simp: sized_eq(4) narrow_size_def)
  have none: ?thesis if "replace_lessequal p f = Some (False, f)" using that refines_refl [OF ok] by blast
  have fit: "emu_mask (constant_value (vn f v)) ?s = constant_value (vn f v)" if "is_constant (vn f v)" "v = x \<or> v = y" for v
    using ok(2) that s B(4,5) by (auto simp: typed_def consts_fit_def)
  have g8: "sint (sext k ?s) = 2 ^ 63 - 1 \<Longrightarrow> 0 < sint (sext k ?s) \<and> sint (sext k ?s + 1) < 0"
    "sint (sext k ?s) = - (2 ^ 63) \<Longrightarrow> sint (sext k ?s) < 0 \<and> 0 < sint (sext k ?s + - 1)" for k by (erule extreme_wraps(1), erule extreme_wraps(2))
  consider "is_constant (vn f x)" | "\<not> is_constant (vn f x)" "is_constant (vn f y)" | "\<not> is_constant (vn f x)" "\<not> is_constant (vn f y)" by blast
  then show ?thesis
  proof cases
    case 1
    let ?k = "constant_value (vn f x)"
    let ?D = "[(?s, \<lambda>env. (sext ?k ?s + - 1) AND calc_mask ?s), (vn_size (vn f y), \<lambda>env. env y)]"
    have e: "replace_lessequal p f = (if (if ?c = IntSlessequal then sint (sext ?k ?s) < 0 \<and> 0 < sint (sext ?k ?s + - 1) \<or> 0 < sint (sext ?k ?s) \<and> sint (sext ?k ?s + - 1) < 0
         else sext ?k ?s = 0) then Some (False, f) else lessequal_install p 0 ?o ?s (sext ?k ?s + - 1) f)"
      using 1 by (simp add: replace_lessequal_def I Let_def sign_extend_val_sext [OF s(3,4)])
    have val: "pval ?c [(?s, env x), (?s, env y)] 1 = pval ?o (views ?D env) 1"
      if "\<not> (if ?c = IntSlessequal then sint (sext ?k ?s) < 0 \<and> 0 < sint (sext ?k ?s + - 1) else sext ?k ?s = 0)" "env_ok f env" for env
    proof (cases "?c = IntSlessequal")
      case True
      have "sint (sext ?k ?s) \<noteq> - (2 ^ (8 * ?s - 1))"
        using ne that(1) g8(2) [of ?k] s(4) 1 True by (cases "?s = 8") (auto simp: lessequal_edge_def B(2))
      from lessequal_value(4) [OF s(3,4) fit [OF 1] _ True this] show ?thesis
        using env_fits(2) [OF that(2) B(4) 1] True s(1) by simp
    next
      case False
      then have "?c = IntLessequal" using c by (auto simp: lessequal_oplist_def)
      from lessequal_value(2) [OF s(3,4) fit [OF 1] _ this] show ?thesis
        using env_fits(2) [OF that(2) B(4) 1] False that(1) s(1) \<open>?c = IntLessequal\<close> by simp
    qed
    show ?thesis
    proof (cases "replace_lessequal p f = Some (False, f)")
      case F: False
      then have inst: "replace_lessequal p f = lessequal_install p 0 ?o ?s (sext ?k ?s + - 1) f"
        and n: "\<not> (if ?c = IntSlessequal then sint (sext ?k ?s) < 0 \<and> 0 < sint (sext ?k ?s + - 1) else sext ?k ?s = 0)"
        unfolding e by (auto split: if_splits)
      have "\<exists>g. lessequal_install p 0 ?o ?s (sext ?k ?s + - 1) f = Some (True, g) \<and> refines f g"
        by (rule install_sound [OF ok l c bin, of ?o ?D]) (use s(1) B(9) val [OF n] in auto)
      then show ?thesis unfolding inst by blast
    qed (rule none)
  next
    case 2
    let ?k = "constant_value (vn f y)"
    let ?D = "[(?s, \<lambda>env. env x), (?s, \<lambda>env. (sext ?k ?s + 1) AND calc_mask ?s)]"
    have e: "replace_lessequal p f = (if (if ?c = IntSlessequal then sint (sext ?k ?s) < 0 \<and> 0 < sint (sext ?k ?s + 1) \<or> 0 < sint (sext ?k ?s) \<and> sint (sext ?k ?s + 1) < 0
         else sext ?k ?s = - 1) then Some (False, f) else lessequal_install p 1 ?o ?s (sext ?k ?s + 1) f)"
      using 2 by (simp add: replace_lessequal_def I s(1) Let_def sign_extend_val_sext [OF s(3,4)])
    have val: "pval ?c [(?s, env x), (?s, env y)] 1 = pval ?o (views ?D env) 1"
      if "\<not> (if ?c = IntSlessequal then 0 < sint (sext ?k ?s) \<and> sint (sext ?k ?s + 1) < 0 else sext ?k ?s = - 1)" "env_ok f env" for env
    proof (cases "?c = IntSlessequal")
      case True
      have "sint (sext ?k ?s) \<noteq> 2 ^ (8 * ?s - 1) - 1"
        using ne that(1) g8(1) [of ?k] s(1,4) 2 True by (cases "?s = 8") (auto simp: lessequal_edge_def B(2))
      from lessequal_value(3) [OF s(3,4) fit [OF 2(2)] _ True this] show ?thesis
        using env_fits(2) [OF that(2) B(5) 2(2)] True by simp
    next
      case False
      then have "?c = IntLessequal" using c by (auto simp: lessequal_oplist_def)
      from lessequal_value(1) [OF s(3,4) fit [OF 2(2)] _ this] show ?thesis
        using env_fits(2) [OF that(2) B(5) 2(2)] False that(1) \<open>?c = IntLessequal\<close> by simp
    qed
    show ?thesis
    proof (cases "replace_lessequal p f = Some (False, f)")
      case F: False
      then have inst: "replace_lessequal p f = lessequal_install p 1 ?o ?s (sext ?k ?s + 1) f"
        and n: "\<not> (if ?c = IntSlessequal then 0 < sint (sext ?k ?s) \<and> sint (sext ?k ?s + 1) < 0 else sext ?k ?s = - 1)"
        unfolding e by (auto split: if_splits)
      have "\<exists>g. lessequal_install p 1 ?o ?s (sext ?k ?s + 1) f = Some (True, g) \<and> refines f g"
        by (rule install_sound [OF ok l c bin, of ?o ?D]) (use s(1) B(9) val [OF n] in auto)
      then show ?thesis unfolding inst by blast
    qed (rule none)
  next
    case 3 then show ?thesis by (intro none) (simp add: replace_lessequal_def I)
  qed
qed

end
