(* ===== verification/Action_Pool.thy ===== *)
theory Action_Pool
  imports Fd_Rules_Compare "HOL-Library.Product_Lexorder"
begin

text \<open>
  The driver of \<^verbatim>\<open>decompile/action.rs\<close>: a pool applies its rules to every operation until a round changes
  nothing, a group runs its actions in order (once or to a fixpoint), a wrapper applies an action once per
  function.  The loops need not end, so they carry fuel, and the state they had reached is kept when it runs
  out.  The clock is a parameter: whether the deadline is past at each reading.  Counts are the 32-bit
  counters of the code.
\<close>

record rule =
  ru_oplist :: "opcode list"
  ru_apply :: "nat \<Rightarrow> funcdata \<Rightarrow> (nat \<times> funcdata) option"

datatype 'a outcome = Finished 'a | Panicked | Unfinished funcdata

fun bind_outcome :: "'a outcome \<Rightarrow> ('a \<Rightarrow> 'b outcome) \<Rightarrow> 'b outcome" where
  "bind_outcome (Finished x) k = k x"
| "bind_outcome Panicked k = Panicked"
| "bind_outcome (Unfinished f) k = Unfinished f"

definition add32 :: "nat \<Rightarrow> nat \<Rightarrow> nat" where
  "add32 a b = (a + b) mod 2 ^ 32"

text \<open>The state of a run: the function, whether its deadline is known to be past, and how often the clock was read.\<close>

record run_state =
  rs_data :: funcdata
  rs_timed_out :: bool
  rs_reads :: nat

definition past_deadline :: "(nat \<Rightarrow> bool) \<Rightarrow> run_state \<Rightarrow> bool \<times> run_state" where
  "past_deadline clock s =
     (if rs_timed_out s then (True, s)
      else (clock (rs_reads s), s\<lparr>rs_timed_out := clock (rs_reads s), rs_reads := rs_reads s + 1\<rparr>))"

subsection \<open>Pools\<close>

definition perop :: "rule list \<Rightarrow> opcode \<Rightarrow> rule list" where
  "perop rules opc = filter (\<lambda>r. ru_oplist r = [] \<or> opc \<in> set (ru_oplist r)) rules"

fun process_op :: "nat \<Rightarrow> rule list \<Rightarrow> nat \<Rightarrow> opcode \<Rightarrow> nat \<Rightarrow> nat \<Rightarrow> funcdata \<Rightarrow> (nat \<times> funcdata) outcome" where
  "process_op 0 rules p opc i round f = Unfinished f"
| "process_op (Suc n) rules p opc i round f =
     (let l = perop rules opc
      in if length l \<le> i then Finished (round, f)
         else case ru_apply (l ! i) p f of
                None \<Rightarrow> Panicked
              | Some (changed, f) \<Rightarrow>
                  let round = add32 round changed; new_opc = po_code (pop f p)
                  in if 0 < changed \<and> is_dead (pop f p) then Finished (round, f)
                     else if new_opc \<noteq> opc then process_op n rules p new_opc 0 round f
                     else process_op n rules p opc (i + 1) round f)"

fun process_ops :: "nat \<Rightarrow> rule list \<Rightarrow> nat list \<Rightarrow> nat \<Rightarrow> funcdata \<Rightarrow> (nat \<times> funcdata) outcome" where
  "process_ops n rules [] round f = Finished (round, f)"
| "process_ops n rules (p # ids) round f =
     (if is_dead (pop f p) then process_ops n rules ids round f
      else bind_outcome (process_op n rules p (po_code (pop f p)) 0 round f) (\<lambda>(round, f). process_ops n rules ids round f))"

definition seq_key :: "funcdata \<Rightarrow> nat \<Rightarrow> space_id \<times> u64 \<times> nat" where
  "seq_key f p = (let s = po_seq (pop f p) in (addr_space (sq_pc s), addr_offset (sq_pc s), sq_uniq s))"

definition op_order :: "funcdata \<Rightarrow> nat list" where
  "op_order f = sort_key (seq_key f) [0..<num_ops f]"

fun pool_apply :: "nat \<Rightarrow> (nat \<Rightarrow> bool) \<Rightarrow> rule list \<Rightarrow> nat \<Rightarrow> run_state \<Rightarrow> (nat \<times> run_state) outcome" where
  "pool_apply 0 clock rules tot s = Unfinished (rs_data s)"
| "pool_apply (Suc n) clock rules tot s =
     (let (past, s) = past_deadline clock s
      in if past then Finished (tot, s)
         else bind_outcome (process_ops n rules (op_order (rs_data s)) 0 (rs_data s))
                (\<lambda>(round, f).
                   let tot = add32 tot round; s = s\<lparr>rs_data := f\<rparr>
                   in if round = 0 then Finished (tot, s) else pool_apply n clock rules tot s))"

subsection \<open>Groups and wrappers\<close>

datatype action =
  Action_Start
| Action_Pool "rule list"
| Action_Group bool "action list"
| Once_Per_Func bool action
| Action_Other "funcdata \<Rightarrow> (nat \<times> funcdata) option"

fun run_action :: "nat \<Rightarrow> (nat \<Rightarrow> bool) \<Rightarrow> action \<Rightarrow> run_state \<Rightarrow> (nat \<times> action \<times> run_state) outcome"
and group_loop :: "nat \<Rightarrow> (nat \<Rightarrow> bool) \<Rightarrow> bool \<Rightarrow> action list \<Rightarrow> nat \<Rightarrow> run_state \<Rightarrow> (nat \<times> action list \<times> run_state) outcome"
and group_pass :: "nat \<Rightarrow> (nat \<Rightarrow> bool) \<Rightarrow> action list \<Rightarrow> action list \<Rightarrow> nat \<Rightarrow> run_state \<Rightarrow> (bool \<times> nat \<times> action list \<times> run_state) outcome"
where
  "run_action 0 clock a s = Unfinished (rs_data s)"
| "run_action (Suc n) clock a s =
     (case a of
        Action_Start \<Rightarrow> Finished (0, a, s)
      | Action_Pool rules \<Rightarrow> bind_outcome (pool_apply n clock rules 0 s) (\<lambda>(k, s). Finished (k, a, s))
      | Action_Group restart l \<Rightarrow> bind_outcome (group_loop n clock restart l 0 s) (\<lambda>(k, l, s). Finished (k, Action_Group restart l, s))
      | Once_Per_Func ended b \<Rightarrow>
          if ended then Finished (0, a, s)
          else bind_outcome (run_action n clock b s) (\<lambda>(k, b, s). Finished (k, Once_Per_Func True b, s))
      | Action_Other app \<Rightarrow>
          (case app (rs_data s) of None \<Rightarrow> Panicked | Some (k, f) \<Rightarrow> Finished (k, a, s\<lparr>rs_data := f\<rparr>)))"
| "group_loop 0 clock restart l tot s = Unfinished (rs_data s)"
| "group_loop (Suc n) clock restart l tot s =
     bind_outcome (group_pass n clock [] l 0 s)
       (\<lambda>(past, round, l, s).
          if past then Finished (add32 tot round, l, s)
          else let tot = add32 tot round
               in if \<not> restart \<or> round = 0 then Finished (tot, l, s) else group_loop n clock restart l tot s)"
| "group_pass 0 clock before l round s = Unfinished (rs_data s)"
| "group_pass (Suc n) clock before l round s =
     (case l of
        [] \<Rightarrow> Finished (False, round, before, s)
      | a # as \<Rightarrow>
          let (past, s) = past_deadline clock s
          in if past then Finished (True, round, before @ a # as, s)
             else bind_outcome (run_action n clock a s)
                    (\<lambda>(k, a, s). group_pass n clock (before @ [a]) as (add32 round k) s))"

fun reset_action :: "action \<Rightarrow> action" where
  "reset_action (Action_Group restart l) = Action_Group restart (map reset_action l)"
| "reset_action (Once_Per_Func ended b) = Once_Per_Func False (reset_action b)"
| "reset_action a = a"

subsection \<open>What a rule and a pool promise\<close>

definition rule_sound :: "rule \<Rightarrow> bool" where
  "rule_sound r \<longleftrightarrow> (\<forall>f p. graph_ok f \<and> typed f \<and> live f p \<and> (ru_oplist r = [] \<or> po_code (pop f p) \<in> set (ru_oplist r)) \<longrightarrow>
     (\<exists>n g. ru_apply r p f = Some (n, g) \<and> refines f g \<and> n \<le> 1 \<and> (n = 0 \<longrightarrow> g = f)))"

definition quiet :: "rule list \<Rightarrow> nat \<Rightarrow> funcdata \<Rightarrow> bool" where
  "quiet rules p f \<longleftrightarrow> (\<forall>r \<in> set (perop rules (po_code (pop f p))). ru_apply r p f = Some (0, f))"

text \<open>A rule's contract: what it does to an operation whose opcode it asks for.\<close>

locale sound_rule =
  fixes codes :: "opcode list" and app :: "nat \<Rightarrow> funcdata \<Rightarrow> (nat \<times> funcdata) option"
  assumes codes: "codes \<noteq> []"
    and sound: "graph_ok f \<Longrightarrow> typed f \<Longrightarrow> live f p \<Longrightarrow> po_code (pop f p) \<in> set codes \<Longrightarrow> sound_at app p f"
    and single: "app p f = Some (n, g) \<Longrightarrow> n \<le> 1"
begin

lemma as_rule: "rule_sound \<lparr>ru_oplist = codes, ru_apply = app\<rparr>"
  using codes sound single unfolding rule_sound_def sound_at_def by fastforce

end

fun holds :: "('a \<Rightarrow> bool) \<Rightarrow> (funcdata \<Rightarrow> bool) \<Rightarrow> 'a outcome \<Rightarrow> bool" where
  "holds P Q (Finished x) \<longleftrightarrow> P x"
| "holds P Q Panicked \<longleftrightarrow> False"
| "holds P Q (Unfinished f) \<longleftrightarrow> Q f"

lemma holds_bind: "holds P' Q m \<Longrightarrow> (\<And>x. P' x \<Longrightarrow> holds P Q (k x)) \<Longrightarrow> holds P Q (bind_outcome m k)"
  by (cases m) auto

lemma bind_finished: "bind_outcome m k = Finished y \<longleftrightarrow> (\<exists>x. m = Finished x \<and> k x = Finished y)"
  by (cases m) auto

lemma refinesD:
  assumes "refines f g"
  shows "graph_ok g" "typed g" "num_ops f \<le> num_ops g" "live f p \<Longrightarrow> live g p" "p < num_ops f \<Longrightarrow> is_dead (pop g p) = is_dead (pop f p)"
  using assms by (auto simp: refines_def live_def)

locale sound_pool =
  fixes rules :: "rule list"
  assumes all: "r \<in> set rules \<Longrightarrow> rule_sound r"
begin

lemma applies:
  assumes "graph_ok f" "typed f" "live f p" "r \<in> set (perop rules (po_code (pop f p)))"
  obtains n g where "ru_apply r p f = Some (n, g)" "refines f g" "n \<le> 1" "n = 0 \<longrightarrow> g = f"
  using all [of r] assms unfolding rule_sound_def by (simp add: perop_def) blast

lemma process_op_sound:
  "refines f0 f \<Longrightarrow> live f p \<Longrightarrow> opc = po_code (pop f p) \<Longrightarrow>
   holds (\<lambda>(r, g). refines f0 g) (refines f0) (process_op n rules p opc i round f)"
proof (induction n arbitrary: opc i round f)
  case (Suc n)
  note F = refinesD [OF Suc.prems(1)]
  show ?case
  proof (cases "length (perop rules opc) \<le> i")
    case False
    then have "perop rules opc ! i \<in> set (perop rules (po_code (pop f p)))" using Suc.prems(3) by simp
    from applies [OF F(1,2) Suc.prems(2) this] obtain k g where g: "ru_apply (perop rules opc ! i) p f = Some (k, g)" "refines f g" by blast
    have fg: "refines f0 g" "live g p" using refines_trans [OF Suc.prems(1) g(2)] refinesD(4) [OF g(2)] Suc.prems(2) by blast+
    show ?thesis using False g(1) Suc.IH [OF fg refl] fg(1) by (auto simp: Let_def)
  qed (use Suc.prems in simp)
qed simp

lemma process_ops_sound:
  "refines f0 f \<Longrightarrow> \<forall>p \<in> set ids. p < num_ops f \<Longrightarrow> holds (\<lambda>(r, g). refines f0 g) (refines f0) (process_ops n rules ids round f)"
proof (induction ids arbitrary: round f)
  case (Cons p ids)
  show ?case
  proof (cases "is_dead (pop f p)")
    case False
    have "holds (\<lambda>(r, g). refines f g) (refines f) (process_op n rules p (po_code (pop f p)) 0 round f)"
      using refinesD(1,2) [OF Cons.prems(1)] False Cons.prems(2) by (intro process_op_sound) (auto intro: refines_refl simp: live_def)
    moreover have "holds (\<lambda>(r, g). refines f0 g) (refines f0) (process_ops n rules ids r g)" if "refines f g" for r g
      using Cons.IH [of g r] refines_trans [OF Cons.prems(1) that] refinesD(3) [OF that] Cons.prems(2) by force
    ultimately show ?thesis using False refines_trans [OF Cons.prems(1)]
      by (cases "process_op n rules p (po_code (pop f p)) 0 round f") auto
  qed (use Cons in simp)
qed simp

lemma op_order_range: "\<forall>p \<in> set (op_order f). p < num_ops f"
  by (simp add: op_order_def)

lemma pool_apply_sound:
  "refines f0 (rs_data s) \<Longrightarrow> holds (\<lambda>(k, s'). refines f0 (rs_data s')) (refines f0) (pool_apply n clock rules tot s)"
proof (induction n arbitrary: tot s)
  case (Suc n)
  obtain past s1 where p: "past_deadline clock s = (past, s1)" by fastforce
  then have d: "rs_data s1 = rs_data s" by (auto simp: past_deadline_def split: if_splits)
  show ?case using process_ops_sound [OF Suc.prems op_order_range, of n 0] Suc Suc.IH
    by (auto simp: p d Let_def intro!: holds_bind [where P' = "\<lambda>(r, g). refines f0 g"])
qed simp

text \<open>A counter that does not wrap counts: nothing counted is nothing changed.\<close>

lemma process_op_quiet:
  "process_op n rules p opc i round f = Finished (r, g) \<Longrightarrow> graph_ok f \<Longrightarrow> typed f \<Longrightarrow> live f p \<Longrightarrow> opc = po_code (pop f p) \<Longrightarrow>
   round + n < 2 ^ 32 \<Longrightarrow>
   round \<le> r \<and> r \<le> round + n \<and>
     (r = round \<longrightarrow> g = f \<and> (\<forall>j. i \<le> j \<and> j < length (perop rules opc) \<longrightarrow> ru_apply (perop rules opc ! j) p f = Some (0, f)))"
proof (induction n arbitrary: opc i round f)
  case (Suc n)
  show ?case
  proof (cases "length (perop rules opc) \<le> i")
    case False
    then have "perop rules opc ! i \<in> set (perop rules (po_code (pop f p)))" using Suc.prems(5) by simp
    from applies [OF Suc.prems(2-4) this] obtain k h
      where h: "ru_apply (perop rules opc ! i) p f = Some (k, h)" "refines f h" "k \<le> 1" "k = 0 \<longrightarrow> h = f" by blast
    note H = refinesD(1,2) [OF h(2)] refinesD(4) [OF h(2) Suc.prems(4)]
    have a: "add32 round k = round + k" using Suc.prems(6) h(3) by (simp add: add32_def)
    consider "0 < k" "is_dead (pop h p)" | "\<not> (0 < k \<and> is_dead (pop h p))" "po_code (pop h p) \<noteq> opc"
      | "\<not> (0 < k \<and> is_dead (pop h p))" "po_code (pop h p) = opc" by blast
    then show ?thesis
    proof cases
      case 1 then show ?thesis using Suc.prems(1,6) False h a by (auto simp: Let_def)
    next
      case 2
      then have "process_op n rules p (po_code (pop h p)) 0 (round + k) h = Finished (r, g)" using Suc.prems(1) False h(1) a by (auto simp: Let_def)
      from Suc.IH [OF this H refl] show ?thesis using Suc.prems(5,6) 2 h(3,4) by (cases "k = 0") auto
    next
      case 3
      then have e: "process_op n rules p opc (i + 1) (round + k) h = Finished (r, g)" using Suc.prems(1) False h(1) a by (auto simp: Let_def)
      from Suc.IH [OF this H 3(2) [symmetric]] have I: "round + k \<le> r \<and> r \<le> round + k + n \<and>
        (r = round + k \<longrightarrow> g = h \<and> (\<forall>j. i + 1 \<le> j \<and> j < length (perop rules opc) \<longrightarrow> ru_apply (perop rules opc ! j) p h = Some (0, h)))"
        using Suc.prems(6) h(3) by simp
      have "ru_apply (perop rules opc ! j) p f = Some (0, f)" if "r = round" "i \<le> j" "j < length (perop rules opc)" for j
        using I that h by (cases "j = i") auto
      then show ?thesis using I h(3,4) by auto
    qed
  qed (use Suc.prems in auto)
qed simp

lemma process_ops_quiet:
  "process_ops n rules ids round f = Finished (r, g) \<Longrightarrow> graph_ok f \<Longrightarrow> typed f \<Longrightarrow> \<forall>p \<in> set ids. p < num_ops f \<Longrightarrow>
   round + n * length ids < 2 ^ 32 \<Longrightarrow>
   round \<le> r \<and> r \<le> round + n * length ids \<and> (r = round \<longrightarrow> g = f \<and> (\<forall>p \<in> set ids. \<not> is_dead (pop f p) \<longrightarrow> quiet rules p f))"
proof (induction ids arbitrary: round f)
  case (Cons p ids)
  show ?case
  proof (cases "is_dead (pop f p)")
    case True
    then show ?thesis using Cons.IH [of round f] Cons.prems by (auto simp: live_def)
  next
    case False
    then have l: "live f p" using Cons.prems(4) by (simp add: live_def)
    obtain r1 h where h: "process_op n rules p (po_code (pop f p)) 0 round f = Finished (r1, h)" "process_ops n rules ids r1 h = Finished (r, g)"
      using Cons.prems(1) False by (auto simp: bind_finished)
    have Q: "round \<le> r1 \<and> r1 \<le> round + n \<and> (r1 = round \<longrightarrow> h = f \<and> quiet rules p f)"
      using process_op_quiet [OF h(1) Cons.prems(2,3) l refl] Cons.prems(5) by (fastforce simp: quiet_def in_set_conv_nth)
    have fh: "refines f h" using process_op_sound [OF refines_refl [OF Cons.prems(2,3)] l refl, of n 0 round] h(1) by simp
    have "r1 \<le> r \<and> r \<le> r1 + n * length ids \<and> (r = r1 \<longrightarrow> g = h \<and> (\<forall>p \<in> set ids. \<not> is_dead (pop h p) \<longrightarrow> quiet rules p h))"
      using Cons.IH [OF h(2) refinesD(1,2) [OF fh]] refinesD(3) [OF fh] Cons.prems(4,5) Q by force
    then show ?thesis using Q by (auto simp: le_antisym)
  qed
qed simp

lemma pool_fixpoint:
  "pool_apply n clock rules tot s = Finished (k, s') \<Longrightarrow> graph_ok (rs_data s) \<Longrightarrow> typed (rs_data s) \<Longrightarrow> \<not> rs_timed_out s' \<Longrightarrow>
   n * num_ops (rs_data s') < 2 ^ 32 \<Longrightarrow> p < num_ops (rs_data s') \<Longrightarrow> \<not> is_dead (pop (rs_data s') p) \<Longrightarrow> quiet rules p (rs_data s')"
proof (induction n arbitrary: tot s)
  case (Suc n)
  obtain past s1 where p: "past_deadline clock s = (past, s1)" by fastforce
  then have d: "rs_data s1 = rs_data s" and t: "past \<Longrightarrow> rs_timed_out s1" by (auto simp: past_deadline_def split: if_splits)
  have np: "\<not> past" using Suc.prems(1,4) p t by (auto split: if_splits)
  obtain r f where r: "process_ops n rules (op_order (rs_data s)) 0 (rs_data s) = Finished (r, f)"
    "(if r = 0 then Finished (add32 tot r, s1\<lparr>rs_data := f\<rparr>) else pool_apply n clock rules (add32 tot r) (s1\<lparr>rs_data := f\<rparr>)) = Finished (k, s')"
    using Suc.prems(1) np by (auto simp: p d bind_finished Let_def)
  have fh: "refines (rs_data s) f" using process_ops_sound [OF refines_refl [OF Suc.prems(2,3)] op_order_range, of n 0] r(1) by simp
  show ?case
  proof (cases "r = 0")
    case True
    then have e: "rs_data s' = f" using r(2) by auto
    have "length (op_order (rs_data s)) = num_ops (rs_data s)" by (simp add: op_order_def)
    moreover have "n * num_ops (rs_data s) \<le> Suc n * num_ops f" using refinesD(3) [OF fh] by (intro mult_le_mono) simp_all
    ultimately have b: "0 + n * length (op_order (rs_data s)) < 2 ^ 32" using Suc.prems(5) unfolding e by simp
    note Q = process_ops_quiet [OF r(1) Suc.prems(2,3) op_order_range b]
    then show ?thesis using True Suc.prems(6,7) unfolding e by (auto simp: op_order_def)
  next
    case False
    have "n * num_ops (rs_data s') \<le> Suc n * num_ops (rs_data s')" by simp
    then have "n * num_ops (rs_data s') < 2 ^ 32" using Suc.prems(5) by linarith
    then show ?thesis using Suc.IH [of "add32 tot r" "s1\<lparr>rs_data := f\<rparr>"] False r(2) refinesD(1,2) [OF fh] Suc.prems(4,6,7) by simp
  qed
qed simp

end

subsection \<open>Groups of sound actions\<close>

fun action_sound :: "action \<Rightarrow> bool" where
  "action_sound Action_Start \<longleftrightarrow> True"
| "action_sound (Action_Pool rules) \<longleftrightarrow> (\<forall>r \<in> set rules. rule_sound r)"
| "action_sound (Action_Group restart l) \<longleftrightarrow> (\<forall>a \<in> set l. action_sound a)"
| "action_sound (Once_Per_Func ended b) \<longleftrightarrow> action_sound b"
| "action_sound (Action_Other app) \<longleftrightarrow>
     (\<forall>f. graph_ok f \<and> typed f \<longrightarrow> (\<exists>n g. app f = Some (n, g) \<and> refines f g))"

lemma past_data: "past_deadline clock s = (past, s') \<Longrightarrow> rs_data s' = rs_data s"
  by (auto simp: past_deadline_def split: if_splits)

lemma run_action_sound:
  "refines f0 (rs_data s) \<Longrightarrow> action_sound a \<Longrightarrow>
     holds (\<lambda>(k, a', s'). action_sound a' \<and> refines f0 (rs_data s')) (refines f0) (run_action n clock a s)"
  "refines f0 (rs_data s) \<Longrightarrow> \<forall>a \<in> set l. action_sound a \<Longrightarrow>
     holds (\<lambda>(k, l', s'). (\<forall>a \<in> set l'. action_sound a) \<and> refines f0 (rs_data s')) (refines f0) (group_loop n clock restart l tot s)"
  "refines f0 (rs_data s) \<Longrightarrow> \<forall>a \<in> set before. action_sound a \<Longrightarrow> \<forall>a \<in> set l. action_sound a \<Longrightarrow>
     holds (\<lambda>(past, k, l', s'). (\<forall>a \<in> set l'. action_sound a) \<and> refines f0 (rs_data s')) (refines f0) (group_pass n clock before l round s)"
proof (induction n clock a s and n clock restart l tot s and n clock before l round s rule: run_action_group_loop_group_pass.induct)
  case (2 n clock a s)
  show ?case
  proof (cases a)
    case (Action_Pool rules)
    have "sound_pool rules" using 2 Action_Pool by unfold_locales simp
    from sound_pool.pool_apply_sound [OF this 2(3), of n clock 0] show ?thesis
      using 2(4) by (auto simp: Action_Pool intro!: holds_bind [where P' = "\<lambda>(k, s'). refines f0 (rs_data s')"])
  next
    case (Action_Group restart l)
    show ?thesis unfolding Action_Group
      using 2(1) [OF Action_Group] 2(3,4) Action_Group
      by (auto intro!: holds_bind [where P' = "\<lambda>(k, l', s'). (\<forall>a \<in> set l'. action_sound a) \<and> refines f0 (rs_data s')"])
  next
    case (Once_Per_Func ended b)
    show ?thesis unfolding Once_Per_Func
      using 2(2) [OF Once_Per_Func] 2(3,4) Once_Per_Func
      by (auto intro!: holds_bind [where P' = "\<lambda>(k, a', s'). action_sound a' \<and> refines f0 (rs_data s')"])
  next
    case (Action_Other app)
    then obtain k g where "app (rs_data s) = Some (k, g)" "refines (rs_data s) g" using 2 refinesD(1,2) [OF 2(3)] by auto
    then show ?thesis using Action_Other 2(3,4) refines_trans by auto
  qed (use 2 in simp)
next
  case (4 n clock restart l tot s)
  show ?case using 4
    by (auto simp: Let_def intro!: holds_bind [where P' = "\<lambda>(past, k, l', s'). (\<forall>a \<in> set l'. action_sound a) \<and> refines f0 (rs_data s')"])
next
  case (6 n clock before l round s)
  show ?case
  proof (cases l)
    case (Cons a as)
    obtain past s1 where p: "past_deadline clock s = (past, s1)" by fastforce
    note d = past_data [OF p]
    show ?thesis
    proof (cases past)
      case False
      have "holds (\<lambda>(k, a', s'). action_sound a' \<and> refines f0 (rs_data s')) (refines f0) (run_action n clock a s1)"
        using 6(1) [OF Cons p [symmetric] refl False] 6 Cons d by simp
      then show ?thesis using 6(2) [OF Cons p [symmetric] refl False] 6(3-5) Cons False p
        by (auto intro!: holds_bind [where P' = "\<lambda>(k, a', s'). action_sound a' \<and> refines f0 (rs_data s')"])
    qed (use 6 Cons p d in auto)
  qed (use 6 in simp)
qed simp_all

lemma bind_some: "Option.bind m k = Some y \<longleftrightarrow> (\<exists>x. m = Some x \<and> k x = Some y)"
  by (cases m) auto

lemmas count_simps = bind_some Let_def split_beta copy_false_def copy_true_def xor_swap_keep_def

lemma counts_at_most_one:
  "rule_term_order p f = Some (n, g) \<Longrightarrow> n \<le> 1"
  "rule_identity_el p f = Some (n, g) \<Longrightarrow> n \<le> 1"
  "rule_trivial_shift p f = Some (n, g) \<Longrightarrow> n \<le> 1"
  "rule_trivial_bool p f = Some (n, g) \<Longrightarrow> n \<le> 1"
  "rule_trivial_arith p f = Some (n, g) \<Longrightarrow> n \<le> 1"
  "rule_2comp2mult p f = Some (n, g) \<Longrightarrow> n \<le> 1"
  "rule_mult_neg_one p f = Some (n, g) \<Longrightarrow> n \<le> 1"
  "rule_less_one p f = Some (n, g) \<Longrightarrow> n \<le> 1"
  "rule_less2zero p f = Some (n, g) \<Longrightarrow> n \<le> 1"
  "rule_lessequal2zero p f = Some (n, g) \<Longrightarrow> n \<le> 1"
  "rule_or_mask p f = Some (n, g) \<Longrightarrow> n \<le> 1"
  "rule_carry_elim p f = Some (n, g) \<Longrightarrow> n \<le> 1"
  "rule_bxor2notequal p f = Some (n, g) \<Longrightarrow> n \<le> 1"
  "rule_negate_negate p f = Some (n, g) \<Longrightarrow> n \<le> 1"
  "rule_xor_swap p f = Some (n, g) \<Longrightarrow> n \<le> 1"
  "rule_sub2add p f = Some (n, g) \<Longrightarrow> n \<le> 1"
  "rule_not_distribute p f = Some (n, g) \<Longrightarrow> n \<le> 1"
  by (auto simp: rule_term_order_def count_simps split: if_splits option.splits list.splits,
    auto simp: rule_identity_el_def count_simps split: if_splits option.splits list.splits,
    auto simp: rule_trivial_shift_def count_simps split: if_splits option.splits list.splits,
    auto simp: rule_trivial_bool_def count_simps split: if_splits opcode.splits,
    auto simp: rule_trivial_arith_def count_simps split: if_splits option.splits list.splits,
    auto simp: rule_2comp2mult_def count_simps split: if_splits option.splits list.splits,
    auto simp: rule_mult_neg_one_def count_simps split: if_splits option.splits list.splits,
    auto simp: rule_less_one_def count_simps split: if_splits option.splits list.splits,
    auto simp: rule_less2zero_def count_simps split: if_splits option.splits list.splits,
    auto simp: rule_lessequal2zero_def count_simps split: if_splits option.splits list.splits,
    auto simp: rule_or_mask_def count_simps split: if_splits option.splits list.splits,
    auto simp: rule_carry_elim_def count_simps split: if_splits option.splits list.splits,
    auto simp: rule_bxor2notequal_def count_simps split: if_splits option.splits list.splits,
    auto simp: rule_negate_negate_def count_simps split: if_splits option.splits list.splits,
    auto simp: rule_xor_swap_def count_simps split: if_splits option.splits list.splits,
    auto simp: rule_sub2add_def count_simps split: if_splits option.splits list.splits,
    auto simp: rule_not_distribute_def count_simps split: if_splits option.splits list.splits)

text \<open>The pools of \<^verbatim>\<open>pipeline.rs\<close>, restricted to the rules modelled and proved here, in the order of the code.\<close>

definition modelled_rules :: "rule list" where
  "modelled_rules =
     [\<lparr>ru_oplist = term_order_oplist, ru_apply = rule_term_order\<rparr>,
      \<lparr>ru_oplist = trivial_arith_oplist, ru_apply = rule_trivial_arith\<rparr>,
      \<lparr>ru_oplist = trivial_bool_oplist, ru_apply = rule_trivial_bool\<rparr>,
      \<lparr>ru_oplist = trivial_shift_oplist, ru_apply = rule_trivial_shift\<rparr>,
      \<lparr>ru_oplist = identity_el_oplist, ru_apply = rule_identity_el\<rparr>,
      \<lparr>ru_oplist = [IntOr], ru_apply = rule_or_mask\<rparr>,
      \<lparr>ru_oplist = [Int2comp], ru_apply = rule_2comp2mult\<rparr>,
      \<lparr>ru_oplist = [IntSub], ru_apply = rule_sub2add\<rparr>,
      \<lparr>ru_oplist = [IntCarry], ru_apply = rule_carry_elim\<rparr>,
      \<lparr>ru_oplist = [BoolXor], ru_apply = rule_bxor2notequal\<rparr>,
      \<lparr>ru_oplist = [IntLess], ru_apply = rule_less2zero\<rparr>,
      \<lparr>ru_oplist = [IntLessequal], ru_apply = rule_lessequal2zero\<rparr>,
      \<lparr>ru_oplist = less_one_oplist, ru_apply = rule_less_one\<rparr>,
      \<lparr>ru_oplist = [IntXor], ru_apply = rule_xor_swap\<rparr>,
      \<lparr>ru_oplist = [IntNegate], ru_apply = rule_negate_negate\<rparr>]"

definition modelled_cleanup :: "rule list" where
  "modelled_cleanup = [\<lparr>ru_oplist = [IntMult], ru_apply = rule_mult_neg_one\<rparr>]"

interpretation term_order: sound_rule term_order_oplist rule_term_order
  by unfold_locales (auto simp: term_order_oplist_def intro: rule_term_order_sound dest: counts_at_most_one)

interpretation trivial_arith: sound_rule trivial_arith_oplist rule_trivial_arith
  by unfold_locales (auto simp: trivial_arith_oplist_def intro: rule_trivial_arith_sound dest: counts_at_most_one)

interpretation trivial_bool: sound_rule trivial_bool_oplist rule_trivial_bool
  by unfold_locales (auto simp: trivial_bool_oplist_def intro: rule_trivial_bool_sound dest: counts_at_most_one)

interpretation trivial_shift: sound_rule trivial_shift_oplist rule_trivial_shift
  by unfold_locales (auto simp: trivial_shift_oplist_def intro: rule_trivial_shift_sound dest: counts_at_most_one)

interpretation identity_el: sound_rule identity_el_oplist rule_identity_el
  by unfold_locales (auto simp: identity_el_oplist_def intro: rule_identity_el_sound dest: counts_at_most_one)

interpretation or_mask: sound_rule "[IntOr]" rule_or_mask
  by unfold_locales (auto simp: intro: rule_or_mask_sound dest: counts_at_most_one)

interpretation comp2mult: sound_rule "[Int2comp]" rule_2comp2mult
  by unfold_locales (auto simp: intro: rule_2comp2mult_sound dest: counts_at_most_one)

interpretation sub2add: sound_rule "[IntSub]" rule_sub2add
  by unfold_locales (auto simp: intro: rule_sub2add_sound dest: counts_at_most_one)

interpretation carry_elim: sound_rule "[IntCarry]" rule_carry_elim
  by unfold_locales (auto simp: intro: rule_carry_elim_sound dest: counts_at_most_one)

interpretation bxor2notequal: sound_rule "[BoolXor]" rule_bxor2notequal
  by unfold_locales (auto simp: intro: rule_bxor2notequal_sound dest: counts_at_most_one)

interpretation less2zero: sound_rule "[IntLess]" rule_less2zero
  by unfold_locales (auto simp: intro: rule_less2zero_sound dest: counts_at_most_one)

interpretation lessequal2zero: sound_rule "[IntLessequal]" rule_lessequal2zero
  by unfold_locales (auto simp: intro: rule_lessequal2zero_sound dest: counts_at_most_one)

interpretation less_one: sound_rule less_one_oplist rule_less_one
  by unfold_locales (auto simp: less_one_oplist_def intro: rule_less_one_sound dest: counts_at_most_one)

interpretation xor_swap: sound_rule "[IntXor]" rule_xor_swap
  by unfold_locales (auto simp: intro: rule_xor_swap_sound dest: counts_at_most_one)

interpretation negate_negate: sound_rule "[IntNegate]" rule_negate_negate
  by unfold_locales (auto simp: intro: rule_negate_negate_sound dest: counts_at_most_one)

interpretation mult_neg_one: sound_rule "[IntMult]" rule_mult_neg_one
  by unfold_locales (auto simp: intro: rule_mult_neg_one_sound dest: counts_at_most_one)

interpretation not_distribute: sound_rule "[BoolNegate]" rule_not_distribute
  by unfold_locales (auto simp: intro: rule_not_distribute_sound dest: counts_at_most_one)

interpretation oppool: sound_pool modelled_rules
  by unfold_locales (auto simp: modelled_rules_def intro: term_order.as_rule trivial_arith.as_rule trivial_bool.as_rule trivial_shift.as_rule identity_el.as_rule or_mask.as_rule comp2mult.as_rule sub2add.as_rule carry_elim.as_rule bxor2notequal.as_rule less2zero.as_rule lessequal2zero.as_rule less_one.as_rule xor_swap.as_rule negate_negate.as_rule)

interpretation cleanup: sound_pool modelled_cleanup
  by unfold_locales (auto simp: modelled_cleanup_def intro: mult_neg_one.as_rule)

subsection \<open>Pools that end\<close>

lemma process_op_counter: "process_op n rules p opc i round f = Finished (r, g) \<Longrightarrow> round < 2 ^ 32 \<Longrightarrow> r < 2 ^ 32"
proof (induction n arbitrary: opc i round f)
  case (Suc n)
  have "add32 a b < 2 ^ 32" for a b by (simp add: add32_def)
  then show ?case using Suc.prems Suc.IH by (auto simp: Let_def split: if_splits option.splits)
qed simp

lemma process_ops_counter: "process_ops n rules ids round f = Finished (r, g) \<Longrightarrow> round < 2 ^ 32 \<Longrightarrow> r < 2 ^ 32"
  by (induction ids arbitrary: round f) (auto simp: bind_finished dest: process_op_counter split: if_splits)

text \<open>When every change a rule reports lowers a weight of the function, the pool ends, and one round per unit of weight is enough.\<close>

locale shrinking_pool = sound_pool +
  fixes weight :: "funcdata \<Rightarrow> nat"
  assumes shrinks: "graph_ok f \<Longrightarrow> typed f \<Longrightarrow> live f p \<Longrightarrow> r \<in> set (perop rules (po_code (pop f p))) \<Longrightarrow>
    ru_apply r p f = Some (Suc n, g) \<Longrightarrow> weight g < weight f"
begin

abbreviation inner_fuel :: "funcdata \<Rightarrow> nat" where
  "inner_fuel f \<equiv> Suc (length rules) * Suc (weight f)"

lemma perop_length: "length (perop rules opc) \<le> length rules"
  by (simp add: perop_def)

lemma process_op_ends:
  "graph_ok f \<Longrightarrow> typed f \<Longrightarrow> live f p \<Longrightarrow> opc = po_code (pop f p) \<Longrightarrow> Suc (length rules) * weight f + (length rules - i) < n \<Longrightarrow>
   \<exists>r g. process_op n rules p opc i round f = Finished (r, g) \<and> weight g \<le> weight f \<and> (r mod 2 ^ 32 \<noteq> round mod 2 ^ 32 \<longrightarrow> weight g < weight f)"
proof (induction n arbitrary: opc i round f)
  case (Suc n)
  show ?case
  proof (cases "length (perop rules opc) \<le> i")
    case False
    then have i: "i < length rules" using perop_length [of opc] by simp
    have m: "perop rules opc ! i \<in> set (perop rules (po_code (pop f p)))" using Suc.prems(4) False by simp
    from applies [OF Suc.prems(1-3) m] obtain k g
      where g: "ru_apply (perop rules opc ! i) p f = Some (k, g)" "refines f g" "k = 0 \<longrightarrow> g = f" by blast
    note G = refinesD(1,2) [OF g(2)] refinesD(4) [OF g(2) Suc.prems(3)]
    show ?thesis
    proof (cases k)
      case 0
      then have fg: "g = f" using g(3) by simp
      have fuel: "Suc (length rules) * weight f + (length rules - Suc i) < n" using Suc.prems(5) i by arith
      have "(add32 round 0) mod 2 ^ 32 = round mod 2 ^ 32" by (simp add: add32_def)
      then show ?thesis using Suc.IH [OF Suc.prems(1-4) fuel, of "add32 round 0"] False g(1) 0 fg Suc.prems(4) by (simp add: Let_def)
    next
      case (Suc k')
      have w: "weight g < weight f" using shrinks [OF Suc.prems(1-3) m] g(1) Suc by blast
      then have le: "Suc (length rules) * Suc (weight g) \<le> Suc (length rules) * weight f" by (intro mult_le_mono2) simp
      have fuel: "Suc (length rules) * weight g + (length rules - j) < n" for j using le Suc.prems(5) by (simp add: algebra_simps)
      show ?thesis
      proof (cases "is_dead (pop g p)")
        case True then show ?thesis using False g(1) Suc w by (simp add: Let_def)
      next
        case live: False
        obtain r h where "process_op n rules p (po_code (pop g p)) (if po_code (pop g p) \<noteq> opc then 0 else i + 1) (add32 round k) g = Finished (r, h)"
          "weight h \<le> weight g" using Suc.IH [OF G refl fuel, of "if po_code (pop g p) \<noteq> opc then 0 else i + 1" "add32 round k"] by blast
        then show ?thesis using False g(1) Suc w live by (auto simp: Let_def split: if_splits)
      qed
    qed
  qed simp
qed simp

lemma process_ops_ends:
  "graph_ok f \<Longrightarrow> typed f \<Longrightarrow> \<forall>p \<in> set ids. p < num_ops f \<Longrightarrow> inner_fuel f \<le> n \<Longrightarrow>
   \<exists>r g. process_ops n rules ids round f = Finished (r, g) \<and> weight g \<le> weight f \<and> (r mod 2 ^ 32 \<noteq> round mod 2 ^ 32 \<longrightarrow> weight g < weight f)"
proof (induction ids arbitrary: round f)
  case (Cons p ids)
  show ?case
  proof (cases "is_dead (pop f p)")
    case False
    then have l: "live f p" using Cons.prems(3) by (simp add: live_def)
    have "Suc (length rules) * weight f + (length rules - 0) < n" using Cons.prems(4) by simp
    then obtain r g where g: "process_op n rules p (po_code (pop f p)) 0 round f = Finished (r, g)" "weight g \<le> weight f"
      "r mod 2 ^ 32 \<noteq> round mod 2 ^ 32 \<longrightarrow> weight g < weight f" using process_op_ends [OF Cons.prems(1,2) l refl] by blast
    have fg: "refines f g" using process_op_sound [OF refines_refl [OF Cons.prems(1,2)] l refl, of n 0 round] g(1) by simp
    have "Suc (length rules) * Suc (weight g) \<le> Suc (length rules) * Suc (weight f)" using g(2) by (intro mult_le_mono2) simp
    then have "inner_fuel g \<le> n" using Cons.prems(4) by simp
    then obtain r' h where "process_ops n rules ids r g = Finished (r', h)" "weight h \<le> weight g"
      "r' mod 2 ^ 32 \<noteq> r mod 2 ^ 32 \<longrightarrow> weight h < weight g"
      using Cons.IH [OF refinesD(1,2) [OF fg], of r] refinesD(3) [OF fg] Cons.prems(3) by fastforce
    then show ?thesis using g False by (auto intro: le_less_trans less_le_trans)
  qed (use Cons in simp)
qed simp

lemma pool_ends:
  "graph_ok (rs_data s) \<Longrightarrow> typed (rs_data s) \<Longrightarrow> inner_fuel (rs_data s) + weight (rs_data s) < n \<Longrightarrow>
   \<exists>k s'. pool_apply n clock rules tot s = Finished (k, s')"
proof (induction n arbitrary: tot s)
  case (Suc n)
  obtain past s1 where p: "past_deadline clock s = (past, s1)" by fastforce
  note d = past_data [OF p]
  obtain r g where g: "process_ops n rules (op_order (rs_data s)) 0 (rs_data s) = Finished (r, g)" "weight g \<le> weight (rs_data s)"
    "r mod 2 ^ 32 \<noteq> 0 mod 2 ^ 32 \<longrightarrow> weight g < weight (rs_data s)"
    using process_ops_ends [OF Suc.prems(1,2) op_order_range, of n 0] Suc.prems(3) by force
  have fg: "refines (rs_data s) g" using process_ops_sound [OF refines_refl [OF Suc.prems(1,2)] op_order_range, of n 0] g(1) by simp
  have small: "r < 2 ^ 32" using process_ops_counter [OF g(1)] by simp
  show ?case
  proof (cases "past \<or> r = 0")
    case False
    then have w: "weight g < weight (rs_data s)" using g(3) small by simp
    then have "Suc (length rules) * Suc (weight g) \<le> Suc (length rules) * Suc (weight (rs_data s))" by (intro mult_le_mono2) simp
    then have "inner_fuel g + weight g < n" using w Suc.prems(3) by linarith
    then show ?thesis using Suc.IH [of "s1\<lparr>rs_data := g\<rparr>" "add32 tot r"] refinesD(1,2) [OF fg] False g(1) by (auto simp: p d Let_def)
  qed (use g(1) in \<open>auto simp: p d Let_def\<close>)
qed simp

end

end
