(* ===== verification/Action_Ends.thy ===== *)
theory Action_Ends
  imports Action_Pool
begin

text \<open>
  The pool of the modelled rules ends: a weight of the function that every change of every rule lowers.
\<close>

subsection \<open>The weight of a function\<close>

text \<open>
  Each change of the modelled rules lowers it: an opcode is worth more than the opcodes it is rewritten to
  (a subtraction more than an addition and a product), and a constant on the left of a variable counts one.
\<close>

definition op_base :: "opcode \<Rightarrow> nat" where
  "op_base c =
     (if c = Copy then 0
      else if c \<in> {IntEqual, IntNotequal, BoolNegate} then 1
      else if c \<in> {IntCarry, Int2comp} then 3
      else if c = IntSub then 6
      else 2)"

definition op_weight :: "funcdata \<Rightarrow> nat \<Rightarrow> nat" where
  "op_weight f q =
     2 * op_base (po_code (pop f q)) +
     (case po_inrefs (pop f q) of [a, b] \<Rightarrow> if is_constant (vn f a) \<and> \<not> is_constant (vn f b) then 1 else 0 | _ \<Rightarrow> 0)"

definition fd_weight :: "funcdata \<Rightarrow> nat" where
  "fd_weight f = sum_list (map (op_weight f) [0..<num_ops f])"

lemma fd_weight_sum: "fd_weight f = (\<Sum>q < num_ops f. op_weight f q)"
  by (simp add: fd_weight_def sum_list_distinct_conv_sum_set atLeast0LessThan)

lemma op_weight_bounds: "2 * op_base (po_code (pop f q)) \<le> op_weight f q" "op_weight f q \<le> 2 * op_base (po_code (pop f q)) + 1"
  by (auto simp: op_weight_def split: list.splits)

text \<open>A change to one operation: the others keep their opcode and inputs, and old varnodes stay constant or not.\<close>

definition edit :: "nat \<Rightarrow> opcode \<Rightarrow> funcdata \<Rightarrow> funcdata \<Rightarrow> bool" where
  "edit p c f g \<longleftrightarrow> num_ops g = num_ops f \<and> num_varnodes f \<le> num_varnodes g \<and> po_code (pop g p) = c
     \<and> (\<forall>w < num_varnodes f. is_constant (vn g w) = is_constant (vn f w))
     \<and> (\<forall>q. q \<noteq> p \<longrightarrow> po_code (pop g q) = po_code (pop f q) \<and> po_inrefs (pop g q) = po_inrefs (pop f q))"

lemma edit_refl: "edit p (po_code (pop f p)) f f"
  by (simp add: edit_def)

lemma edit_const: "edit p c f g \<Longrightarrow> edit p c f (snd (new_const sz k g))"
proof -
  have x: "extends g (snd (new_const sz k g))" by (rule new_const_simps)
  show "edit p c f g \<Longrightarrow> edit p c f (snd (new_const sz k g))" using extendsD [OF x] x by (auto simp: edit_def extends_def)
qed

lemma edit_unique: "edit p c f g \<Longrightarrow> edit p c f (snd (unique_constant_for v g))"
proof -
  assume e: "edit p c f g"
  let ?h = "snd (new_const (vn_size (vn g v)) (addr_offset (vn_loc (vn g v))) g)"
  have "edit p c f (vn_mut (num_varnodes g) k ?h)" for k
    using edit_const [OF e, of "vn_size (vn g v)" "addr_offset (vn_loc (vn g v))"] e by (auto simp: edit_def fd_simps)
  then show ?thesis using e by (auto simp: unique_constant_for_def Let_def split_beta new_const_simps)
qed

lemma edit_reader: "edit p c f g \<Longrightarrow> edit p c f (add_reader q v g)" "edit p c f g \<Longrightarrow> edit p c f (drop_reader q v g)"
  by (auto simp: edit_def add_reader_def drop_reader_def fd_simps is_constant_def)

lemma edit_inrefs: "edit p c f g \<Longrightarrow> edit p c f (op_mut p (\<lambda>x. x\<lparr>po_inrefs := i x\<rparr>) g)"
  by (auto simp: edit_def fd_simps)

lemma edit_opcode: "edit p c f g \<Longrightarrow> p < num_ops f \<Longrightarrow> edit p c' f (op_set_opcode p c' g)"
  by (auto simp: edit_def op_set_opcode_def fd_simps)

lemma edit_set_input: "op_set_input p i v g = Some h \<Longrightarrow> edit p c f g \<Longrightarrow> edit p c f h"
  by (auto simp: op_set_input_def Let_def split_beta intro!: edit_reader edit_inrefs edit_unique split: if_splits)

lemma edit_remove_input: "op_remove_input p i g = Some h \<Longrightarrow> edit p c f g \<Longrightarrow> edit p c f h"
  by (auto simp: op_remove_input_def Let_def intro!: edit_reader edit_inrefs split: if_splits)

lemma edit_insert_input: "op_insert_input p i v g = Some h \<Longrightarrow> edit p c f g \<Longrightarrow> edit p c f h"
  by (auto simp: op_insert_input_def Let_def split_beta intro!: edit_reader edit_inrefs edit_unique split: if_splits)

lemma edit_fold: "(\<And>x h. edit p c f h \<Longrightarrow> edit p c f (k x h)) \<Longrightarrow> edit p c f g \<Longrightarrow> edit p c f (fold k xs g)"
  by (induction xs arbitrary: g) auto

lemma edit_set_all: "edit p c f g \<Longrightarrow> edit p c f (op_set_all_input p vs g)"
  unfolding op_set_all_input_def drop_inputs_def op_append_input_def Let_def split_beta
  by (intro edit_fold edit_reader edit_inrefs edit_unique)

lemmas edits = edit_refl edit_const edit_opcode edit_set_input edit_remove_input edit_insert_input edit_set_all

lemma sum_strict:
  assumes "m = n" "p < (n :: nat)" "\<And>q. q < n \<Longrightarrow> q \<noteq> p \<Longrightarrow> a q = b q" "a p < (b p :: nat)"
  shows "(\<Sum>q < m. a q) < (\<Sum>q < n. b q)"
  unfolding assms(1)
proof (rule sum_strict_mono_ex1)
  show "\<forall>q \<in> {..<n}. a q \<le> b q" using assms by (metis lessThan_iff order_less_imp_le order_refl)
qed (use assms in auto)

lemma edit_weight:
  assumes ok: "graph_ok f" and p: "p < num_ops f" and e: "edit p c f g" and b: "op_base c < op_base (po_code (pop f p))"
  shows "fd_weight g < fd_weight f"
proof -
  have w: "op_weight g q = op_weight f q" if "q < num_ops f" "q \<noteq> p" for q
  proof -
    have "is_constant (vn g v) = is_constant (vn f v)" if "v \<in> set (po_inrefs (pop f q))" for v
      using op_range(1) [OF ok \<open>q < num_ops f\<close> that] e by (simp add: edit_def)
    then show ?thesis using e that by (auto simp: edit_def op_weight_def split: list.splits)
  qed
  have "op_weight g p < op_weight f p" using op_weight_bounds(2) [of g p] op_weight_bounds(1) [of f p] e b by (simp add: edit_def)
  then show ?thesis unfolding fd_weight_sum using e p w by (intro sum_strict) (simp_all add: edit_def)
qed

text \<open>What each rule leaves of its operation when it reports a change.\<close>

definition lowers :: "(nat \<Rightarrow> funcdata \<Rightarrow> (nat \<times> funcdata) option) \<Rightarrow> nat \<Rightarrow> funcdata \<Rightarrow> bool" where
  "lowers app p f \<longleftrightarrow> (\<forall>n g. app p f = Some (Suc n, g) \<longrightarrow> (\<exists>c. edit p c f g \<and> op_base c < op_base (po_code (pop f p))))"

lemma lowersI: "(\<And>n g. app p f = Some (Suc n, g) \<Longrightarrow> edit p c f g) \<Longrightarrow> op_base c < op_base (po_code (pop f p)) \<Longrightarrow> lowers app p f"
  by (auto simp: lowers_def)

lemma identity_el_lowers: "p < num_ops f \<Longrightarrow> po_code (pop f p) \<in> set identity_el_oplist \<Longrightarrow> lowers rule_identity_el p f"
  by (intro lowersI [where c = Copy]; auto simp: rule_identity_el_def count_simps identity_el_oplist_def op_base_def split: if_splits list.splits option.splits;
      (assumption | rule edit_refl edit_const edit_opcode edit_set_all | erule edit_set_input edit_remove_input edit_insert_input)+)

lemma trivial_shift_lowers: "p < num_ops f \<Longrightarrow> po_code (pop f p) \<in> set trivial_shift_oplist \<Longrightarrow> lowers rule_trivial_shift p f"
  by (intro lowersI [where c = Copy]; auto simp: rule_trivial_shift_def count_simps trivial_shift_oplist_def op_base_def split: if_splits list.splits option.splits;
      (assumption | rule edit_refl edit_const edit_opcode edit_set_all | erule edit_set_input edit_remove_input edit_insert_input)+)

lemma trivial_arith_lowers: "p < num_ops f \<Longrightarrow> po_code (pop f p) \<in> set trivial_arith_oplist \<Longrightarrow> lowers rule_trivial_arith p f"
  by (intro lowersI [where c = Copy]; auto simp: rule_trivial_arith_def count_simps trivial_arith_oplist_def op_base_def split: if_splits list.splits option.splits;
      (assumption | rule edit_refl edit_const edit_opcode edit_set_all | erule edit_set_input edit_remove_input edit_insert_input)+)

lemma or_mask_lowers: "p < num_ops f \<Longrightarrow> po_code (pop f p) = IntOr \<Longrightarrow> lowers rule_or_mask p f"
  by (intro lowersI [where c = Copy]; auto simp: rule_or_mask_def count_simps op_base_def split: if_splits list.splits option.splits;
      (assumption | rule edit_refl edit_const edit_opcode edit_set_all | erule edit_set_input edit_remove_input edit_insert_input)+)

lemma comp2mult_lowers: "p < num_ops f \<Longrightarrow> po_code (pop f p) = Int2comp \<Longrightarrow> lowers rule_2comp2mult p f"
  by (intro lowersI [where c = IntMult]; auto simp: rule_2comp2mult_def count_simps op_base_def split: if_splits list.splits option.splits;
      (assumption | rule edit_refl edit_const edit_opcode edit_set_all | erule edit_set_input edit_remove_input edit_insert_input)+)

lemma bxor2notequal_lowers: "p < num_ops f \<Longrightarrow> po_code (pop f p) = BoolXor \<Longrightarrow> lowers rule_bxor2notequal p f"
  by (intro lowersI [where c = IntNotequal]; auto simp: rule_bxor2notequal_def count_simps op_base_def split: if_splits list.splits option.splits;
      (assumption | rule edit_refl edit_const edit_opcode edit_set_all | erule edit_set_input edit_remove_input edit_insert_input)+)

lemma less_one_lowers: "p < num_ops f \<Longrightarrow> po_code (pop f p) \<in> set less_one_oplist \<Longrightarrow> lowers rule_less_one p f"
  by (intro lowersI [where c = IntEqual]; auto simp: rule_less_one_def count_simps less_one_oplist_def op_base_def split: if_splits list.splits option.splits;
      (assumption | rule edit_refl edit_const edit_opcode edit_set_all | erule edit_set_input edit_remove_input edit_insert_input)+)

lemma xor_swap_lowers: "p < num_ops f \<Longrightarrow> po_code (pop f p) = IntXor \<Longrightarrow> lowers rule_xor_swap p f"
  by (intro lowersI [where c = Copy]; auto simp: rule_xor_swap_def count_simps op_base_def split: if_splits list.splits option.splits;
      (assumption | rule edit_refl edit_const edit_opcode edit_set_all | erule edit_set_input edit_remove_input edit_insert_input)+)

lemma negate_negate_lowers: "p < num_ops f \<Longrightarrow> po_code (pop f p) = IntNegate \<Longrightarrow> lowers rule_negate_negate p f"
  by (intro lowersI [where c = Copy]; auto simp: rule_negate_negate_def count_simps op_base_def split: if_splits list.splits option.splits;
      (assumption | rule edit_refl edit_const edit_opcode edit_set_all | erule edit_set_input edit_remove_input edit_insert_input)+)

lemma copy_edit:
  "p < num_ops f \<Longrightarrow> copy_false p f = Some (n, g) \<Longrightarrow> edit p Copy f g"
  "p < num_ops f \<Longrightarrow> copy_true p f = Some (n, g) \<Longrightarrow> edit p Copy f g"
  by (auto simp: copy_false_def copy_true_def Let_def split_beta bind_some; (assumption | rule edit_refl edit_const edit_opcode edit_set_all | erule edit_set_input edit_remove_input edit_insert_input)+)+

lemma less2zero_lowers:
  assumes p: "p < num_ops f" and c: "po_code (pop f p) = IntLess"
  shows "lowers rule_less2zero p f"
proof -
  have "rule_less2zero p f = Some (Suc n, g) \<Longrightarrow> g = op_set_opcode p IntNotequal f \<or> copy_false p f = Some (Suc n, g)" for n g
    by (auto simp: rule_less2zero_def bind_some split: if_splits)
  then show ?thesis using copy_edit(1) [OF p] edit_opcode [OF edit_refl p, of IntNotequal] c unfolding lowers_def by (fastforce simp: op_base_def)
qed

lemma lessequal2zero_lowers:
  assumes p: "p < num_ops f" and c: "po_code (pop f p) = IntLessequal"
  shows "lowers rule_lessequal2zero p f"
proof -
  have "rule_lessequal2zero p f = Some (Suc n, g) \<Longrightarrow> g = op_set_opcode p IntEqual f \<or> copy_true p f = Some (Suc n, g)" for n g
    by (auto simp: rule_lessequal2zero_def bind_some split: if_splits)
  then show ?thesis using copy_edit(2) [OF p] edit_opcode [OF edit_refl p, of IntEqual] c unfolding lowers_def by (fastforce simp: op_base_def)
qed

lemma carry_elim_lowers: "p < num_ops f \<Longrightarrow> po_code (pop f p) = IntCarry \<Longrightarrow> lowers rule_carry_elim p f"
  unfolding lowers_def
  by (intro allI impI; auto simp: rule_carry_elim_def count_simps split: if_splits list.splits option.splits;
      intro exI conjI, (assumption | rule edit_refl edit_const edit_opcode edit_set_all | erule edit_set_input edit_remove_input edit_insert_input)+,
      simp add: op_base_def)

lemma trivial_bool_lowers: "p < num_ops f \<Longrightarrow> po_code (pop f p) \<in> set trivial_bool_oplist \<Longrightarrow> lowers rule_trivial_bool p f"
  unfolding lowers_def
  by (intro allI impI; auto simp: rule_trivial_bool_def count_simps trivial_bool_oplist_def split: if_splits list.splits option.splits;
      intro exI conjI, (assumption | rule edit_refl edit_const edit_opcode edit_set_all | erule edit_set_input edit_remove_input edit_insert_input)+,
      simp add: op_base_def)


lemma lowers_weight: "lowers app p f \<Longrightarrow> graph_ok f \<Longrightarrow> p < num_ops f \<Longrightarrow> app p f = Some (Suc n, g) \<Longrightarrow> fd_weight g < fd_weight f"
  using edit_weight by (auto simp: lowers_def)

lemma term_order_weight:
  assumes ok: "graph_ok f" and p: "p < num_ops f" and r: "rule_term_order p f = Some (Suc n, g)"
  shows "fd_weight g < fd_weight f"
proof -
  obtain a b where ab: "po_inrefs (pop f p) = [a, b]" "is_constant (vn f a)" "\<not> is_constant (vn f b)" "op_swap_input p 0 1 f = Some g"
    using r by (auto simp: rule_term_order_def bind_some split: list.splits if_splits)
  have g: "g = op_mut p (\<lambda>x. x\<lparr>po_inrefs := (po_inrefs x)[0 := b, 1 := a]\<rparr>) f" using ab by (simp add: op_swap_input_def)
  show ?thesis unfolding fd_weight_sum
  proof (rule sum_strict [OF _ p])
    show "op_weight g p < op_weight f p" using ab p by (simp add: g op_weight_def fd_simps)
    show "op_weight g q = op_weight f q" if "q < num_ops f" "q \<noteq> p" for q
      using that unfolding op_weight_def g by (simp only: op_mut_simps) simp
  qed (simp add: g fd_simps)
qed

lemma sub2add_weight:
  assumes ok: "graph_ok f" and p: "p < num_ops f" and c: "po_code (pop f p) = IntSub" and r: "rule_sub2add p f = Some (Suc n, g)"
  shows "fd_weight g < fd_weight f"
proof -
  obtain v where v: "op_input f p 1 = Some v" using r by (auto simp: rule_sub2add_def bind_some)
  let ?sz = "vn_size (vn f v)"
  let ?f1 = "snd (new_const ?sz (rmask (- 1) ?sz) f)" and ?k = "num_varnodes f"
  have x: "fst (new_const ?sz (rmask (- 1) ?sz) f) = ?k" "num_varnodes ?f1 = Suc ?k" "extends f ?f1" by (rule new_const_simps)+
  note E = extendsD [OF x(3)]
  have ok1: "graph_ok ?f1" by (rule new_const_ok [OF ok])
  have vr: "v < num_varnodes f" using v op_range(1) [OF ok p] by (auto simp: op_input_def split: if_splits)
  have b: "\<forall>w \<in> set [v, ?k]. w < num_varnodes ?f1" using vr x(2) by simp
  obtain q f2 where n: "new_op_before_sized p IntMult [v, ?k] (vn_size (vn ?f1 v)) ?f1 = (q, f2)" by fastforce
  obtain w f3 where f3: "po_output (pop f2 q) = Some w" "op_set_input p 1 w f2 = Some f3" "g = op_set_opcode p IntAdd f3"
    using r v n by (auto simp: rule_sub2add_def new_op_before_def Let_def split_beta x(1) bind_some)
  obtain ws f1' where u: "unique_constants [v, ?k] ?f1 = (ws, f1')" by fastforce
  note S = new_op_before_shape [OF ok1 b u n]
  have e1: "extends ?f1 f1'" using unique_constants_ok [OF ok1 b u] by blast
  have p2: "p < num_ops f2" "q = num_ops f" using S(2,3) E(1) p by simp_all
  have ed: "edit p IntAdd f2 g" unfolding f3(3) by (rule edit_opcode [OF edit_set_input [OF f3(2) edit_refl] p2(1)])
  have k: "is_constant (vn g w) = is_constant (vn f w)" if "w < num_varnodes f" for w
  proof -
    have w: "w < num_varnodes ?f1" "w < num_varnodes f1'" "w < num_varnodes f2" using that x(2) e1 S(4) by (auto simp: extends_def)
    have "is_constant (vn g w) = is_constant (vn f2 w)" using ed w(3) by (simp add: edit_def)
    also have "\<dots> = is_constant (vn f1' w)" using S(5) [OF w(2)] by (simp add: is_constant_def)
    also have "\<dots> = is_constant (vn f w)" using extendsD(3) [OF e1 w(1)] E(3) [OF that] by simp
    finally show ?thesis .
  qed
  have old: "op_weight g r = op_weight f r" if "r < num_ops f" "r \<noteq> p" for r
  proof -
    have "po_code (pop g r) = po_code (pop f r)" "po_inrefs (pop g r) = po_inrefs (pop f r)"
      using ed S(6) [of r] that E(1,2) by (auto simp: edit_def)
    moreover have "is_constant (vn g w) = is_constant (vn f w)" if "w \<in> set (po_inrefs (pop f r))" for w
      using k [OF op_range(1) [OF ok \<open>r < num_ops f\<close> that]] .
    ultimately show ?thesis by (auto simp: op_weight_def split: list.splits)
  qed
  have w: "op_weight g p \<le> 5" "op_weight g (num_ops f) \<le> 5" "12 \<le> op_weight f p"
    using op_weight_bounds(2) [of g p] op_weight_bounds(2) [of g "num_ops f"] op_weight_bounds(1) [of f p] ed S(7) p c unfolding p2(2)
    by (simp_all add: edit_def op_base_def)
  have "num_ops g = Suc (num_ops f)" using ed S(3) E(1) by (simp add: edit_def)
  then have "fd_weight g = (\<Sum>r < num_ops f. op_weight g r) + op_weight g (num_ops f)" by (simp add: fd_weight_sum)
  also have "(\<Sum>r < num_ops f. op_weight g r) = op_weight g p + (\<Sum>r \<in> {..<num_ops f} - {p}. op_weight g r)" using p by (simp add: sum.remove)
  also have "(\<Sum>r \<in> {..<num_ops f} - {p}. op_weight g r) = (\<Sum>r \<in> {..<num_ops f} - {p}. op_weight f r)" by (rule sum.cong) (auto simp: old)
  finally have "fd_weight g < op_weight f p + (\<Sum>r \<in> {..<num_ops f} - {p}. op_weight f r)" using w by simp
  also have "\<dots> = fd_weight f" unfolding fd_weight_sum using p by (simp add: sum.remove)
  finally show ?thesis .
qed

lemmas oplists = term_order_oplist_def trivial_arith_oplist_def trivial_bool_oplist_def trivial_shift_oplist_def identity_el_oplist_def less_one_oplist_def

definition weight_drops :: "funcdata \<Rightarrow> nat \<Rightarrow> rule \<Rightarrow> bool" where
  "weight_drops f p r \<longleftrightarrow>
     (\<forall>n g. po_code (pop f p) \<in> set (ru_oplist r) \<longrightarrow> ru_apply r p f = Some (Suc n, g) \<longrightarrow> fd_weight g < fd_weight f)"

lemma weight_dropsI:
  "graph_ok f \<Longrightarrow> p < num_ops f \<Longrightarrow> (po_code (pop f p) \<in> set l \<Longrightarrow> lowers app p f) \<Longrightarrow> weight_drops f p \<lparr>ru_oplist = l, ru_apply = app\<rparr>"
  by (auto simp: weight_drops_def dest: lowers_weight)

lemma oppool_weight:
  assumes ok: "graph_ok f" and p: "p < num_ops f"
  shows "list_all (weight_drops f p) modelled_rules"
proof -
  note I = weight_dropsI [OF ok p]
  have "weight_drops f p \<lparr>ru_oplist = term_order_oplist, ru_apply = rule_term_order\<rparr>"
    using term_order_weight [OF ok p] by (simp add: weight_drops_def)
  moreover have "weight_drops f p \<lparr>ru_oplist = [IntSub], ru_apply = rule_sub2add\<rparr>"
    using sub2add_weight [OF ok p] by (simp add: weight_drops_def)
  moreover have "weight_drops f p \<lparr>ru_oplist = trivial_arith_oplist, ru_apply = rule_trivial_arith\<rparr>"
    by (rule I, rule trivial_arith_lowers [OF p]) simp
  moreover have "weight_drops f p \<lparr>ru_oplist = trivial_bool_oplist, ru_apply = rule_trivial_bool\<rparr>"
    by (rule I, rule trivial_bool_lowers [OF p]) simp
  moreover have "weight_drops f p \<lparr>ru_oplist = trivial_shift_oplist, ru_apply = rule_trivial_shift\<rparr>"
    by (rule I, rule trivial_shift_lowers [OF p]) simp
  moreover have "weight_drops f p \<lparr>ru_oplist = identity_el_oplist, ru_apply = rule_identity_el\<rparr>"
    by (rule I, rule identity_el_lowers [OF p]) simp
  moreover have "weight_drops f p \<lparr>ru_oplist = [IntOr], ru_apply = rule_or_mask\<rparr>"
    by (rule I, rule or_mask_lowers [OF p]) simp
  moreover have "weight_drops f p \<lparr>ru_oplist = [Int2comp], ru_apply = rule_2comp2mult\<rparr>"
    by (rule I, rule comp2mult_lowers [OF p]) simp
  moreover have "weight_drops f p \<lparr>ru_oplist = [IntCarry], ru_apply = rule_carry_elim\<rparr>"
    by (rule I, rule carry_elim_lowers [OF p]) simp
  moreover have "weight_drops f p \<lparr>ru_oplist = [BoolXor], ru_apply = rule_bxor2notequal\<rparr>"
    by (rule I, rule bxor2notequal_lowers [OF p]) simp
  moreover have "weight_drops f p \<lparr>ru_oplist = [IntLess], ru_apply = rule_less2zero\<rparr>"
    by (rule I, rule less2zero_lowers [OF p]) simp
  moreover have "weight_drops f p \<lparr>ru_oplist = [IntLessequal], ru_apply = rule_lessequal2zero\<rparr>"
    by (rule I, rule lessequal2zero_lowers [OF p]) simp
  moreover have "weight_drops f p \<lparr>ru_oplist = less_one_oplist, ru_apply = rule_less_one\<rparr>"
    by (rule I, rule less_one_lowers [OF p]) simp
  moreover have "weight_drops f p \<lparr>ru_oplist = [IntXor], ru_apply = rule_xor_swap\<rparr>"
    by (rule I, rule xor_swap_lowers [OF p]) simp
  moreover have "weight_drops f p \<lparr>ru_oplist = [IntNegate], ru_apply = rule_negate_negate\<rparr>"
    by (rule I, rule negate_negate_lowers [OF p]) simp
  ultimately show ?thesis by (simp add: modelled_rules_def)
qed

lemma oppool_listed: "list_all (\<lambda>r. ru_oplist r \<noteq> []) modelled_rules"
  by (simp add: modelled_rules_def term_order_oplist_def trivial_arith_oplist_def trivial_bool_oplist_def trivial_shift_oplist_def
      identity_el_oplist_def less_one_oplist_def)

interpretation oppool_ends: shrinking_pool modelled_rules fd_weight
proof unfold_locales
  fix f p r n g
  assume ok: "graph_ok f" and l: "live f p" and r: "r \<in> set (perop modelled_rules (po_code (pop f p)))" and a: "ru_apply r p f = Some (Suc n, g)"
  have p: "p < num_ops f" using l by (simp add: live_def)
  have m: "r \<in> set modelled_rules" "po_code (pop f p) \<in> set (ru_oplist r)" using r oppool_listed by (auto simp: perop_def list_all_iff)
  show "fd_weight g < fd_weight f" using oppool_weight [OF ok p] m a by (simp add: list_all_iff weight_drops_def)
qed

end
