(* ===== verification/Fd_Steps.thy ===== *)
theory Fd_Steps
  imports Fd_Sem
begin

text \<open>
  The function under construction as a state machine: it starts empty and changes only by the primitives of
  \<^verbatim>\<open>decompile/funcdata.rs\<close>.  Each step has the condition its callers keep (indices in range, an output that is
  not a function input, an input that nothing defines).  Every reachable function is well formed, and the
  larger operations are sequences of steps.
\<close>

definition fd_new :: "address \<Rightarrow> space_manager \<Rightarrow> effect_record list \<Rightarrow> funcdata" where
  "fd_new addr sm effs =
     \<lparr>fd_addr = addr, fd_spaces = sm, fd_effects = effs, fd_varnodes = [], fd_ops = [], fd_blocks = [],
      fd_create_index = 0, fd_unique_offset = 0x10000, fd_structured = False\<rparr>"

inductive fd_step :: "funcdata \<Rightarrow> funcdata \<Rightarrow> bool" where
  New_Varnode: "fd_step f (snd (new_varnode sz loc f))"
| New_Const: "fd_step f (snd (new_const sz c f))"
| New_Unique: "fd_step f (snd (new_unique sz f))"
| New_Code_Ref: "fd_step f (snd (new_code_ref m f))"
| New_Input: "fd_step f (snd (new_input sz loc f))"
| Set_Input_Varnode: "v < num_varnodes f \<Longrightarrow> vn_def (vn f v) = None \<Longrightarrow> fd_step f (snd (set_input_varnode v f))"
| New_Op: "\<forall>v \<in> set vs. v < num_varnodes f \<Longrightarrow> fd_step f (snd (new_op opc sq vs f))"
| Set_Input: "p < num_ops f \<Longrightarrow> v < num_varnodes f \<Longrightarrow> op_set_input p slot v f = Some g \<Longrightarrow> fd_step f g"
| Insert_Input: "p < num_ops f \<Longrightarrow> v < num_varnodes f \<Longrightarrow> op_insert_input p slot v f = Some g \<Longrightarrow> fd_step f g"
| Append_Input: "p < num_ops f \<Longrightarrow> v < num_varnodes f \<Longrightarrow> fd_step f (op_append_input p v f)"
| Remove_Input: "p < num_ops f \<Longrightarrow> op_remove_input p slot f = Some g \<Longrightarrow> fd_step f g"
| Set_All_Input: "p < num_ops f \<Longrightarrow> \<forall>v \<in> set vs. v < num_varnodes f \<Longrightarrow> fd_step f (op_set_all_input p vs f)"
| Swap_Input: "p < num_ops f \<Longrightarrow> op_swap_input p i j f = Some g \<Longrightarrow> fd_step f g"
| New_Output: "p < num_ops f \<Longrightarrow> fd_step f (snd (new_output p sz loc f))"
| New_Output_Unique: "p < num_ops f \<Longrightarrow> fd_step f (snd (new_output_unique p sz f))"
| Set_Output: "p < num_ops f \<Longrightarrow> v < num_varnodes f \<Longrightarrow> \<not> is_input (vn f v) \<Longrightarrow> fd_step f (op_set_output p v f)"
| Set_Opcode: "fd_step f (op_set_opcode p opc f)"
| Total_Replace: "u \<noteq> v \<Longrightarrow> u < num_varnodes f \<Longrightarrow> v < num_varnodes f \<Longrightarrow> fd_step f (total_replace u v f)"
| Destroy: "p < num_ops f \<Longrightarrow> fd_step f (op_destroy p f)"
| Destroy_Recursive: "p < num_ops f \<Longrightarrow> op_destroy_recursive p f = Some g \<Longrightarrow> fd_step f g"
| Delete_Varnode: "vn_def (vn f v) = None \<Longrightarrow> fd_step f (delete_varnode v f)"
| Clear_Dead_Varnodes: "fd_step f (clear_dead_varnodes f)"
| Insert_Before: "fd_step f (op_insert_before p q f)"
| Insert_After: "fd_step f (op_insert_after p q f)"
| Insert_Begin: "fd_step f (op_insert_begin p b f)"
| Insert_End: "fd_step f (op_insert_end p b f)"
| Uninsert: "fd_step f (op_uninsert p f)"
| Set_Block_Ops: "fd_step f (set_block_ops b ops f)"
| Block_Insert: "fd_step f (block_insert b pos p f)"
| Set_Parent: "fd_step f (set_parent p b f)"
| Set_Guarded: "fd_step f (op_mut p (\<lambda>x. x\<lparr>po_guarded := q\<rparr>) f)"
| Set_Type: "fd_step f (vn_mut v (\<lambda>x. x\<lparr>vn_ty := ty\<rparr>) f)"
| Flip_Condition: "fd_step f (op_flip_condition p f)"
| Negate_Condition: "fd_step f (block_negate_condition b f)"
| Flip_In_Place: "fd_step f (flip_in_place_execute b f)"
| Indirect_Creation: "fd_step f (mark_indirect_creation p possible f)"
| Transfer_Properties: "fd_step f (transfer_varnode_properties v w lsb f)"

abbreviation fd_reaches :: "funcdata \<Rightarrow> funcdata \<Rightarrow> bool" where
  "fd_reaches \<equiv> fd_step\<^sup>*\<^sup>*"

text \<open>Flags that are none of the data flow's.\<close>

lemma flag_same:
  "has fl WRITTEN = False \<Longrightarrow> has fl INPUT = False \<Longrightarrow> has fl INSERT = False \<Longrightarrow>
   graph_same f (vn_mut v (\<lambda>x. x\<lparr>vn_flags := vn_flags x OR fl\<rparr>) f)"
  by (rule vn_mut_same) (simp add: vn_same_def is_written_def is_input_def has_or)

lemma mark_same:
  "graph_same f (set_indirect_creation v f)" "graph_same f (mark_indirect_creation p possible f)"
  "graph_same f (transfer_varnode_properties v w lsb f)"
proof -
  show a: "graph_same f (set_indirect_creation v f)" for v f unfolding set_indirect_creation_def by (rule flag_same) auto
  then show "graph_same f (mark_indirect_creation p possible f)"
    unfolding mark_indirect_creation_def Let_def by (auto simp: graph_same_refl intro: graph_same_trans split: option.splits)
  have z: "(DIRECTWRITE OR ADDRFORCE) AND WRITTEN = 0" "(DIRECTWRITE OR ADDRFORCE) AND INPUT = 0" "(DIRECTWRITE OR ADDRFORCE) AND INSERT = 0"
    by (simp_all add: DIRECTWRITE_def ADDRFORCE_def WRITTEN_def INPUT_def INSERT_def)
  have h0: "has x 0 = False" for x by (simp add: has_def)
  show "graph_same f (transfer_varnode_properties v w lsb f)"
    unfolding transfer_varnode_properties_def Let_def
    by (rule vn_mut_same) (simp add: vn_same_def is_written_def is_input_def has_or has_and z h0)
qed

lemma fd_step_ok: "fd_step f g \<Longrightarrow> graph_ok f \<Longrightarrow> graph_ok g"
proof (induction rule: fd_step.induct)
  case (New_Varnode f sz loc) then show ?case unfolding new_varnode_def by (rule alloc_ok) auto
next
  case (New_Const f sz c) then show ?case by (rule new_const_ok)
next
  case (New_Unique f sz)
  then have "graph_ok (snd (take_unique sz f))" using graph_same_ok [OF take_unique_same] by blast
  then show ?case unfolding new_unique_def split_beta Let_def by (rule alloc_ok) auto
next
  case (New_Code_Ref f m)
  have "graph_ok (snd (alloc_varnode 1 m ANNOTATION f))" by (rule alloc_ok [OF New_Code_Ref]) auto
  moreover have "graph_same g (vn_mut v (\<lambda>x. x\<lparr>vn_ty := Some TCode\<rparr>) g)" for v g
    by (rule vn_mut_same) (simp add: vn_same_def is_written_def is_input_def)
  ultimately show ?case unfolding new_code_ref_def split_beta Let_def snd_conv using graph_same_ok by blast
next
  case (New_Input f sz loc) then show ?case using new_input_ok by (metis prod.collapse)
next
  case (Set_Input_Varnode v f) then show ?case using set_input_varnode_ok(1) by (metis prod.collapse)
next
  case (New_Op vs f opc sq) then show ?case using new_op_ok(1) by (metis prod.collapse)
next
  case (New_Output p f sz loc) then show ?case using new_output_ok(1) by (metis prod.collapse)
next
  case (New_Output_Unique p f sz) then show ?case using new_output_unique_ok(1) by (metis prod.collapse)
next
  case (Destroy_Recursive p f g) then show ?case using op_destroy_recursive_ok [of f p] by auto
next
  case (Uninsert f p)
  have "graph_same f (op_uninsert p f)" unfolding op_uninsert_def by (auto simp: graph_same_refl block_mut_same split: option.splits)
  then show ?case using graph_same_ok Uninsert by blast
next
  case (Set_Type f v ty)
  have "graph_same f (vn_mut v (\<lambda>x. x\<lparr>vn_ty := ty\<rparr>) f)" by (rule vn_mut_same) (simp add: vn_same_def is_written_def is_input_def)
  then show ?case using graph_same_ok Set_Type by blast
next
  case (Negate_Condition f b)
  have "graph_same f (block_negate_condition b f)" unfolding block_negate_condition_def by (auto intro!: graph_same_refl op_mut_same simp: op_same_def)
  then show ?case using graph_same_ok Negate_Condition by blast
next
  case (Flip_In_Place f b)
  have "graph_same f (flip_in_place_execute b f)" unfolding flip_in_place_execute_def by (auto intro!: graph_same_refl op_mut_same simp: op_same_def)
  then show ?case using graph_same_ok Flip_In_Place by blast
next
  case (Indirect_Creation f p possible) then show ?case using graph_same_ok [OF mark_same(2)] by blast
next
  case (Transfer_Properties f v w lsb) then show ?case using graph_same_ok [OF mark_same(3)] by blast
next
  case (Set_Opcode f p opc)
  have "graph_same f (op_set_opcode p opc f)" unfolding op_set_opcode_def by (rule op_mut_same) (simp add: op_same_def)
  then show ?case using graph_same_ok Set_Opcode by blast
next
  case (Set_Guarded f p q)
  have "graph_same f (op_mut p (\<lambda>x. x\<lparr>po_guarded := q\<rparr>) f)" by (rule op_mut_same) (simp add: op_same_def)
  then show ?case using graph_same_ok Set_Guarded by blast
next
  case (Flip_Condition f p)
  have "graph_same f (op_flip_condition p f)" unfolding op_flip_condition_def by (rule op_mut_same) (simp add: op_same_def)
  then show ?case using graph_same_ok Flip_Condition by blast
next
  case (Block_Insert f b pos p) then show ?case unfolding block_insert_def using graph_same_ok [OF block_mut_same] by blast
next
  case (Set_Block_Ops f b ops) then show ?case unfolding set_block_ops_def using graph_same_ok [OF block_mut_same] by blast
next
  case (Set_Parent f p b) then show ?case using placed_ok [OF set_parent_placed] by blast
qed (auto intro: op_set_input_ok op_insert_input_ok op_append_input_ok op_remove_input_ok op_set_all_input_ok op_swap_input_ok
    op_set_output_ok total_replace_ok op_destroy_ok delete_varnode_ok clear_dead_varnodes_ok simp: placed_ok [OF insert_placed(1)]
    placed_ok [OF insert_placed(2)] placed_ok [OF insert_placed(3)] placed_ok [OF insert_placed(4)])

lemma fd_new_ok: "graph_ok (fd_new addr sm effs)"
  by (simp add: fd_new_def graph_ok_def uses_ok_def defs_ok_def marks_ok_def num_varnodes_def num_ops_def)

lemma fd_reaches_ok: "fd_reaches f g \<Longrightarrow> graph_ok f \<Longrightarrow> graph_ok g"
  by (induction rule: rtranclp_induct) (auto intro: fd_step_ok)

subsection \<open>The larger operations are sequences of steps\<close>

lemma reaches_step: "fd_reaches f g \<Longrightarrow> fd_step g h \<Longrightarrow> fd_reaches f h"
  by (rule rtranclp.rtrancl_into_rtrancl)

lemma reaches_new_op_before_sized:
  assumes ok: "graph_ok f" and v: "\<forall>v \<in> set inputs. v < num_varnodes f"
  shows "fd_reaches f (snd (new_op_before_sized follow opc inputs sz f))"
    "num_varnodes f \<le> num_varnodes (snd (new_op_before_sized follow opc inputs sz f))"
    "num_ops (snd (new_op_before_sized follow opc inputs sz f)) = Suc (num_ops f)"
    "po_output (pop (snd (new_op_before_sized follow opc inputs sz f)) (num_ops f)) \<noteq> None"
    "fst (new_op_before_sized follow opc inputs sz f) = num_ops f"
proof -
  obtain p g where n: "new_op opc (next_seq f (sq_pc (po_seq (pop f follow)))) inputs f = (p, g)" by fastforce
  obtain w h where o: "new_output_unique p sz g = (w, h)" by fastforce
  note N = new_op_ok [OF ok v n] and O = new_output_unique_ok [OF new_op_ok(1) [OF ok v n] _ o]
  have p: "p < num_ops g" using N by simp
  have e: "new_op_before_sized follow opc inputs sz f = (p, op_insert_before p follow h)"
    by (simp add: new_op_before_sized_def Let_def n o)
  have "fd_step f g" using New_Op [OF v, of opc "next_seq f (sq_pc (po_seq (pop f follow)))"] by (simp add: n)
  moreover have "fd_step g h" using New_Output_Unique [OF p, of sz] by (simp add: o)
  moreover have "fd_step h (op_insert_before p follow h)" by (rule Insert_Before)
  ultimately show "fd_reaches f (snd (new_op_before_sized follow opc inputs sz f))"
    unfolding e snd_conv by (meson r_into_rtranclp rtranclp_trans)
  note I = insert_placed(1) [of h p follow]
  show "num_varnodes f \<le> num_varnodes (snd (new_op_before_sized follow opc inputs sz f))"
    "num_ops (snd (new_op_before_sized follow opc inputs sz f)) = Suc (num_ops f)"
    "po_output (pop (snd (new_op_before_sized follow opc inputs sz f)) (num_ops f)) \<noteq> None"
    "fst (new_op_before_sized follow opc inputs sz f) = num_ops f"
    using N O [OF p] I by (auto simp: e placed_def)
qed

subsection \<open>A varnode becomes a constant\<close>

text \<open>What none of these operations touches: storage, size and constness of old varnodes, opcodes of old operations.\<close>

definition keeps :: "funcdata \<Rightarrow> funcdata \<Rightarrow> bool" where
  "keeps f g \<longleftrightarrow> num_varnodes f \<le> num_varnodes g \<and> num_ops f \<le> num_ops g
     \<and> (\<forall>w < num_varnodes f. vn_loc (vn g w) = vn_loc (vn f w) \<and> vn_size (vn g w) = vn_size (vn f w) \<and> is_constant (vn g w) = is_constant (vn f w))
     \<and> (\<forall>q < num_ops f. po_code (pop g q) = po_code (pop f q))"

lemma keeps_refl: "keeps f f"
  by (simp add: keeps_def)

lemma keeps_trans: "keeps f g \<Longrightarrow> keeps g h \<Longrightarrow> keeps f h"
  by (simp add: keeps_def)

lemma keeps_extends: "extends f g \<Longrightarrow> keeps f g"
  by (auto simp: keeps_def extends_def)

lemma keeps_placed: "placed f g \<Longrightarrow> keeps f g"
  by (auto simp: keeps_def placed_def)

lemma keeps_reader: "keeps f (add_reader p v f)" "keeps f (drop_reader p v f)"
  by (simp_all add: keeps_def add_reader_def drop_reader_def fd_simps is_constant_def)

lemma keeps_inrefs: "keeps f (op_mut p (\<lambda>x. x\<lparr>po_inrefs := i x\<rparr>) f)"
  by (simp add: keeps_def fd_simps)

lemma keeps_fold: "(\<And>x g. keeps g (h x g)) \<Longrightarrow> keeps f (fold h xs f)"
  by (induction xs arbitrary: f) (auto intro: keeps_trans simp: keeps_refl)

lemma unique_constants_range:
  "graph_ok f \<Longrightarrow> \<forall>v \<in> set vs. v < num_varnodes f \<Longrightarrow> unique_constants vs f = (ws, g) \<Longrightarrow> w \<in> set ws \<Longrightarrow> w \<in> set vs \<or> num_varnodes f \<le> w"
proof (induction vs arbitrary: f ws)
  case (Cons v vs)
  obtain x f1 where u: "unique_constant_for v f = (x, f1)" by fastforce
  obtain ws' where r: "unique_constants vs f1 = (ws', g)" "ws = x # ws'" using Cons.prems(3) u by (auto split: prod.splits)
  note a = unique_constant_for_ok [OF Cons.prems(1) _ u]
  have e: "num_varnodes f \<le> num_varnodes f1" "\<forall>v \<in> set vs. v < num_varnodes f1" using Cons.prems(2) a(2) by (auto simp: extends_def)
  have "w \<in> set ws' \<Longrightarrow> w \<in> set vs \<or> num_varnodes f1 \<le> w" using Cons.IH [OF a(1) e(2) r(1)] Cons.prems(2) by simp
  then show ?case using Cons.prems(2,4) a(4) r(2) e(1) by auto
qed simp

lemma new_op_frame:
  assumes ok: "graph_ok f" and b: "\<forall>v \<in> set vs. v < num_varnodes f" and r: "new_op opc sq vs f = (p, h)"
  shows "keeps f h" "\<forall>w \<in> set (po_inrefs (pop h p)). w \<in> set vs \<or> num_varnodes f \<le> w" "po_code (pop h p) = opc"
proof -
  obtain ws g where u: "unique_constants vs f = (ws, g)" by fastforce
  have a: "extends f g" using unique_constants_ok [OF ok b u] by auto
  define x where "x = \<lparr>po_code = opc, po_flags = 0, po_seq = sq, po_parent = None, po_output = None, po_inrefs = ws, po_guarded = None\<rparr>"
  have h: "p = num_ops f" "h = push_op x (fold (add_reader (num_ops f)) ws g)"
    using r u by (auto simp: new_op_def Let_def push_op_def x_def)
  have "num_ops (fold (add_reader q) ws g') = num_ops g'" for q g' by (induction ws arbitrary: g') (simp_all add: fd_simps)
  then have n: "num_ops (fold (add_reader (num_ops f)) ws g) = num_ops f" using a by (simp add: extends_def)
  have "keeps k (push_op x k)" for k by (auto simp: keeps_def push_op_simps)
  then show "keeps f h" unfolding h by (rule keeps_trans [OF keeps_trans [OF keeps_extends [OF a] keeps_fold [OF keeps_reader(1)]]])
  have "pop h p = x" using push_op_simps(6) [of x "fold (add_reader (num_ops f)) ws g"] unfolding h n .
  then show "\<forall>w \<in> set (po_inrefs (pop h p)). w \<in> set vs \<or> num_varnodes f \<le> w" "po_code (pop h p) = opc"
    using unique_constants_range [OF ok b u] by (simp_all add: x_def)
qed

lemma new_output_unique_frame:
  assumes n: "po_output (pop f p) = None" and p: "p < num_ops f" and r: "new_output_unique p sz f = (v, h)"
  shows "keeps f h" "vn_size (vn h v) = sz" "\<not> is_constant (vn h v)"
proof -
  let ?t = "snd (take_unique sz f)" and ?loc = "fst (take_unique sz f)"
  let ?a = "snd (alloc_varnode sz ?loc (WRITTEN OR INSERT) ?t)"
  have t: "vn ?t = vn f" "pop ?t = pop f" "num_varnodes ?t = num_varnodes f" "num_ops ?t = num_ops f" by (simp_all add: fd_simps)
  have f: "free_output p ?t = ?t" using n t by (simp add: free_output_def)
  have h: "v = num_varnodes f" "h = op_mut p (\<lambda>x. x\<lparr>po_output := Some v\<rparr>) (vn_mut v (\<lambda>x. x\<lparr>vn_def := Some p\<rparr>) ?a)"
    using r t by (auto simp: new_output_unique_def new_output_def Let_def split_beta f alloc_varnode_simps)
  show "keeps f h" unfolding h by (auto simp: keeps_def fd_simps t is_constant_def)
  have "\<not> has (WRITTEN OR INSERT) CONSTANT" by code_simp
  then have x: "vn_size (vn ?a v) = sz" "\<not> is_constant (vn ?a v)"
    using alloc_varnode_new(4) [of sz ?loc "WRITTEN OR INSERT" ?t] const_flag [of sz ?loc "WRITTEN OR INSERT" ?t] unfolding t h(1) by blast+
  have nv: "v < num_varnodes ?a" by (simp add: h(1) alloc_varnode_simps t)
  show "vn_size (vn h v) = sz" "\<not> is_constant (vn h v)" using x nv unfolding h(2) by (simp_all add: fd_simps is_constant_def)
qed

text \<open>Setting one input.\<close>

lemma set_input_frame:
  assumes ok: "graph_ok f" and b: "p < num_ops f" "w < num_varnodes f" and s: "slot < length (po_inrefs (pop f p))"
    and d: "po_inrefs (pop f p) ! slot \<noteq> w"
  shows "\<exists>h w'. op_set_input p slot w f = Some h \<and> graph_ok h \<and> keeps f h \<and> num_ops h = num_ops f
    \<and> (\<forall>q. po_inrefs (pop h q) = (if q = p then (po_inrefs (pop f p))[slot := w'] else po_inrefs (pop f q)))
    \<and> (w' = w \<or> num_varnodes f \<le> w' \<and> is_constant (vn f w) \<and> vn_descend (vn f w) \<noteq> [])"
proof -
  obtain w' g where u: "unique_constant_for w f = (w', g)" by fastforce
  note g = unique_constant_for_ok [OF ok b(2) u] and e = extendsD [OF unique_constant_for_ok(2) [OF ok b(2) u]]
  have fresh: "w' = w \<or> num_varnodes f \<le> w' \<and> is_constant (vn f w) \<and> vn_descend (vn f w) \<noteq> []"
    using u g(4) by (auto simp: unique_constant_for_def Let_def split: if_splits)
  let ?o = "po_inrefs (pop f p) ! slot"
  define h where "h = add_reader p w' (op_mut p (\<lambda>x. x\<lparr>po_inrefs := (po_inrefs x)[slot := w']\<rparr>) (drop_reader p ?o g))"
  have r: "op_set_input p slot w f = Some h" using s d u by (simp add: op_set_input_def Let_def h_def not_le)
  have "keeps f h" unfolding h_def
    by (rule keeps_trans [OF keeps_trans [OF keeps_trans [OF keeps_extends [OF g(2)] keeps_reader(2)] keeps_inrefs] keeps_reader(1)])
  moreover have "po_inrefs (pop h q) = (if q = p then (po_inrefs (pop f p))[slot := w'] else po_inrefs (pop f q))" for q
    using b e by (simp add: h_def fd_simps)
  moreover have "num_ops h = num_ops f" using e by (simp add: h_def fd_simps)
  ultimately show ?thesis using r op_set_input_ok [OF ok b r] fresh by blast
qed

lemma constant_copy_frame:
  assumes ok: "graph_ok f" and r: "constant_copy v val f = (c, h)" and v: "v < num_varnodes f"
  shows "graph_ok h" "keeps f h" "num_ops h = Suc (num_ops f)" "num_varnodes f \<le> c" "c < num_varnodes h" "\<not> is_constant (vn h c)"
    "\<forall>q < num_ops f. po_inrefs (pop h q) = po_inrefs (pop f q)" "v \<notin> set (po_inrefs (pop h (num_ops f)))"
proof -
  let ?sz = "vn_size (vn f v)" let ?k = "num_varnodes f" and ?f1 = "snd (new_const (vn_size (vn f v)) val f)"
  have ok1: "graph_ok ?f1" by (rule new_const_ok [OF ok])
  have x1: "fst (new_const ?sz val f) = ?k" "num_varnodes ?f1 = Suc ?k" "extends f ?f1" by (rule new_const_simps)+
  have k: "\<forall>w \<in> set [?k]. w < num_varnodes ?f1" using x1 by simp
  have main: "graph_ok h \<and> keeps f h \<and> num_ops h = Suc (num_ops f) \<and> ?k \<le> c \<and> c < num_varnodes h \<and> \<not> is_constant (vn h c)
      \<and> (\<forall>q < num_ops f. po_inrefs (pop h q) = po_inrefs (pop f q)) \<and> v \<notin> set (po_inrefs (pop h (num_ops f)))"
    if n: "new_op Copy sq [?k] ?f1 = (p, f2)" and o: "new_output_unique p ?sz f2 = (c, f3)" and pl: "placed f3 h" for sq p f2 f3
  proof -
    note N = new_op_ok [OF ok1 k n] and NF = new_op_frame [OF ok1 k n]
    have p: "p < num_ops f2" using N(2,3) by simp
    note O = new_output_unique_ok [OF N(1) p o] and OF' = new_output_unique_frame [OF N(5) p o]
    have "graph_ok h" using placed_ok [OF pl] O(1) by blast
    moreover have "keeps f h" by (rule keeps_trans [OF keeps_trans [OF keeps_trans [OF keeps_extends [OF x1(3)] NF(1)] OF'(1)] keeps_placed [OF pl]])
    moreover have "num_ops h = Suc (num_ops f)" "c < num_varnodes h" "\<not> is_constant (vn h c)"
      using pl N(2,3) O(2-4) OF'(3) extendsD(1) [OF x1(3)] by (simp_all add: placed_def)
    moreover have "?k \<le> c" using O(2) N(4) x1(2) by simp
    moreover have "po_inrefs (pop h q) = po_inrefs (pop f2 q)" for q using pl O(6) by (simp add: placed_def)
    moreover have "\<forall>q < num_ops f. pop f2 q = pop f q" using N(8) extendsD(1,2) [OF x1(3)] by simp
    moreover have "v \<notin> set (po_inrefs (pop f2 (num_ops f)))"
      using NF(2) N(2) extendsD(1) [OF x1(3)] v x1(2) by auto
    ultimately show ?thesis by simp
  qed
  have "graph_ok h \<and> keeps f h \<and> num_ops h = Suc (num_ops f) \<and> ?k \<le> c \<and> c < num_varnodes h \<and> \<not> is_constant (vn h c)
      \<and> (\<forall>q < num_ops f. po_inrefs (pop h q) = po_inrefs (pop f q)) \<and> v \<notin> set (po_inrefs (pop h (num_ops f)))"
  proof (cases "vn_def (vn ?f1 v)")
    case None
    obtain p f2 where n: "new_op Copy (next_seq ?f1 (fd_addr ?f1)) [?k] ?f1 = (p, f2)" by fastforce
    obtain c' f3 where o: "new_output_unique p ?sz f2 = (c', f3)" by fastforce
    have "c' = c" "h = op_insert_begin p 0 f3" using r None n o unfolding constant_copy_def Let_def by (simp_all add: split_beta x1)
    then show ?thesis using main [OF n] o insert_placed(3) by blast
  next
    case (Some d)
    obtain p f2 where n: "new_op Copy (next_seq ?f1 (sq_pc (po_seq (pop ?f1 d)))) [?k] ?f1 = (p, f2)" by fastforce
    obtain c' f3 where o: "new_output_unique p ?sz f2 = (c', f3)" by fastforce
    have "c' = c" "h = op_insert_after p d f3" using r Some n o unfolding constant_copy_def Let_def by (simp_all add: split_beta x1)
    then show ?thesis using main [OF n] o insert_placed(2) by blast
  qed
  then show "graph_ok h" "keeps f h" "num_ops h = Suc (num_ops f)" "?k \<le> c" "c < num_varnodes h" "\<not> is_constant (vn h c)"
    "\<forall>q < num_ops f. po_inrefs (pop h q) = po_inrefs (pop f q)" "v \<notin> set (po_inrefs (pop h (num_ops f)))" by blast+
qed

definition stands_for :: "nat \<Rightarrow> u64 \<Rightarrow> funcdata \<Rightarrow> nat option \<Rightarrow> funcdata \<Rightarrow> nat \<Rightarrow> nat \<Rightarrow> bool" where
  "stands_for v val f c g q w \<longleftrightarrow>
     (if is_marker (pop f q) then c = Some w
      else is_constant (vn g w) \<and> constant_value (vn g w) = val \<and> vn_size (vn g w) = vn_size (vn f v) \<and> w < num_varnodes g)"

definition replacing :: "nat \<Rightarrow> u64 \<Rightarrow> funcdata \<Rightarrow> nat list \<Rightarrow> nat option \<Rightarrow> funcdata \<Rightarrow> bool" where
  "replacing v val f rs c g \<longleftrightarrow> graph_ok g \<and> keeps f g
     \<and> num_ops g = num_ops f + (if c = None then 0 else 1)
     \<and> (\<forall>x. c = Some x \<longrightarrow> num_varnodes f \<le> x \<and> x < num_varnodes g \<and> \<not> is_constant (vn g x))
     \<and> (\<forall>q < num_ops f. count_list (po_inrefs (pop g q)) v = count_list rs q \<and> length (po_inrefs (pop g q)) = length (po_inrefs (pop f q))
          \<and> (\<forall>i < length (po_inrefs (pop f q)). po_inrefs (pop g q) ! i = po_inrefs (pop f q) ! i
               \<or> po_inrefs (pop f q) ! i = v \<and> stands_for v val f c g q (po_inrefs (pop g q) ! i)))
     \<and> (\<forall>q. num_ops f \<le> q \<and> q < num_ops g \<longrightarrow> v \<notin> set (po_inrefs (pop g q)))"

lemma position_some: "v \<in> set xs \<Longrightarrow> \<exists>i. position v xs = Some i \<and> i < length xs \<and> xs ! i = v"
proof (induction xs)
  case (Cons x xs) then show ?case by (cases "x = v") (auto simp: position_def)
qed simp

lemma stands_for_keeps:
  "stands_for v val f c g q w \<Longrightarrow> keeps g h \<Longrightarrow> c = None \<or> c' = c \<Longrightarrow> stands_for v val f c' h q w"
  by (auto simp: stands_for_def keeps_def constant_value_def split: if_splits)

text \<open>One reader.\<close>

lemma replacing_set:
  assumes R: "replacing v val f (p # rs) c g" and v: "v < num_varnodes f" and p: "p < num_ops f"
    and i: "i < length (po_inrefs (pop g p))" "po_inrefs (pop g p) ! i = v"
    and g1: "graph_ok g1" "keeps g g1" "\<forall>q < num_ops g. po_inrefs (pop g1 q) = po_inrefs (pop g q)"
      "num_ops g1 = num_ops f + (if c' = None then 0 else 1)" "c = None \<or> c' = c" "\<forall>q. num_ops g \<le> q \<and> q < num_ops g1 \<longrightarrow> v \<notin> set (po_inrefs (pop g1 q))"
      "\<forall>x. c' = Some x \<longrightarrow> num_varnodes f \<le> x \<and> x < num_varnodes g1 \<and> \<not> is_constant (vn g1 x)"
    and w: "num_varnodes f \<le> w" "w < num_varnodes g1" "\<not> is_constant (vn g1 w) \<or> vn_descend (vn g1 w) = []" "stands_for v val f c' g1 p w"
  shows "\<exists>h. op_set_input p i w g1 = Some h \<and> replacing v val f rs c' h"
proof -
  have G: "graph_ok g" "keeps f g" "num_ops f \<le> num_ops g" using R by (simp_all add: replacing_def)
  have pg: "p < num_ops g" "p < num_ops g1" using p G(3) g1(2) by (auto simp: keeps_def)
  have e: "po_inrefs (pop g1 p) = po_inrefs (pop g p)" using g1(3) pg by simp
  have i1: "i < length (po_inrefs (pop g1 p))" "po_inrefs (pop g1 p) ! i \<noteq> w" using i e v w(1) by auto
  obtain h w' where h: "op_set_input p i w g1 = Some h" "graph_ok h" "keeps g1 h" "num_ops h = num_ops g1"
    "\<forall>q. po_inrefs (pop h q) = (if q = p then (po_inrefs (pop g1 p))[i := w'] else po_inrefs (pop g1 q))"
    "w' = w \<or> num_varnodes g1 \<le> w' \<and> is_constant (vn g1 w) \<and> vn_descend (vn g1 w) \<noteq> []"
    using set_input_frame [OF g1(1) pg(2) w(2) i1] by blast
  have w': "w' = w" "w \<noteq> v" using h(6) w v by auto
  have K: "keeps f h" using keeps_trans [OF keeps_trans [OF G(2) g1(2)] h(3)] .
  have ins: "po_inrefs (pop h q) = (if q = p then (po_inrefs (pop g p))[i := w] else po_inrefs (pop g q))" if "q < num_ops f" for q
    using h(5) g1(3) that G(3) e w'(1) by auto
  have old: "count_list (po_inrefs (pop g q)) v = count_list (p # rs) q" "length (po_inrefs (pop g q)) = length (po_inrefs (pop f q))"
    "\<And>j. j < length (po_inrefs (pop f q)) \<Longrightarrow> po_inrefs (pop g q) ! j = po_inrefs (pop f q) ! j
       \<or> po_inrefs (pop f q) ! j = v \<and> stands_for v val f c' h q (po_inrefs (pop g q) ! j)" if "q < num_ops f" for q
  proof -
    show "count_list (po_inrefs (pop g q)) v = count_list (p # rs) q" "length (po_inrefs (pop g q)) = length (po_inrefs (pop f q))"
      using R that by (simp_all add: replacing_def)
    fix j assume "j < length (po_inrefs (pop f q))"
    then have "po_inrefs (pop g q) ! j = po_inrefs (pop f q) ! j \<or> po_inrefs (pop f q) ! j = v \<and> stands_for v val f c g q (po_inrefs (pop g q) ! j)"
      using R that by (simp add: replacing_def)
    then show "po_inrefs (pop g q) ! j = po_inrefs (pop f q) ! j
       \<or> po_inrefs (pop f q) ! j = v \<and> stands_for v val f c' h q (po_inrefs (pop g q) ! j)"
      using stands_for_keeps [OF _ keeps_trans [OF g1(2) h(3)] g1(5)] by blast
  qed
  have new: "stands_for v val f c' h p w" by (rule stands_for_keeps [OF w(4) h(3)]) simp
  have "v \<notin> set (po_inrefs (pop h q))" if q: "num_ops f \<le> q" "q < num_ops h" for q
  proof -
    have "po_inrefs (pop h q) = po_inrefs (pop g1 q)" using h(5) q p by auto
    then show ?thesis using g1(3,6) q h(4) R by (cases "q < num_ops g") (auto simp: replacing_def)
  qed
  moreover have "count_list (po_inrefs (pop h q)) v = count_list rs q \<and> length (po_inrefs (pop h q)) = length (po_inrefs (pop f q))
      \<and> (\<forall>j < length (po_inrefs (pop f q)). po_inrefs (pop h q) ! j = po_inrefs (pop f q) ! j
           \<or> po_inrefs (pop f q) ! j = v \<and> stands_for v val f c' h q (po_inrefs (pop h q) ! j))" if q: "q < num_ops f" for q
  proof (cases "q = p")
    case True
    have len: "length (po_inrefs (pop g p)) = length (po_inrefs (pop f p))" using old(2) [OF p] .
    have fi: "po_inrefs (pop f p) ! i = v" using old(3) [OF p, of i] i len by auto
    have "po_inrefs (pop h p) ! j = po_inrefs (pop f p) ! j \<or> po_inrefs (pop f p) ! j = v \<and> stands_for v val f c' h p (po_inrefs (pop h p) ! j)"
      if "j < length (po_inrefs (pop f p))" for j
      using old(3) [OF p that] ins [OF p] fi new i(1) by (cases "j = i") simp_all
    moreover have "count_list (po_inrefs (pop h p)) v = count_list rs p"
      using count_update [OF i(1), of w v] old(1) [OF p] ins [OF p] w'(2) i(2) by simp
    ultimately show ?thesis using ins [OF p] len unfolding True by simp
  next
    case False then show ?thesis using old [OF q] ins [OF q] by auto
  qed
  moreover have "\<forall>x. c' = Some x \<longrightarrow> num_varnodes f \<le> x \<and> x < num_varnodes h \<and> \<not> is_constant (vn h x)" using g1(7) h(3) by (auto simp: keeps_def)
  ultimately have "replacing v val f rs c' h" using h(2,4) K g1(4) by (auto simp: replacing_def)
  then show ?thesis using h(1) by blast
qed

lemma replacing_step:
  assumes R: "replacing v val f (p # rs) c g" and v: "v < num_varnodes f" and p: "p < num_ops f"
  shows "\<exists>c' h. replace_constant_in v val p (c, g) = (c', h) \<and> replacing v val f rs c' h"
proof -
  have G: "graph_ok g" "keeps f g" "num_ops f \<le> num_ops g" "num_ops g = num_ops f + (if c = None then 0 else 1)" using R by (simp_all add: replacing_def)
  have vg: "v < num_varnodes g" "vn_size (vn g v) = vn_size (vn f v)" using v G(2) by (auto simp: keeps_def)
  have "count_list (po_inrefs (pop g p)) v > 0" using R p by (simp add: replacing_def)
  then obtain i where i: "position v (po_inrefs (pop g p)) = Some i" "i < length (po_inrefs (pop g p))" "po_inrefs (pop g p) ! i = v"
    using position_some [of v "po_inrefs (pop g p)"] by (metis count_pos)
  have mk: "is_marker (pop g p) = is_marker (pop f p)" using G(2) p by (simp add: keeps_def is_marker_def)
  show ?thesis
  proof (cases "is_marker (pop f p)")
    case False
    let ?g1 = "snd (new_const (vn_size (vn g v)) val g)" and ?w = "num_varnodes g"
    have x: "fst (new_const (vn_size (vn g v)) val g) = ?w" "num_varnodes ?g1 = Suc ?w" "extends g ?g1" by (rule new_const_simps)+
    note E = extendsD [OF x(3)]
    have "\<exists>h. op_set_input p i ?w ?g1 = Some h \<and> replacing v val f rs c h"
    proof (rule replacing_set [OF R v p i(2,3) new_const_ok [OF G(1)] keeps_extends [OF x(3)]])
      show "\<forall>y. c = Some y \<longrightarrow> num_varnodes f \<le> y \<and> y < num_varnodes ?g1 \<and> \<not> is_constant (vn ?g1 y)"
        using R E(3) x(2) by (auto simp: replacing_def)
      show "num_varnodes f \<le> ?w" using G(2) by (simp add: keeps_def)
      show "stands_for v val f c ?g1 p ?w" using False new_const_new [of "vn_size (vn g v)" val g] vg(2) x(2) by (simp add: stands_for_def)
    qed (use E x(2) G(4) new_const_simps(4) in auto)
    then show ?thesis using False mk i(1) by (auto simp: replace_constant_in_def split_beta x(1))
  next
    case True
    show ?thesis
    proof (cases c)
      case (Some x)
      have X: "num_varnodes f \<le> x" "x < num_varnodes g" "\<not> is_constant (vn g x)" using R Some by (auto simp: replacing_def)
      have "\<exists>h. op_set_input p i x g = Some h \<and> replacing v val f rs c h"
        by (rule replacing_set [OF R v p i(2,3) G(1) keeps_refl]) (use X Some True G(4) in \<open>auto simp: stands_for_def\<close>)
      then show ?thesis using True mk i(1) Some by (auto simp: replace_constant_in_def)
    next
      case None
      obtain x g1 where cc: "constant_copy v val g = (x, g1)" by fastforce
      note C = constant_copy_frame [OF G(1) cc vg(1)]
      have n: "num_ops g = num_ops f" using G(4) None by simp
      have "\<exists>h. op_set_input p i x g1 = Some h \<and> replacing v val f rs (Some x) h"
      proof (rule replacing_set [OF R v p i(2,3) C(1,2)])
        show "num_varnodes f \<le> x" using C(4) G(2) by (simp add: keeps_def)
        then show "\<forall>y. Some x = Some y \<longrightarrow> num_varnodes f \<le> y \<and> y < num_varnodes g1 \<and> \<not> is_constant (vn g1 y)" using C(5,6) by simp
        show "\<forall>q. num_ops g \<le> q \<and> q < num_ops g1 \<longrightarrow> v \<notin> set (po_inrefs (pop g1 q))" using C(3,8) by (metis le_antisym less_Suc_eq_le)
      qed (use C n None True in \<open>auto simp: stands_for_def\<close>)
      then show ?thesis using True mk i(1) None cc by (auto simp: replace_constant_in_def)
    qed
  qed
qed

lemma replacing_fold:
  "replacing v val f rs c g \<Longrightarrow> v < num_varnodes f \<Longrightarrow> \<forall>p \<in> set rs. p < num_ops f \<Longrightarrow>
   \<exists>c' h. fold (replace_constant_in v val) rs (c, g) = (c', h) \<and> replacing v val f [] c' h"
proof (induction rs arbitrary: c g)
  case (Cons p rs)
  obtain c' h where "replace_constant_in v val p (c, g) = (c', h)" "replacing v val f rs c' h" using replacing_step [OF Cons.prems(1,2)] Cons.prems(3) by auto
  then show ?case using Cons.IH [of c' h] Cons.prems by simp
qed simp

lemma total_replace_constant_done:
  assumes ok: "graph_ok f" and v: "v < num_varnodes f"
  shows "\<exists>c. replacing v val f [] c (total_replace_constant v val f)"
proof -
  have "replacing v val f (vn_descend (vn f v)) None f"
    using ok v uses_okD(3) [OF graph_okD(1) [OF ok] v] by (auto simp: replacing_def keeps_refl)
  then show ?thesis unfolding total_replace_constant_def using replacing_fold [OF _ v] uses_okD(1) [OF graph_okD(1) [OF ok] v] by (metis snd_conv)
qed

subsection \<open>A small function\<close>

text \<open>One addition of zero to an input of four bytes.\<close>

definition demo_vn :: "address \<Rightarrow> nat \<Rightarrow> u32 \<Rightarrow> nat option \<Rightarrow> nat list \<Rightarrow> fd_varnode" where
  "demo_vn loc sz flags def reads =
     \<lparr>vn_deleted = False, vn_loc = loc, vn_size = sz, vn_flags = flags, vn_addlflags = 0, vn_create_index = 0, vn_def = def,
      vn_descend = reads, vn_ty = None, vn_nzm = 0, vn_consume = 0\<rparr>"

definition demo_op :: "opcode \<Rightarrow> nat option \<Rightarrow> nat list \<Rightarrow> fd_op" where
  "demo_op opc out ins =
     \<lparr>po_code = opc, po_flags = 0, po_seq = \<lparr>sq_pc = \<lparr>addr_space = 3, addr_offset = 0x1000\<rparr>, sq_uniq = 0\<rparr>, po_parent = None,
      po_output = out, po_inrefs = ins, po_guarded = None\<rparr>"

definition demo_binary :: "opcode \<Rightarrow> nat \<Rightarrow> u64 \<Rightarrow> nat \<Rightarrow> funcdata" where
  "demo_binary opc sz k osz =
     (fd_new \<lparr>addr_space = 3, addr_offset = 0x1000\<rparr> sm_standard [])\<lparr>
       fd_varnodes := [demo_vn \<lparr>addr_space = 2, addr_offset = 0\<rparr> sz (INPUT OR INSERT) None [0],
                       demo_vn \<lparr>addr_space = 0, addr_offset = k\<rparr> sz CONSTANT None [0],
                       demo_vn \<lparr>addr_space = 1, addr_offset = 0x10000\<rparr> osz (WRITTEN OR INSERT) (Some 0) []],
       fd_ops := [demo_op opc (Some 2) [0, 1]]\<rparr>"

lemma demo_flags:
  "has (INPUT OR INSERT) WRITTEN = False" "has (INPUT OR INSERT) INPUT" "has (INPUT OR INSERT) INSERT" "has (INPUT OR INSERT) CONSTANT = False"
  "has CONSTANT WRITTEN = False" "has CONSTANT INPUT = False" "has CONSTANT INSERT = False" "has CONSTANT CONSTANT"
  "has (WRITTEN OR INSERT) WRITTEN" "has (WRITTEN OR INSERT) INPUT = False" "has (WRITTEN OR INSERT) INSERT"
  "has (WRITTEN OR INSERT) CONSTANT = False"
  by code_simp+

lemmas demo_simps = demo_binary_def demo_vn_def demo_op_def fd_new_def vn_def pop_def num_varnodes_def num_ops_def demo_flags
  is_constant_def is_written_def is_input_def constant_value_def

lemma demo_all: "(\<forall>v < 3. P v) \<longleftrightarrow> P 0 \<and> P 1 \<and> P (2::nat)" "(\<forall>v < Suc 0. P v) \<longleftrightarrow> P (0::nat)"
  by (auto simp: less_Suc_eq numeral_eq_Suc)

lemma demo_binary_ok: "graph_ok (demo_binary opc sz k osz)"
  by (auto simp: graph_ok_def uses_ok_def defs_ok_def marks_ok_def vn_marks_def demo_simps less_Suc_eq nth_Cons' split: if_splits)

lemma demo_typed:
  assumes "pure_op opc \<Longrightarrow> sized opc [sz, sz] osz" and "emu_mask k sz = k"
  shows "typed (demo_binary opc sz k osz)"
  using assms by (auto simp: typed_def ops_sized_def live_def well_sized_def consts_fit_def demo_simps less_Suc_eq nth_Cons' split: if_splits)

lemma demo_env:
  assumes "emu_mask x sz = x" "emu_mask k sz = k" "emu_mask z osz = z" "operands_ok opc [(sz, x), (sz, k)]" "z = pval opc [(sz, x), (sz, k)] osz" "z \<le> 1 \<or> \<not> is_bool_output (demo_op opc (Some 2) [0, 1])"
  shows "env_ok (demo_binary opc sz k osz) (\<lambda>v. if v = 0 then x else if v = 1 then k else z)"
  using assms by (auto simp: env_ok_def op_ok_def vn_fits_def ins_view_def live_def demo_simps less_Suc_eq nth_Cons' split: if_splits)

subsection \<open>Properties\<close>

text \<open>
  (C3) Every function that can be built from an empty one by the primitives of \<open>Funcdata\<close> is well formed: reads
  are recorded on both sides equally often, definitions and outputs name each other, and the flags of a varnode
  agree with its definition.
\<close>

theorem reachable_graph_ok:
  assumes "fd_reaches (fd_new addr sm effs) f"
  shows "graph_ok f"
  by (rule fd_reaches_ok [OF assms fd_new_ok])

theorem reachable_graph_ok_witness:
  "let f = fd_new \<lparr>addr_space = 3, addr_offset = 0x1000\<rparr> sm_standard [];
       g = snd (new_op Copy (next_seq f (fd_addr f)) [0] (snd (new_const 4 7 f)))
   in fd_reaches f g \<and> graph_ok g"
proof -
  let ?f = "fd_new \<lparr>addr_space = 3, addr_offset = 0x1000\<rparr> sm_standard []"
  let ?c = "snd (new_const 4 7 ?f)" and ?sq = "next_seq ?f (fd_addr ?f)"
  have "num_varnodes ?c = 1" by (simp add: new_const_simps) (simp add: fd_new_def num_varnodes_def)
  then have "fd_step ?c (snd (new_op Copy ?sq [0] ?c))" by (intro New_Op) simp
  then have "fd_reaches ?f (snd (new_op Copy ?sq [0] ?c))"
    by (rule reaches_step [OF r_into_rtranclp [of fd_step, OF New_Const]])
  then show ?thesis using reachable_graph_ok unfolding Let_def by blast
qed



text \<open>
  (C10) \<open>op_destroy_recursive\<close> returns on every well-formed function: the fuel of one round per input is enough, no
  index is out of range, the operation is gone, the graph is well formed, and no other call is touched.
\<close>

theorem destroy_recursive_ends:
  assumes "graph_ok f" and "p < num_ops f"
  shows "\<exists>g. op_destroy_recursive p f = Some g \<and> graph_ok g \<and> num_ops g = num_ops f \<and> op_gone g p
     \<and> (\<forall>q. q \<noteq> p \<longrightarrow> is_call (pop f q) \<longrightarrow> pop g q = pop f q)"
  by (rule op_destroy_recursive_ok [OF assms])

theorem destroy_recursive_ends_witness: "\<exists>g. op_destroy_recursive 0 (demo_binary IntXor 4 7 4) = Some g \<and> op_gone g 0"
proof -
  have "0 < num_ops (demo_binary IntXor 4 7 4)" by (simp add: demo_simps)
  then show ?thesis using destroy_recursive_ends [OF demo_binary_ok] by blast
qed



end
