(* ===== verification/Action_Laws.thy ===== *)
theory Action_Laws
  imports Action_Ends Fd_Steps
begin

text \<open>
  The properties of the simplification rules and of the driver that applies them, with a small function on
  which each of them is checked.
\<close>

subsection \<open>Properties of the rules\<close>

text \<open>
  (C4) Rewriting a carry test against a constant, an exclusive or of an exclusive or, and the negation of a
  conjunction or disjunction (which adds two operations) is sound on every well-formed, well-sized function:
  the rule does not panic, and every assignment of values the function allows extends to the rewritten one with
  the same value on each varnode.
\<close>

theorem deep_rules_sound:
  assumes "graph_ok f" and "typed f" and "live f p"
  shows "(po_code (pop f p) = IntCarry \<longrightarrow> sound_at rule_carry_elim p f)
    \<and> (po_code (pop f p) = IntXor \<longrightarrow> sound_at rule_xor_swap p f)
    \<and> (po_code (pop f p) = IntSub \<longrightarrow> sound_at rule_sub2add p f)
    \<and> (po_code (pop f p) = BoolNegate \<longrightarrow> sound_at rule_not_distribute p f)"
  using rule_carry_elim_sound [OF assms] rule_xor_swap_sound [OF assms] rule_sub2add_sound [OF assms] rule_not_distribute_sound [OF assms] by blast

lemma demo_live: "live (demo_binary opc sz k osz) 0"
  by (simp add: live_def demo_simps is_dead_def has_def)

lemma demo_code: "po_code (pop (demo_binary opc sz k osz) 0) = opc"
  by (simp add: demo_simps)

theorem deep_rules_sound_witness: "sound_at rule_carry_elim 0 (demo_binary IntCarry 4 0xfffffff0 1)"
proof -
  have "typed (demo_binary IntCarry 4 0xfffffff0 1)"
    by (rule demo_typed) (simp_all add: sized_def op_classes narrow_size_def emu_mask_def shl64_def)
  then show ?thesis using deep_rules_sound [OF demo_binary_ok _ demo_live] by (simp add: demo_code)
qed

text \<open>
  (C18) Turning \<open>at most\<close> into \<open>less than\<close> by moving the constant by one is sound unless the comparison is signed,
  on fewer than eight bytes, and against the extreme value of that size.
\<close>

theorem lessequal_sound:
  assumes "graph_ok f" and "typed f" and "live f p" and "po_code (pop f p) \<in> set lessequal_oplist" and "\<not> lessequal_edge f p"
  shows "sound_at rule_int_less_equal p f"
proof -
  obtain b g where g: "replace_lessequal p f = Some (b, g)" "refines f g" "\<not> b \<longrightarrow> g = f" using replace_lessequal_sound [OF assms] by blast
  then show ?thesis by (cases b) (auto simp: sound_at_def rule_int_less_equal_def)
qed

theorem lessequal_sound_witness: "sound_at rule_int_less_equal 0 (demo_binary IntSlessequal 1 5 1)"
proof -
  let ?f = "demo_binary IntSlessequal 1 5 1"
  have t: "typed ?f" by (rule demo_typed) (simp_all add: sized_def op_classes narrow_size_def emu_mask_def shl64_def)
  have s: "sint (sext 5 1) = 5" by code_simp
  have e: "\<not> lessequal_edge ?f 0" by (simp add: lessequal_edge_def demo_simps s [unfolded One_nat_def])
  show ?thesis using lessequal_sound [OF demo_binary_ok t demo_live _ e] by (simp add: demo_code lessequal_oplist_def)
qed

text \<open>After a rewrite that refines, the output still has the value the new operation computes.\<close>

lemma rw_value:
  assumes r: "rw p f g c D" and ref: "refines f g" and env: "env_ok f env" and l: "live f p" and c: "pure_op c" and out: "po_output (pop f p) = Some out"
    and ok: "graph_ok f"
  shows "env out = pval c (views D env) (vn_size (vn f out))"
proof -
  obtain e where e: "env_ok g e" "\<forall>v < num_varnodes f. e v = env v" using ref env by (auto simp: refines_def)
  have s: "sframe p f g" "po_code (pop g p) = c" using r by (simp_all add: rw_def)
  have p: "p < num_ops f" using l by (simp add: live_def)
  have o: "out < num_varnodes f" using op_range(2) [OF ok p out] .
  have fr: "eframe f env g e" using e by (simp add: eframe_def env_ok_def)
  have "op_ok e g p" using e(1) sframeD(13) [OF s(1) p] l by (simp add: env_ok_def)
  then show ?thesis using rw_views [OF r env fr] sframeD(5,8) [OF s(1)] p o out s(2) c e(2) by (auto simp: op_ok_def)
qed

lemma edge_values:
  "sint (sext 5 1) = 5" "sint (sext 0x7f 1) = 127" "sint (sext 0x80 1) = - 128" "(0x80 AND calc_mask 1 :: u64) = 0x80"
  "sign_extend_val 0x7f 1 8 = 0x7f" "sint (0x7f :: u64) = 127" "sint (0x80 :: u64) = 128"
  by code_simp+

lemma edge_compared:
  "pval IntSlessequal [(1, 5), (1, 0x7f)] 1 = 1" "pval IntSless [(1, 5), (1, 0x80 AND calc_mask 1)] 1 = 0"
  using edge_values(1-3) unfolding edge_values(4) by (simp_all add: pvals alu_def emu_mask_def shl64_def of_bool64_def)


subsection \<open>Properties of the driver\<close>

text \<open>
  (C1) The simplification pool ends on every well-formed, well-sized function, whatever the clock says: with fuel
  linear in the weight of the function it returns, without a panic, a function that is well formed, well sized and
  refines the one it was given.
\<close>

theorem pool_terminates:
  assumes "graph_ok (rs_data s)" and "typed (rs_data s)"
  shows "\<exists>k s'. pool_apply (17 * Suc (fd_weight (rs_data s))) clock modelled_rules tot s = Finished (k, s')
    \<and> graph_ok (rs_data s') \<and> typed (rs_data s') \<and> refines (rs_data s) (rs_data s')"
proof -
  have l: "length modelled_rules = 15" by (simp add: modelled_rules_def)
  obtain k s' where f: "pool_apply (17 * Suc (fd_weight (rs_data s))) clock modelled_rules tot s = Finished (k, s')"
    using oppool_ends.pool_ends [OF assms, of "17 * Suc (fd_weight (rs_data s))" clock tot] unfolding l by auto
  then have "refines (rs_data s) (rs_data s')"
    using oppool.pool_apply_sound [OF refines_refl [OF assms], of "17 * Suc (fd_weight (rs_data s))" clock tot] by simp
  then show ?thesis using f refinesD(1,2) by blast
qed

lemma demo_typed_add: "typed (demo_binary IntAdd 4 0 4)"
  by (rule demo_typed) (simp_all add: sized_def op_classes narrow_size_def emu_mask_def shl64_def)

theorem pool_terminates_witness:
  "\<exists>k s'. pool_apply 85 (\<lambda>_. False) modelled_rules 0 \<lparr>rs_data = demo_binary IntAdd 4 0 4, rs_timed_out = False, rs_reads = 0\<rparr> = Finished (k, s')
    \<and> refines (demo_binary IntAdd 4 0 4) (rs_data s')"
proof -
  have "fd_weight (demo_binary IntAdd 4 0 4) = 4" by (simp add: fd_weight_def op_weight_def op_base_def demo_simps)
  then show ?thesis
    using pool_terminates [of "\<lparr>rs_data = demo_binary IntAdd 4 0 4, rs_timed_out = False, rs_reads = 0\<rparr>" "\<lambda>_. False" 0] demo_binary_ok demo_typed_add
    by auto
qed

text \<open>
  (C7) When the pool returns before its deadline and its 32-bit counter cannot have wrapped, it has reached a
  fixpoint: no rule of the pool changes any operation that is not dead.
\<close>

theorem fixpoint_reached:
  assumes "pool_apply n clock modelled_rules tot s = Finished (k, s')" and "graph_ok (rs_data s)" and "typed (rs_data s)"
    and "\<not> rs_timed_out s'" and "n * num_ops (rs_data s') < 2 ^ 32" and "p < num_ops (rs_data s')" and "\<not> is_dead (pop (rs_data s') p)"
    and "r \<in> set modelled_rules" and "po_code (pop (rs_data s') p) \<in> set (ru_oplist r)"
  shows "ru_apply r p (rs_data s') = Some (0, rs_data s')"
  using oppool.pool_fixpoint [OF assms(1-7)] assms(8,9) by (simp add: quiet_def perop_def)

text \<open>A product of two and an input: no rule applies to it.\<close>

theorem fixpoint_reached_witness: "ru_apply \<lparr>ru_oplist = identity_el_oplist, ru_apply = rule_identity_el\<rparr> 0 (demo_binary IntMult 4 2 4) = Some (0, demo_binary IntMult 4 2 4)"
proof -
  define f where "f = demo_binary IntMult 4 2 4"
  let ?s = "\<lparr>rs_data = f, rs_timed_out = False, rs_reads = 0\<rparr>" and ?s' = "\<lparr>rs_data = f, rs_timed_out = False, rs_reads = 1\<rparr>"
  have t: "graph_ok f" "typed f" unfolding f_def
    by (rule demo_binary_ok, rule demo_typed) (simp_all add: sized_def op_classes narrow_size_def emu_mask_def shl64_def)
  have n: "num_ops f = 1" "\<not> is_dead (pop f 0)" "po_code (pop f 0) = IntMult" by (simp_all add: f_def demo_simps is_dead_def has_def)
  have po: "perop modelled_rules IntMult = [\<lparr>ru_oplist = term_order_oplist, ru_apply = rule_term_order\<rparr>, \<lparr>ru_oplist = identity_el_oplist, ru_apply = rule_identity_el\<rparr>]"
    by (simp add: perop_def modelled_rules_def oplists)
  have q: "rule_term_order 0 f = Some (0, f)" "rule_identity_el 0 f = Some (0, f)"
    by (simp_all add: f_def rule_term_order_def rule_identity_el_def demo_simps)
  have z: "add32 0 0 = 0" by (simp add: add32_def)
  have "process_op 4 modelled_rules 0 IntMult 0 0 f = Finished (0, f)"
    by (simp add: numeral_eq_Suc po q n z Let_def)
  then have "process_ops 4 modelled_rules (op_order f) 0 f = Finished (0, f)" using n by (simp add: op_order_def)
  then have a: "pool_apply 5 (\<lambda>_. False) modelled_rules 0 ?s = Finished (0, ?s')"
    by (simp add: numeral_eq_Suc past_deadline_def z)
  show ?thesis
    using fixpoint_reached [OF a, of 0 "\<lparr>ru_oplist = identity_el_oplist, ru_apply = rule_identity_el\<rparr>"] t n
    unfolding f_def [symmetric] by (simp add: modelled_rules_def identity_el_oplist_def)
qed


lemma modelled_action_sound:
  "action_sound (Action_Group True [Action_Start, Action_Pool modelled_rules, Once_Per_Func False (Action_Pool modelled_cleanup)])"
  using oppool.all cleanup.all by simp


text \<open>
  A once-per-function action that has run does nothing, and reports nothing, until it is reset; reset arms it
  again whatever it wraps.
\<close>

theorem once_per_func_once:
  assumes "run_action (Suc n) clock (Once_Per_Func ended b) s = Finished (k, a, s')"
  shows "run_action (Suc m) clock' a t = Finished (0, a, t) \<and> (\<exists>b'. reset_action a = Once_Per_Func False b')"
  using assms by (auto simp: bind_finished split: if_splits)

theorem once_per_func_once_witness:
  "run_action 1 (\<lambda>_. True) (Once_Per_Func True Action_Start) \<lparr>rs_data = demo_binary IntAdd 4 0 4, rs_timed_out = True, rs_reads = 3\<rparr>
     = Finished (0, Once_Per_Func True Action_Start, \<lparr>rs_data = demo_binary IntAdd 4 0 4, rs_timed_out = True, rs_reads = 3\<rparr>)"
proof -
  have "run_action (Suc 1) (\<lambda>_. False) (Once_Per_Func False Action_Start) \<lparr>rs_data = demo_binary IntAdd 4 0 4, rs_timed_out = False, rs_reads = 0\<rparr>
    = Finished (0, Once_Per_Func True Action_Start, \<lparr>rs_data = demo_binary IntAdd 4 0 4, rs_timed_out = False, rs_reads = 0\<rparr>)" by simp
  from once_per_func_once [OF this, of 0 "\<lambda>_. True" "\<lparr>rs_data = demo_binary IntAdd 4 0 4, rs_timed_out = True, rs_reads = 3\<rparr>"]
  show ?thesis by simp
qed

end
