(* ===== verification/Spec2Isabelle.thy ===== *)
theory Spec2Isabelle
  imports Address_Set Analysis_Manager Circle_Laws Circle_Pull Emu_Call Action_Laws
begin

text \<open>
  A verification library for mosura, a binary analysis and decompilation tool written in Rust.  All paths below
  are under \<^verbatim>\<open>src/crates/mosura-core/src/\<close>.

  \<^bold>\<open>The program.\<close>  A loader fills a program; the analysis manager runs analyzers over sets of addresses to a
  fixpoint; the SLEIGH engine turns machine code into p-code; the decompiler lifts a function's p-code into a
  data-flow graph (\<^verbatim>\<open>Funcdata\<close>), simplifies it with pools of rewrite rules under a driver of actions, builds SSA
  form, structures the blocks and prints C; an emulator executes p-code and is used to compare an original
  function with its recompiled candidate.  This library models the scheduling core, the address and range data
  types, the data-flow graph with a group of its rules and the driver that applies them, and the whole
  interpreter.

  \<^bold>\<open>Theories and sources.\<close>

  \<^item> \<open>Mosura_Prelude\<close>: integer types, checked and wrapping arithmetic, \<^verbatim>\<open>partition_point\<close>, fact collections, the
    locale \<open>key_order\<close> of sorted insertion.
  \<^item> \<open>Word_Mask\<close> (\<^verbatim>\<open>decompile/nzmask.rs\<close> and the helpers of \<^verbatim>\<open>decompile/circlerange.rs\<close>), \<open>Pcode_Op\<close>
    (\<^verbatim>\<open>decompile/opcode.rs\<close>), \<open>Pcode_Eval\<close> (\<^verbatim>\<open>sleigh/pcode.rs\<close> and the arithmetic of \<^verbatim>\<open>sleigh/emu.rs\<close>).
  \<^item> \<open>Address_Set\<close> (\<^verbatim>\<open>analysis/program/address_set.rs\<close>): canonical lists of inclusive ranges.  Locales
    \<open>addr_set_ops\<close> and \<open>addr_set_algebra\<close>, interpreted on the lists.  Every operation keeps the representation
    and computes the set operation of its name (C14, C26, C27).
  \<^item> \<open>Analysis_Manager\<close> (\<^verbatim>\<open>analysis/manager.rs\<close>, \<^verbatim>\<open>analyzer.rs\<close>, \<^verbatim>\<open>priority.rs\<close>): the queue, the accumulators,
    notification and the run loop; analyzers are a parameter.  Scheduling invariant, order, fixpoint and
    termination of the loop (C2, C6, C8, C16, C17).
  \<^item> \<open>Circle_Range\<close>, \<open>Circle_Algebra\<close>, \<open>Circle_Transfer\<close>, \<open>Circle_Laws\<close>, \<open>Circle_Pull\<close>
    (\<^verbatim>\<open>decompile/circlerange.rs\<close>): circular ranges with a stride.  Locale \<open>range_algebra\<close>, interpreted at every
    width.  Union, intersection, complement, and pull-back and translation against the interpreter's values
    (C9, C13, C22 to C25).
  \<^item> \<open>Fd_Space\<close> (\<^verbatim>\<open>decompile/space.rs\<close>): spaces, range lists, join records (C12, C20, C21).
  \<^item> \<open>Fd_Graph\<close>, \<open>Fd_Rewire\<close>, \<open>Fd_Destroy\<close>, \<open>Fd_Blocks\<close> (\<^verbatim>\<open>decompile/varnode.rs\<close>, \<^verbatim>\<open>op.rs\<close>, \<^verbatim>\<open>block.rs\<close>,
    \<^verbatim>\<open>fspec.rs\<close>, \<^verbatim>\<open>funcdata.rs\<close>): the arenas of varnodes, operations and blocks, and the operations that wire
    them.  The record \<open>funcdata\<close> keeps the fields these operations touch; \<open>graph_ok\<close> is the invariant (each read
    is listed once per input, each definition points back, flags agree with the wiring).  \<open>Fd_Steps\<close> is the
    function under construction as an inductive step relation: every reachable function is well formed (see C3),
    and replacing and destroying do what they say (C10, C11, C19).
  \<^item> \<open>Fd_Sem\<close>: the meaning of the graph.  An assignment of values to varnodes is allowed when each operation
    computes, by the interpreter's \<open>alu\<close>, the value of its output; \<open>refines\<close> says that allowed assignments
    extend; the \<open>rw_\<close> lemmas are a calculus of single edits.
  \<^item> \<open>Fd_Rules\<close>, \<open>Fd_Rules_Arith\<close>, \<open>Fd_Rules_Compare\<close> (\<^verbatim>\<open>decompile/rules.rs\<close>): eighteen rules, each the
    whole \<^verbatim>\<open>apply_op\<close>, with soundness (C4, C18) and the edge at which one of them is wrong (see C40).
  \<^item> \<open>Action_Pool\<close>, \<open>Action_Ends\<close>, \<open>Action_Laws\<close> (\<^verbatim>\<open>decompile/action.rs\<close>): pools, groups, once-per-function
    wrappers, deadlines.  Locale \<open>sound_rule\<close>, interpreted on seventeen rules; \<open>sound_pool\<close>, interpreted on the
    two pools; \<open>shrinking_pool\<close>, which extends it with a weight that every change lowers, interpreted on the main pool.
    The pool ends, reaches a fixpoint, and every action keeps the types (C1, C5, C7).
  \<^item> \<open>Emu_Machine\<close>, \<open>Emu_Step\<close>, \<open>Emu_Run\<close>, \<open>Emu_Order\<close>, \<open>Emu_Ends\<close>, \<open>Emu_Call\<close> (\<^verbatim>\<open>sleigh/emu.rs\<close>, and
    the linear sweep of \<^verbatim>\<open>sleigh/engine.rs\<close>), \<open>M68k_Rules\<close>, \<open>Emu_M68k\<close> (\<^verbatim>\<open>sleigh/emu_m68k.rs\<close>): the machine
    and its byte banks, one operation, one instruction, runs with stubs and contracts, the 68000's state
    modifier.  Locales \<open>register_file\<close>, \<open>machine_relation\<close>, \<open>loop_invariant\<close> and \<open>loop_variant\<close>,
    interpreted on the machine and on the two run loops.  Values and flags, faults and panics, order of the
    record, termination (C15, C28 to C39).

  \<^bold>\<open>Conventions.\<close>  Integers are kept at their width and wrap as in the release profile; an unchecked shift takes
  its count modulo the width.  Byte sizes and arena handles, which the code only creates itself, are naturals.
  A method that updates its receiver returns the updated value; a panic is \<open>None\<close> or \<open>Panicked\<close>.  The
  counters of the driver are 32 bits and wrap; a theorem that reads them says that they did not.

  \<^bold>\<open>Fuel.\<close>  Loops that need not end carry fuel.  The pool takes one unit per round, per operation and per rule
  tried; 17 times the weight of the function plus one is enough for its fifteen rules (see C1).
  \<open>op_destroy_recursive\<close> takes one round per input of the graph plus one (see C10).  The manager's loop ends within
  a potential of the program plus the length of the queue (see C2), where the hypothesis is that analyzers lower
  the potential when they notify.  The two emulator loops end with fuel for the step budget times passes over the image
  (C15, C31); with narrowed address lines there is no bound (see C33).

  \<^bold>\<open>Parameters.\<close>  The analyzers, the clock of the driver, the host's floating-point arithmetic and the constructor
  walk of the SLEIGH engine are arguments of the definitions that use them.

  \<^bold>\<open>Restrictions.\<close>  The meaning of the graph covers the integer and boolean operations on values of one to eight
  bytes that are well sized (\<open>typed\<close>): p-code's arity and size relations, booleans 0 or 1, shift
  counts below 64.  The interpreter cuts a count modulo 64 and p-code does not, so larger counts are left out of the meaning.
  \<open>modelled_rules\<close> is the part of the main pool of \<^verbatim>\<open>decompile/pipeline.rs\<close> that is modelled, in the order of
  the code, without the at-most rule (unsound at the ends of a width, C40).  The product by minus one belongs to
  the cleanup pool, as in the code: with the rule that introduces such products a pool would never end.  The
  distribution of a negation is defined in \<^verbatim>\<open>rules.rs\<close> and in no pool.

  \<^bold>\<open>Not modelled.\<close>  The SLEIGH constructor walk and the reader of compiled specifications (driven by binary
  tables that are not part of the sources); the loaders (file formats); the analyzers (heuristics over a whole program); the
  text rendering of p-code and of the graph; in \<^verbatim>\<open>funcdata.rs\<close> call specifications, jump tables, symbols and block
  splitting; the remaining rules, most of which need types, symbols, call specifications or consumed-bit masks
  the graph model leaves out; double-precision and division recovery; heritage, merging, structuring, C printing, which
  rest on those parts; recompilation (external compilers); the command line and the foreign-function bindings.
\<close>

end
